(* ===== verification/Prelude.thy ===== *)
theory Prelude
  imports Main "HOL-Library.Multiset" "HOL-Library.Word"
begin

text \<open>
  What every component of the development shares.

  \<^item> \<open>sort_by\<close>: Rust's stable \<open>slice::sort_by\<close> and the SQL \<open>ORDER BY\<close>, over the "not greater"
    reading of a comparator. A stable sort by a total preorder has one result, so the
    insertion sort below is that result and not only a sort. The locale \<open>preorder_by\<close>
    states what a comparator promises (totality and transitivity); every ordering the program
    sorts with is interpreted in it by its component.
  \<^item> lists: \<open>take\<close>, \<open>filter\<close> and index facts several components use.
\<close>

named_theorems model_defs "unfolding rules of the model's small definitions"
named_theorems label_simps "the textual labels of the enumerations"

section \<open>Stable sorting by a comparator\<close>

fun insert_by :: "('a \<Rightarrow> 'a \<Rightarrow> bool) \<Rightarrow> 'a \<Rightarrow> 'a list \<Rightarrow> 'a list" where
  "insert_by le x [] = [x]"
| "insert_by le x (y # ys) = (if le x y then x # y # ys else y # insert_by le x ys)"

fun sort_by :: "('a \<Rightarrow> 'a \<Rightarrow> bool) \<Rightarrow> 'a list \<Rightarrow> 'a list" where
  "sort_by le [] = []"
| "sort_by le (x # xs) = insert_by le x (sort_by le xs)"

lemma mset_insert_by [simp]: "mset (insert_by le x xs) = add_mset x (mset xs)"
  by (induction xs) auto

lemma mset_sort_by [simp]: "mset (sort_by le xs) = mset xs"
  by (induction xs) auto

lemma set_insert_by [simp]: "set (insert_by le x xs) = insert x (set xs)"
  by (metis mset_insert_by set_mset_add_mset_insert set_mset_mset)

lemma set_sort_by [simp]: "set (sort_by le xs) = set xs"
  by (metis mset_sort_by set_mset_mset)

lemma length_sort_by [simp]: "length (sort_by le xs) = length xs"
  by (metis mset_sort_by size_mset)

lemma distinct_sort_by [simp]: "distinct (sort_by le xs) = distinct xs"
  by (metis mset_sort_by mset_eq_imp_distinct_iff)

lemma sort_by_eq_Nil [simp]: "sort_by le xs = [] \<longleftrightarrow> xs = []"
  by (metis length_0_conv length_sort_by)

lemma map_insert_by_key:
  "map f (insert_by (\<lambda>a b. le (f a) (f b)) x xs) = insert_by le (f x) (map f xs)"
  by (induction xs) auto

lemma map_sort_by_key: "map f (sort_by (\<lambda>a b. le (f a) (f b)) xs) = sort_by le (map f xs)"
  by (induction xs) (auto simp: map_insert_by_key)

text \<open>Two comparators that agree on the elements sort alike.\<close>

lemma insert_by_cong:
  "\<forall>y\<in>set xs. le x y = le' x y \<Longrightarrow> insert_by le x xs = insert_by le' x xs"
  by (induction xs) auto

lemma sort_by_cong:
  "\<forall>x\<in>set xs. \<forall>y\<in>set xs. le x y = le' x y \<Longrightarrow> sort_by le xs = sort_by le' xs"
proof (induction xs)
  case (Cons x xs)
  then have "sort_by le xs = sort_by le' xs" by auto
  then show ?case using Cons.prems by (simp add: insert_by_cong)
qed simp

locale preorder_by =
  fixes le :: "'a \<Rightarrow> 'a \<Rightarrow> bool"
  assumes le_total: "le x y \<or> le y x"
    and le_trans: "le x y \<Longrightarrow> le y z \<Longrightarrow> le x z"
begin

lemma le_refl [simp]: "le x x"
  using le_total by blast

lemma sorted_insert_by: "sorted_wrt le xs \<Longrightarrow> sorted_wrt le (insert_by le x xs)"
proof (induction xs)
  case (Cons y ys)
  show ?case
  proof (cases "le x y")
    case True
    have "le x z" if "z \<in> set ys" for z
      using Cons.prems that le_trans [OF True] by simp
    with True Cons.prems show ?thesis by simp
  next
    case False
    then have "le y x" using le_total by blast
    with False Cons show ?thesis by auto
  qed
qed simp

lemma sorted_sort_by: "sorted_wrt le (sort_by le xs)"
  by (induction xs) (auto simp: sorted_insert_by)

lemma insert_by_head: "\<forall>y\<in>set xs. le x y \<Longrightarrow> insert_by le x xs = x # xs"
  by (cases xs) auto

lemma sort_by_sorted: "sorted_wrt le xs \<Longrightarrow> sort_by le xs = xs"
  by (induction xs) (auto simp: insert_by_head)

lemma sort_by_idem [simp]: "sort_by le (sort_by le xs) = sort_by le xs"
  by (simp add: sort_by_sorted sorted_sort_by)

text \<open>Stability: among elements that tie with a given one the input order is kept.\<close>

lemma insert_by_stable:
  "filter (\<lambda>z. le z v \<and> le v z) (insert_by le x xs)
    = (if le x v \<and> le v x then x # filter (\<lambda>z. le z v \<and> le v z) xs
       else filter (\<lambda>z. le z v \<and> le v z) xs)"
  if "sorted_wrt le xs"
  using that
proof (induction xs)
  case (Cons y ys)
  show ?case
  proof (cases "le x y")
    case False
    then have "le y x" using le_total by blast
    have "\<not> (le y v \<and> le v y) \<or> \<not> (le x v \<and> le v x)"
      using False le_trans by blast
    with False Cons show ?thesis by auto
  qed auto
qed auto

lemma sort_by_stable:
  "filter (\<lambda>z. le z v \<and> le v z) (sort_by le xs) = filter (\<lambda>z. le z v \<and> le v z) xs"
  by (induction xs) (auto simp: insert_by_stable sorted_sort_by)

lemma sort_by_Cons_least: "sort_by le xs = y # ys \<Longrightarrow> x \<in> set xs \<Longrightarrow> le y x"
proof -
  assume *: "sort_by le xs = y # ys" and x: "x \<in> set xs"
  have "sorted_wrt le (y # ys)" using sorted_sort_by [of xs] * by simp
  moreover have "x \<in> set (y # ys)" using x * by (metis set_sort_by)
  ultimately show "le y x" by auto
qed

text \<open>What a cut keeps rates no lower than what it drops.\<close>

lemma take_sort_by_le:
  "x \<in> set (take n (sort_by le xs)) \<Longrightarrow> y \<in> set (drop n (sort_by le xs)) \<Longrightarrow> le x y"
  using sorted_sort_by [of xs]
  by (metis append_take_drop_id sorted_wrt_append)

lemma insert_by_filter_in: "sorted_wrt le xs \<Longrightarrow> P x \<Longrightarrow> filter P (insert_by le x xs) = insert_by le x (filter P xs)"
proof (induction xs)
  case (Cons y ys)
  show ?case
  proof (cases "le x y")
    case True
    have "\<forall>z\<in>set (filter P (y # ys)). le x z" using True Cons.prems(1) le_trans by auto
    then have "insert_by le x (filter P (y # ys)) = x # filter P (y # ys)" by (rule insert_by_head)
    then show ?thesis using True Cons.prems(2) by simp
  next
    case False
    then show ?thesis using Cons by simp
  qed
qed simp

lemma insert_by_filter_out: "\<not> P x \<Longrightarrow> filter P (insert_by le x xs) = filter P xs"
  by (induction xs) auto

lemma sort_by_filter: "sort_by le (filter P xs) = filter P (sort_by le xs)"
  by (induction xs) (auto simp: insert_by_filter_in insert_by_filter_out sorted_sort_by)

lemma sorted_unique_on:
  "sorted_wrt le xs \<Longrightarrow> sorted_wrt le ys \<Longrightarrow> mset xs = mset ys \<Longrightarrow>
    (\<And>x y. x \<in> set xs \<Longrightarrow> y \<in> set xs \<Longrightarrow> le x y \<Longrightarrow> le y x \<Longrightarrow> x = y) \<Longrightarrow> xs = ys"
proof (induction xs arbitrary: ys)
  case (Cons x xs)
  then obtain y ys' where ys: "ys = y # ys'" by (cases ys) auto
  have y: "y \<in> set (x # xs)" and x: "x \<in> set (y # ys')"
    using Cons.prems(3) ys by (metis list.set_intros(1) mset_eq_setD)+
  have "le x y" using y Cons.prems(1) le_refl by auto
  moreover have "le y x" using x Cons.prems(2) ys le_refl by auto
  ultimately have "x = y" using Cons.prems(4) [of x y] y by simp
  moreover have "xs = ys'"
    by (rule Cons.IH) (use Cons.prems ys \<open>x = y\<close> in auto)
  ultimately show ?case using ys by simp
qed simp

lemma sort_by_perm_on:
  assumes "mset xs = mset ys" and "\<And>x y. x \<in> set xs \<Longrightarrow> y \<in> set xs \<Longrightarrow> le x y \<Longrightarrow> le y x \<Longrightarrow> x = y"
  shows "sort_by le xs = sort_by le ys"
  by (rule sorted_unique_on) (use assms in \<open>simp_all add: sorted_sort_by\<close>)

text \<open>Elements that sort no earlier than the last one kept cannot enter what is kept.\<close>

lemma take_sort_by_append:
  assumes k: "0 < k" "k \<le> length xs"
    and low: "\<And>y. y \<in> set ys \<Longrightarrow> le (sort_by le xs ! (k - 1)) y"
    and anti: "\<And>x y. x \<in> set xs \<union> set ys \<Longrightarrow> y \<in> set xs \<union> set ys \<Longrightarrow> le x y \<Longrightarrow> le y x \<Longrightarrow> x = y"
  shows "take k (sort_by le (xs @ ys)) = take k (sort_by le xs)"
proof -
  let ?s = "sort_by le xs"
  let ?t = "take k ?s @ sort_by le (drop k ?s @ ys)"
  have last: "le a (?s ! (k - 1))" if "a \<in> set (take k ?s)" for a
  proof -
    obtain i where i: "i < k" "i < length ?s" "a = ?s ! i" using \<open>a \<in> _\<close> by (auto simp: in_set_conv_nth)
    then show ?thesis
      using sorted_sort_by [of xs] k le_refl
      by (cases "i = k - 1") (auto simp: sorted_wrt_iff_nth_less)
  qed
  have "sorted_wrt le ?t"
  proof -
    have "sorted_wrt le (take k ?s)" using sorted_sort_by [of xs] by (rule sorted_wrt_take)
    moreover have "le a b" if "a \<in> set (take k ?s)" "b \<in> set (drop k ?s @ ys)" for a b
      using that last [OF that(1)] low take_sort_by_le [of a k xs b] le_trans by (auto simp: Un_iff)
    ultimately show ?thesis by (auto simp: sorted_wrt_append sorted_sort_by)
  qed
  moreover have "mset xs = mset (take k ?s) + mset (drop k ?s)"
    by (metis append_take_drop_id mset_append mset_sort_by)
  then have "mset (sort_by le (xs @ ys)) = mset ?t" by simp
  ultimately have "sort_by le (xs @ ys) = ?t"
    using anti by (intro sorted_unique_on) (auto simp: sorted_sort_by)
  then show ?thesis using k by simp
qed

text \<open>The head of a part is the head of the whole, where what the part lacks sorts after it.\<close>

lemma take_sort_by_part:
  assumes d: "distinct part" "distinct whole" and sub: "set part \<subseteq> set whole"
    and anti: "\<And>x y. x \<in> set whole \<Longrightarrow> y \<in> set whole \<Longrightarrow> le x y \<Longrightarrow> le y x \<Longrightarrow> x = y"
    and low: "\<And>a. a \<in> set whole - set part \<Longrightarrow> 0 < k \<and> k \<le> length part \<and> le (sort_by le part ! (k - 1)) a"
  shows "take k (sort_by le part) = take k (sort_by le whole)"
proof -
  let ?missing = "filter (\<lambda>a. a \<notin> set part) whole"
  have "set whole = set (part @ ?missing)" "distinct (part @ ?missing)" using sub d by auto
  then have p: "mset whole = mset (part @ ?missing)" using d(2) set_eq_iff_mset_eq_distinct by blast
  have eq: "sort_by le whole = sort_by le (part @ ?missing)" by (rule sort_by_perm_on [OF p anti])
  show ?thesis
  proof (cases "?missing = []")
    case False
    then obtain a where "a \<in> set whole - set part" by (auto simp: filter_empty_conv)
    then have k: "0 < k" "k \<le> length part" using low by blast+
    have "take k (sort_by le (part @ ?missing)) = take k (sort_by le part)"
      by (rule take_sort_by_append [OF k]) (use low anti sub in auto)
    then show ?thesis by (simp add: eq)
  qed (simp add: eq)
qed

end

text \<open>
  A comparator by one key and then by another (\<open>then_with\<close>), each a total preorder.
\<close>

definition lex_by :: "('a \<Rightarrow> 'a \<Rightarrow> bool) \<Rightarrow> ('a \<Rightarrow> 'a \<Rightarrow> bool) \<Rightarrow> 'a \<Rightarrow> 'a \<Rightarrow> bool" where
  "lex_by le1 le2 x y \<longleftrightarrow> le1 x y \<and> (le1 y x \<longrightarrow> le2 x y)"

definition asc_by :: "('a \<Rightarrow> 'k::linorder) \<Rightarrow> 'a \<Rightarrow> 'a \<Rightarrow> bool" where
  "asc_by f x y \<longleftrightarrow> f x \<le> f y"

definition desc_by :: "('a \<Rightarrow> 'k::linorder) \<Rightarrow> 'a \<Rightarrow> 'a \<Rightarrow> bool" where
  "desc_by f x y \<longleftrightarrow> f y \<le> f x"

lemma preorder_asc_by [intro]: "preorder_by (asc_by f)"
  by unfold_locales (auto simp: asc_by_def)

lemma preorder_desc_by [intro]: "preorder_by (desc_by f)"
  by unfold_locales (auto simp: desc_by_def)

lemma preorder_lex_by [intro]:
  assumes "preorder_by le1" and "preorder_by le2"
  shows "preorder_by (lex_by le1 le2)"
proof
  note total1 = preorder_by.le_total [OF assms(1)]
  note total2 = preorder_by.le_total [OF assms(2)]
  fix x y z
  show "lex_by le1 le2 x y \<or> lex_by le1 le2 y x"
    using total1 [of x y] total2 [of x y] by (auto simp: lex_by_def)
  assume xy: "lex_by le1 le2 x y" and yz: "lex_by le1 le2 y z"
  have "le1 x z"
    using xy yz preorder_by.le_trans [OF assms(1), of x y z] by (simp add: lex_by_def)
  moreover have "le2 x z" if zx: "le1 z x"
  proof -
    have "le1 y x" using yz zx preorder_by.le_trans [OF assms(1), of y z x] by (simp add: lex_by_def)
    moreover have "le1 z y" using xy zx preorder_by.le_trans [OF assms(1), of z x y] by (simp add: lex_by_def)
    ultimately show ?thesis
      using xy yz preorder_by.le_trans [OF assms(2), of x y z] by (simp add: lex_by_def)
  qed
  ultimately show "lex_by le1 le2 x z" by (simp add: lex_by_def)
qed

lemmas order_by_defs = lex_by_def asc_by_def desc_by_def

section \<open>Lists\<close>

lemma filter_False_iff: "filter P xs = [] \<longleftrightarrow> (\<forall>x\<in>set xs. \<not> P x)"
  by (simp add: filter_empty_conv)

lemma find_SomeD: "find P xs = Some x \<Longrightarrow> P x \<and> x \<in> set xs"
  by (metis find_Some_iff nth_mem)

lemma map_of_distinct_Some:
  "distinct (map fst xs) \<Longrightarrow> map_of xs k = Some v \<longleftrightarrow> (k, v) \<in> set xs"
  by (rule map_of_eq_Some_iff)

lemma set_take_in: "x \<in> set (take n xs) \<Longrightarrow> x \<in> set xs"
  by (rule in_set_takeD)

section \<open>Options\<close>

lemma option_ext: "(\<And>v. x = Some v \<longleftrightarrow> y = Some v) \<Longrightarrow> x = y"
  by (metis not_None_eq)

section \<open>Machine words\<close>

lemma unat_word_of_nat_id: "n < 2 ^ LENGTH('a) \<Longrightarrow> unat (word_of_nat n :: 'a::len word) = n"
  by (simp add: unat_of_nat)

end
