(* ===== verification/Core_Ids.thy ===== *)
theory Core_Ids
  imports Prelude
begin

text \<open>
  The typed identifiers of \<open>crates/core/src/id.rs\<close>. Each is a UUID, 128 bits, compared as
  its bytes in order, which is the comparison of the unsigned number they spell. The ids
  that order a result are types of their own with the order of the wrapped UUID.
\<close>

type_synonym uuid = "128 word"
type_synonym project_id = uuid
type_synonym job_id = uuid
type_synonym topic_state_id = uuid
type_synonym relationship_id = uuid
type_synonym version_id = uuid

datatype topic_id = TopicId (uuid_of: uuid)

instantiation topic_id :: linorder
begin

definition less_eq_topic_id :: "topic_id \<Rightarrow> topic_id \<Rightarrow> bool" where
  "less_eq_topic_id a b \<longleftrightarrow> uuid_of a \<le> uuid_of b"

definition less_topic_id :: "topic_id \<Rightarrow> topic_id \<Rightarrow> bool" where
  "less_topic_id a b \<longleftrightarrow> uuid_of a < uuid_of b"

instance
  by standard (auto simp: less_eq_topic_id_def less_topic_id_def topic_id.expand)

end

lemma topic_id_le [simp]: "TopicId a \<le> TopicId b \<longleftrightarrow> a \<le> b"
  by (simp add: less_eq_topic_id_def)

lemma topic_id_less [simp]: "TopicId a < TopicId b \<longleftrightarrow> a < b"
  by (simp add: less_topic_id_def)

end
