(* ===== verification/Core_Ledger.thy ===== *)
theory Core_Ledger
  imports Core_Ids
begin

text \<open>
  The ledger's truth intervals and enumerations (\<open>crates/core/src/ledger.rs\<close>). An instant is an integer number of microseconds, the grain
  PostgreSQL stores; only its order and additions are used.
\<close>

type_synonym instant = int

section \<open>Validity\<close>

record validity =
  valid_from :: "instant option"
  valid_to :: "instant option"

definition validity_new :: "instant option \<Rightarrow> instant option \<Rightarrow> validity" where
  "validity_new f t = \<lparr>valid_from = f, valid_to = t\<rparr>"

definition ALWAYS :: validity where
  "ALWAYS = \<lparr>valid_from = None, valid_to = None\<rparr>"

definition holds_at :: "validity \<Rightarrow> instant \<Rightarrow> bool" where
  "holds_at v at \<longleftrightarrow>
     (case valid_from v of None \<Rightarrow> True | Some f \<Rightarrow> f \<le> at) \<and>
     (case valid_to v of None \<Rightarrow> True | Some t \<Rightarrow> at < t)"

definition is_inverted :: "validity \<Rightarrow> bool" where
  "is_inverted v \<longleftrightarrow>
     (case (valid_from v, valid_to v) of (Some f, Some t) \<Rightarrow> t \<le> f | _ \<Rightarrow> False)"

lemma holds_at_new:
  "holds_at (validity_new f t) at \<longleftrightarrow> (\<forall>x. f = Some x \<longrightarrow> x \<le> at) \<and> (\<forall>y. t = Some y \<longrightarrow> at < y)"
  by (auto simp: holds_at_def validity_new_def split: option.splits)

definition splits_at :: "instant option \<Rightarrow> instant \<Rightarrow> instant option \<Rightarrow> bool" where
  "splits_at f m t \<longleftrightarrow> (case f of None \<Rightarrow> True | Some x \<Rightarrow> x \<le> m) \<and> (case t of None \<Rightarrow> True | Some y \<Rightarrow> m \<le> y)"

lemma not_inverted_holds: "\<not> is_inverted v \<Longrightarrow> \<exists>t. holds_at v t"
proof (cases "valid_from v")
  case None
  then show ?thesis
    by (cases "valid_to v") (auto simp: holds_at_def intro: exI [of _ "the (valid_to v) - 1"])
next
  case (Some f)
  moreover assume "\<not> is_inverted v"
  ultimately show ?thesis
    by (intro exI [of _ f]) (auto simp: holds_at_def is_inverted_def split: option.splits)
qed

lemma inverted_never: "is_inverted v \<Longrightarrow> \<not> holds_at v t"
  by (auto simp: holds_at_def is_inverted_def split: option.splits)

text \<open>
  Truth intervals are half open. Splitting an interval at an instant it may contain
  leaves two that together hold exactly where the whole did and never both at once; an
  interval can hold somewhere exactly when it is not stated backwards; and the open one
  holds always.
\<close>

theorem validity_half_open:
  assumes "splits_at f m t"
  shows "holds_at ALWAYS at \<and> (is_inverted v \<longleftrightarrow> (\<forall>x. \<not> holds_at v x)) \<and>
    \<not> (holds_at (validity_new f (Some m)) at \<and> holds_at (validity_new (Some m) t) at) \<and>
    (holds_at (validity_new f t) at
       \<longleftrightarrow> holds_at (validity_new f (Some m)) at \<or> holds_at (validity_new (Some m) t) at)"
proof (intro conjI)
  show "holds_at ALWAYS at" by (simp add: ALWAYS_def holds_at_def)
  show "is_inverted v \<longleftrightarrow> (\<forall>x. \<not> holds_at v x)"
    using not_inverted_holds inverted_never by blast
qed (use assms in \<open>auto simp: holds_at_new splits_at_def split: option.splits\<close>)

theorem validity_half_open_witness:
  "splits_at (Some 10) 15 (Some 20) \<and> \<not> holds_at (validity_new (Some 10) (Some 15)) 15
   \<and> holds_at (validity_new (Some 15) (Some 20)) 15"
proof -
  have s: "splits_at (Some 10) 15 (Some 20)" by (simp add: splits_at_def)
  show ?thesis using s validity_half_open [OF s, of 15 ALWAYS] by (auto simp: holds_at_new)
qed

section \<open>Where evidence came from and what the filter decided\<close>

datatype source_kind = Manual | SourceFile

datatype filter_decision = Promoted | Filtered

end
