(* ===== verification/Core_Graph.thy ===== *)
theory Core_Graph
  imports Core_Ledger
begin

text \<open>
  The typed vocabulary of the relationship graph (\<open>crates/core/src/graph.rs\<close>): edge kinds with
  their wire names and the derived order of their declaration, derivations, tombstone reasons,
  and the identity and version rows of an edge. A confidence is an argument type \<open>'f\<close> here: the
  components that compare confidences fix it to the model of \<open>f32\<close>.
\<close>

section \<open>Edge kinds\<close>

datatype edge_kind =
  Mentions | Supports | Contradicts | Supersedes | RelatedTo | PartOf | DerivedFrom | SameAs | DependsOn

definition edge_kinds :: "edge_kind list" where
  "edge_kinds = [Mentions, Supports, Contradicts, Supersedes, RelatedTo, PartOf, DerivedFrom, SameAs, DependsOn]"

fun edge_kind_as_str :: "edge_kind \<Rightarrow> string" where
  "edge_kind_as_str Mentions = ''mentions''"
| "edge_kind_as_str Supports = ''supports''"
| "edge_kind_as_str Contradicts = ''contradicts''"
| "edge_kind_as_str Supersedes = ''supersedes''"
| "edge_kind_as_str RelatedTo = ''related_to''"
| "edge_kind_as_str PartOf = ''part_of''"
| "edge_kind_as_str DerivedFrom = ''derived_from''"
| "edge_kind_as_str SameAs = ''same_as''"
| "edge_kind_as_str DependsOn = ''depends_on''"

definition edge_kind_parse :: "string \<Rightarrow> edge_kind option" where
  "edge_kind_parse name = find (\<lambda>kind. edge_kind_as_str kind = name) edge_kinds"

text \<open>The derived \<open>Ord\<close>: the order of declaration.\<close>

fun edge_kind_rank :: "edge_kind \<Rightarrow> nat" where
  "edge_kind_rank Mentions = 0"
| "edge_kind_rank Supports = 1"
| "edge_kind_rank Contradicts = 2"
| "edge_kind_rank Supersedes = 3"
| "edge_kind_rank RelatedTo = 4"
| "edge_kind_rank PartOf = 5"
| "edge_kind_rank DerivedFrom = 6"
| "edge_kind_rank SameAs = 7"
| "edge_kind_rank DependsOn = 8"

lemma edge_kind_rank_inj: "edge_kind_rank a = edge_kind_rank b \<Longrightarrow> a = b"
  by (cases a; cases b) simp_all

instantiation edge_kind :: linorder
begin

definition less_eq_edge_kind :: "edge_kind \<Rightarrow> edge_kind \<Rightarrow> bool" where
  "less_eq_edge_kind a b \<longleftrightarrow> edge_kind_rank a \<le> edge_kind_rank b"

definition less_edge_kind :: "edge_kind \<Rightarrow> edge_kind \<Rightarrow> bool" where
  "less_edge_kind a b \<longleftrightarrow> edge_kind_rank a < edge_kind_rank b"

instance
  by standard (auto simp: less_eq_edge_kind_def less_edge_kind_def intro: edge_kind_rank_inj)

end

section \<open>How an edge came to exist and why it stopped being believed\<close>

datatype derivation = Explicit | Deterministic | Model | Imported

datatype tombstone_reason = Closed | Superseded | Deleted

section \<open>Rows\<close>

record relationship =
  rel_id :: relationship_id
  rel_project :: project_id
  rel_from :: topic_id
  rel_to :: topic_id
  rel_kind :: edge_kind
  rel_created_at :: instant

record 'f relationship_version =
  rv_id :: version_id
  rv_relationship :: relationship_id
  rv_number :: nat
  rv_validity :: validity
  rv_created_at :: instant
  rv_invalidated_at :: "instant option"
  rv_supersedes :: "version_id option"
  rv_caused_by :: "topic_state_id option"
  rv_confidence :: 'f
  rv_derivation :: derivation
  rv_tombstone :: "tombstone_reason option"

definition is_live :: "('f, 'z) relationship_version_scheme \<Rightarrow> bool" where
  "is_live v \<longleftrightarrow> rv_invalidated_at v = None"

definition version_holds_at :: "('f, 'z) relationship_version_scheme \<Rightarrow> instant \<Rightarrow> bool" where
  "version_holds_at v at \<longleftrightarrow> holds_at (rv_validity v) at"

definition MAX_DEPTH :: nat where
  "MAX_DEPTH = 4"

lemma edge_kinds_complete: "kind \<in> set edge_kinds"
  by (cases kind) (simp_all add: edge_kinds_def)

text \<open>
  The wire name of an edge kind parses back to it, and a name parses to a kind only when
  it is exactly that kind's name, so no other spelling becomes a kind.
\<close>

theorem edge_kind_roundtrip: "edge_kind_parse name = Some kind \<longleftrightarrow> name = edge_kind_as_str kind"
proof
  assume "edge_kind_parse name = Some kind"
  then show "name = edge_kind_as_str kind" by (auto simp: edge_kind_parse_def dest: find_SomeD)
next
  assume "name = edge_kind_as_str kind"
  then show "edge_kind_parse name = Some kind"
    by (cases kind) (simp_all add: edge_kind_parse_def edge_kinds_def)
qed

end
