(* ===== verification/RText.thy ===== *)
theory RText
  imports Prelude
begin

text \<open>
  Rust strings, as the list of their Unicode scalar values. What the program asks of the
  standard library's Unicode tables: \<open>char::is_whitespace\<close> is the closed list of the
  \<open>White_Space\<close> property and is written out; case folding and \<open>is_alphanumeric\<close> are tables
  of the standard library and stay arguments of the definitions that use them.
\<close>

type_synonym uchar = nat
type_synonym ustr = "uchar list"

definition lit :: "string \<Rightarrow> ustr" where
  "lit s = map of_char s"

definition is_whitespace :: "uchar \<Rightarrow> bool" where
  "is_whitespace c \<longleftrightarrow>
     (9 \<le> c \<and> c \<le> 13) \<or> c = 32 \<or> c = 133 \<or> c = 160 \<or> c = 5760 \<or>
     (8192 \<le> c \<and> c \<le> 8202) \<or> c = 8232 \<or> c = 8233 \<or> c = 8239 \<or> c = 8287 \<or> c = 12288"

lemma is_whitespace_code [code]:
  "is_whitespace c = (let n = int c in
     (9 \<le> n \<and> n \<le> 13) \<or> n = 32 \<or> n = 133 \<or> n = 160 \<or> n = 5760 \<or>
     (8192 \<le> n \<and> n \<le> 8202) \<or> n = 8232 \<or> n = 8233 \<or> n = 8239 \<or> n = 8287 \<or> n = 12288)"
proof -
  have "int c = numeral k \<longleftrightarrow> c = numeral k" for k using of_nat_eq_iff [of c "numeral k"] by simp
  then show ?thesis by (simp add: is_whitespace_def Let_def)
qed

definition trim_start :: "ustr \<Rightarrow> ustr" where
  "trim_start s = dropWhile is_whitespace s"

definition trim_end :: "ustr \<Rightarrow> ustr" where
  "trim_end s = rev (dropWhile is_whitespace (rev s))"

definition trim_str :: "ustr \<Rightarrow> ustr" where
  "trim_str s = trim_end (trim_start s)"

text \<open>\<open>str::split_whitespace\<close>: the maximal runs of characters that are not whitespace.\<close>

function split_whitespace :: "ustr \<Rightarrow> ustr list" where
  "split_whitespace s =
     (let rest = dropWhile is_whitespace s
      in if rest = [] then []
         else takeWhile (\<lambda>c. \<not> is_whitespace c) rest
              # split_whitespace (dropWhile (\<lambda>c. \<not> is_whitespace c) rest))"
  by pat_completeness auto

lemma length_dropWhile_whitespace:
  assumes "dropWhile is_whitespace s \<noteq> []"
  shows "length (dropWhile (\<lambda>c. \<not> is_whitespace c) (dropWhile is_whitespace s)) < length s"
proof -
  obtain c cs where c: "dropWhile is_whitespace s = c # cs" using assms by (cases "dropWhile is_whitespace s") auto
  then have "\<not> is_whitespace c" by (metis dropWhile_eq_Cons_conv)
  then have "length (dropWhile (\<lambda>c. \<not> is_whitespace c) (c # cs)) \<le> length cs"
    by (simp add: length_dropWhile_le)
  also have "length cs < length s"
    using c length_dropWhile_le [of is_whitespace s] by simp
  finally show ?thesis by (simp add: c)
qed

termination split_whitespace
  by (relation "measure length") (auto simp: length_dropWhile_whitespace)

declare split_whitespace.simps [simp del]

text \<open>\<open>[_].join(sep)\<close>\<close>

fun join_str :: "ustr \<Rightarrow> ustr list \<Rightarrow> ustr" where
  "join_str sep [] = []"
| "join_str sep [w] = w"
| "join_str sep (w # ws) = w @ sep @ join_str sep ws"

definition is_word :: "ustr \<Rightarrow> bool" where
  "is_word w \<longleftrightarrow> w \<noteq> [] \<and> (\<forall>c\<in>set w. \<not> is_whitespace c)"

lemma split_whitespace_Nil [simp]: "split_whitespace [] = []"
  by (simp add: split_whitespace.simps)

lemma split_whitespace_words: "w \<in> set (split_whitespace s) \<Longrightarrow> is_word w"
proof (induction s rule: split_whitespace.induct)
  case (1 s)
  let ?rest = "dropWhile is_whitespace s"
  show ?case
  proof (cases "?rest = []")
    case False
    then obtain c cs where c: "?rest = c # cs" by (cases ?rest) auto
    then have nc: "\<not> is_whitespace c" by (metis dropWhile_eq_Cons_conv)
    have "w = takeWhile (\<lambda>c. \<not> is_whitespace c) ?rest \<or>
          w \<in> set (split_whitespace (dropWhile (\<lambda>c. \<not> is_whitespace c) ?rest))"
      using 1(2) False by (subst (asm) split_whitespace.simps) (simp add: Let_def del: dropWhile_eq_Nil_conv)
    then show ?thesis
    proof
      assume "w = takeWhile (\<lambda>c. \<not> is_whitespace c) ?rest"
      then show ?thesis using c nc by (auto simp: is_word_def dest: set_takeWhileD)
    next
      assume "w \<in> set (split_whitespace (dropWhile (\<lambda>c. \<not> is_whitespace c) ?rest))"
      with False 1(1) show ?thesis by blast
    qed
  qed (use 1(2) in \<open>simp add: split_whitespace.simps [of s]\<close>)
qed

lemma takeWhile_word: "is_word w \<Longrightarrow> takeWhile (\<lambda>c. \<not> is_whitespace c) (w @ ys)
    = w @ takeWhile (\<lambda>c. \<not> is_whitespace c) ys"
  by (simp add: is_word_def takeWhile_append2)

lemma dropWhile_word: "is_word w \<Longrightarrow> dropWhile (\<lambda>c. \<not> is_whitespace c) (w @ ys)
    = dropWhile (\<lambda>c. \<not> is_whitespace c) ys"
  by (simp add: is_word_def dropWhile_append2)

lemma word_not_skipped: "is_word w \<Longrightarrow> dropWhile is_whitespace (w @ ys) = w @ ys"
  by (cases w) (auto simp: is_word_def)

lemma split_whitespace_leading: "is_whitespace c \<Longrightarrow> split_whitespace (c # s) = split_whitespace s"
  by (simp add: split_whitespace.simps [of "c # s"] split_whitespace.simps [of s])

lemma split_whitespace_word:
  assumes "is_word w"
  shows "split_whitespace w = [w]"
proof -
  have 1: "dropWhile is_whitespace w = w" using word_not_skipped [OF assms, of "[]"] by simp
  have 2: "dropWhile (\<lambda>c. \<not> is_whitespace c) w = []" "takeWhile (\<lambda>c. \<not> is_whitespace c) w = w" "w \<noteq> []"
    using assms by (simp_all add: is_word_def takeWhile_eq_all_conv)
  show ?thesis by (subst split_whitespace.simps) (simp add: 1 2 Let_def del: dropWhile_eq_Nil_conv)
qed

lemma split_whitespace_word_sep:
  assumes "is_word w" and "is_whitespace c"
  shows "split_whitespace (w @ c # s) = w # split_whitespace s"
proof -
  have "split_whitespace (w @ c # s) = w # split_whitespace (c # s)"
    using assms word_not_skipped [of w "c # s"] takeWhile_word [of w "c # s"] dropWhile_word [of w "c # s"]
    by (simp add: split_whitespace.simps [of "w @ c # s"] is_word_def)
  then show ?thesis using assms by (simp add: split_whitespace_leading)
qed

lemma split_whitespace_join:
  "\<forall>w\<in>set ws. is_word w \<Longrightarrow> is_whitespace c \<Longrightarrow> split_whitespace (join_str [c] ws) = ws"
  by (induction "[c]" ws rule: join_str.induct)
    (auto simp: split_whitespace_word split_whitespace_word_sep)

lemma space_is_whitespace [simp]: "is_whitespace 32"
  by (simp add: is_whitespace_def)

lemma split_whitespace_eq_Nil: "split_whitespace s = [] \<longleftrightarrow> (\<forall>c\<in>set s. is_whitespace c)"
  by (simp add: split_whitespace.simps [of s] Let_def dropWhile_eq_Nil_conv)

lemma join_str_eq_Nil: "\<forall>w\<in>set ws. w \<noteq> [] \<Longrightarrow> join_str sep ws = [] \<longleftrightarrow> ws = []"
  by (induction sep ws rule: join_str.induct) auto

section \<open>Bytes and prefixes\<close>

text \<open>\<open>char::len_utf8\<close>, \<open>str::len\<close> and \<open>str::starts_with\<close>\<close>

definition char_len :: "uchar \<Rightarrow> nat" where
  "char_len c = (if c < 128 then 1 else if c < 2048 then 2 else if c < 65536 then 3 else 4)"

lemma char_len_code [code]:
  "char_len c = (let n = int c in if n < 128 then 1 else if n < 2048 then 2 else if n < 65536 then 3 else 4)"
  by (simp add: char_len_def Let_def)

definition byte_len :: "ustr \<Rightarrow> nat" where
  "byte_len s = sum_list (map char_len s)"

definition starts_with :: "ustr \<Rightarrow> ustr \<Rightarrow> bool" where
  "starts_with s prefix \<longleftrightarrow> take (length prefix) s = prefix"

text \<open>A string cut at a byte offset of its UTF-8: \<open>None\<close> where Rust panics, off a character's edge or past the end.\<close>

fun cut_at :: "nat \<Rightarrow> ustr \<Rightarrow> (ustr \<times> ustr) option" where
  "cut_at n [] = (if n = 0 then Some ([], []) else None)"
| "cut_at n (c # cs) =
     (if n = 0 then Some ([], c # cs)
      else if n < char_len c then None
      else map_option (\<lambda>(a, b). (c # a, b)) (cut_at (n - char_len c) cs))"

lemma cut_at_take: "cut_at (byte_len (take k s)) s = Some (take k s, drop k s)"
proof (induction s arbitrary: k)
  case (Cons c s)
  have "0 < char_len c" by (simp add: char_len_def)
  then show ?case using Cons by (cases k) (simp_all add: byte_len_def)
qed (simp add: byte_len_def)

lemma cut_at_all: "cut_at (byte_len s) s = Some (s, [])"
  using cut_at_take [of "length s" s] by simp

end
