(* ===== verification/Core_Filter.thy ===== *)
theory Core_Filter
  imports RText Core_Ledger
begin

text \<open>
  The deterministic sensory filter (\<open>crates/core/src/filter.rs\<close>): what content is promoted to
  the retrieval surface, and why the rest is not.
\<close>

datatype rejection = Empty | TooShort | Restatement

fun rejection_reason :: "rejection \<Rightarrow> string" where
  "rejection_reason Empty = ''content was empty''"
| "rejection_reason TooShort = ''content was too short to carry a durable claim''"
| "rejection_reason Restatement = ''content restates the topic's current state''"

record verdict =
  v_decision :: filter_decision
  v_rejection :: "rejection option"

definition promote :: verdict where
  "promote = \<lparr>v_decision = Promoted, v_rejection = None\<rparr>"

definition reject :: "rejection \<Rightarrow> verdict" where
  "reject r = \<lparr>v_decision = Filtered, v_rejection = Some r\<rparr>"

definition verdict_reason :: "verdict \<Rightarrow> string" where
  "verdict_reason v = (case v_rejection v of
     Some rejection \<Rightarrow> rejection_reason rejection
   | None \<Rightarrow> ''promoted to the retrieval surface'')"

definition is_promoted :: "verdict \<Rightarrow> bool" where
  "is_promoted v \<longleftrightarrow> v_decision v = Promoted"

record sensory_filter =
  min_chars :: nat

definition default_filter :: sensory_filter where
  "default_filter = \<lparr>min_chars = 8\<rparr>"

definition filter_new :: "nat \<Rightarrow> sensory_filter" where
  "filter_new n = \<lparr>min_chars = n\<rparr>"

definition normalize :: "ustr \<Rightarrow> ustr" where
  "normalize content = join_str [32] (split_whitespace content)"

definition judge :: "sensory_filter \<Rightarrow> ustr \<Rightarrow> ustr option \<Rightarrow> verdict" where
  "judge f content current =
     (let normalized = normalize content in
      if normalized = [] then reject Empty
      else if length normalized < min_chars f then reject TooShort
      else if map_option normalize current = Some normalized then reject Restatement
      else promote)"

lemma split_normalize: "split_whitespace (normalize s) = split_whitespace s"
  by (simp add: normalize_def split_whitespace_join split_whitespace_words)

lemma normalize_idem [simp]: "normalize (normalize s) = normalize s"
  by (simp add: normalize_def split_normalize [unfolded normalize_def])

lemma normalize_eq_Nil: "normalize s = [] \<longleftrightarrow> (\<forall>c\<in>set s. is_whitespace c)"
proof -
  have "\<forall>w\<in>set (split_whitespace s). w \<noteq> []"
    using split_whitespace_words by (auto simp: is_word_def)
  then show ?thesis by (simp add: normalize_def join_str_eq_Nil split_whitespace_eq_Nil)
qed

lemma normalize_eq_iff: "normalize a = normalize b \<longleftrightarrow> split_whitespace a = split_whitespace b"
  by (metis normalize_def split_normalize)

text \<open>
  The filter promotes exactly the content that has words, reaches the length bar and says
  other words than the topic says now; the rejection it records is the first rule that applies,
  and neither the decision nor the reason depends on how the content or the current state is
  laid out in whitespace.
\<close>

theorem judge_correct:
  "(is_promoted (judge f content current)
      \<longleftrightarrow> (\<exists>c\<in>set content. \<not> is_whitespace c) \<and> min_chars f \<le> length (normalize content) \<and>
        map_option split_whitespace current \<noteq> Some (split_whitespace content)) \<and>
   v_rejection (judge f content current)
      = (if split_whitespace content = [] then Some Empty
         else if length (normalize content) < min_chars f then Some TooShort
         else if map_option split_whitespace current = Some (split_whitespace content)
         then Some Restatement else None) \<and>
   judge f (normalize content) (map_option normalize current) = judge f content current"
proof -
  have empty: "normalize content = [] \<longleftrightarrow> split_whitespace content = []"
    by (simp add: normalize_eq_Nil split_whitespace_eq_Nil)
  have same: "map_option normalize current = Some (normalize content)
      \<longleftrightarrow> map_option split_whitespace current = Some (split_whitespace content)"
    by (cases current) (auto simp: normalize_eq_iff)
  have idem: "map_option (normalize \<circ> normalize) current = map_option normalize current"
    by (cases current) auto
  show ?thesis
    using idem
    by (auto simp: judge_def Let_def is_promoted_def promote_def reject_def same empty option.map_comp
        split_whitespace_eq_Nil normalize_eq_iff)
qed

end
