(* ===== verification/F32.thy ===== *)
theory F32
  imports Prelude "HOL-Library.Log_Nat"
begin

text \<open>
  \<open>f32\<close> as the rational numbers it holds. An operation is the exact one rounded to nearest, ties
  to even, at 24 significant bits with the exponent range's lower end at \<open>2\<^sup>-\<^sup>1\<^sup>4\<^sup>9\<close> (IEEE 754
  \<open>binary32\<close>, Rust's default rounding). The order on the values is the rationals' order.

  Not modelled: infinities, NaN and the sign of zero. Every number the modelled code computes
  with is a weight, a score, a confidence or a rank, built by products and quotients of numbers
  at most a few powers of two in size, so nothing it rounds reaches the upper end.
\<close>

section \<open>Rounding to an integer\<close>

definition round_even :: "rat \<Rightarrow> int" where
  "round_even x =
     (let f = \<lfloor>x\<rfloor>; d = x - of_int f
      in if d < 1/2 then f else if 1/2 < d then f + 1 else if even f then f else f + 1)"

lemma round_even_bounds: "\<lfloor>x\<rfloor> \<le> round_even x" "round_even x \<le> \<lfloor>x\<rfloor> + 1"
  by (auto simp: round_even_def Let_def)

lemma round_even_of_int [simp]: "round_even (of_int n) = n"
  by (simp add: round_even_def)

lemma round_even_mono: "x \<le> y \<Longrightarrow> round_even x \<le> round_even y"
proof -
  assume xy: "x \<le> y"
  then have f: "\<lfloor>x\<rfloor> \<le> \<lfloor>y\<rfloor>" by (rule floor_mono)
  show ?thesis
  proof (cases "\<lfloor>x\<rfloor> = \<lfloor>y\<rfloor>")
    case True
    then show ?thesis using xy by (auto simp: round_even_def Let_def)
  next
    case False
    then show ?thesis using f round_even_bounds [of x] round_even_bounds [of y] by linarith
  qed
qed

lemma round_even_le_of_int: "x \<le> of_int n \<Longrightarrow> round_even x \<le> n"
  using round_even_mono [of x "of_int n"] by simp

lemma of_int_le_round_even: "of_int n \<le> x \<Longrightarrow> n \<le> round_even x"
  using round_even_mono [of "of_int n" x] by simp

section \<open>The binary exponent of a positive number\<close>

definition pow2 :: "int \<Rightarrow> rat" where
  "pow2 e = (if 0 \<le> e then 2 ^ nat e else 1 / 2 ^ nat (- e))"

lemma pow2_powi: "pow2 e = 2 powi e"
proof (cases "0 \<le> e")
  case False
  then have "pow2 e = inverse (2 ^ nat (- e))" by (simp add: pow2_def inverse_eq_divide)
  also have "\<dots> = 2 powi e" using False by (simp only: power_int_def power_inverse if_False)
  finally show ?thesis .
qed (simp add: pow2_def power_int_def)

lemma pow2_pos [simp]: "0 < pow2 e"
  by (simp add: pow2_def)

lemma pow2_add: "pow2 (a + b) = pow2 a * pow2 b"
  by (simp add: pow2_powi power_int_add)

lemma pow2_mono: "a \<le> b \<Longrightarrow> pow2 a \<le> pow2 b"
  by (simp add: pow2_powi power_int_increasing)

lemma pow2_less_iff: "pow2 a < pow2 b \<longleftrightarrow> a < b"
proof
  assume "pow2 a < pow2 b"
  then show "a < b" using pow2_mono [of b a] by (meson leD leI)
qed (simp add: pow2_powi power_int_strict_increasing)

lemma pow2_multiple: "a \<le> b \<Longrightarrow> pow2 b = of_int (2 ^ nat (b - a)) * pow2 a"
proof -
  assume "a \<le> b"
  then have "pow2 b = pow2 (b - a) * pow2 a" by (simp flip: pow2_add)
  with \<open>a \<le> b\<close> show ?thesis by (simp add: pow2_def [of "b - a"])
qed

definition exponent :: "rat \<Rightarrow> int" where
  "exponent x =
     (let (a, b) = quotient_of x; d = bitlen a - bitlen b
      in if pow2 d \<le> x then d else d - 1)"

lemma exponent_bounds:
  assumes "0 < x"
  shows "pow2 (exponent x) \<le> x" "x < pow2 (exponent x + 1)"
proof -
  obtain a b where q: "quotient_of x = (a, b)" by (cases "quotient_of x")
  have b: "0 < b" and x: "x = of_int a / of_int b"
    using quotient_of_denom_pos [OF q] quotient_of_div [OF q] by auto
  have a: "0 < a" using assms b unfolding x by (simp add: zero_less_divide_iff)
  let ?d = "bitlen a - bitlen b"
  have p: "pow2 (bitlen c - 1) \<le> of_int c" "of_int c < pow2 (bitlen c)" if "0 < c" for c
  proof -
    have c: "0 < bitlen c" using that bitlen_nonneg [of c] bitlen_eq_zero_iff [of c] by linarith
    have "2 ^ nat (bitlen c - 1) \<le> c" "c < 2 ^ nat (bitlen c)" using bitlen_bounds [OF that] by auto
    then have "(of_int (2 ^ nat (bitlen c - 1)) :: rat) \<le> of_int c" "(of_int c :: rat) < of_int (2 ^ nat (bitlen c))"
      by (simp_all only: of_int_le_iff of_int_less_iff)
    then show "pow2 (bitlen c - 1) \<le> of_int c" "of_int c < pow2 (bitlen c)"
      using c by (simp_all add: pow2_def)
  qed
  have "of_int a / of_int b < pow2 (bitlen a) / pow2 (bitlen b - 1)"
    by (rule frac_less) (use p [OF a] p [OF b] a b in auto)
  also have "\<dots> = pow2 (?d + 1)"
    using pow2_add [of "?d + 1" "bitlen b - 1"] less_imp_neq [OF pow2_pos [of "bitlen b - 1"]] by (simp add: field_simps)
  finally have u: "x < pow2 (?d + 1)" unfolding x .
  have "pow2 (bitlen a - 1) / pow2 (bitlen b) \<le> of_int a / of_int b"
    by (rule frac_le) (use p [OF a] p [OF b] a b in auto)
  moreover have "pow2 (bitlen a - 1) / pow2 (bitlen b) = pow2 (?d - 1)"
    using pow2_add [of "?d - 1" "bitlen b"] less_imp_neq [OF pow2_pos [of "bitlen b"]] by (simp add: field_simps)
  ultimately have l: "pow2 (?d - 1) \<le> x" unfolding x by simp
  show "pow2 (exponent x) \<le> x" "x < pow2 (exponent x + 1)"
    using u l by (auto simp: exponent_def q Let_def)
qed

lemma exponent_unique: "pow2 e \<le> x \<Longrightarrow> x < pow2 (e + 1) \<Longrightarrow> exponent x = e"
proof -
  assume *: "pow2 e \<le> x" "x < pow2 (e + 1)"
  then have "0 < x" using pow2_pos less_le_trans by blast
  note b = exponent_bounds [OF this]
  have "e < exponent x + 1" "exponent x < e + 1"
    using * b by (auto simp flip: pow2_less_iff)
  then show ?thesis by linarith
qed

lemma exponent_mono: "0 < x \<Longrightarrow> x \<le> y \<Longrightarrow> exponent x \<le> exponent y"
proof -
  assume *: "0 < x" "x \<le> y"
  then have "pow2 (exponent x) < pow2 (exponent y + 1)"
    using exponent_bounds [of x] exponent_bounds [of y] by auto
  then show ?thesis by (simp add: pow2_less_iff)
qed

section \<open>Rounding to \<open>f32\<close>\<close>

definition grain :: "rat \<Rightarrow> int" where
  "grain x = max (exponent x - 23) (- 149)"

definition rnd_pos :: "rat \<Rightarrow> rat" where
  "rnd_pos x = (let q = pow2 (grain x) in of_int (round_even (x / q)) * q)"

definition rnd32 :: "rat \<Rightarrow> rat" where
  "rnd32 x = (if x = 0 then 0 else if 0 < x then rnd_pos x else - rnd_pos (- x))"

definition is_f32 :: "rat \<Rightarrow> bool" where
  "is_f32 x \<longleftrightarrow> rnd32 x = x"

lemma rnd_pos_le: "x \<le> of_int n * pow2 (grain x) \<Longrightarrow> rnd_pos x \<le> of_int n * pow2 (grain x)"
  unfolding rnd_pos_def Let_def
  by (intro mult_right_mono) (simp_all add: round_even_le_of_int pos_divide_le_eq less_imp_le)

lemma le_rnd_pos: "of_int n * pow2 (grain x) \<le> x \<Longrightarrow> of_int n * pow2 (grain x) \<le> rnd_pos x"
  unfolding rnd_pos_def Let_def
  by (intro mult_right_mono) (simp_all add: of_int_le_round_even pos_le_divide_eq less_imp_le)

lemma rnd_pos_multiple: "x = of_int n * pow2 (grain x) \<Longrightarrow> rnd_pos x = x"
  using rnd_pos_le [of x n] le_rnd_pos [of n x] by simp

lemma rnd_pos_nonneg: "0 < x \<Longrightarrow> 0 \<le> rnd_pos x"
  using le_rnd_pos [of 0 x] by simp

lemma rnd_pos_le_pow2: "grain x \<le> e \<Longrightarrow> x \<le> pow2 e \<Longrightarrow> rnd_pos x \<le> pow2 e"
  using rnd_pos_le [of x "2 ^ nat (e - grain x)"] pow2_multiple [of "grain x" e] by simp

lemma pow2_le_rnd_pos: "grain x \<le> e \<Longrightarrow> pow2 e \<le> x \<Longrightarrow> pow2 e \<le> rnd_pos x"
  using le_rnd_pos [of "2 ^ nat (e - grain x)" x] pow2_multiple [of "grain x" e] by simp

lemma rnd_pos_mono: "0 < x \<Longrightarrow> x \<le> y \<Longrightarrow> rnd_pos x \<le> rnd_pos y"
proof -
  assume x: "0 < x" and xy: "x \<le> y"
  have g: "grain x \<le> grain y" using exponent_mono [OF x xy] by (auto simp: grain_def)
  show ?thesis
  proof (cases "grain x = grain y")
    case True
    then show ?thesis using xy unfolding rnd_pos_def Let_def
      by (auto intro!: mult_right_mono round_even_mono divide_right_mono simp: less_imp_le)
  next
    case False
    then have gy: "grain y = exponent y - 23" and e: "exponent x < exponent y"
      using g exponent_mono [OF x xy] by (auto simp: grain_def)
    have "x \<le> pow2 (exponent y)"
      using exponent_bounds(2) [OF x] pow2_mono [of "exponent x + 1" "exponent y"] e by linarith
    then have "rnd_pos x \<le> pow2 (exponent y)"
      by (rule rnd_pos_le_pow2 [rotated]) (use g gy in linarith)
    also have "\<dots> \<le> rnd_pos y"
      using exponent_bounds(1) [of y] x xy gy by (intro pow2_le_rnd_pos) auto
    finally show ?thesis .
  qed
qed

lemma rnd32_mono: "x \<le> y \<Longrightarrow> rnd32 x \<le> rnd32 y"
proof -
  assume "x \<le> y"
  then consider "x = y" | "0 < x" | "x \<le> 0" "0 \<le> y" | "y < 0" by linarith
  then show ?thesis
  proof cases
    case 2
    then show ?thesis using \<open>x \<le> y\<close> by (simp add: rnd32_def rnd_pos_mono)
  next
    case 3
    then show ?thesis
      using rnd_pos_nonneg [of y] rnd_pos_nonneg [of "- x"] by (auto simp: rnd32_def)
  next
    case 4
    then show ?thesis using \<open>x \<le> y\<close> rnd_pos_mono [of "- y" "- x"] by (simp add: rnd32_def)
  qed simp
qed

lemma rnd32_zero [simp]: "rnd32 0 = 0"
  by (simp add: rnd32_def)

lemma rnd_pos_grid: "0 < x \<Longrightarrow> is_f32 (rnd_pos x)"
proof -
  assume x: "0 < x"
  let ?z = "rnd_pos x" and ?e = "exponent x"
  note b = exponent_bounds [OF x]
  obtain n where z: "?z = of_int n * pow2 (grain x)" unfolding rnd_pos_def Let_def by blast
  show ?thesis
  proof (cases "?z = 0")
    case False
    then have pos: "0 < ?z" using rnd_pos_nonneg [OF x] by simp
    have top: "?z \<le> pow2 (max (?e + 1) (- 149))"
      using b(2) pow2_mono [of "?e + 1" "max (?e + 1) (- 149)"]
      by (intro rnd_pos_le_pow2) (auto simp: grain_def)
    have "\<exists>m. ?z = of_int m * pow2 (grain ?z)"
    proof (cases "grain ?z \<le> grain x")
      case True
      then have "?z = of_int (n * 2 ^ nat (grain x - grain ?z)) * pow2 (grain ?z)"
        by (simp add: z [symmetric]) (subst z, subst pow2_multiple [OF True], simp)
      then show ?thesis by blast
    next
      case False
      then have ez: "grain ?z = exponent ?z - 23" and ee: "grain x < exponent ?z - 23" by (auto simp: grain_def)
      then have "?e < exponent ?z" by (auto simp: grain_def)
      then have "pow2 (max (?e + 1) (- 149)) \<le> pow2 (exponent ?z)"
        using ee by (intro pow2_mono) (auto simp: grain_def)
      then have "?z = pow2 (exponent ?z)" using top exponent_bounds(1) [OF pos] by linarith
      then have "?z = of_int (2 ^ nat (exponent ?z - grain ?z)) * pow2 (grain ?z)"
        using pow2_multiple [of "grain ?z" "exponent ?z"] ez by simp
      then show ?thesis by blast
    qed
    then have "rnd_pos ?z = ?z" using rnd_pos_multiple by blast
    then show ?thesis using pos by (simp add: is_f32_def rnd32_def)
  qed (simp add: is_f32_def)
qed

lemma rnd32_neg: "rnd32 (- x) = - rnd32 x"
  by (auto simp: rnd32_def)

lemma rnd32_is_f32 [simp]: "is_f32 (rnd32 x)"
proof (cases "0 \<le> x")
  case True
  then have "rnd32 x = (if x = 0 then 0 else rnd_pos x)" by (simp add: rnd32_def)
  then show ?thesis using rnd_pos_grid [of x] True by (cases "x = 0") (simp_all add: is_f32_def [of 0])
next
  case False
  then have "rnd32 x = - rnd_pos (- x)" "is_f32 (rnd_pos (- x))"
    using rnd_pos_grid by (auto simp: rnd32_def)
  then show ?thesis by (simp add: is_f32_def rnd32_neg)
qed

lemma rnd32_idem [simp]: "rnd32 (rnd32 x) = rnd32 x"
  using rnd32_is_f32 by (simp add: is_f32_def)

lemma is_f32_id: "is_f32 x \<Longrightarrow> rnd32 x = x"
  by (simp add: is_f32_def)

lemma rnd32_le: "is_f32 y \<Longrightarrow> x \<le> y \<Longrightarrow> rnd32 x \<le> y"
  using rnd32_mono [of x y] by (simp add: is_f32_def)

lemma le_rnd32: "is_f32 y \<Longrightarrow> y \<le> x \<Longrightarrow> y \<le> rnd32 x"
  using rnd32_mono [of y x] by (simp add: is_f32_def)

lemma f32_pow2: "- 149 \<le> e \<Longrightarrow> is_f32 (pow2 e)"
proof -
  assume e: "- 149 \<le> e"
  have "exponent (pow2 e) = e" by (rule exponent_unique) (simp_all add: pow2_less_iff)
  then have "grain (pow2 e) \<le> e" using e by (auto simp: grain_def)
  then have "rnd_pos (pow2 e) = pow2 e"
    using rnd_pos_multiple [OF pow2_multiple] by simp
  then show ?thesis by (simp add: is_f32_def rnd32_def)
qed

lemma f32_zero [simp]: "is_f32 0" and f32_one [simp]: "is_f32 1"
  using f32_pow2 [of 0] by (simp_all add: is_f32_def pow2_def)

section \<open>The next value down\<close>

definition next_down32 :: "rat \<Rightarrow> rat" where
  "next_down32 x =
     (if x = 0 then - pow2 (- 149)
      else if 0 < x then
        x - pow2 (if x = pow2 (exponent x) then max (exponent x - 24) (- 149) else grain x)
      else x - pow2 (grain (- x)))"

lemma f32_multiple:
  assumes "is_f32 x" "0 < x"
  shows "\<exists>n. x = of_int n * pow2 (grain x)"
  using assms by (auto simp: is_f32_def rnd32_def rnd_pos_def Let_def) (metis)

lemma multiple_gap:
  assumes "x = of_int n * pow2 g" "y = of_int m * pow2 g" "y < x"
  shows "y \<le> x - pow2 g"
proof -
  have "(of_int m :: rat) < of_int n" using assms pow2_pos [of g] by (metis mult_less_cancel_right_pos)
  then have "m < n" by simp
  then have "(of_int m + 1 :: rat) \<le> of_int n" by linarith
  then have "(of_int m + 1) * pow2 g \<le> of_int n * pow2 g" by (intro mult_right_mono) (simp_all add: less_imp_le)
  then show ?thesis using assms by (simp add: algebra_simps)
qed

lemma f32_ge_grain:
  assumes "is_f32 y" "0 < y"
  shows "pow2 (grain y) \<le> y"
proof -
  obtain m where m: "y = of_int m * pow2 (grain y)" using f32_multiple [OF assms] by blast
  have "0 < y / pow2 (grain y)" using assms(2) by simp
  also have "y / pow2 (grain y) = of_int m" using m pow2_pos [of "grain y"] by (metis nonzero_eq_divide_eq less_irrefl)
  finally have "1 * pow2 (grain y) \<le> of_int m * pow2 (grain y)" by (intro mult_right_mono) (simp_all add: less_imp_le)
  then show ?thesis using m by simp
qed

lemma f32_exponent_ge: "is_f32 y \<Longrightarrow> 0 < y \<Longrightarrow> - 149 \<le> exponent y"
proof -
  assume y: "is_f32 y" "0 < y"
  have "pow2 (- 149) \<le> pow2 (grain y)" by (rule pow2_mono) (simp add: grain_def)
  also have "\<dots> < pow2 (exponent y + 1)" using f32_ge_grain [OF y] exponent_bounds(2) [OF y(2)] by linarith
  finally show ?thesis by (simp add: pow2_less_iff)
qed

lemma below_pow2:
  assumes y: "is_f32 y" "0 < y" and l: "y < pow2 e" and g: "g = max (e - 24) (- 149)"
  shows "y \<le> pow2 e - pow2 g"
proof (cases "exponent y = e - 1")
  case True
  then have gy: "grain y = g" using g by (simp add: grain_def)
  obtain m where m: "y = of_int m * pow2 (grain y)" using f32_multiple [OF y] by blast
  have "g \<le> e" using g f32_exponent_ge [OF y] True by auto
  from multiple_gap [OF pow2_multiple [OF this] m [unfolded gy] l] show ?thesis .
next
  case False
  have "pow2 (exponent y) < pow2 e" using exponent_bounds(1) [OF y(2)] l by linarith
  then have ey: "exponent y + 1 \<le> e - 1" using False by (simp add: pow2_less_iff)
  then have "y < pow2 (e - 1)"
    using exponent_bounds(2) [OF y(2)] pow2_mono [of "exponent y + 1" "e - 1"] by linarith
  moreover have "pow2 e = pow2 (e - 1) + pow2 (e - 1)" using pow2_add [of "e - 1" 1] by (simp add: pow2_def [of 1])
  moreover have "pow2 g \<le> pow2 (e - 1)" using g f32_exponent_ge [OF y] ey by (intro pow2_mono) auto
  ultimately show ?thesis by linarith
qed

lemma le_next_down32:
  assumes x: "is_f32 x" "0 < x" and y: "is_f32 y" and l: "y < x"
  shows "y \<le> next_down32 x"
proof -
  let ?e = "exponent x"
  have e: "- 149 \<le> ?e" by (rule f32_exponent_ge [OF x])
  show ?thesis
  proof (cases "x = pow2 ?e")
    case True
    then have n: "next_down32 x = pow2 ?e - pow2 (max (?e - 24) (- 149))" using x(2) by (simp add: next_down32_def)
    show ?thesis
    proof (cases "0 < y")
      case pos: True
      show ?thesis unfolding n using below_pow2 [OF y pos, of ?e] True l by simp
    next
      case False
      have "pow2 (max (?e - 24) (- 149)) \<le> pow2 ?e" by (rule pow2_mono) (use e in auto)
      then show ?thesis unfolding n using False by linarith
    qed
  next
    case False
    then have n: "next_down32 x = x - pow2 (grain x)" using x(2) by (simp add: next_down32_def)
    obtain k where k: "x = of_int k * pow2 (grain x)" using f32_multiple [OF x] by blast
    consider "y \<le> 0" | "0 < y" "exponent y = ?e" | "0 < y" "exponent y < ?e"
      using exponent_mono [of y x] l by force
    then show ?thesis
    proof cases
      case 1
      then show ?thesis unfolding n using f32_ge_grain [OF x] by linarith
    next
      case 2
      then have "grain y = grain x" by (simp add: grain_def)
      then obtain m where "y = of_int m * pow2 (grain x)" using f32_multiple [OF y 2(1)] by metis
      from multiple_gap [OF k this l] show ?thesis unfolding n .
    next
      case 3
      have "y < pow2 ?e"
        using exponent_bounds(2) [OF 3(1)] pow2_mono [of "exponent y + 1" ?e] 3(2) by linarith
      moreover have "pow2 ?e < x" using exponent_bounds(1) [OF x(2)] False by simp
      moreover have "grain x \<le> ?e" using e by (simp add: grain_def)
      ultimately show ?thesis unfolding n using multiple_gap [OF k pow2_multiple] by fastforce
    qed
  qed
qed

lemma f32_of_multiple:
  assumes x: "x = of_int n * pow2 g" "0 \<le> x" and g: "- 149 \<le> g" and b: "x < pow2 (g + 24)"
  shows "is_f32 x"
proof (cases "x = 0")
  case False
  then have pos: "0 < x" using x(2) by simp
  have "pow2 (exponent x) < pow2 (g + 24)" using exponent_bounds(1) [OF pos] b by linarith
  then have "grain x \<le> g" using g by (auto simp: grain_def pow2_less_iff)
  from pow2_multiple [OF this] have "x = of_int (n * 2 ^ nat (g - grain x)) * pow2 (grain x)" using x(1) by simp
  from rnd_pos_multiple [OF this] show ?thesis using pos by (simp add: is_f32_def rnd32_def)
qed simp

lemma next_down32_f32:
  assumes x: "is_f32 x" "0 < x"
  shows "is_f32 (next_down32 x)"
proof -
  let ?e = "exponent x"
  have e: "- 149 \<le> ?e" by (rule f32_exponent_ge [OF x])
  show ?thesis
  proof (cases "x = pow2 ?e")
    case True
    define g where "g = max (?e - 24) (- 149)"
    have n: "next_down32 x = pow2 ?e - pow2 g" using True x(2) by (simp add: next_down32_def g_def)
    have ge: "g \<le> ?e" "?e \<le> g + 24" "- 149 \<le> g" using e by (auto simp: g_def)
    have m: "pow2 ?e - pow2 g = of_int (2 ^ nat (?e - g) - 1) * pow2 g"
      using pow2_multiple [OF ge(1)] by (simp add: algebra_simps)
    have "pow2 ?e \<le> pow2 (g + 24)" by (rule pow2_mono [OF ge(2)])
    then have "pow2 ?e - pow2 g < pow2 (g + 24)" using pow2_pos [of g] by linarith
    then show ?thesis unfolding n using pow2_mono [OF ge(1)] by (intro f32_of_multiple [OF m _ ge(3)]) simp_all
  next
    case False
    then have n: "next_down32 x = x - pow2 (grain x)" using x(2) by (simp add: next_down32_def)
    obtain k where k: "x = of_int k * pow2 (grain x)" using f32_multiple [OF x] by blast
    have m: "x - pow2 (grain x) = of_int (k - 1) * pow2 (grain x)" using k by (simp add: algebra_simps)
    have "pow2 (?e + 1) \<le> pow2 (grain x + 24)" by (rule pow2_mono) (simp add: grain_def)
    then have "x - pow2 (grain x) < pow2 (grain x + 24)"
      using exponent_bounds(2) [OF x(2)] pow2_pos [of "grain x"] by linarith
    then show ?thesis unfolding n using f32_ge_grain [OF x]
      by (intro f32_of_multiple [OF m]) (simp_all add: grain_def)
  qed
qed

section \<open>The operations\<close>

definition fadd :: "rat \<Rightarrow> rat \<Rightarrow> rat" where "fadd a b = rnd32 (a + b)"
definition fsub :: "rat \<Rightarrow> rat \<Rightarrow> rat" where "fsub a b = rnd32 (a - b)"
definition fmul :: "rat \<Rightarrow> rat \<Rightarrow> rat" where "fmul a b = rnd32 (a * b)"
definition fdiv :: "rat \<Rightarrow> rat \<Rightarrow> rat" where "fdiv a b = rnd32 (a / b)"

definition EPSILON32 :: rat where "EPSILON32 = 1 / 2 ^ 23"
definition MAX32 :: rat where "MAX32 = (2 ^ 24 - 1) * 2 ^ 104"

definition f32_clamp :: "rat \<Rightarrow> rat \<Rightarrow> rat \<Rightarrow> rat" where
  "f32_clamp x low high = (if x < low then low else if high < x then high else x)"

lemmas f32_ops = fadd_def fsub_def fmul_def fdiv_def

lemma f32_ops_f32 [simp]: "is_f32 (fadd a b)" "is_f32 (fsub a b)" "is_f32 (fmul a b)" "is_f32 (fdiv a b)"
  by (simp_all add: f32_ops)

lemma fadd_mono: "a \<le> a' \<Longrightarrow> b \<le> b' \<Longrightarrow> fadd a b \<le> fadd a' b'"
  by (simp add: fadd_def rnd32_mono)

lemma fmul_mono: "0 \<le> a \<Longrightarrow> a \<le> a' \<Longrightarrow> 0 \<le> b \<Longrightarrow> b \<le> b' \<Longrightarrow> fmul a b \<le> fmul a' b'"
  unfolding fmul_def by (intro rnd32_mono mult_mono) auto

lemma fdiv_mono: "a \<le> a' \<Longrightarrow> 0 < b \<Longrightarrow> fdiv a b \<le> fdiv a' b"
  unfolding fdiv_def by (intro rnd32_mono divide_right_mono) auto

lemma fsub_nonneg: "b \<le> a \<Longrightarrow> 0 \<le> fsub a b"
  unfolding fsub_def by (rule le_rnd32) auto

lemma fmul_nonneg: "0 \<le> a \<Longrightarrow> 0 \<le> b \<Longrightarrow> 0 \<le> fmul a b"
  unfolding fmul_def by (rule le_rnd32) auto

lemma fmul_le_left: "is_f32 a \<Longrightarrow> 0 \<le> a \<Longrightarrow> b \<le> 1 \<Longrightarrow> fmul a b \<le> a"
  unfolding fmul_def by (rule rnd32_le) (auto intro: mult_left_le)

lemma fadd_zero [simp]: "is_f32 a \<Longrightarrow> fadd 0 a = a"
  by (simp add: fadd_def is_f32_def)

section \<open>Rounding error\<close>

lemma round_even_error: "\<bar>of_int (round_even x) - x\<bar> \<le> 1 / 2"
proof -
  have "of_int \<lfloor>x\<rfloor> \<le> x" "x < of_int \<lfloor>x\<rfloor> + 1" by linarith+
  then show ?thesis unfolding round_even_def Let_def by (auto simp: abs_le_iff)
qed

lemma rnd_pos_error: "\<bar>rnd_pos x - x\<bar> \<le> pow2 (grain x - 1)"
proof -
  let ?q = "pow2 (grain x)"
  have "rnd_pos x - x = (of_int (round_even (x / ?q)) - x / ?q) * ?q"
    using less_imp_neq [OF pow2_pos [of "grain x"]] by (simp add: rnd_pos_def Let_def left_diff_distrib)
  then have "\<bar>rnd_pos x - x\<bar> = \<bar>of_int (round_even (x / ?q)) - x / ?q\<bar> * ?q"
    using pow2_pos [of "grain x"] by (simp add: abs_mult less_imp_le)
  also have "\<dots> \<le> 1 / 2 * ?q" by (intro mult_right_mono round_even_error) (simp add: less_imp_le)
  also have "\<dots> = pow2 (grain x - 1)" using pow2_add [of "grain x" "- 1"] by (simp add: pow2_def [of "- 1"])
  finally show ?thesis .
qed

lemma rnd32_error_unit:
  assumes "0 < x" "x < 1"
  shows "\<bar>rnd32 x - x\<bar> \<le> 1 / 2 ^ 25"
proof -
  have "pow2 (exponent x) < pow2 0" using exponent_bounds(1) [OF assms(1)] assms(2) by (simp add: pow2_def [of 0])
  then have "grain x - 1 \<le> - 25" by (auto simp: grain_def pow2_less_iff)
  then have "pow2 (grain x - 1) \<le> pow2 (- 25)" by (rule pow2_mono)
  then show ?thesis using rnd_pos_error [of x] assms(1) by (simp add: rnd32_def pow2_def [of "- 25"])
qed

text \<open>A value of the unit interval and the rounded rest of it add up to one exactly.\<close>

lemma fadd_rest:
  assumes "is_f32 x" "0 \<le> x" "x \<le> 1"
  shows "fadd x (fsub 1 x) = 1"
proof (cases "x = 0 \<or> x = 1")
  case True
  then show ?thesis using assms(1) by (auto simp: fadd_def fsub_def is_f32_id)
next
  case False
  then have "\<bar>fsub 1 x - (1 - x)\<bar> \<le> 1 / 2 ^ 25" using assms rnd32_error_unit [of "1 - x"] by (simp add: fsub_def)
  then have b: "1 - 1 / 2 ^ 25 \<le> x + fsub 1 x" "x + fsub 1 x \<le> 1 + 1 / 2 ^ 25" unfolding abs_le_iff by linarith+
  have "rnd32 (1 - 1 / 2 ^ 25) = 1" "rnd32 (1 + 1 / 2 ^ 25) = 1" by code_simp+
  then show ?thesis using rnd32_mono [OF b(1)] rnd32_mono [OF b(2)] by (simp add: fadd_def)
qed

end
