(* ===== verification/Store_Edges.thy ===== *)
theory Store_Edges
  imports Core_Graph F32
begin

text \<open>
  The edge ledger (\<open>crates/store/src/graph.rs\<close>, tables \<open>relationships\<close> and
  \<open>relationship_versions\<close> of the migrations V2, V3 and V13).

  The database is a record of the two tables and of the topics that exist; a statement is a
  function of it and a statement PostgreSQL refuses is \<open>None\<close>, which aborts its transaction. The
  ids a call mints are functions of the index of the edge they are minted for, the clock is an
  argument. A confidence is an \<open>f32\<close>, by its value. Identity locks order concurrent writers;
  the model runs transactions one after another, except that \<open>assert_edges\<close> reads an earlier
  snapshot first, as the code does outside its transaction.
\<close>

record edge_row = "rat relationship_version" +
  er_project :: project_id
  er_from :: topic_id
  er_to :: topic_id
  er_kind :: edge_kind

type_synonym edge_version = "rat relationship_version"

record graph_db =
  g_topics :: "topic_id list"
  relationships :: "relationship list"
  versions :: "edge_row list"

type_synonym edge_key = "topic_id \<times> topic_id \<times> edge_kind"

section \<open>Claims\<close>

record edge_claim =
  ec_kind :: edge_kind
  ec_derivation :: derivation
  ec_confidence :: rat
  ec_validity :: validity
  ec_caused_by :: "topic_state_id option"

definition explicit_claim :: "edge_kind \<Rightarrow> edge_claim" where
  "explicit_claim kind = \<lparr>ec_kind = kind, ec_derivation = Explicit, ec_confidence = 1,
     ec_validity = ALWAYS, ec_caused_by = None\<rparr>"

definition derived_claim :: "edge_kind \<Rightarrow> topic_state_id \<Rightarrow> rat \<Rightarrow> edge_claim" where
  "derived_claim kind caused_by confidence = \<lparr>ec_kind = kind, ec_derivation = Deterministic,
     ec_confidence = confidence, ec_validity = ALWAYS, ec_caused_by = Some caused_by\<rparr>"

definition claim_matches :: "edge_claim \<Rightarrow> (rat, 'z) relationship_version_scheme \<Rightarrow> bool" where
  "claim_matches claim v \<longleftrightarrow>
     rv_derivation v = ec_derivation claim \<and> rv_confidence v = ec_confidence claim \<and>
     rv_validity v = ec_validity claim"

datatype assertion = Unchanged edge_version | Appended edge_version

fun assertion_version :: "assertion \<Rightarrow> edge_version" where
  "assertion_version (Unchanged v) = v"
| "assertion_version (Appended v) = v"

fun is_new :: "assertion \<Rightarrow> bool" where
  "is_new (Unchanged v) \<longleftrightarrow> False"
| "is_new (Appended v) \<longleftrightarrow> True"

type_synonym asserting = "topic_id \<times> topic_id \<times> edge_claim"

fun key_of :: "asserting \<Rightarrow> edge_key" where
  "key_of (f, t, claim) = (f, t, ec_kind claim)"

fun claim_of :: "asserting \<Rightarrow> edge_claim" where
  "claim_of (f, t, claim) = claim"

section \<open>Reading\<close>

definition rel_key :: "relationship \<Rightarrow> edge_key" where
  "rel_key r = (rel_from r, rel_to r, rel_kind r)"

definition er_key :: "edge_row \<Rightarrow> edge_key" where
  "er_key v = (er_from v, er_to v, er_kind v)"

definition row_to_version :: "edge_row \<Rightarrow> edge_version" where
  "row_to_version v = relationship_version.truncate v"

definition find_relationship :: "graph_db \<Rightarrow> project_id \<Rightarrow> edge_key \<Rightarrow> relationship option" where
  "find_relationship db project key =
     find (\<lambda>r. rel_project r = project \<and> rel_key r = key) (relationships db)"

definition newest_live :: "graph_db \<Rightarrow> relationship_id \<Rightarrow> edge_row option" where
  "newest_live db relationship =
     (case sort_by (desc_by rv_number)
             (filter (\<lambda>v. rv_relationship v = relationship \<and> rv_invalidated_at v = None) (versions db)) of
        [] \<Rightarrow> None
      | v # _ \<Rightarrow> Some v)"

definition live_version :: "graph_db \<Rightarrow> relationship_id \<Rightarrow> edge_version option" where
  "live_version db relationship = map_option row_to_version (newest_live db relationship)"

definition edge_history :: "graph_db \<Rightarrow> project_id \<Rightarrow> relationship_id \<Rightarrow> edge_version list" where
  "edge_history db project relationship =
     map row_to_version
       (sort_by (asc_by rv_number)
         (filter (\<lambda>v. er_project v = project \<and> rv_relationship v = relationship) (versions db)))"

definition live_versions_of ::
  "graph_db \<Rightarrow> project_id \<Rightarrow> asserting list \<Rightarrow> edge_key \<Rightarrow> edge_version option" where
  "live_versions_of db project edges key =
     (if key \<in> key_of ` set edges
      then (case find_relationship db project key of
              None \<Rightarrow> None
            | Some r \<Rightarrow> live_version db (rel_id r))
      else None)"

definition targets :: "graph_db \<Rightarrow> project_id \<Rightarrow> topic_id list \<Rightarrow> edge_kind \<Rightarrow> (topic_id \<times> topic_id) list" where
  "targets db project froms kind =
     (if froms = [] then []
      else map (\<lambda>r. (rel_from r, rel_to r))
        (filter (\<lambda>r. rel_project r = project \<and> rel_from r \<in> set froms \<and> rel_kind r = kind \<and>
             (\<exists>v\<in>set (versions db). rv_relationship v = rel_id r \<and> rv_invalidated_at v = None))
          (relationships db)))"

section \<open>Asserting\<close>

text \<open>
  One round holds each edge once; a repeat goes to the next. \<open>seen\<close> counts how often an edge
  was met.
\<close>

fun place_rounds ::
  "asserting list \<Rightarrow> nat list \<Rightarrow> nat list list \<Rightarrow> (edge_key \<Rightarrow> nat) \<Rightarrow> nat list list" where
  "place_rounds edges [] rounds seen = rounds"
| "place_rounds edges (index # pending) rounds seen =
     (let key = key_of (edges ! index); times = seen key;
          rounds = (if length rounds = times then rounds @ [[]] else rounds)
      in place_rounds edges pending (rounds[times := rounds ! times @ [index]]) (seen(key := times + 1)))"

definition repeats_apart :: "asserting list \<Rightarrow> nat list \<Rightarrow> nat list list" where
  "repeats_apart edges pending = place_rounds edges pending [] (\<lambda>_. 0)"

text \<open>Creating the identities that are missing: \<open>ON CONFLICT DO NOTHING\<close> under the table's checks.\<close>

definition create_identity ::
  "instant \<Rightarrow> relationship_id \<Rightarrow> project_id \<Rightarrow> edge_key \<Rightarrow> graph_db \<Rightarrow> graph_db option" where
  "create_identity now i project key db =
     (let (f, t, kind) = key in
      if f = t then None
      else if \<exists>r\<in>set (relationships db). rel_project r = project \<and> rel_key r = key then Some db
      else if i \<in> rel_id ` set (relationships db) \<or> f \<notin> set (g_topics db) \<or> t \<notin> set (g_topics db) then None
      else Some (db\<lparr>relationships := relationships db @
             [\<lparr>rel_id = i, rel_project = project, rel_from = f, rel_to = t, rel_kind = kind,
               rel_created_at = now\<rparr>]\<rparr>))"

fun create_identities ::
  "instant \<Rightarrow> (nat \<Rightarrow> relationship_id) \<Rightarrow> project_id \<Rightarrow> asserting list \<Rightarrow> nat list \<Rightarrow> graph_db \<Rightarrow> graph_db option" where
  "create_identities now fresh project edges [] db = Some db"
| "create_identities now fresh project edges (index # rest) db =
     (case create_identity now (fresh index) project (key_of (edges ! index)) db of
        None \<Rightarrow> None
      | Some db' \<Rightarrow> create_identities now fresh project edges rest db')"

text \<open>An edge decided: where it sits, its identity, and the version it is decided against.\<close>

type_synonym decided = "nat \<times> relationship_id \<times> edge_row option"

definition unchanged :: "asserting list \<Rightarrow> decided \<Rightarrow> bool" where
  "unchanged edges d \<longleftrightarrow>
     (case d of (index, identity, current) \<Rightarrow>
        (case current of None \<Rightarrow> False | Some v \<Rightarrow> claim_matches (claim_of (edges ! index)) v))"

definition next_number :: "graph_db \<Rightarrow> project_id \<Rightarrow> relationship_id \<Rightarrow> nat" where
  "next_number db project relationship =
     Max (insert 0 (set (map rv_number
       (filter (\<lambda>v. er_project v = project \<and> rv_relationship v = relationship) (versions db))))) + 1"

definition appended_row ::
  "instant \<Rightarrow> (nat \<Rightarrow> version_id) \<Rightarrow> project_id \<Rightarrow> asserting list \<Rightarrow> graph_db \<Rightarrow> decided \<Rightarrow> edge_row" where
  "appended_row now fresh project edges db d =
     (case d of (index, identity, current) \<Rightarrow>
        let (f, t, claim) = edges ! index in
        \<lparr>rv_id = fresh index, rv_relationship = identity, rv_number = next_number db project identity,
         rv_validity = ec_validity claim, rv_created_at = now, rv_invalidated_at = None,
         rv_supersedes = map_option rv_id current, rv_caused_by = ec_caused_by claim,
         rv_confidence = ec_confidence claim, rv_derivation = ec_derivation claim, rv_tombstone = None,
         er_project = project, er_from = f, er_to = t, er_kind = ec_kind claim\<rparr>)"

definition closed_row :: "instant \<Rightarrow> tombstone_reason \<Rightarrow> edge_row \<Rightarrow> edge_row" where
  "closed_row now reason v = v\<lparr>rv_invalidated_at := Some now, rv_tombstone := Some reason\<rparr>"

text \<open>The checks V2 puts on a version row, whose confidence is a \<open>REAL\<close>.\<close>

definition version_checks :: "edge_row \<Rightarrow> bool" where
  "version_checks v \<longleftrightarrow>
     is_f32 (rv_confidence v) \<and> 0 < rv_confidence v \<and> rv_confidence v \<le> 1 \<and>
     (case (valid_from (rv_validity v), valid_to (rv_validity v)) of (Some f, Some t) \<Rightarrow> f < t | _ \<Rightarrow> True) \<and>
     (rv_invalidated_at v = None \<longleftrightarrow> rv_tombstone v = None)"

definition insert_versions :: "edge_row list \<Rightarrow> edge_row list \<Rightarrow> edge_row list option" where
  "insert_versions new vs =
     (if (\<forall>v\<in>set new. version_checks v) \<and> distinct (map rv_id (vs @ new)) \<and>
         distinct (map (\<lambda>v. (er_project v, rv_relationship v, rv_number v)) (vs @ new))
      then Some (vs @ new) else None)"

definition answer ::
  "instant \<Rightarrow> (nat \<Rightarrow> version_id) \<Rightarrow> project_id \<Rightarrow> asserting list \<Rightarrow> graph_db \<Rightarrow> decided \<Rightarrow> assertion" where
  "answer now fresh project edges db d =
     (if unchanged edges d then Unchanged (row_to_version (the (snd (snd d))))
      else Appended (row_to_version (appended_row now fresh project edges db d)))"

text \<open>The last statement: close what is superseded and append the new versions.\<close>

definition append_versions ::
  "instant \<Rightarrow> (nat \<Rightarrow> version_id) \<Rightarrow> project_id \<Rightarrow> asserting list \<Rightarrow> graph_db \<Rightarrow> decided list \<Rightarrow> edge_row list option" where
  "append_versions now fresh project edges db appending =
     (let superseded = List.map_filter (\<lambda>d. map_option rv_id (snd (snd d))) appending
      in insert_versions (map (appended_row now fresh project edges db) appending)
           (map (\<lambda>v. if rv_id v \<in> set superseded then closed_row now Superseded v else v) (versions db)))"

definition decide :: "graph_db \<Rightarrow> project_id \<Rightarrow> asserting list \<Rightarrow> nat list \<Rightarrow> decided list option" where
  "decide db project edges indices =
     (case those (map (\<lambda>i. map_option rel_id (find_relationship db project (key_of (edges ! i)))) indices) of
        None \<Rightarrow> None
      | Some identities \<Rightarrow>
          Some (map (\<lambda>(i, identity). (i, identity, newest_live db identity)) (zip indices identities)))"

definition assert_within ::
  "instant \<Rightarrow> (nat \<Rightarrow> relationship_id) \<Rightarrow> (nat \<Rightarrow> version_id) \<Rightarrow> project_id \<Rightarrow> asserting list \<Rightarrow> nat list
    \<Rightarrow> graph_db \<Rightarrow> (graph_db \<times> assertion list) option" where
  "assert_within now fresh_rel fresh_ver project edges indices db =
     (case create_identities now fresh_rel project edges indices db of
        None \<Rightarrow> None
      | Some db1 \<Rightarrow>
     (case decide db1 project edges indices of
        None \<Rightarrow> None
      | Some decided \<Rightarrow>
     (case append_versions now fresh_ver project edges db1 (filter (\<lambda>d. \<not> unchanged edges d) decided) of
        None \<Rightarrow> None
      | Some vs \<Rightarrow> Some (db1\<lparr>versions := vs\<rparr>, map (answer now fresh_ver project edges db1) decided))))"

fun assert_rounds ::
  "instant \<Rightarrow> (nat \<Rightarrow> relationship_id) \<Rightarrow> (nat \<Rightarrow> version_id) \<Rightarrow> project_id \<Rightarrow> asserting list \<Rightarrow> nat list list
    \<Rightarrow> graph_db \<Rightarrow> (nat \<rightharpoonup> assertion) \<Rightarrow> (graph_db \<times> (nat \<rightharpoonup> assertion)) option" where
  "assert_rounds now fresh_rel fresh_ver project edges [] db asserted = Some (db, asserted)"
| "assert_rounds now fresh_rel fresh_ver project edges (batch # rounds) db asserted =
     (case assert_within now fresh_rel fresh_ver project edges batch db of
        None \<Rightarrow> None
      | Some (db', written) \<Rightarrow>
          assert_rounds now fresh_rel fresh_ver project edges rounds db'
            (asserted ++ map_of (zip batch written)))"

definition unchanged_at :: "graph_db \<Rightarrow> project_id \<Rightarrow> asserting list \<Rightarrow> nat \<Rightarrow> edge_version option" where
  "unchanged_at snapshot project edges index =
     (case live_versions_of snapshot project edges (key_of (edges ! index)) of
        None \<Rightarrow> None
      | Some v \<Rightarrow> if claim_matches (claim_of (edges ! index)) v then Some v else None)"

definition pending_edges :: "graph_db \<Rightarrow> project_id \<Rightarrow> asserting list \<Rightarrow> nat list" where
  "pending_edges snapshot project edges =
     filter (\<lambda>i. unchanged_at snapshot project edges i = None) [0..<length edges]"

definition assert_edges ::
  "instant \<Rightarrow> (nat \<Rightarrow> relationship_id) \<Rightarrow> (nat \<Rightarrow> version_id) \<Rightarrow> project_id \<Rightarrow> asserting list
    \<Rightarrow> graph_db \<Rightarrow> graph_db \<Rightarrow> (graph_db \<times> assertion list) option" where
  "assert_edges now fresh_rel fresh_ver project edges snapshot db =
     (case assert_rounds now fresh_rel fresh_ver project edges
             (repeats_apart edges (pending_edges snapshot project edges)) db
             (\<lambda>i. map_option Unchanged (unchanged_at snapshot project edges i)) of
        None \<Rightarrow> None
      | Some (db', asserted) \<Rightarrow> Some (db', map (\<lambda>i. the (asserted i)) [0..<length edges]))"

definition assert_edge ::
  "instant \<Rightarrow> (nat \<Rightarrow> relationship_id) \<Rightarrow> (nat \<Rightarrow> version_id) \<Rightarrow> project_id \<Rightarrow> topic_id \<Rightarrow> topic_id \<Rightarrow> edge_claim
    \<Rightarrow> graph_db \<Rightarrow> graph_db \<Rightarrow> (graph_db \<times> assertion) option" where
  "assert_edge now fresh_rel fresh_ver project f t claim snapshot db =
     map_option (\<lambda>(db', asserted). (db', last asserted))
       (assert_edges now fresh_rel fresh_ver project [(f, t, claim)] snapshot db)"

section \<open>Retracting\<close>

definition retract_derived_all ::
  "instant \<Rightarrow> project_id \<Rightarrow> edge_kind \<Rightarrow> (topic_id \<times> topic_id list) list \<Rightarrow> graph_db \<Rightarrow> graph_db \<times> nat" where
  "retract_derived_all now project kind keep db =
     (if keep = [] then (db, 0)
      else
        let froms = map fst keep;
            kept = concat (map (\<lambda>(f, tos). map (\<lambda>t. (f, t)) tos) keep);
            doomed = map rel_id (filter (\<lambda>r. rel_project r = project \<and> rel_from r \<in> set froms \<and> rel_kind r = kind \<and>
                (rel_from r, rel_to r) \<notin> set kept \<and>
                (\<exists>v\<in>set (versions db). rv_relationship v = rel_id r \<and> rv_invalidated_at v = None \<and>
                    rv_derivation v = Deterministic)) (relationships db));
            closes = (\<lambda>v. rv_invalidated_at v = None \<and> rv_derivation v = Deterministic \<and> rv_relationship v \<in> set doomed)
        in (db\<lparr>versions := map (\<lambda>v. if closes v then closed_row now Closed v else v) (versions db)\<rparr>,
            length (filter closes (versions db))))"

definition close_edge ::
  "instant \<Rightarrow> project_id \<Rightarrow> edge_key \<Rightarrow> tombstone_reason \<Rightarrow> graph_db \<Rightarrow> graph_db \<times> bool" where
  "close_edge now project key reason db =
     (let edge = map rel_id (filter (\<lambda>r. rel_project r = project \<and> rel_key r = key) (relationships db));
          closes = (\<lambda>v. rv_invalidated_at v = None \<and> rv_relationship v \<in> set edge)
      in (db\<lparr>versions := map (\<lambda>v. if closes v then closed_row now reason v else v) (versions db)\<rparr>,
          0 < length (filter closes (versions db))))"

section \<open>The invariant\<close>

definition describes :: "relationship \<Rightarrow> edge_row \<Rightarrow> bool" where
  "describes r v \<longleftrightarrow> rel_id r = rv_relationship v \<and> rel_project r = er_project v \<and> rel_key r = er_key v"

definition graph_ok :: "graph_db \<Rightarrow> bool" where
  "graph_ok db \<longleftrightarrow>
     distinct (map rel_id (relationships db)) \<and>
     distinct (map (\<lambda>r. (rel_project r, rel_key r)) (relationships db)) \<and>
     (\<forall>r\<in>set (relationships db). rel_from r \<noteq> rel_to r) \<and>
     distinct (map rv_id (versions db)) \<and>
     distinct (map (\<lambda>v. (er_project v, rv_relationship v, rv_number v)) (versions db)) \<and>
     (\<forall>v\<in>set (versions db). version_checks v \<and> (\<exists>r\<in>set (relationships db). describes r v)) \<and>
     (\<forall>v\<in>set (versions db). \<forall>w\<in>set (versions db).
        rv_relationship v = rv_relationship w \<and> rv_invalidated_at v = None \<longrightarrow> rv_number w \<le> rv_number v)"

lemma graph_okD:
  assumes "graph_ok db"
  shows "distinct (map rel_id (relationships db))"
    and "distinct (map (\<lambda>r. (rel_project r, rel_key r)) (relationships db))"
    and "r \<in> set (relationships db) \<Longrightarrow> rel_from r \<noteq> rel_to r"
    and "distinct (map rv_id (versions db))"
    and "distinct (map (\<lambda>v. (er_project v, rv_relationship v, rv_number v)) (versions db))"
    and "v \<in> set (versions db) \<Longrightarrow> version_checks v"
    and "v \<in> set (versions db) \<Longrightarrow> \<exists>r\<in>set (relationships db). describes r v"
    and "v \<in> set (versions db) \<Longrightarrow> w \<in> set (versions db) \<Longrightarrow> rv_relationship v = rv_relationship w
          \<Longrightarrow> rv_invalidated_at v = None \<Longrightarrow> rv_number w \<le> rv_number v"
  using assms unfolding graph_ok_def by simp_all

lemma rel_by_id:
  "graph_ok db \<Longrightarrow> a \<in> set (relationships db) \<Longrightarrow> b \<in> set (relationships db) \<Longrightarrow> rel_id a = rel_id b \<Longrightarrow> a = b"
  using graph_okD(1) [of db] by (auto simp: distinct_map dest: inj_onD)

lemma rel_by_key:
  "graph_ok db \<Longrightarrow> a \<in> set (relationships db) \<Longrightarrow> b \<in> set (relationships db)
    \<Longrightarrow> rel_project a = rel_project b \<Longrightarrow> rel_key a = rel_key b \<Longrightarrow> a = b"
  using graph_okD(2) [of db] by (auto simp: distinct_map dest: inj_onD)

lemma version_by_id:
  "graph_ok db \<Longrightarrow> v \<in> set (versions db) \<Longrightarrow> w \<in> set (versions db) \<Longrightarrow> rv_id v = rv_id w \<Longrightarrow> v = w"
  using graph_okD(4) [of db] by (auto simp: distinct_map dest: inj_onD)

lemma describes_project:
  assumes "graph_ok db" "v \<in> set (versions db)" "w \<in> set (versions db)" "rv_relationship v = rv_relationship w"
  shows "er_project v = er_project w" "er_key v = er_key w"
proof -
  obtain a b where ab: "a \<in> set (relationships db)" "describes a v" "b \<in> set (relationships db)" "describes b w"
    using graph_okD(7) assms by meson
  then have "a = b" using assms by (intro rel_by_id) (auto simp: describes_def)
  with ab show "er_project v = er_project w" "er_key v = er_key w" by (auto simp: describes_def)
qed

lemma one_live:
  assumes "graph_ok db" "v \<in> set (versions db)" "w \<in> set (versions db)" "rv_relationship v = rv_relationship w"
    and "rv_invalidated_at v = None" "rv_invalidated_at w = None"
  shows "v = w"
proof -
  have "rv_number w \<le> rv_number v" by (rule graph_okD(8) [OF assms(1-5)])
  moreover have "rv_number v \<le> rv_number w" by (rule graph_okD(8) [OF assms(1) assms(3,2) assms(4) [symmetric] assms(6)])
  ultimately have n: "rv_number v = rv_number w" by (rule le_antisym [rotated])
  have "inj_on (\<lambda>v. (er_project v, rv_relationship v, rv_number v)) (set (versions db))"
    using graph_okD(5) [OF assms(1)] unfolding distinct_map by (rule conjunct2)
  then show ?thesis
    by (rule inj_onD) (use n assms(4) describes_project(1) [OF assms(1-4)] assms(2,3) in simp_all)
qed

lemma filter_only:
  "distinct xs \<Longrightarrow> x \<in> set xs \<Longrightarrow> P x \<Longrightarrow> \<forall>y\<in>set xs. P y \<longrightarrow> y = x \<Longrightarrow> filter P xs = [x]"
proof (induction xs)
  case (Cons y ys)
  show ?case
  proof (cases "P y")
    case True
    then have "y = x" using Cons.prems(4) by simp
    moreover have "\<not> P z" if "z \<in> set ys" for z
      using Cons.prems(1,4) \<open>y = x\<close> that by (metis distinct.simps(2) list.set_intros(2))
    ultimately show ?thesis using True by (simp add: filter_empty_conv)
  next
    case False
    then have "x \<in> set ys" using Cons.prems(2,3) by auto
    moreover have "distinct ys" "\<forall>z\<in>set ys. P z \<longrightarrow> z = x" using Cons.prems(1,4) by simp_all
    ultimately have "filter P ys = [x]" using Cons.IH Cons.prems(3) by blast
    then show ?thesis using False by simp
  qed
qed simp

lemma versions_distinct: "graph_ok db \<Longrightarrow> distinct (versions db)"
  using graph_okD(4) distinct_map by blast

lemma newest_live_iff:
  assumes "graph_ok db"
  shows "newest_live db i = Some v \<longleftrightarrow> v \<in> set (versions db) \<and> rv_relationship v = i \<and> rv_invalidated_at v = None"
proof -
  let ?P = "\<lambda>v. rv_relationship v = i \<and> rv_invalidated_at v = None"
  show ?thesis
  proof (cases "\<exists>w\<in>set (versions db). ?P w")
    case True
    then obtain w where w: "w \<in> set (versions db)" "?P w" by blast
    have u: "x = w" if "x \<in> set (versions db)" "?P x" for x
      using one_live [OF assms, of x w] that w by simp
    have "filter ?P (versions db) = [w]"
      by (rule filter_only [where P = ?P, OF versions_distinct [OF assms] w]) (intro ballI impI u)
    then have n: "newest_live db i = Some w" by (simp add: newest_live_def)
    show ?thesis
    proof
      show "newest_live db i = Some v \<Longrightarrow> v \<in> set (versions db) \<and> ?P v" using n w by simp
      assume "v \<in> set (versions db) \<and> ?P v"
      then have "v = w" by (intro u) simp_all
      then show "newest_live db i = Some v" using n by simp
    qed
  next
    case False
    then have "filter ?P (versions db) = []" by (simp add: filter_empty_conv)
    then have "newest_live db i = None" by (simp add: newest_live_def)
    then show ?thesis using False by simp
  qed
qed

lemma newest_live_None:
  "graph_ok db \<Longrightarrow> newest_live db i = None \<longleftrightarrow>
    \<not> (\<exists>v\<in>set (versions db). rv_relationship v = i \<and> rv_invalidated_at v = None)"
  using newest_live_iff by (metis not_None_eq)

lemma find_relationship_iff:
  assumes "graph_ok db"
  shows "find_relationship db project key = Some r \<longleftrightarrow>
    r \<in> set (relationships db) \<and> rel_project r = project \<and> rel_key r = key"
proof
  assume "find_relationship db project key = Some r"
  then show "r \<in> set (relationships db) \<and> rel_project r = project \<and> rel_key r = key"
    by (auto simp: find_relationship_def dest: find_SomeD)
next
  assume r: "r \<in> set (relationships db) \<and> rel_project r = project \<and> rel_key r = key"
  then obtain r' where "find_relationship db project key = Some r'"
    by (cases "find_relationship db project key") (auto simp: find_relationship_def find_None_iff)
  moreover from this have "r' = r"
    using rel_by_key [OF assms, of r' r] r by (auto simp: find_relationship_def dest: find_SomeD)
  ultimately show "find_relationship db project key = Some r" by simp
qed

section \<open>What the ledger says now\<close>

type_synonym edge_content = "derivation \<times> rat \<times> validity"

definition row_content :: "edge_row \<Rightarrow> edge_content" where
  "row_content v = (rv_derivation v, rv_confidence v, rv_validity v)"

definition claim_content :: "edge_claim \<Rightarrow> edge_content" where
  "claim_content c = (ec_derivation c, ec_confidence c, ec_validity c)"

text \<open>The abstract state: what is claimed now of each edge of each project.\<close>

definition live_row :: "graph_db \<Rightarrow> project_id \<Rightarrow> edge_key \<Rightarrow> edge_row option" where
  "live_row db project key =
     find (\<lambda>v. rv_invalidated_at v = None \<and> er_project v = project \<and> er_key v = key) (versions db)"

definition stands :: "graph_db \<Rightarrow> project_id \<Rightarrow> edge_key \<Rightarrow> edge_content option" where
  "stands db project key = map_option row_content (live_row db project key)"

lemma claim_matches_content: "claim_matches c v \<longleftrightarrow> row_content v = claim_content c"
  by (auto simp: claim_matches_def row_content_def claim_content_def)

lemma live_row_iff:
  assumes "graph_ok db"
  shows "live_row db project key = Some v \<longleftrightarrow>
    v \<in> set (versions db) \<and> rv_invalidated_at v = None \<and> er_project v = project \<and> er_key v = key"
proof
  assume "live_row db project key = Some v"
  then show "v \<in> set (versions db) \<and> rv_invalidated_at v = None \<and> er_project v = project \<and> er_key v = key"
    by (auto simp: live_row_def dest: find_SomeD)
next
  assume v: "v \<in> set (versions db) \<and> rv_invalidated_at v = None \<and> er_project v = project \<and> er_key v = key"
  then obtain w where w: "live_row db project key = Some w"
    by (cases "live_row db project key") (auto simp: live_row_def find_None_iff)
  then have w': "w \<in> set (versions db)" "rv_invalidated_at w = None" "er_project w = project" "er_key w = key"
    by (auto simp: live_row_def dest: find_SomeD)
  obtain a b where ab: "a \<in> set (relationships db)" "describes a v" "b \<in> set (relationships db)" "describes b w"
    using graph_okD(7) [OF assms] v w'(1) by meson
  then have "a = b" using v w' by (intro rel_by_key [OF assms]) (auto simp: describes_def)
  then have "rv_relationship v = rv_relationship w" using ab by (auto simp: describes_def)
  then have "w = v" using one_live [OF assms, of w v] v w' by auto
  then show "live_row db project key = Some v" using w by simp
qed

lemma newest_live_row:
  assumes "graph_ok db" and "find_relationship db project key = Some r"
  shows "newest_live db (rel_id r) = live_row db project key"
proof -
  note r = assms(2) [unfolded find_relationship_iff [OF assms(1)]]
  have "newest_live db (rel_id r) = Some v \<longleftrightarrow> live_row db project key = Some v" for v
  proof -
    have "rv_relationship v = rel_id r \<longleftrightarrow> er_project v = project \<and> er_key v = key"
      if v: "v \<in> set (versions db)"
    proof -
      obtain a where a: "a \<in> set (relationships db)" "describes a v" using graph_okD(7) [OF assms(1) v] by blast
      have "rel_id a = rel_id r \<longleftrightarrow> rel_project a = project \<and> rel_key a = key"
        using a r rel_by_id [OF assms(1), of a r] rel_by_key [OF assms(1), of a r] by auto
      then show ?thesis using a by (auto simp: describes_def)
    qed
    then show ?thesis by (auto simp: newest_live_iff [OF assms(1)] live_row_iff [OF assms(1)])
  qed
  then show ?thesis by (rule option_ext)
qed

section \<open>Identities\<close>

lemma create_identity_spec:
  assumes "graph_ok db" and "create_identity now i project key db = Some db'"
  shows "graph_ok db' \<and> versions db' = versions db \<and> g_topics db' = g_topics db \<and>
    set (relationships db) \<subseteq> set (relationships db') \<and>
    (\<exists>r\<in>set (relationships db'). rel_project r = project \<and> rel_key r = key)"
proof -
  obtain f t kind where key: "key = (f, t, kind)" by (cases key)
  have ne: "f \<noteq> t" using assms(2) by (auto simp: create_identity_def key)
  show ?thesis
  proof (cases "\<exists>r\<in>set (relationships db). rel_project r = project \<and> rel_key r = key")
    case True
    then have "db' = db" using assms(2) ne by (simp add: create_identity_def key)
    then show ?thesis using True assms(1) by simp
  next
    case False
    let ?r = "\<lparr>rel_id = i, rel_project = project, rel_from = f, rel_to = t, rel_kind = kind, rel_created_at = now\<rparr>"
    have k: "rel_key ?r = key" by (simp add: rel_key_def key)
    have fresh: "i \<notin> rel_id ` set (relationships db)" and db': "db' = db\<lparr>relationships := relationships db @ [?r]\<rparr>"
      using assms(2) False ne by (auto simp: create_identity_def key split: if_splits)
    have d: "(project, key) \<notin> (\<lambda>r. (rel_project r, rel_key r)) ` set (relationships db)" using False by auto
    have "graph_ok db'"
      unfolding graph_ok_def
    proof (intro conjI)
      show "distinct (map rel_id (relationships db'))" using graph_okD(1) [OF assms(1)] fresh by (simp add: db')
      show "distinct (map (\<lambda>r. (rel_project r, rel_key r)) (relationships db'))"
        using graph_okD(2) [OF assms(1)] d by (simp add: db' k)
      show "\<forall>r\<in>set (relationships db'). rel_from r \<noteq> rel_to r"
        using graph_okD(3) [OF assms(1)] ne by (simp add: db')
      show "\<forall>v\<in>set (versions db'). version_checks v \<and> (\<exists>r\<in>set (relationships db'). describes r v)"
        using graph_okD(6,7) [OF assms(1)] by (auto simp: db')
    qed (use assms(1) in \<open>simp_all add: db' graph_ok_def\<close>)
    then show ?thesis using k by (auto simp: db')
  qed
qed

lemma create_identities_spec:
  "graph_ok db \<Longrightarrow> create_identities now fresh project edges indices db = Some db' \<Longrightarrow>
    graph_ok db' \<and> versions db' = versions db \<and> g_topics db' = g_topics db \<and>
    set (relationships db) \<subseteq> set (relationships db') \<and>
    (\<forall>i\<in>set indices. \<exists>r\<in>set (relationships db'). rel_project r = project \<and> rel_key r = key_of (edges ! i))"
proof (induction indices arbitrary: db)
  case (Cons i indices)
  then obtain db1 where db1: "create_identity now (fresh i) project (key_of (edges ! i)) db = Some db1"
    "create_identities now fresh project edges indices db1 = Some db'" by (auto split: option.splits)
  note c = create_identity_spec [OF Cons.prems(1) db1(1)]
  then have IH: "graph_ok db' \<and> versions db' = versions db1 \<and> g_topics db' = g_topics db1 \<and>
    set (relationships db1) \<subseteq> set (relationships db') \<and>
    (\<forall>i\<in>set indices. \<exists>r\<in>set (relationships db'). rel_project r = project \<and> rel_key r = key_of (edges ! i))"
    using Cons.IH [OF _ db1(2)] by blast
  with c show ?case by auto
qed simp

lemma stands_versions: "versions db = versions db' \<Longrightarrow> stands db = stands db'"
  by (simp add: stands_def live_row_def fun_eq_iff)

section \<open>Closing\<close>

lemma closed_row_simps [simp]:
  "rv_id (closed_row now reason v) = rv_id v" "rv_relationship (closed_row now reason v) = rv_relationship v"
  "rv_number (closed_row now reason v) = rv_number v" "er_project (closed_row now reason v) = er_project v"
  "er_key (closed_row now reason v) = er_key v" "rv_invalidated_at (closed_row now reason v) = Some now"
  "row_content (closed_row now reason v) = row_content v"
  "describes r (closed_row now reason v) = describes r v"
  "version_checks v \<Longrightarrow> version_checks (closed_row now reason v)"
  by (simp_all add: closed_row_def er_key_def row_content_def describes_def version_checks_def)

abbreviation close_where :: "instant \<Rightarrow> tombstone_reason \<Rightarrow> (edge_row \<Rightarrow> bool) \<Rightarrow> edge_row list \<Rightarrow> edge_row list" where
  "close_where now reason P vs \<equiv> map (\<lambda>v. if P v then closed_row now reason v else v) vs"

lemma close_where_maps:
  "map rv_id (close_where now reason P vs) = map rv_id vs"
  "map (\<lambda>v. (er_project v, rv_relationship v, rv_number v)) (close_where now reason P vs)
    = map (\<lambda>v. (er_project v, rv_relationship v, rv_number v)) vs"
  by simp_all

lemma close_where_ok:
  assumes "graph_ok db"
  shows "graph_ok (db\<lparr>versions := close_where now reason P (versions db)\<rparr>)"
  unfolding graph_ok_def
proof (intro conjI)
  show "\<forall>v\<in>set (versions (db\<lparr>versions := close_where now reason P (versions db)\<rparr>)).
      version_checks v \<and> (\<exists>r\<in>set (relationships (db\<lparr>versions := close_where now reason P (versions db)\<rparr>)). describes r v)"
    using graph_okD(6,7) [OF assms] by auto
  show "\<forall>v\<in>set (versions (db\<lparr>versions := close_where now reason P (versions db)\<rparr>)).
    \<forall>w\<in>set (versions (db\<lparr>versions := close_where now reason P (versions db)\<rparr>)).
      rv_relationship v = rv_relationship w \<and> rv_invalidated_at v = None \<longrightarrow> rv_number w \<le> rv_number v"
    using graph_okD(8) [OF assms] by (auto split: if_splits)
qed (use assms in \<open>simp_all add: graph_ok_def comp_def if_distrib cong: if_cong\<close>)

lemma find_map_close:
  "find (\<lambda>v. rv_invalidated_at v = None \<and> Q v) (close_where now reason P vs)
    = find (\<lambda>v. rv_invalidated_at v = None \<and> Q v \<and> \<not> P v) vs"
  if "\<And>v. Q (closed_row now reason v) = Q v"
  by (induction vs) (auto simp: that)

lemma close_where_live:
  "v \<in> set (close_where now reason P vs) \<and> rv_invalidated_at v = None
    \<longleftrightarrow> v \<in> set vs \<and> rv_invalidated_at v = None \<and> \<not> P v"
  by (induction vs) auto

lemma versions_update [simp]: "versions (db\<lparr>versions := vs\<rparr>) = vs"
  by simp

lemma live_row_close:
  assumes "graph_ok db"
  shows "live_row (db\<lparr>versions := close_where now reason P (versions db)\<rparr>) project key
    = (case live_row db project key of None \<Rightarrow> None | Some v \<Rightarrow> if P v then None else Some v)"
proof -
  have "live_row (db\<lparr>versions := close_where now reason P (versions db)\<rparr>) project key = Some v \<longleftrightarrow>
      live_row db project key = Some v \<and> \<not> P v" for v
    using close_where_live [where v = v and now = now and reason = reason and P = P and vs = "versions db"]
    unfolding live_row_iff [OF close_where_ok [OF assms]] live_row_iff [OF assms] versions_update by blast
  then show ?thesis by (intro option_ext) (auto split: option.splits)
qed

section \<open>One round of assertions\<close>

lemma those_map_Some: "those (map f xs) = Some ys \<Longrightarrow> ys = map (\<lambda>x. the (f x)) xs \<and> (\<forall>x\<in>set xs. f x \<noteq> None)"
proof (induction xs arbitrary: ys)
  case (Cons x xs)
  then show ?case by (cases "f x"; cases "those (map f xs)") auto
qed simp

definition edge_at :: "asserting list \<Rightarrow> nat \<Rightarrow> edge_key" where
  "edge_at edges i = key_of (edges ! i)"

definition content_at :: "asserting list \<Rightarrow> nat \<Rightarrow> edge_content" where
  "content_at edges i = claim_content (claim_of (edges ! i))"

definition identity_at :: "graph_db \<Rightarrow> project_id \<Rightarrow> asserting list \<Rightarrow> nat \<Rightarrow> relationship_id" where
  "identity_at db project edges i = rel_id (the (find_relationship db project (edge_at edges i)))"

definition changes_at :: "graph_db \<Rightarrow> project_id \<Rightarrow> asserting list \<Rightarrow> nat \<Rightarrow> bool" where
  "changes_at db project edges i \<longleftrightarrow> stands db project (edge_at edges i) \<noteq> Some (content_at edges i)"

definition decided_at :: "graph_db \<Rightarrow> project_id \<Rightarrow> asserting list \<Rightarrow> nat \<Rightarrow> decided" where
  "decided_at db project edges i =
     (i, identity_at db project edges i, live_row db project (edge_at edges i))"

abbreviation new_row where
  "new_row now fresh project edges db i \<equiv> appended_row now fresh project edges db (decided_at db project edges i)"

lemma unchanged_decided: "unchanged edges (decided_at db project edges i) \<longleftrightarrow> \<not> changes_at db project edges i"
  by (auto simp: unchanged_def decided_at_def changes_at_def stands_def content_at_def claim_matches_content
      split: option.splits)

lemma new_row_simps [simp]:
  "rv_id (new_row now fresh project edges db i) = fresh i"
  "rv_relationship (new_row now fresh project edges db i) = identity_at db project edges i"
  "rv_number (new_row now fresh project edges db i) = next_number db project (identity_at db project edges i)"
  "rv_invalidated_at (new_row now fresh project edges db i) = None"
  "er_project (new_row now fresh project edges db i) = project"
  "er_key (new_row now fresh project edges db i) = edge_at edges i"
  "row_content (new_row now fresh project edges db i) = content_at edges i"
  by (cases "edges ! i"; simp add: appended_row_def decided_at_def er_key_def edge_at_def row_content_def
      content_at_def claim_content_def)+

lemma decide_spec:
  assumes ok: "graph_ok db" and d: "decide db project edges indices = Some ds"
  shows "ds = map (decided_at db project edges) indices"
    and "i \<in> set indices \<Longrightarrow> find_relationship db project (edge_at edges i) \<noteq> None"
proof -
  from d obtain identities where
    ids: "those (map (\<lambda>i. map_option rel_id (find_relationship db project (key_of (edges ! i)))) indices) = Some identities"
    and ds: "ds = map (\<lambda>(i, identity). (i, identity, newest_live db identity)) (zip indices identities)"
    by (auto simp: decide_def split: option.splits)
  note t = those_map_Some [OF ids]
  have found: "find_relationship db project (edge_at edges i) \<noteq> None" if "i \<in> set indices" for i
    using t that by (auto simp: edge_at_def)
  have idents: "identities = map (identity_at db project edges) indices"
    using t found by (auto simp: identity_at_def edge_at_def option.map_sel)
  have "(i, identity_at db project edges i, newest_live db (identity_at db project edges i)) = decided_at db project edges i"
    if i: "i \<in> set indices" for i
    using found [OF i] newest_live_row [OF ok] by (auto simp: decided_at_def identity_at_def)
  then show "ds = map (decided_at db project edges) indices"
    unfolding idents ds by (simp add: zip_map2 zip_same_conv_map comp_def)
  show "i \<in> set indices \<Longrightarrow> find_relationship db project (edge_at edges i) \<noteq> None" by (rule found)
qed

definition superseded_at :: "graph_db \<Rightarrow> project_id \<Rightarrow> asserting list \<Rightarrow> nat list \<Rightarrow> edge_row \<Rightarrow> bool" where
  "superseded_at db project edges indices v \<longleftrightarrow>
     (\<exists>i\<in>set indices. \<exists>w. live_row db project (edge_at edges i) = Some w \<and> rv_id w = rv_id v)"

lemma append_versions_decided:
  "append_versions now fresh project edges db (map (decided_at db project edges) indices)
    = insert_versions (map (new_row now fresh project edges db) indices)
        (close_where now Superseded (superseded_at db project edges indices) (versions db))"
proof -
  have "rv_id v \<in> set (List.map_filter (\<lambda>d. map_option rv_id (snd (snd d))) (map (decided_at db project edges) indices))
      \<longleftrightarrow> superseded_at db project edges indices v" for v
    unfolding superseded_at_def List.map_filter_def by (force simp: decided_at_def)
  then show ?thesis by (simp add: append_versions_def comp_def)
qed

lemma assert_within_unfold:
  assumes ok: "graph_ok db" and a: "assert_within now fresh_rel fresh_ver project edges indices db = Some (db', written)"
  obtains db1 vs where "graph_ok db1" "versions db1 = versions db" "g_topics db1 = g_topics db"
    "set (relationships db) \<subseteq> set (relationships db1)"
    "\<forall>i\<in>set indices. find_relationship db1 project (edge_at edges i) \<noteq> None"
    "insert_versions (map (new_row now fresh_ver project edges db1) (filter (changes_at db1 project edges) indices))
      (close_where now Superseded (superseded_at db1 project edges (filter (changes_at db1 project edges) indices))
        (versions db1)) = Some vs"
    "db' = db1\<lparr>versions := vs\<rparr>"
    "written = map (answer now fresh_ver project edges db1 \<circ> decided_at db1 project edges) indices"
proof -
  from a obtain db1 ds vs where db1: "create_identities now fresh_rel project edges indices db = Some db1"
    and ds: "decide db1 project edges indices = Some ds"
    and vs: "append_versions now fresh_ver project edges db1 (filter (\<lambda>d. \<not> unchanged edges d) ds) = Some vs"
    and r: "db' = db1\<lparr>versions := vs\<rparr>" "written = map (answer now fresh_ver project edges db1) ds"
    by (auto simp: assert_within_def split: option.splits)
  note c = create_identities_spec [OF ok db1]
  then have ok1: "graph_ok db1" by blast
  note d = decide_spec [OF ok1 ds]
  have "filter (\<lambda>d. \<not> unchanged edges d) ds
      = map (decided_at db1 project edges) (filter (changes_at db1 project edges) indices)"
    unfolding d(1) by (simp add: filter_map comp_def unchanged_decided)
  then show thesis
    using that [OF ok1 _ _ _ _ _ r(1)] c d(2) vs r(2) unfolding d(1)
    by (simp add: append_versions_decided)
qed

section \<open>What one round does\<close>

lemma next_number_greater:
  assumes "w \<in> set (versions db)" "er_project w = project" "rv_relationship w = i"
  shows "rv_number w < next_number db project i"
proof -
  have "rv_number w \<le> Max (insert 0 (set (map rv_number
      (filter (\<lambda>v. er_project v = project \<and> rv_relationship v = i) (versions db)))))"
    using assms by (intro Max_ge) auto
  then show ?thesis by (simp add: next_number_def)
qed

lemma identity_at_row:
  assumes "graph_ok db" and "find_relationship db project (edge_at edges i) \<noteq> None"
  shows "\<exists>r\<in>set (relationships db). rel_id r = identity_at db project edges i \<and> rel_project r = project \<and>
    rel_key r = edge_at edges i"
proof -
  obtain r where r: "find_relationship db project (edge_at edges i) = Some r" using assms(2) by blast
  then show ?thesis using r [unfolded find_relationship_iff [OF assms(1)]] by (auto simp: identity_at_def)
qed

lemma row_of_identity:
  assumes "graph_ok db" and "find_relationship db project (edge_at edges i) \<noteq> None" and "v \<in> set (versions db)"
  shows "rv_relationship v = identity_at db project edges i \<longleftrightarrow> er_project v = project \<and> er_key v = edge_at edges i"
proof -
  obtain a where a: "a \<in> set (relationships db)" "rel_id a = identity_at db project edges i" "rel_project a = project"
    "rel_key a = edge_at edges i" using identity_at_row [OF assms(1,2)] by blast
  obtain b where b: "b \<in> set (relationships db)" "describes b v" using graph_okD(7) [OF assms(1,3)] by blast
  have "rel_id b = rel_id a \<longleftrightarrow> rel_project b = rel_project a \<and> rel_key b = rel_key a"
    using rel_by_id [OF assms(1) b(1) a(1)] rel_by_key [OF assms(1) b(1) a(1)] by auto
  then show ?thesis using a b by (simp add: describes_def)
qed

lemma insert_versions_SomeD:
  "insert_versions new vs = Some vs' \<Longrightarrow> vs' = vs @ new \<and> (\<forall>v\<in>set new. version_checks v) \<and>
    distinct (map rv_id (vs @ new)) \<and> distinct (map (\<lambda>v. (er_project v, rv_relationship v, rv_number v)) (vs @ new))"
  by (auto simp: insert_versions_def split: if_splits)

definition one_round ::
  "graph_db \<Rightarrow> project_id \<Rightarrow> asserting list \<Rightarrow> nat list \<Rightarrow> instant \<Rightarrow> (nat \<Rightarrow> version_id) \<Rightarrow> edge_row list \<Rightarrow> bool" where
  "one_round db project edges changed now fresh vs \<longleftrightarrow>
     graph_ok db \<and> (\<forall>i\<in>set changed. find_relationship db project (edge_at edges i) \<noteq> None) \<and>
     distinct (map (edge_at edges) changed) \<and>
     insert_versions (map (new_row now fresh project edges db) changed)
       (close_where now Superseded (superseded_at db project edges changed) (versions db)) = Some vs"

lemma one_roundD:
  assumes "one_round db project edges changed now fresh vs"
  shows "graph_ok db" and "i \<in> set changed \<Longrightarrow> find_relationship db project (edge_at edges i) \<noteq> None"
    and "distinct (map (edge_at edges) changed)"
    and "insert_versions (map (new_row now fresh project edges db) changed)
       (close_where now Superseded (superseded_at db project edges changed) (versions db)) = Some vs"
  using assms unfolding one_round_def by simp_all

lemma round_rows:
  assumes R: "one_round db project edges changed now fresh vs"
  shows "set vs = set (close_where now Superseded (superseded_at db project edges changed) (versions db))
    \<union> new_row now fresh project edges db ` set changed"
  using insert_versions_SomeD [OF one_roundD(4) [OF R]] by simp

lemma round_same_edge:
  assumes R: "one_round db project edges changed now fresh vs" and "i \<in> set changed" "j \<in> set changed" "edge_at edges i = edge_at edges j"
  shows "i = j"
  using one_roundD(3) [OF R] assms(2-4) by (auto simp: distinct_map dest: inj_onD)

lemma round_superseded:
  assumes R: "one_round db project edges changed now fresh vs" and "v \<in> set (versions db)" "rv_invalidated_at v = None"
  shows "superseded_at db project edges changed v \<longleftrightarrow> er_project v = project \<and> er_key v \<in> edge_at edges ` set changed"
proof
  assume "superseded_at db project edges changed v"
  then obtain i w where i: "i \<in> set changed" "live_row db project (edge_at edges i) = Some w" "rv_id w = rv_id v"
    by (auto simp: superseded_at_def)
  note w = i(2) [unfolded live_row_iff [OF one_roundD(1) [OF R]]]
  then have "w = v" using version_by_id [OF one_roundD(1) [OF R], of w v] assms(2) i(3) by blast
  with w i(1) show "er_project v = project \<and> er_key v \<in> edge_at edges ` set changed" by blast
next
  assume "er_project v = project \<and> er_key v \<in> edge_at edges ` set changed"
  then obtain i where i: "i \<in> set changed" "er_key v = edge_at edges i" "er_project v = project" by blast
  then have "live_row db project (edge_at edges i) = Some v" using assms(2,3) by (simp add: live_row_iff [OF one_roundD(1) [OF R]])
  with i(1) show "superseded_at db project edges changed v" unfolding superseded_at_def by blast
qed

lemma round_live_rows:
  assumes R: "one_round db project edges changed now fresh vs"
  shows "v \<in> set vs \<and> rv_invalidated_at v = None \<longleftrightarrow>
    (v \<in> set (versions db) \<and> rv_invalidated_at v = None \<and> \<not> (er_project v = project \<and> er_key v \<in> edge_at edges ` set changed))
    \<or> v \<in> new_row now fresh project edges db ` set changed"
proof -
  have new: "v \<in> new_row now fresh project edges db ` set changed \<longrightarrow> rv_invalidated_at v = None" by auto
  have "v \<in> set vs \<and> rv_invalidated_at v = None \<longleftrightarrow>
    (v \<in> set (versions db) \<and> rv_invalidated_at v = None \<and> \<not> superseded_at db project edges changed v)
    \<or> v \<in> new_row now fresh project edges db ` set changed"
    unfolding round_rows [OF R] Un_iff conj_disj_distribR close_where_live using new by satx
  moreover have "v \<in> set (versions db) \<and> rv_invalidated_at v = None \<longrightarrow>
      (superseded_at db project edges changed v \<longleftrightarrow> er_project v = project \<and> er_key v \<in> edge_at edges ` set changed)"
    by (intro impI round_superseded [OF R]) (erule conjunct1, erule conjunct2)
  ultimately show ?thesis by satx
qed

lemma round_newest:
  assumes R: "one_round db project edges changed now fresh vs" and "v \<in> set vs" "w \<in> set vs" "rv_relationship v = rv_relationship w" "rv_invalidated_at v = None"
  shows "rv_number w \<le> rv_number v"
proof -
  have w: "(\<exists>w0\<in>set (versions db). rv_number w = rv_number w0 \<and> rv_relationship w = rv_relationship w0 \<and>
        er_project w = er_project w0 \<and> er_key w = er_key w0) \<or> w \<in> new_row now fresh project edges db ` set changed"
    using assms(3) unfolding round_rows [OF R] by (auto split: if_splits)
  consider (old) "v \<in> set (versions db)" "\<not> (er_project v = project \<and> er_key v \<in> edge_at edges ` set changed)"
    | (new) i where "i \<in> set changed" "v = new_row now fresh project edges db i"
    using round_live_rows [OF R, of v] assms(2,5) by blast
  then show ?thesis
  proof cases
    case old
    from w show ?thesis
    proof
      assume "w \<in> new_row now fresh project edges db ` set changed"
      then obtain j where j: "j \<in> set changed" "w = new_row now fresh project edges db j" by blast
      then have "rv_relationship v = identity_at db project edges j" using assms(4) by simp
      then show ?thesis using row_of_identity [OF one_roundD(1) [OF R] one_roundD(2) [OF R j(1)] old(1)] old(2) j(1) by blast
    qed (use graph_okD(8) [OF one_roundD(1) [OF R] old(1)] assms(4,5) in auto)
  next
    case new
    from w show ?thesis
    proof
      assume "w \<in> new_row now fresh project edges db ` set changed"
      then obtain j where j: "w = new_row now fresh project edges db j" by blast
      then show ?thesis using assms(4) new by simp
    next
      assume "\<exists>w0\<in>set (versions db). rv_number w = rv_number w0 \<and> rv_relationship w = rv_relationship w0 \<and>
        er_project w = er_project w0 \<and> er_key w = er_key w0"
      then obtain w0 where w0: "w0 \<in> set (versions db)" "rv_number w = rv_number w0" "rv_relationship w = rv_relationship w0"
        by blast
      then have "rv_relationship w0 = identity_at db project edges i" using assms(4) new(2) by simp
      then have "er_project w0 = project" using row_of_identity [OF one_roundD(1) [OF R] one_roundD(2) [OF R new(1)] w0(1)] by blast
      then have "rv_number w0 < next_number db project (identity_at db project edges i)"
        using w0(1) \<open>rv_relationship w0 = identity_at db project edges i\<close> by (intro next_number_greater)
      then show ?thesis using new(2) w0(2) by simp
    qed
  qed
qed

lemma round_described:
  assumes R: "one_round db project edges changed now fresh vs"
  shows "v \<in> set vs \<Longrightarrow> \<exists>r\<in>set (relationships db). describes r v"
  unfolding round_rows [OF R] Un_iff
proof (elim disjE)
  assume "v \<in> new_row now fresh project edges db ` set changed"
  then obtain i where i: "i \<in> set changed" "v = new_row now fresh project edges db i" by blast
  then show ?thesis using identity_at_row [OF one_roundD(1) [OF R] one_roundD(2) [OF R i(1)]] by (auto simp: describes_def)
qed (use graph_okD(7) [OF one_roundD(1) [OF R]] in \<open>auto split: if_splits\<close>)

lemma round_result_ok:
  assumes R: "one_round db project edges changed now fresh vs"
  shows "graph_ok (db\<lparr>versions := vs\<rparr>)"
proof -
  note i = insert_versions_SomeD [OF one_roundD(4) [OF R]]
  have "\<forall>v\<in>set vs. version_checks v" using i graph_okD(6) [OF one_roundD(1) [OF R]] by auto
  moreover have "distinct (map rv_id vs)" "distinct (map (\<lambda>v. (er_project v, rv_relationship v, rv_number v)) vs)"
    using i by blast+
  ultimately show ?thesis
    using one_roundD(1) [OF R] round_described [OF R] round_newest [OF R] unfolding graph_ok_def by auto
qed

lemma round_live_row:
  assumes R: "one_round db project edges changed now fresh vs"
  shows "live_row (db\<lparr>versions := vs\<rparr>) p key =
     (if p = project \<and> key \<in> edge_at edges ` set changed
      then Some (new_row now fresh project edges db (the (find (\<lambda>i. edge_at edges i = key) changed)))
      else live_row db p key)"
proof (rule option_ext)
  fix v
  have lhs: "live_row (db\<lparr>versions := vs\<rparr>) p key = Some v \<longleftrightarrow>
      (v \<in> set vs \<and> rv_invalidated_at v = None) \<and> er_project v = p \<and> er_key v = key"
    by (simp add: live_row_iff [OF round_result_ok [OF R]])
  show "live_row (db\<lparr>versions := vs\<rparr>) p key = Some v \<longleftrightarrow>
     (if p = project \<and> key \<in> edge_at edges ` set changed
      then Some (new_row now fresh project edges db (the (find (\<lambda>i. edge_at edges i = key) changed)))
      else live_row db p key) = Some v"
  proof (cases "p = project \<and> key \<in> edge_at edges ` set changed")
    case True
    then obtain i where i: "i \<in> set changed" "edge_at edges i = key" by blast
    obtain j where j: "find (\<lambda>i. edge_at edges i = key) changed = Some j"
      using i by (cases "find (\<lambda>i. edge_at edges i = key) changed") (auto simp: find_None_iff)
    then have "j = i" using find_SomeD [OF j] i round_same_edge [OF R, of j i] by simp
    have "live_row (db\<lparr>versions := vs\<rparr>) p key = Some v \<longleftrightarrow> v = new_row now fresh project edges db i"
    proof
      assume "live_row (db\<lparr>versions := vs\<rparr>) p key = Some v"
      then have "er_project v = p" "er_key v = key" "v \<in> new_row now fresh project edges db ` set changed"
        unfolding lhs round_live_rows [OF R] using True by blast+
      then obtain m where m: "m \<in> set changed" "v = new_row now fresh project edges db m" by blast
      then have "m = i" using \<open>er_key v = key\<close> i by (intro round_same_edge [OF R]) simp_all
      then show "v = new_row now fresh project edges db i" using m by simp
    next
      assume v: "v = new_row now fresh project edges db i"
      then have "v \<in> new_row now fresh project edges db ` set changed" using i(1) by blast
      moreover have "er_project v = p" "er_key v = key" using v True i(2) by simp_all
      ultimately show "live_row (db\<lparr>versions := vs\<rparr>) p key = Some v"
        unfolding lhs round_live_rows [OF R] by blast
    qed
    moreover have "(if p = project \<and> key \<in> edge_at edges ` set changed
      then Some (new_row now fresh project edges db (the (find (\<lambda>i. edge_at edges i = key) changed)))
      else live_row db p key) = Some (new_row now fresh project edges db i)"
      using True j \<open>j = i\<close> by simp
    ultimately show ?thesis by auto
  next
    case False
    have "live_row (db\<lparr>versions := vs\<rparr>) p key = Some v \<longleftrightarrow> live_row db p key = Some v"
    proof -
      have "v \<in> new_row now fresh project edges db ` set changed \<Longrightarrow> er_project v = project \<and> er_key v \<in> edge_at edges ` set changed"
        by auto
      then show ?thesis
        unfolding lhs round_live_rows [OF R] live_row_iff [OF one_roundD(1) [OF R]] using False by blast
    qed
    then show ?thesis using False by (simp only: if_False)
  qed
qed

section \<open>Assertions refine updates of what stands\<close>

definition assert_upto ::
  "asserting list \<Rightarrow> nat list \<Rightarrow> (edge_key \<rightharpoonup> edge_content) \<Rightarrow> (edge_key \<rightharpoonup> edge_content)" where
  "assert_upto edges indices m = fold (\<lambda>i m. m(edge_at edges i \<mapsto> content_at edges i)) indices m"

lemma assert_upto_last:
  "assert_upto edges indices m key =
     (case filter (\<lambda>i. edge_at edges i = key) indices of
        [] \<Rightarrow> m key
      | x # xs \<Rightarrow> Some (content_at edges (last (x # xs))))"
proof (induction indices arbitrary: m)
  case (Cons i indices)
  have "assert_upto edges (i # indices) m key
      = assert_upto edges indices (m(edge_at edges i \<mapsto> content_at edges i)) key"
    by (simp add: assert_upto_def)
  then show ?case using Cons [of "m(edge_at edges i \<mapsto> content_at edges i)"]
    by (cases "filter (\<lambda>i. edge_at edges i = key) indices") auto
qed (simp add: assert_upto_def)

lemma assert_upto_append:
  "assert_upto edges (xs @ ys) m = assert_upto edges ys (assert_upto edges xs m)"
  by (simp add: assert_upto_def)

lemma assert_upto_cong:
  "(\<And>key. filter (\<lambda>i. edge_at edges i = key) xs = filter (\<lambda>i. edge_at edges i = key) ys)
    \<Longrightarrow> assert_upto edges xs m = assert_upto edges ys m"
  by (rule ext) (simp only: assert_upto_last)

lemma filter_edge_at:
  "distinct (map (edge_at edges) xs) \<Longrightarrow> i \<in> set xs \<Longrightarrow> filter (\<lambda>j. edge_at edges j = edge_at edges i) xs = [i]"
  by (rule filter_only) (auto simp: distinct_map dest: inj_onD)

lemma assert_upto_distinct:
  assumes "distinct (map (edge_at edges) xs)"
  shows "i \<in> set xs \<Longrightarrow> assert_upto edges xs m (edge_at edges i) = Some (content_at edges i)"
    and "key \<notin> edge_at edges ` set xs \<Longrightarrow> assert_upto edges xs m key = m key"
proof -
  show "i \<in> set xs \<Longrightarrow> assert_upto edges xs m (edge_at edges i) = Some (content_at edges i)"
    by (simp add: assert_upto_last filter_edge_at [OF assms])
  assume "key \<notin> edge_at edges ` set xs"
  then have "filter (\<lambda>i. edge_at edges i = key) xs = []" by (auto simp: filter_empty_conv)
  then show "assert_upto edges xs m key = m key" by (simp add: assert_upto_last)
qed

lemma assert_within_spec:
  assumes ok: "graph_ok db" and a: "assert_within now fresh_rel fresh_ver project edges indices db = Some (db', written)"
    and d: "distinct (map (edge_at edges) indices)"
  shows "graph_ok db'" and "stands db' project = assert_upto edges indices (stands db project)"
    and "p \<noteq> project \<Longrightarrow> stands db' p = stands db p"
    and "written = map (\<lambda>i. written ! i) [0..<length indices]"
    and "length written = length indices"
    and "n < length indices \<Longrightarrow> is_new (written ! n) \<longleftrightarrow> stands db project (edge_at edges (indices ! n)) \<noteq> Some (content_at edges (indices ! n))"
proof -
  obtain db1 vs where db1: "graph_ok db1" "versions db1 = versions db" "g_topics db1 = g_topics db"
    "set (relationships db) \<subseteq> set (relationships db1)"
    and found: "\<forall>i\<in>set indices. find_relationship db1 project (edge_at edges i) \<noteq> None"
    and ins: "insert_versions (map (new_row now fresh_ver project edges db1) (filter (changes_at db1 project edges) indices))
      (close_where now Superseded (superseded_at db1 project edges (filter (changes_at db1 project edges) indices))
        (versions db1)) = Some vs"
    and db': "db' = db1\<lparr>versions := vs\<rparr>"
    and w: "written = map (answer now fresh_ver project edges db1 \<circ> decided_at db1 project edges) indices"
    by (rule assert_within_unfold [OF ok a])
  let ?changed = "filter (changes_at db1 project edges) indices"
  have R: "one_round db1 project edges ?changed now fresh_ver vs"
    unfolding one_round_def using db1(1) found ins d by (auto simp: distinct_map_filter)
  have st: "stands db1 = stands db" by (rule stands_versions [OF db1(2)])
  show "graph_ok db'" unfolding db' by (rule round_result_ok [OF R])
  show "p \<noteq> project \<Longrightarrow> stands db' p = stands db p"
    unfolding st [symmetric] by (rule ext) (simp add: stands_def db' round_live_row [OF R])
  show len: "length written = length indices" by (simp add: w)
  then show "written = map (\<lambda>i. written ! i) [0..<length indices]" by (metis map_nth)
  show "is_new (written ! n) \<longleftrightarrow> stands db project (edge_at edges (indices ! n)) \<noteq> Some (content_at edges (indices ! n))"
    if "n < length indices"
    using that by (simp add: w answer_def unchanged_decided changes_at_def st)
  show "stands db' project = assert_upto edges indices (stands db project)"
  proof (rule ext)
    fix key
    show "stands db' project key = assert_upto edges indices (stands db project) key"
    proof (cases "key \<in> edge_at edges ` set indices")
      case True
      then obtain i where i: "i \<in> set indices" "key = edge_at edges i" by blast
      have "stands db' project key = Some (content_at edges i)"
      proof (cases "changes_at db1 project edges i")
        case True
        then have ic: "i \<in> set ?changed" using i by simp
        have "find (\<lambda>j. edge_at edges j = key) ?changed = Some i"
        proof -
          have "find (\<lambda>j. edge_at edges j = key) ?changed \<noteq> None" using ic i by (auto simp: find_None_iff)
          then obtain j where j: "find (\<lambda>j. edge_at edges j = key) ?changed = Some j" by blast
          then have "j = i" using find_SomeD [OF j] ic i round_same_edge [OF R, of j i] by blast
          with j show ?thesis by simp
        qed
        moreover have "key \<in> edge_at edges ` set ?changed" using ic i(2) by blast
        ultimately show ?thesis by (simp add: stands_def db' round_live_row [OF R])
      next
        case False
        then have "key \<notin> edge_at edges ` set ?changed"
          using i d by (auto simp: distinct_map dest: inj_onD)
        then have "stands db' project key = stands db1 project key" by (simp add: stands_def db' round_live_row [OF R])
        then show ?thesis using False i(2) by (simp add: changes_at_def)
      qed
      then show ?thesis using assert_upto_distinct(1) [OF d i(1)] i(2) by simp
    next
      case False
      then have "key \<notin> edge_at edges ` set ?changed" by auto
      then have "stands db' project key = stands db project key"
        by (simp add: stands_def db' round_live_row [OF R]) (simp add: live_row_def db1(2))
      then show ?thesis using assert_upto_distinct(2) [OF d False] by simp
    qed
  qed
qed

section \<open>Rounds\<close>

definition placed :: "asserting list \<Rightarrow> nat list list \<Rightarrow> (edge_key \<Rightarrow> nat) \<Rightarrow> nat list \<Rightarrow> bool" where
  "placed edges rounds seen done \<longleftrightarrow>
     (\<forall>key. seen key \<le> length rounds \<and>
        (\<forall>n<length rounds. length (filter (\<lambda>i. edge_at edges i = key) (rounds ! n)) = (if n < seen key then 1 else 0)) \<and>
        filter (\<lambda>i. edge_at edges i = key) (concat rounds) = filter (\<lambda>i. edge_at edges i = key) done) \<and>
     mset (concat rounds) = mset done"

lemma placedD:
  assumes "placed edges rounds seen done"
  shows "seen key \<le> length rounds"
    and "n < length rounds \<Longrightarrow> length (filter (\<lambda>i. edge_at edges i = key) (rounds ! n)) = (if n < seen key then 1 else 0)"
    and "filter (\<lambda>i. edge_at edges i = key) (concat rounds) = filter (\<lambda>i. edge_at edges i = key) done"
    and "mset (concat rounds) = mset done"
  using assms unfolding placed_def by blast+

lemma concat_update:
  "n < length rs \<Longrightarrow> concat (rs[n := rs ! n @ [x]]) = concat (take n rs) @ rs ! n @ x # concat (drop (Suc n) rs)"
  by (simp add: upd_conv_take_nth_drop)

lemma concat_split: "n < length rs \<Longrightarrow> concat rs = concat (take n rs) @ rs ! n @ concat (drop (Suc n) rs)"
  by (metis concat.simps(2) concat_append id_take_nth_drop)

lemma placed_grow:
  assumes P: "placed edges rounds seen done"
  shows "placed edges (rounds @ [[]]) seen done"
proof -
  have "length (filter (\<lambda>i. edge_at edges i = key) ((rounds @ [[]]) ! n)) = (if n < seen key then 1 else 0)"
    if "n < length (rounds @ [[]])" for key n
    using that placedD(1,2) [OF P, where key = key] by (cases "n < length rounds") (auto simp: nth_append)
  moreover have "seen key \<le> length (rounds @ [[]])" for key using placedD(1) [OF P, of key] by simp
  ultimately show ?thesis using placedD(3,4) [OF P] unfolding placed_def by simp
qed

lemma placed_step:
  assumes P: "placed edges rounds seen done" and l: "seen (edge_at edges index) < length rounds"
  shows "placed edges (rounds[seen (edge_at edges index) := rounds ! seen (edge_at edges index) @ [index]])
    (seen(edge_at edges index := seen (edge_at edges index) + 1)) (done @ [index])"
proof -
  let ?k = "edge_at edges index" let ?n = "seen ?k"
  let ?rounds = "rounds[?n := rounds ! ?n @ [index]]"
  have later: "filter (\<lambda>i. edge_at edges i = ?k) (concat (drop (Suc ?n) rounds)) = []"
  proof -
    have "filter (\<lambda>i. edge_at edges i = ?k) r = []" if r: "r \<in> set (drop (Suc ?n) rounds)" for r
    proof -
      obtain j where j: "j < length rounds - Suc ?n" "r = rounds ! (Suc ?n + j)"
        using r by (auto simp: in_set_conv_nth)
      then have "length (filter (\<lambda>i. edge_at edges i = ?k) r) = 0"
        using placedD(2) [OF P, where n = "Suc ?n + j" and key = ?k] by simp
      then show ?thesis by simp
    qed
    then show ?thesis by (simp add: filter_concat)
  qed
  have "filter (\<lambda>i. edge_at edges i = key) (concat ?rounds) = filter (\<lambda>i. edge_at edges i = key) (done @ [index])" for key
    using placedD(3) [OF P, of key] later unfolding concat_update [OF l] concat_split [OF l] by (cases "key = ?k") auto
  moreover have "mset (concat ?rounds) = mset (done @ [index])"
    using placedD(4) [OF P] unfolding concat_update [OF l] concat_split [OF l] by simp
  moreover have "length (filter (\<lambda>i. edge_at edges i = key) (?rounds ! m)) = (if m < (seen(?k := ?n + 1)) key then 1 else 0)"
    if "m < length rounds" for key m
    using placedD(2) [OF P that, where key = key] l by (cases "key = ?k"; cases "m = ?n") auto
  moreover have "(seen(?k := ?n + 1)) key \<le> length rounds" for key using placedD(1) [OF P, of key] l by auto
  ultimately show ?thesis unfolding placed_def by simp
qed

lemma place_rounds_placed:
  "placed edges rounds seen done \<Longrightarrow> \<exists>seen'. placed edges (place_rounds edges pending rounds seen) seen' (done @ pending)"
proof (induction pending arbitrary: rounds seen "done")
  case (Cons index pending)
  let ?k = "edge_at edges index" let ?n = "seen ?k"
  let ?grown = "if length rounds = ?n then rounds @ [[]] else rounds"
  have g: "placed edges ?grown seen done" using Cons.prems placed_grow by simp
  have "?n \<le> length rounds" by (rule placedD(1) [OF Cons.prems])
  then have "?n < length ?grown" by auto
  from Cons.IH [OF placed_step [OF g this]] show ?case
    by (simp add: edge_at_def Let_def del: fun_upd_apply)
qed auto

lemma distinct_map_filter_le:
  "(\<And>key. length (filter (\<lambda>i. f i = key) xs) \<le> 1) \<Longrightarrow> distinct (map f xs)"
proof (induction xs)
  case (Cons x xs)
  have "length (filter (\<lambda>i. f i = key) xs) \<le> 1" for key
    using Cons.prems [of key] by (auto split: if_splits)
  moreover have "f x \<notin> f ` set xs"
    using Cons.prems [of "f x"] by (auto simp: filter_empty_conv)
  ultimately show ?case using Cons.IH by simp
qed simp

lemma repeats_apart_spec:
  "list_all (\<lambda>batch. distinct (map (edge_at edges) batch)) (repeats_apart edges pending)"
  "mset (concat (repeats_apart edges pending)) = mset pending"
  "filter (\<lambda>i. edge_at edges i = key) (concat (repeats_apart edges pending)) = filter (\<lambda>i. edge_at edges i = key) pending"
proof -
  have "placed edges [] (\<lambda>_. 0) []" by (simp add: placed_def)
  from place_rounds_placed [OF this, of pending] obtain seen where
    P: "placed edges (repeats_apart edges pending) seen pending" by (auto simp: repeats_apart_def)
  then show "mset (concat (repeats_apart edges pending)) = mset pending"
    "filter (\<lambda>i. edge_at edges i = key) (concat (repeats_apart edges pending)) = filter (\<lambda>i. edge_at edges i = key) pending"
    using placedD(3,4) [OF P] by blast+
  have "distinct (map (edge_at edges) batch)" if b: "batch \<in> set (repeats_apart edges pending)" for batch
  proof -
    have "length (filter (\<lambda>i. edge_at edges i = key) batch) \<le> 1" for key
    proof -
      obtain n where "n < length (repeats_apart edges pending)" "batch = repeats_apart edges pending ! n"
        using b by (auto simp: in_set_conv_nth)
      then show ?thesis using placedD(2) [OF P, where n = n and key = key] by simp
    qed
    then show ?thesis by (rule distinct_map_filter_le)
  qed
  then show "list_all (\<lambda>batch. distinct (map (edge_at edges) batch)) (repeats_apart edges pending)"
    by (simp add: list_all_iff)
qed

section \<open>Whole calls\<close>

lemma assert_rounds_spec:
  "graph_ok db \<Longrightarrow> assert_rounds now fresh_rel fresh_ver project edges rounds db asserted = Some (db', asserted') \<Longrightarrow>
    list_all (\<lambda>batch. distinct (map (edge_at edges) batch)) rounds \<Longrightarrow>
    graph_ok db' \<and> stands db' project = assert_upto edges (concat rounds) (stands db project) \<and>
    (\<forall>p. p \<noteq> project \<longrightarrow> stands db' p = stands db p) \<and>
    dom asserted' = dom asserted \<union> set (concat rounds)"
proof (induction rounds arbitrary: db asserted)
  case (Cons batch rounds)
  from Cons.prems(2) obtain db1 written where
    w: "assert_within now fresh_rel fresh_ver project edges batch db = Some (db1, written)"
    and r: "assert_rounds now fresh_rel fresh_ver project edges rounds db1 (asserted ++ map_of (zip batch written)) = Some (db', asserted')"
    by (auto split: option.splits)
  have d: "distinct (map (edge_at edges) batch)" and ds: "list_all (\<lambda>batch. distinct (map (edge_at edges) batch)) rounds"
    using Cons.prems(3) by simp_all
  note one = assert_within_spec [OF Cons.prems(1) w d]
  from Cons.IH [OF one(1) r ds] one(2,3,5) show ?case
    by (auto simp: assert_upto_append dom_map_of_zip)
qed (simp add: assert_upto_def)

lemma live_versions_of_stands:
  assumes "graph_ok db" and "key \<in> key_of ` set edges"
  shows "live_versions_of db project edges key = map_option row_to_version (live_row db project key)"
proof (cases "find_relationship db project key")
  case None
  have "live_row db project key = None"
  proof (rule ccontr)
    assume "live_row db project key \<noteq> None"
    then obtain v where "live_row db project key = Some v" by blast
    then have v: "v \<in> set (versions db)" "er_project v = project" "er_key v = key"
      by (auto simp: live_row_iff [OF assms(1)])
    obtain r where "r \<in> set (relationships db)" "describes r v" using graph_okD(7) [OF assms(1) v(1)] by blast
    then have "find_relationship db project key = Some r"
      using v by (simp add: find_relationship_iff [OF assms(1)] describes_def)
    with None show False by simp
  qed
  then show ?thesis using None by (simp add: live_versions_of_def)
next
  case (Some r)
  then show ?thesis using assms(2) newest_live_row [OF assms(1) Some] by (simp add: live_versions_of_def live_version_def)
qed

lemma row_to_version_content [simp]: "claim_matches c (row_to_version v) \<longleftrightarrow> claim_matches c v"
  by (simp add: row_to_version_def claim_matches_def relationship_version.truncate_def)

lemma unchanged_at_iff:
  assumes "graph_ok db" and "i < length edges"
  shows "unchanged_at db project edges i = None \<longleftrightarrow> stands db project (edge_at edges i) \<noteq> Some (content_at edges i)"
proof -
  have "edge_at edges i \<in> key_of ` set edges" using assms(2) by (simp add: edge_at_def)
  from live_versions_of_stands [OF assms(1) this] show ?thesis
    by (cases "live_row db project (edge_at edges i)")
      (simp_all add: unchanged_at_def edge_at_def [symmetric] stands_def claim_matches_content content_at_def)
qed

lemma pending_edges_eq:
  "graph_ok db \<Longrightarrow> pending_edges db project edges =
    filter (\<lambda>i. stands db project (edge_at edges i) \<noteq> Some (content_at edges i)) [0..<length edges]"
  unfolding pending_edges_def by (rule filter_cong) (simp_all add: unchanged_at_iff)

text \<open>Skipping the edges that already stand changes nothing, when no edge is asked about twice.\<close>

lemma assert_upto_pending:
  assumes "distinct (map (edge_at edges) indices)"
  shows "assert_upto edges (filter (\<lambda>i. m (edge_at edges i) \<noteq> Some (content_at edges i)) indices) m
       = assert_upto edges indices m"
proof (rule ext)
  fix key
  let ?pending = "filter (\<lambda>i. m (edge_at edges i) \<noteq> Some (content_at edges i)) indices"
  have d: "distinct (map (edge_at edges) ?pending)" using assms by (simp add: distinct_map_filter)
  show "assert_upto edges ?pending m key = assert_upto edges indices m key"
  proof (cases "key \<in> edge_at edges ` set indices")
    case True
    then obtain i where i: "i \<in> set indices" "key = edge_at edges i" by blast
    show ?thesis
    proof (cases "i \<in> set ?pending")
      case False
      then have "key \<notin> edge_at edges ` set ?pending"
        using assms i by (auto simp: distinct_map dest: inj_onD)
      then show ?thesis using assert_upto_distinct(2) [OF d] assert_upto_distinct(1) [OF assms i(1)] False i by simp
    qed (use i assert_upto_distinct(1) [OF d] assert_upto_distinct(1) [OF assms i(1)] in simp)
  next
    case False
    then have "key \<notin> edge_at edges ` set ?pending" by auto
    then show ?thesis using assert_upto_distinct(2) [OF d] assert_upto_distinct(2) [OF assms False] by simp
  qed
qed

lemma assert_edges_unfold:
  assumes "assert_edges now fresh_rel fresh_ver project edges snapshot db = Some (db', written)"
  obtains asserted where
    "assert_rounds now fresh_rel fresh_ver project edges (repeats_apart edges (pending_edges snapshot project edges)) db
      (\<lambda>i. map_option Unchanged (unchanged_at snapshot project edges i)) = Some (db', asserted)"
    "written = map (\<lambda>i. the (asserted i)) [0..<length edges]"
  using assms by (auto simp: assert_edges_def split: option.splits)

lemma assert_edges_stands:
  assumes ok: "graph_ok db" and a: "assert_edges now fresh_rel fresh_ver project edges snapshot db = Some (db', written)"
  shows "graph_ok db'"
    and "stands db' project = assert_upto edges (pending_edges snapshot project edges) (stands db project)"
    and "p \<noteq> project \<Longrightarrow> stands db' p = stands db p"
    and "\<exists>asserted. written = map (\<lambda>i. the (asserted i)) [0..<length edges] \<and> {..<length edges} \<subseteq> dom asserted"
proof -
  obtain asserted where
    r: "assert_rounds now fresh_rel fresh_ver project edges (repeats_apart edges (pending_edges snapshot project edges)) db
      (\<lambda>i. map_option Unchanged (unchanged_at snapshot project edges i)) = Some (db', asserted)"
    and w: "written = map (\<lambda>i. the (asserted i)) [0..<length edges]" by (rule assert_edges_unfold [OF a])
  note s = assert_rounds_spec [OF ok r repeats_apart_spec(1)]
  then show "graph_ok db'" "p \<noteq> project \<Longrightarrow> stands db' p = stands db p" by blast+
  show "stands db' project = assert_upto edges (pending_edges snapshot project edges) (stands db project)"
    using s assert_upto_cong [OF repeats_apart_spec(3)] by simp
  have "set (concat (repeats_apart edges (pending_edges snapshot project edges))) = set (pending_edges snapshot project edges)"
    using repeats_apart_spec(2) by (rule mset_eq_setD)
  then have "i \<in> dom asserted" if "i < length edges" for i
    using s that by (auto simp: pending_edges_def dom_def)
  then show "\<exists>asserted. written = map (\<lambda>i. the (asserted i)) [0..<length edges] \<and> {..<length edges} \<subseteq> dom asserted"
    using w by blast
qed

lemma edge_at_distinct: "distinct (map key_of edges) \<Longrightarrow> distinct (map (edge_at edges) [0..<length edges])"
proof -
  have "map (edge_at edges) [0..<length edges] = map key_of edges"
    by (rule nth_equalityI) (simp_all add: edge_at_def)
  then show "distinct (map key_of edges) \<Longrightarrow> distinct (map (edge_at edges) [0..<length edges])" by simp
qed

definition assert_claim :: "asserting \<Rightarrow> (edge_key \<rightharpoonup> edge_content) \<Rightarrow> (edge_key \<rightharpoonup> edge_content)" where
  "assert_claim e m = m(key_of e \<mapsto> claim_content (claim_of e))"

lemma assert_upto_all: "assert_upto edges [0..<length edges] m = fold assert_claim edges m"
proof -
  have "fold (\<lambda>i m. assert_claim (edges ! i) m) [0..<length edges] m = fold assert_claim (map ((!) edges) [0..<length edges]) m"
    by (simp add: fold_map comp_def)
  then show ?thesis by (simp add: assert_upto_def assert_claim_def edge_at_def content_at_def map_nth)
qed

lemma assert_edges_refines:
  assumes "graph_ok db" and "distinct (map key_of edges)"
    and "assert_edges now fresh_rel fresh_ver project edges db db = Some (db', written)"
  shows "stands db' = (stands db)(project := fold assert_claim edges (stands db project))"
proof (rule ext)
  fix p
  note s = assert_edges_stands [OF assms(1,3)]
  show "stands db' p = ((stands db)(project := fold assert_claim edges (stands db project))) p"
    using s(2,3) assert_upto_pending [OF edge_at_distinct [OF assms(2)], of "stands db project"]
    by (simp add: pending_edges_eq [OF assms(1)] assert_upto_all [symmetric])
qed

lemma assert_edges_idle:
  assumes "graph_ok db" and "\<And>i. i < length edges \<Longrightarrow> stands db project (edge_at edges i) = Some (content_at edges i)"
  shows "\<exists>written. assert_edges now fresh_rel fresh_ver project edges db db = Some (db, written) \<and>
    length written = length edges \<and> list_all (\<lambda>a. \<not> is_new a) written"
proof -
  have "pending_edges db project edges = []"
    using assms(2) by (simp add: pending_edges_eq [OF assms(1)] filter_empty_conv)
  moreover have "\<exists>v. unchanged_at db project edges i = Some v" if "i < length edges" for i
    using unchanged_at_iff [OF assms(1) that] assms(2) [OF that] by auto
  ultimately show ?thesis
    by (auto simp: assert_edges_def repeats_apart_def list_all_iff) fastforce
qed

section \<open>Retractions\<close>

lemma live_of_relationship:
  assumes ok: "graph_ok db" and v: "live_row db p key = Some v" and r: "r \<in> set (relationships db)"
  shows "rv_relationship v = rel_id r \<longleftrightarrow> rel_project r = p \<and> rel_key r = key"
proof -
  note v' = v [unfolded live_row_iff [OF ok]]
  then have "v \<in> set (versions db)" by blast
  from graph_okD(7) [OF ok this] obtain a where a: "a \<in> set (relationships db)" "describes a v" by blast
  have "rel_id a = rel_id r \<longleftrightarrow> rel_project a = rel_project r \<and> rel_key a = rel_key r"
    using rel_by_id [OF ok a(1) r] rel_by_key [OF ok a(1) r] by auto
  then show ?thesis using a(2) v' by (auto simp: describes_def)
qed

definition closes_edge :: "graph_db \<Rightarrow> project_id \<Rightarrow> edge_key \<Rightarrow> edge_row \<Rightarrow> bool" where
  "closes_edge db project key v \<longleftrightarrow> rv_invalidated_at v = None \<and>
     rv_relationship v \<in> set (map rel_id (filter (\<lambda>r. rel_project r = project \<and> rel_key r = key) (relationships db)))"

lemma close_edge_eq:
  "close_edge now project key reason db =
    (db\<lparr>versions := close_where now reason (closes_edge db project key) (versions db)\<rparr>,
     0 < length (filter (closes_edge db project key) (versions db)))"
  unfolding close_edge_def Let_def closes_edge_def by (rule refl)

lemma closes_edge_iff:
  assumes ok: "graph_ok db" and v: "live_row db p k = Some v"
  shows "closes_edge db project key v \<longleftrightarrow> p = project \<and> k = key"
proof -
  note v' = v [unfolded live_row_iff [OF ok]]
  then have "v \<in> set (versions db)" by blast
  from graph_okD(7) [OF ok this] obtain a where a: "a \<in> set (relationships db)" "describes a v" by blast
  have ak: "rel_project a = p" "rel_key a = k" "rv_relationship v = rel_id a" using a(2) v' by (auto simp: describes_def)
  have "closes_edge db project key v \<longleftrightarrow>
      (\<exists>r\<in>set (relationships db). rel_project r = project \<and> rel_key r = key \<and> rel_id a = rel_id r)"
    using v' ak(3) unfolding closes_edge_def by auto
  also have "\<dots> \<longleftrightarrow> p = project \<and> k = key"
    using a(1) ak rel_by_id [OF ok a(1)] by metis
  finally show ?thesis .
qed

lemma close_edge_spec:
  assumes ok: "graph_ok db" and c: "close_edge now project key reason db = (db', was_open)"
  shows "graph_ok db'" and "stands db' = (stands db)(project := (stands db project)(key := None))"
    and "was_open \<longleftrightarrow> stands db project key \<noteq> None"
proof -
  have db': "db' = db\<lparr>versions := close_where now reason (closes_edge db project key) (versions db)\<rparr>"
    and cl: "was_open \<longleftrightarrow> (\<exists>v\<in>set (versions db). closes_edge db project key v)"
    using c unfolding close_edge_eq prod.inject by (auto simp: filter_empty_conv)
  show "graph_ok db'" unfolding db' by (rule close_where_ok [OF ok])
  show "stands db' = (stands db)(project := (stands db project)(key := None))"
  proof (rule ext, rule ext)
    fix p k
    show "stands db' p k = ((stands db)(project := (stands db project)(key := None))) p k"
      using closes_edge_iff [OF ok, of p k] unfolding db' stands_def live_row_close [OF ok]
      by (cases "p = project"; cases "live_row db p k") simp_all
  qed
  show "was_open \<longleftrightarrow> stands db project key \<noteq> None"
  proof
    assume was_open
    then obtain v where v: "v \<in> set (versions db)" "closes_edge db project key v" using cl by blast
    then have l: "live_row db (er_project v) (er_key v) = Some v" by (simp add: live_row_iff [OF ok] closes_edge_def)
    then show "stands db project key \<noteq> None" using closes_edge_iff [OF ok l, of project key] v(2) by (simp add: stands_def)
  next
    assume "stands db project key \<noteq> None"
    then obtain v where v: "live_row db project key = Some v" by (auto simp: stands_def)
    then have "v \<in> set (versions db)" by (simp add: live_row_iff [OF ok])
    then show was_open using closes_edge_iff [OF ok v, of project key] cl by blast
  qed
qed

definition no_longer_said ::
  "edge_kind \<Rightarrow> (topic_id \<times> topic_id list) list \<Rightarrow> edge_key \<Rightarrow> edge_content \<Rightarrow> bool" where
  "no_longer_said kind keep key content \<longleftrightarrow>
     (case key of (f, t, k) \<Rightarrow>
        k = kind \<and> f \<in> fst ` set keep \<and> \<not> (\<exists>(g, tos)\<in>set keep. g = f \<and> t \<in> set tos) \<and>
        fst content = Deterministic)"

definition closes_unsaid ::
  "graph_db \<Rightarrow> project_id \<Rightarrow> edge_kind \<Rightarrow> (topic_id \<times> topic_id list) list \<Rightarrow> edge_row \<Rightarrow> bool" where
  "closes_unsaid db project kind keep v \<longleftrightarrow>
     rv_invalidated_at v = None \<and> rv_derivation v = Deterministic \<and>
     rv_relationship v \<in> set (map rel_id (filter (\<lambda>r. rel_project r = project \<and> rel_from r \<in> set (map fst keep) \<and> rel_kind r = kind \<and>
        (rel_from r, rel_to r) \<notin> set (concat (map (\<lambda>(f, tos). map (\<lambda>t. (f, t)) tos) keep)) \<and>
        (\<exists>v\<in>set (versions db). rv_relationship v = rel_id r \<and> rv_invalidated_at v = None \<and>
            rv_derivation v = Deterministic)) (relationships db)))"

lemma retract_eq:
  "keep \<noteq> [] \<Longrightarrow> retract_derived_all now project kind keep db =
    (db\<lparr>versions := close_where now Closed (closes_unsaid db project kind keep) (versions db)\<rparr>,
     length (filter (closes_unsaid db project kind keep) (versions db)))"
  unfolding retract_derived_all_def Let_def closes_unsaid_def by (simp only: if_False)

lemma closes_unsaid_iff:
  assumes ok: "graph_ok db" and v: "live_row db p key = Some v"
  shows "closes_unsaid db project kind keep v \<longleftrightarrow> p = project \<and> no_longer_said kind keep key (row_content v)"
proof -
  let ?kept = "concat (map (\<lambda>(f, tos). map (\<lambda>t. (f, t)) tos) keep)"
  obtain f t k where key: "key = (f, t, k)" by (cases key)
  note v' = v [unfolded live_row_iff [OF ok]]
  from v' graph_okD(7) [OF ok] obtain a where a: "a \<in> set (relationships db)" "describes a v" by blast
  have ak: "rel_project a = p" "rel_from a = f" "rel_to a = t" "rel_kind a = k" "rv_relationship v = rel_id a"
    using a(2) v' key by (auto simp: describes_def rel_key_def)
  have one: "b = a" if "b \<in> set (relationships db)" "rv_relationship v = rel_id b" for b
    using rel_by_id [OF ok that(1) a(1)] ak(5) that(2) by simp
  have "closes_unsaid db project kind keep v \<longleftrightarrow>
      rv_derivation v = Deterministic \<and> p = project \<and> f \<in> fst ` set keep \<and> k = kind \<and> (f, t) \<notin> set ?kept"
  proof
    assume l: "closes_unsaid db project kind keep v"
    then obtain b where b: "b \<in> set (relationships db)" "rv_relationship v = rel_id b" "rel_project b = project"
      "rel_from b \<in> set (map fst keep)" "rel_kind b = kind" "(rel_from b, rel_to b) \<notin> set ?kept" by (auto simp: closes_unsaid_def)
    with one have "b = a" by blast
    then show "rv_derivation v = Deterministic \<and> p = project \<and> f \<in> fst ` set keep \<and> k = kind \<and> (f, t) \<notin> set ?kept"
      using l b(3-6) ak by (simp add: closes_unsaid_def)
  next
    assume r: "rv_derivation v = Deterministic \<and> p = project \<and> f \<in> fst ` set keep \<and> k = kind \<and> (f, t) \<notin> set ?kept"
    have "\<exists>w\<in>set (versions db). rv_relationship w = rel_id a \<and> rv_invalidated_at w = None \<and> rv_derivation w = Deterministic"
      using v' r ak(5) by blast
    then show "closes_unsaid db project kind keep v" using r v' ak a(1) by (simp add: closes_unsaid_def)
  qed
  moreover have "(f, t) \<in> set ?kept \<longleftrightarrow> (\<exists>(g, tos)\<in>set keep. g = f \<and> t \<in> set tos)" by auto
  ultimately show ?thesis by (simp add: no_longer_said_def key row_content_def) blast
qed

lemma retract_spec:
  assumes ok: "graph_ok db" and c: "retract_derived_all now project kind keep db = (db', was_open)"
  shows "graph_ok db'"
    and "stands db' p key = (case stands db p key of None \<Rightarrow> None
          | Some content \<Rightarrow> if p = project \<and> no_longer_said kind keep key content then None else Some content)"
proof -
  have db': "db' = (if keep = [] then db else db\<lparr>versions := close_where now Closed (closes_unsaid db project kind keep) (versions db)\<rparr>)"
    using c retract_eq by (cases "keep = []") (simp_all add: retract_derived_all_def)
  show "graph_ok db'" unfolding db' using close_where_ok [OF ok] ok by simp
  show "stands db' p key = (case stands db p key of None \<Rightarrow> None
          | Some content \<Rightarrow> if p = project \<and> no_longer_said kind keep key content then None else Some content)"
  proof (cases "keep = []")
    case True
    then show ?thesis by (auto simp: db' no_longer_said_def split: option.splits)
  next
    case False
    then show ?thesis using closes_unsaid_iff [OF ok]
      by (cases "live_row db p key") (simp_all add: db' stands_def live_row_close [OF ok])
  qed
qed

text \<open>With nothing unsaid a retraction writes nothing.\<close>

lemma retract_idle:
  assumes ok: "graph_ok db" and said: "\<And>key content. stands db project key = Some content \<Longrightarrow> \<not> no_longer_said kind keep key content"
  shows "retract_derived_all now project kind keep db = (db, 0)"
proof (cases "keep = []")
  case False
  have "\<not> closes_unsaid db project kind keep v" if "v \<in> set (versions db)" for v
  proof
    assume c: "closes_unsaid db project kind keep v"
    then have l: "live_row db (er_project v) (er_key v) = Some v" using that by (simp add: live_row_iff [OF ok] closes_unsaid_def)
    then have st: "stands db (er_project v) (er_key v) = Some (row_content v)" by (simp add: stands_def)
    have "er_project v = project" "no_longer_said kind keep (er_key v) (row_content v)"
      using closes_unsaid_iff [OF ok l] c by simp_all
    then show False using said [of "er_key v" "row_content v"] st by simp
  qed
  then have "close_where now Closed (closes_unsaid db project kind keep) (versions db) = versions db"
    "filter (closes_unsaid db project kind keep) (versions db) = []" by (simp_all add: map_idI filter_empty_conv)
  then show ?thesis unfolding retract_eq [OF False] by simp
qed (simp add: retract_derived_all_def)

text \<open>A batch that names no edge twice, claim by claim.\<close>

lemma fold_assert_claim:
  assumes "distinct (map key_of edges)"
  shows "fold assert_claim edges m key =
    (case find (\<lambda>e. key_of e = key) edges of None \<Rightarrow> m key | Some e \<Rightarrow> Some (claim_content (claim_of e)))"
  using assms
proof (induction edges arbitrary: m)
  case (Cons e edges)
  have "key_of e \<notin> key_of ` set edges" using Cons.prems by simp
  then have none: "find (\<lambda>x. key_of x = key_of e) edges = None" unfolding find_None_iff by (metis image_eqI)
  have IH: "fold assert_claim edges (assert_claim e m) key = (case find (\<lambda>e. key_of e = key) edges of None \<Rightarrow> assert_claim e m key
      | Some e \<Rightarrow> Some (claim_content (claim_of e)))" using Cons.prems by (intro Cons.IH) simp
  show ?case
  proof (cases "key_of e = key")
    case True
    with none have "find (\<lambda>x. key_of x = key) edges = None" by simp
    then have "fold assert_claim edges (assert_claim e m) key = assert_claim e m key" using IH by simp
    also have "\<dots> = Some (claim_content (claim_of e))" using True by (simp add: assert_claim_def)
    finally show ?thesis using True by simp
  next
    case False
    then have "assert_claim e m key = m key" by (simp add: assert_claim_def)
    then show ?thesis using IH False by (simp only: fold_simps comp_apply find.simps if_False)
  qed
qed simp

section \<open>The ledger as a state machine\<close>

inductive graph_step :: "graph_db \<Rightarrow> graph_db \<Rightarrow> bool" where
  asserted: "assert_edges now fresh_rel fresh_ver project edges snapshot db = Some (db', written) \<Longrightarrow> graph_step db db'"
| retracted: "retract_derived_all now project kind keep db = (db', n) \<Longrightarrow> graph_step db db'"
| closed: "close_edge now project key reason db = (db', c) \<Longrightarrow> graph_step db db'"

inductive reachable_graph :: "graph_db \<Rightarrow> bool" where
  empty: "reachable_graph \<lparr>g_topics = topics, relationships = [], versions = []\<rparr>"
| step: "reachable_graph db \<Longrightarrow> graph_step db db' \<Longrightarrow> reachable_graph db'"

lemma graph_step_ok: "graph_step db db' \<Longrightarrow> graph_ok db \<Longrightarrow> graph_ok db'"
  by (induction rule: graph_step.induct) (auto dest: assert_edges_stands(1) retract_spec(1) close_edge_spec(1))

lemma reachable_graph_okI: "reachable_graph db \<Longrightarrow> graph_ok db"
  by (induction rule: reachable_graph.induct) (auto simp: graph_ok_def [of "\<lparr>g_topics = _, relationships = [], versions = []\<rparr>"] graph_step_ok)

text \<open>
  What an operation may do to the history: append rows, and close a live one where it stands.
\<close>

definition kept_row :: "edge_row \<Rightarrow> edge_row \<Rightarrow> bool" where
  "kept_row v v' \<longleftrightarrow> v' = v \<or> rv_invalidated_at v = None \<and> (\<exists>t reason. v' = closed_row t reason v)"

definition history_kept :: "graph_db \<Rightarrow> graph_db \<Rightarrow> bool" where
  "history_kept db db' \<longleftrightarrow> (\<exists>kept added. versions db' = kept @ added \<and> list_all2 kept_row (versions db) kept)"

lemma kept_row_refl [simp]: "kept_row v v"
  by (simp add: kept_row_def)

lemma kept_row_trans: "kept_row a b \<Longrightarrow> kept_row b c \<Longrightarrow> kept_row a c"
  by (auto simp: kept_row_def)

lemma history_kept_refl: "versions db' = versions db \<Longrightarrow> history_kept db db'"
  unfolding history_kept_def by (intro exI [of _ "versions db"] exI [of _ "[]"]) (simp add: list_all2_same)

lemma history_kept_trans: "history_kept a b \<Longrightarrow> history_kept b c \<Longrightarrow> history_kept a c"
proof -
  assume "history_kept a b" "history_kept b c"
  then obtain k1 a1 k2 a2 where h: "versions b = k1 @ a1" "list_all2 kept_row (versions a) k1"
    "versions c = k2 @ a2" "list_all2 kept_row (k1 @ a1) k2" unfolding history_kept_def by metis
  then obtain k21 k22 where k2: "k2 = k21 @ k22" "list_all2 kept_row k1 k21" "list_all2 kept_row a1 k22"
    by (auto simp: list_all2_append1)
  have "list_all2 kept_row (versions a) k21"
    by (rule list_all2_trans [OF _ h(2) k2(2)]) (rule kept_row_trans)
  then show "history_kept a c" unfolding history_kept_def
    by (intro exI [of _ k21] exI [of _ "k22 @ a2"]) (simp add: h(3) k2(1))
qed

lemma history_kept_close:
  assumes "\<And>v. v \<in> set (versions db) \<Longrightarrow> P v \<Longrightarrow> rv_invalidated_at v = None"
    and "versions db' = close_where now reason P (versions db) @ new"
  shows "history_kept db db'"
proof -
  have "list_all2 kept_row (versions db) (close_where now reason P (versions db))"
    using assms(1) by (auto simp: list_all2_conv_all_nth kept_row_def)
  then show ?thesis unfolding history_kept_def using assms(2) by blast
qed

lemma assert_within_history:
  assumes ok: "graph_ok db" and a: "assert_within now fresh_rel fresh_ver project edges indices db = Some (db', written)"
  shows "history_kept db db'"
proof -
  obtain db1 vs where db1: "graph_ok db1" "versions db1 = versions db"
    and ins: "insert_versions (map (new_row now fresh_ver project edges db1) (filter (changes_at db1 project edges) indices))
      (close_where now Superseded (superseded_at db1 project edges (filter (changes_at db1 project edges) indices))
        (versions db1)) = Some vs"
    and db': "db' = db1\<lparr>versions := vs\<rparr>"
    by (rule assert_within_unfold [OF ok a])
  have "rv_invalidated_at v = None"
    if "v \<in> set (versions db)" "superseded_at db1 project edges (filter (changes_at db1 project edges) indices) v" for v
  proof -
    from that(2) obtain i w where "live_row db1 project (edge_at edges i) = Some w" "rv_id w = rv_id v"
      unfolding superseded_at_def by blast
    then have "w \<in> set (versions db1)" "rv_invalidated_at w = None" "w = v"
      using version_by_id [OF db1(1), of w v] that(1) by (auto simp: live_row_iff [OF db1(1)] db1(2))
    then show ?thesis by simp
  qed
  then show ?thesis
    by (rule history_kept_close [OF _ trans [OF _ conjunct1 [OF insert_versions_SomeD [OF ins, unfolded db1(2)]]]])
      (simp_all add: db')
qed

lemma assert_rounds_history:
  "graph_ok db \<Longrightarrow> assert_rounds now fresh_rel fresh_ver project edges rounds db asserted = Some (db', asserted') \<Longrightarrow>
    list_all (\<lambda>batch. distinct (map (edge_at edges) batch)) rounds \<Longrightarrow> history_kept db db'"
proof (induction rounds arbitrary: db asserted)
  case (Cons batch rounds)
  from Cons.prems(2) obtain db1 written where
    w: "assert_within now fresh_rel fresh_ver project edges batch db = Some (db1, written)"
    and r: "assert_rounds now fresh_rel fresh_ver project edges rounds db1 (asserted ++ map_of (zip batch written)) = Some (db', asserted')"
    by (auto split: option.splits)
  have ds: "distinct (map (edge_at edges) batch)" "list_all (\<lambda>batch. distinct (map (edge_at edges) batch)) rounds"
    using Cons.prems(3) by simp_all
  show ?case
    by (rule history_kept_trans [OF assert_within_history [OF Cons.prems(1) w]
          Cons.IH [OF assert_within_spec(1) [OF Cons.prems(1) w ds(1)] r ds(2)]])
qed (simp add: history_kept_refl)

lemma retract_shape:
  assumes "retract_derived_all now project kind keep db = (db', n)"
  shows "\<exists>P. versions db' = close_where now Closed P (versions db) \<and> (\<forall>v. P v \<longrightarrow> rv_invalidated_at v = None)"
proof (cases "keep = []")
  case True
  then show ?thesis using assms by (intro exI [of _ "\<lambda>_. False"]) (simp add: retract_derived_all_def)
next
  case False
  then have db': "db' = fst (retract_derived_all now project kind keep db)" using assms by simp
  show ?thesis
    unfolding db' retract_derived_all_def Let_def if_not_P [OF False] fst_conv versions_update
    by (rule exI, rule conjI, rule refl) blast
qed

lemma close_shape:
  assumes "close_edge now project key reason db = (db', c)"
  shows "\<exists>P. versions db' = close_where now reason P (versions db) \<and> (\<forall>v. P v \<longrightarrow> rv_invalidated_at v = None)"
proof -
  have db': "db' = fst (close_edge now project key reason db)" using assms by simp
  show ?thesis
    unfolding db' close_edge_def Let_def fst_conv versions_update
    by (rule exI, rule conjI, rule refl) blast
qed

lemma history_kept_closed:
  assumes "\<exists>P. versions db' = close_where now reason P (versions db) \<and> (\<forall>v. P v \<longrightarrow> rv_invalidated_at v = None)"
  shows "history_kept db db'"
proof -
  obtain P where P: "versions db' = close_where now reason P (versions db)" "\<And>v. P v \<Longrightarrow> rv_invalidated_at v = None"
    using assms by blast
  show ?thesis by (rule history_kept_close [where P = P and now = now and reason = reason and new = "[]"]) (simp_all add: P)
qed

lemma graph_step_history: "graph_step db db' \<Longrightarrow> graph_ok db \<Longrightarrow> history_kept db db'"
proof (induction rule: graph_step.induct)
  case (asserted now fresh_rel fresh_ver project edges snapshot db db' written)
  then show ?case
    by (elim assert_edges_unfold) (rule assert_rounds_history [OF _ _ repeats_apart_spec(1)])
next
  case (retracted now project kind keep db db' n)
  then show ?case
    using history_kept_closed [OF retract_shape [OF retracted(1)]] by blast
next
  case (closed now project key reason db db' c)
  then show ?case
    using history_kept_closed [OF close_shape [OF closed(1)]] by blast
qed

section \<open>The properties\<close>

definition sample_graph :: graph_db where
  "sample_graph = \<lparr>g_topics = [TopicId 1, TopicId 2, TopicId 3], relationships = [], versions = []\<rparr>"

definition sample_edges :: "asserting list" where
  "sample_edges = [(TopicId 1, TopicId 2, derived_claim Mentions 9 (1/2)), (TopicId 1, TopicId 3, explicit_claim DependsOn)]"

definition sample_claimed :: "(graph_db \<times> assertion list) option" where
  "sample_claimed = assert_edges 5 (\<lambda>n. word_of_nat n) (\<lambda>n. word_of_nat n) 7 sample_edges sample_graph sample_graph"

definition sample_after :: graph_db where
  "sample_after = fst (the sample_claimed)"

lemma sample_graph_ok: "graph_ok sample_graph"
  by (simp add: graph_ok_def sample_graph_def)

lemma sample_distinct: "distinct (map key_of sample_edges)"
  by (simp add: sample_edges_def)

lemma sample_asserts:
  "\<exists>written. assert_edges 5 (\<lambda>n. word_of_nat n) (\<lambda>n. word_of_nat n) 7 sample_edges sample_graph sample_graph
     = Some (sample_after, written)"
proof -
  have "sample_claimed \<noteq> None" unfolding sample_claimed_def by code_simp
  then show ?thesis by (auto simp: sample_after_def sample_claimed_def)
qed

text \<open>
  C40: whatever is asserted, retracted and closed, an edge's identity is one per project, pair and
  kind, each version carries its identity's endpoints, at most one version of an edge is live
  and it is the newest, version numbers of an edge never repeat, and every row passes the
  table's checks.
\<close>

theorem reachable_graph_ok:
  assumes "reachable_graph db"
  shows "graph_ok db"
  by (rule reachable_graph_okI [OF assms])

theorem reachable_graph_ok_witness: "reachable_graph sample_after \<and> graph_ok sample_after"
proof -
  have "graph_step sample_graph sample_after" using sample_asserts by (auto intro: graph_step.asserted)
  moreover have "reachable_graph sample_graph" unfolding sample_graph_def by (rule reachable_graph.empty)
  ultimately have "reachable_graph sample_after" by (rule reachable_graph.step [rotated])
  then show ?thesis using reachable_graph_ok by blast
qed

text \<open>
  C37: the ledger is append only: an operation leaves every row it found where it was, unchanged
  but for closing a live one, and writes the rest after them.
\<close>

theorem edge_history_kept:
  assumes "graph_step db db'" and "graph_ok db"
  shows "history_kept db db'"
  by (rule graph_step_history [OF assms])

theorem edge_history_kept_witness:
  "\<exists>db'. graph_step sample_after db' \<and> history_kept sample_after db' \<and>
     versions db' \<noteq> versions sample_after"
proof -
  obtain db' c where c: "close_edge 6 7 (TopicId 1, TopicId 2, Mentions) Closed sample_after = (db', c)" by force
  have "graph_ok sample_after" using assert_edges_stands(1) [OF sample_graph_ok] sample_asserts by blast
  then have "history_kept sample_after db'" using edge_history_kept graph_step.closed [OF c] by blast
  moreover have "map rv_invalidated_at (versions sample_after) = [None, None]"
    unfolding sample_after_def sample_claimed_def by code_simp
  moreover have "map rv_invalidated_at (versions (fst (close_edge 6 7 (TopicId 1, TopicId 2, Mentions) Closed sample_after))) = [Some 6, None]"
    unfolding sample_after_def sample_claimed_def by code_simp
  ultimately show ?thesis using graph_step.closed [OF c] c by fastforce
qed



text \<open>
  Restating is free: asserting again what a call has just asserted writes nothing and
  answers that every claim stood.
\<close>

theorem reassert_writes_nothing:
  assumes "graph_ok db" and "distinct (map key_of edges)"
    and "assert_edges now fresh_rel fresh_ver project edges db db = Some (db', written)"
  shows "\<exists>again. assert_edges now' fresh_rel' fresh_ver' project edges db' db' = Some (db', again) \<and>
    length again = length edges \<and> list_all (\<lambda>a. \<not> is_new a) again"
proof (rule assert_edges_idle [OF assert_edges_stands(1) [OF assms(1,3)]])
  fix i assume i: "i < length edges"
  note d = edge_at_distinct [OF assms(2)]
  have "stands db' project = assert_upto edges [0..<length edges] (stands db project)"
    using assert_edges_refines [OF assms] by (simp add: assert_upto_all)
  then show "stands db' project (edge_at edges i) = Some (content_at edges i)"
    using assert_upto_distinct(1) [OF d] i by simp
qed

theorem reassert_writes_nothing_witness:
  "\<exists>again. assert_edges 9 (\<lambda>n. 0) (\<lambda>n. 0) 7 sample_edges sample_after sample_after = Some (sample_after, again) \<and>
    length again = length sample_edges \<and> list_all (\<lambda>a. \<not> is_new a) again"
proof -
  obtain written where a: "assert_edges 5 (\<lambda>n. word_of_nat n) (\<lambda>n. word_of_nat n) 7 sample_edges sample_graph sample_graph
     = Some (sample_after, written)" using sample_asserts by blast
  from reassert_writes_nothing [OF sample_graph_ok sample_distinct a] show ?thesis by blast
qed

text \<open>
  The rounds of a batch are the edges to write and no others, no round writes an edge twice,
  and the claims on one edge keep their order across the rounds.
\<close>

theorem repeats_apart_correct:
  "list_all (\<lambda>batch. distinct (map (edge_at edges) batch)) (repeats_apart edges pending) \<and>
   mset (concat (repeats_apart edges pending)) = mset pending \<and>
   filter (\<lambda>i. edge_at edges i = key) (concat (repeats_apart edges pending)) = filter (\<lambda>i. edge_at edges i = key) pending"
  using repeats_apart_spec by blast

text \<open>
  Retracting what topics no longer say closes exactly the derived edges of that kind out of
  those topics to topics their content no longer names; an edge somebody asserted, one still
  named, one of another kind, topic or project stands as it stood.
\<close>

theorem retract_closes_unsaid:
  assumes "graph_ok db" and "retract_derived_all now project kind keep db = (db', n)"
  shows "stands db' p key = (case stands db p key of None \<Rightarrow> None
          | Some content \<Rightarrow> if p = project \<and> no_longer_said kind keep key content then None else Some content)"
  by (rule retract_spec(2) [OF assms])

theorem retract_closes_unsaid_witness:
  "graph_ok sample_after \<and>
   stands (fst (retract_derived_all 8 7 Mentions [(TopicId 1, [TopicId 3])] sample_after)) 7 (TopicId 1, TopicId 2, Mentions) = None"
proof -
  have ok: "graph_ok sample_after" using assert_edges_stands(1) [OF sample_graph_ok] sample_asserts by blast
  have s: "stands sample_after 7 (TopicId 1, TopicId 2, Mentions) = Some (Deterministic, 1/2, ALWAYS)"
    unfolding sample_after_def sample_claimed_def by code_simp
  obtain db' n where r: "retract_derived_all 8 7 Mentions [(TopicId 1, [TopicId 3])] sample_after = (db', n)" by force
  have "stands db' 7 (TopicId 1, TopicId 2, Mentions) = None"
    using retract_closes_unsaid [OF ok r, of 7 "(TopicId 1, TopicId 2, Mentions)"] s by (simp add: no_longer_said_def)
  then show ?thesis using ok r by simp
qed

text \<open>
  The comment on \<open>repeats_apart\<close> says asserting one edge twice in a call is the same as
  asserting it in two. A later claim that restates what stood before the call is skipped as
  unchanged, so a different claim before it in the call is what stands afterwards.
\<close>

definition sample_repeated :: "asserting list" where
  "sample_repeated = [(TopicId 1, TopicId 2, derived_claim Mentions 9 1), (TopicId 1, TopicId 2, derived_claim Mentions 9 (1/2))]"

lemma restated_claim_is_skipped:
  "\<exists>db' written. assert_edges 6 (\<lambda>n. 20 + word_of_nat n) (\<lambda>n. 20 + word_of_nat n) 7 sample_repeated sample_after sample_after
      = Some (db', written) \<and>
    stands db' 7 (TopicId 1, TopicId 2, Mentions) = Some (Deterministic, 1, ALWAYS) \<and>
    fold assert_claim sample_repeated (stands sample_after 7) (TopicId 1, TopicId 2, Mentions) = Some (Deterministic, 1/2, ALWAYS)"
proof -
  have 1: "\<not> Option.is_none (assert_edges 6 (\<lambda>n. 20 + word_of_nat n) (\<lambda>n. 20 + word_of_nat n) 7 sample_repeated sample_after sample_after)"
    unfolding sample_after_def sample_claimed_def by code_simp
  have 2: "stands (fst (the (assert_edges 6 (\<lambda>n. 20 + word_of_nat n) (\<lambda>n. 20 + word_of_nat n) 7 sample_repeated sample_after sample_after)))
      7 (TopicId 1, TopicId 2, Mentions) = Some (Deterministic, 1, ALWAYS)"
    unfolding sample_after_def sample_claimed_def by code_simp
  have 3: "fold assert_claim sample_repeated (stands sample_after 7) (TopicId 1, TopicId 2, Mentions) = Some (Deterministic, 1/2, ALWAYS)"
    by (simp add: sample_repeated_def assert_claim_def derived_claim_def claim_content_def)
  from 1 obtain db' written where "assert_edges 6 (\<lambda>n. 20 + word_of_nat n) (\<lambda>n. 20 + word_of_nat n) 7 sample_repeated sample_after sample_after
      = Some (db', written)" by (auto simp: Option.is_none_def)
  with 2 3 show ?thesis by auto
qed

end
