(* ===== verification/Store_Walk.thy ===== *)
theory Store_Walk
  imports Store_Edges
begin

text \<open>
  The graph walk (\<open>crates/store/src/graph.rs\<close>, from \<open>Neighbor\<close> to the end): a hop at a time, reading
  either every edge of the topics it stands on or only the strongest few each way, and what a
  caller may conclude from the bounded reading.

  A hash map whose iteration order the code never lets out is an association list or a
  function. The statements read the tables of \<open>Store_Edges\<close>; \<open>ORDER BY\<close> is a stable sort, so rows it
  leaves tied come in table order, which nothing here depends on.
\<close>

section \<open>Types\<close>

record neighbor =
  nb_topic :: topic_id
  nb_origin :: topic_id
  nb_hops :: nat
  nb_via :: topic_id
  nb_kind :: edge_kind
  nb_derivation :: derivation
  nb_confidence :: rat
  nb_outbound :: bool

definition MAX_FRONTIER :: nat where
  "MAX_FRONTIER = 2000"

record walk_step =
  st_topic :: topic_id
  st_origin :: topic_id
  st_via :: topic_id

record crossing =
  cr_kind :: edge_kind
  cr_derivation :: derivation
  cr_confidence :: rat
  cr_outbound :: bool

record expansion =
  ex_depth :: nat
  ex_kinds :: "edge_kind list option"
  ex_at :: "instant option"
  ex_keep :: "nat option"

definition to_depth :: "nat \<Rightarrow> expansion" where
  "to_depth depth = \<lparr>ex_depth = min depth MAX_DEPTH, ex_kinds = None, ex_at = None, ex_keep = None\<rparr>"

definition keeping :: "nat \<Rightarrow> expansion \<Rightarrow> expansion" where
  "keeping keep e = e\<lparr>ex_keep := Some keep\<rparr>"

record live_edge =
  le_from :: topic_id
  le_to :: topic_id
  le_kind :: edge_kind
  le_derivation :: derivation
  le_confidence :: rat

section \<open>Reading edges\<close>

definition kind_wanted :: "edge_kind list option \<Rightarrow> edge_kind \<Rightarrow> bool" where
  "kind_wanted kinds kind \<longleftrightarrow> (case kinds of None \<Rightarrow> True | Some ks \<Rightarrow> kind \<in> set ks)"

text \<open>An edge read through its identity and one of its versions.\<close>

definition joined_edge :: "relationship \<Rightarrow> edge_row \<Rightarrow> live_edge" where
  "joined_edge r v = \<lparr>le_from = rel_from r, le_to = rel_to r, le_kind = rel_kind r,
     le_derivation = rv_derivation v, le_confidence = rv_confidence v\<rparr>"

text \<open>An edge read from the version row's own copy of the endpoints.\<close>

definition row_edge :: "edge_row \<Rightarrow> live_edge" where
  "row_edge v = \<lparr>le_from = er_from v, le_to = er_to v, le_kind = er_kind v,
     le_derivation = rv_derivation v, le_confidence = rv_confidence v\<rparr>"

text \<open>The two version predicates: what is live, and what held at a moment.\<close>

definition counts_at :: "instant option \<Rightarrow> edge_row \<Rightarrow> bool" where
  "counts_at moment v =
     (case moment of
        None \<Rightarrow> rv_invalidated_at v = None
      | Some t \<Rightarrow>
          (case valid_from (rv_validity v) of None \<Rightarrow> True | Some f \<Rightarrow> f \<le> t) \<and>
          (case valid_to (rv_validity v) of None \<Rightarrow> True | Some u \<Rightarrow> t < u) \<and>
          (case rv_invalidated_at v of
             None \<Rightarrow> True
           | Some i \<Rightarrow> rv_tombstone v = Some Closed \<and> t < i))"

definition joined_edges ::
  "graph_db \<Rightarrow> project_id \<Rightarrow> edge_kind list option \<Rightarrow> instant option \<Rightarrow> (relationship \<Rightarrow> bool) \<Rightarrow> live_edge list" where
  "joined_edges db project kinds moment touching =
     concat (map (\<lambda>r. map (joined_edge r)
         (filter (\<lambda>v. er_project v = rel_project r \<and> rv_relationship v = rel_id r \<and> counts_at moment v) (versions db)))
       (filter (\<lambda>r. rel_project r = project \<and> touching r \<and> kind_wanted kinds (rel_kind r)) (relationships db)))"

definition every_edge ::
  "graph_db \<Rightarrow> project_id \<Rightarrow> topic_id list \<Rightarrow> edge_kind list option \<Rightarrow> instant option \<Rightarrow> live_edge list" where
  "every_edge db project positions kinds moment =
     joined_edges db project kinds moment (\<lambda>r. rel_from r \<in> set positions \<or> rel_to r \<in> set positions)"

definition edges_between ::
  "graph_db \<Rightarrow> project_id \<Rightarrow> topic_id list \<Rightarrow> topic_id list \<Rightarrow> edge_kind list option \<Rightarrow> live_edge list" where
  "edges_between db project cuts touched kinds =
     joined_edges db project kinds None
       (\<lambda>r. rel_from r \<in> set cuts \<and> rel_to r \<in> set touched \<or> rel_to r \<in> set cuts \<and> rel_from r \<in> set touched)"

definition end_of :: "bool \<Rightarrow> live_edge \<Rightarrow> topic_id" where
  "end_of outward e = (if outward then le_from e else le_to e)"

text \<open>\<open>ORDER BY confidence DESC\<close>, then the topic on the other end; one side of one topic.\<close>

definition side_order :: "bool \<Rightarrow> live_edge \<Rightarrow> live_edge \<Rightarrow> bool" where
  "side_order outward = lex_by (desc_by le_confidence) (asc_by (end_of (\<not> outward)))"

definition strongest_side ::
  "graph_db \<Rightarrow> project_id \<Rightarrow> edge_kind list option \<Rightarrow> nat \<Rightarrow> topic_id \<Rightarrow> bool \<Rightarrow> live_edge list" where
  "strongest_side db project kinds per_topic standing outward =
     take per_topic (sort_by (side_order outward)
       (map row_edge (filter (\<lambda>v. er_project v = project \<and> end_of outward (row_edge v) = standing \<and>
            rv_invalidated_at v = None \<and> kind_wanted kinds (er_kind v)) (versions db))))"

record cut_topic =
  cut_standing :: topic_id
  cut_confidence :: rat
  cut_after :: topic_id

text \<open>The last crossing a side read: less confident, or as confident and further on.\<close>

fun last_crossing :: "bool \<Rightarrow> live_edge list \<Rightarrow> rat \<times> topic_id \<Rightarrow> rat \<times> topic_id" where
  "last_crossing outward [] side = side"
| "last_crossing outward (e # es) side =
     (let other = end_of (\<not> outward) e
      in last_crossing outward es
           (if le_confidence e < fst side \<or> le_confidence e = fst side \<and> snd side < other
            then (le_confidence e, other) else side))"

definition side_end :: "bool \<Rightarrow> live_edge list \<Rightarrow> (rat \<times> topic_id) option" where
  "side_end outward es =
     (case es of [] \<Rightarrow> None
      | e # _ \<Rightarrow> Some (last_crossing outward es (le_confidence e, end_of (\<not> outward) e)))"

text \<open>A side that read as many as it was allowed counts as cut; the earlier of two cut sides bounds both.\<close>

definition side_cut :: "nat \<Rightarrow> bool \<Rightarrow> live_edge list \<Rightarrow> (rat \<times> topic_id) option" where
  "side_cut per_topic outward es = (if length es < per_topic then None else side_end outward es)"

fun earlier_cut :: "(rat \<times> topic_id) option \<Rightarrow> (rat \<times> topic_id) option \<Rightarrow> (rat \<times> topic_id) option" where
  "earlier_cut None c = c"
| "earlier_cut c None = c"
| "earlier_cut (Some (confidence, after)) (Some (confidence', after')) =
     Some (if confidence < confidence' \<or> confidence' = confidence \<and> after' < after
           then (confidence', after') else (confidence, after))"

definition topic_cut ::
  "graph_db \<Rightarrow> project_id \<Rightarrow> edge_kind list option \<Rightarrow> nat \<Rightarrow> topic_id \<Rightarrow> cut_topic option" where
  "topic_cut db project kinds per_topic standing =
     map_option (\<lambda>(confidence, after).
          \<lparr>cut_standing = standing, cut_confidence = confidence, cut_after = after\<rparr>)
       (earlier_cut (side_cut per_topic True (strongest_side db project kinds per_topic standing True))
                    (side_cut per_topic False (strongest_side db project kinds per_topic standing False)))"

text \<open>The same edge arrives once per side that read it: the first of each identity is kept.\<close>

fun once_each :: "edge_key set \<Rightarrow> live_edge list \<Rightarrow> live_edge list" where
  "once_each once [] = []"
| "once_each once (e # es) =
     (let key = (le_from e, le_to e, le_kind e)
      in if key \<in> once then once_each once es else e # once_each (insert key once) es)"

definition strongest_edges ::
  "graph_db \<Rightarrow> project_id \<Rightarrow> topic_id list \<Rightarrow> edge_kind list option \<Rightarrow> nat \<Rightarrow> live_edge list \<times> cut_topic list" where
  "strongest_edges db project positions kinds per_topic =
     (let edges = concat (map (\<lambda>p. strongest_side db project kinds per_topic p True) positions)
                @ concat (map (\<lambda>p. strongest_side db project kinds per_topic p False) positions);
          cuts = List.map_filter (topic_cut db project kinds per_topic) positions;
          touched = concat (map (\<lambda>e. [le_from e, le_to e]) edges);
          edges = (if cuts = [] then edges
                   else edges @ edges_between db project (map cut_standing cuts) touched kinds)
      in (once_each {} edges, cuts))"

section \<open>Crossing\<close>

definition asserted_from :: "topic_id \<Rightarrow> topic_id \<times> crossing \<Rightarrow> topic_id" where
  "asserted_from standing x = (if cr_outbound (snd x) then standing else fst x)"

definition crossing_order :: "topic_id \<Rightarrow> topic_id \<times> crossing \<Rightarrow> topic_id \<times> crossing \<Rightarrow> bool" where
  "crossing_order standing =
     lex_by (desc_by (\<lambda>x. cr_confidence (snd x)))
       (lex_by (asc_by fst)
         (lex_by (asc_by (\<lambda>x. cr_kind (snd x))) (asc_by (asserted_from standing))))"

definition crossing_of :: "bool \<Rightarrow> live_edge \<Rightarrow> topic_id \<times> crossing" where
  "crossing_of outbound e = (end_of (\<not> outbound) e,
     \<lparr>cr_kind = le_kind e, cr_derivation = le_derivation e, cr_confidence = le_confidence e, cr_outbound = outbound\<rparr>)"

definition entered_from :: "topic_id \<Rightarrow> live_edge \<Rightarrow> (topic_id \<times> crossing) list" where
  "entered_from standing e =
     (if le_from e = standing then [crossing_of True e] else []) @
     (if le_to e = standing then [crossing_of False e] else [])"

definition crossings :: "live_edge list \<Rightarrow> topic_id \<Rightarrow> (topic_id \<times> crossing) list" where
  "crossings edges standing = sort_by (crossing_order standing) (concat (map (entered_from standing) edges))"

definition arrival :: "nat \<Rightarrow> walk_step \<Rightarrow> topic_id \<times> crossing \<Rightarrow> neighbor" where
  "arrival hop step x =
     \<lparr>nb_topic = fst x, nb_origin = st_origin step, nb_hops = hop, nb_via = st_topic step,
      nb_kind = cr_kind (snd x), nb_derivation = cr_derivation (snd x),
      nb_confidence = cr_confidence (snd x), nb_outbound = cr_outbound (snd x)\<rparr>"

type_synonym arrivals = "(topic_id \<times> neighbor) list"

text \<open>The first arrival is the shortest; at the same distance the more confident one wins.\<close>

fun note_arrival :: "nat \<Rightarrow> neighbor \<Rightarrow> arrivals \<Rightarrow> arrivals" where
  "note_arrival hop a [] = [(nb_topic a, a)]"
| "note_arrival hop a ((topic, held) # rest) =
     (if topic = nb_topic a
      then (topic, if nb_hops held = hop \<and> nb_confidence held < nb_confidence a then a else held) # rest
      else (topic, held) # note_arrival hop a rest)"

record walk_state =
  ws_seen :: "(topic_id \<times> topic_id) set"
  ws_reached :: arrivals
  ws_next :: "(walk_step \<times> rat) list"

definition attempt :: "nat \<Rightarrow> walk_step \<Rightarrow> topic_id \<times> crossing \<Rightarrow> walk_state \<Rightarrow> walk_state" where
  "attempt hop step x s =
     (if 1 < hop \<and> (fst x = st_origin step \<or> fst x = st_via step) then s
      else if (fst x, st_origin step) \<in> ws_seen s then s
      else \<lparr>ws_seen = insert (fst x, st_origin step) (ws_seen s),
            ws_reached = note_arrival hop (arrival hop step x) (ws_reached s),
            ws_next = ws_next s @
              [(\<lparr>st_topic = fst x, st_origin = st_origin step, st_via = st_topic step\<rparr>, cr_confidence (snd x))]\<rparr>)"

definition cross :: "nat \<Rightarrow> walk_step list \<Rightarrow> live_edge list \<Rightarrow> walk_state \<Rightarrow> walk_state" where
  "cross hop frontier edges s =
     fold (\<lambda>step s. fold (attempt hop step) (crossings edges (st_topic step)) s) frontier (s\<lparr>ws_next := []\<rparr>)"

section \<open>Walking\<close>

record unread =
  un_hops :: nat
  un_via :: topic_id
  un_confidence :: rat
  un_after :: topic_id
  un_origins :: "topic_id list"

record walk =
  wk_neighbors :: "neighbor list"
  wk_unread :: "unread list"

definition enough :: "expansion \<Rightarrow> walk_state \<Rightarrow> bool" where
  "enough options s \<longleftrightarrow> (case ex_keep options of None \<Rightarrow> False | Some keep \<Rightarrow> keep \<le> length (ws_reached s))"

definition unread_of :: "nat \<Rightarrow> walk_step list \<Rightarrow> cut_topic \<Rightarrow> unread" where
  "unread_of hop frontier c =
     \<lparr>un_hops = hop, un_via = cut_standing c, un_confidence = cut_confidence c, un_after = cut_after c,
      un_origins = sort (remdups (map st_origin (filter (\<lambda>step. st_topic step = cut_standing c) frontier)))\<rparr>"

text \<open>One hop: what it reaches, and what it left unread.\<close>

definition hop_once ::
  "graph_db \<Rightarrow> project_id \<Rightarrow> expansion \<Rightarrow> nat option \<Rightarrow> nat \<Rightarrow> walk_step list \<Rightarrow> walk_state \<Rightarrow> walk_state \<times> unread list" where
  "hop_once db project options per_topic hop frontier s =
     (let positions = sort (remdups (map st_topic frontier)) in
      (case per_topic of
         None \<Rightarrow> (cross hop frontier (every_edge db project positions (ex_kinds options) (ex_at options)) s, [])
       | Some n \<Rightarrow>
         (let (edges, cuts) = strongest_edges db project positions (ex_kinds options) n;
              s1 = cross hop frontier edges s
          in if cuts = [] then (s1, [])
             else if hop = ex_depth options \<or> enough options s1 then (s1, map (unread_of hop frontier) cuts)
             else (cross hop frontier (every_edge db project positions (ex_kinds options) (ex_at options)) s, []))))"

definition confidence_order :: "walk_step \<times> rat \<Rightarrow> walk_step \<times> rat \<Rightarrow> bool" where
  "confidence_order = desc_by snd"

text \<open>\<open>left\<close> is how many hops the depth still allows; the loop counts them down.\<close>

fun walk_hops ::
  "graph_db \<Rightarrow> project_id \<Rightarrow> expansion \<Rightarrow> nat option \<Rightarrow> nat \<Rightarrow> nat \<Rightarrow> walk_step list \<Rightarrow> walk_state
    \<Rightarrow> walk_state \<times> unread list" where
  "walk_hops db project options per_topic 0 hop frontier s = (s, [])"
| "walk_hops db project options per_topic (Suc left) hop frontier s =
     (let (s1, unread) = hop_once db project options per_topic hop frontier s
      in if ws_next s1 = [] then (s1, unread)
         else
           let frontier1 = map fst (take MAX_FRONTIER (sort_by confidence_order (ws_next s1)))
           in if enough options s1 then (s1, unread)
              else
                let (s2, later) = walk_hops db project options per_topic left (hop + 1) frontier1 s1
                in (s2, unread @ later))"

definition neighbor_order :: "neighbor \<Rightarrow> neighbor \<Rightarrow> bool" where
  "neighbor_order = lex_by (asc_by nb_hops) (lex_by (desc_by nb_confidence) (asc_by nb_topic))"

definition walk_from ::
  "graph_db \<Rightarrow> project_id \<Rightarrow> topic_id list \<Rightarrow> expansion \<Rightarrow> nat option \<Rightarrow> walk" where
  "walk_from db project seeds options per_topic =
     (if seeds = [] \<or> ex_depth options = 0 then \<lparr>wk_neighbors = [], wk_unread = []\<rparr>
      else
        let per_topic = (if ex_at options = None then per_topic else None);
            frontier = map (\<lambda>seed. \<lparr>st_topic = seed, st_origin = seed, st_via = seed\<rparr>) seeds;
            (s, unread) = walk_hops db project options per_topic (ex_depth options) 1 frontier
                            \<lparr>ws_seen = {}, ws_reached = [], ws_next = []\<rparr>
        in \<lparr>wk_neighbors = sort_by neighbor_order (map snd (ws_reached s)), wk_unread = unread\<rparr>)"

definition expand :: "graph_db \<Rightarrow> project_id \<Rightarrow> topic_id list \<Rightarrow> expansion \<Rightarrow> neighbor list" where
  "expand db project seeds options = wk_neighbors (walk_from db project seeds options None)"

definition expand_reading ::
  "graph_db \<Rightarrow> project_id \<Rightarrow> topic_id list \<Rightarrow> expansion \<Rightarrow> nat \<Rightarrow> walk" where
  "expand_reading db project seeds options per_topic =
     walk_from db project seeds options (Some (max per_topic 1))"

section \<open>Ranking what was reached\<close>

type_synonym scoring = "rat \<Rightarrow> nat \<Rightarrow> topic_id \<Rightarrow> rat"

definition rate :: "scoring \<Rightarrow> neighbor \<Rightarrow> rat" where
  "rate score n = score (nb_confidence n) (nb_hops n) (nb_origin n)"

definition rate_order :: "scoring \<Rightarrow> neighbor \<Rightarrow> neighbor \<Rightarrow> bool" where
  "rate_order score = lex_by (desc_by (rate score)) (asc_by nb_topic)"

definition strongest :: "neighbor list \<Rightarrow> nat \<Rightarrow> scoring \<Rightarrow> neighbor list" where
  "strongest neighbors keep score = take keep (sort_by (rate_order score) neighbors)"

definition settles :: "scoring \<Rightarrow> neighbor \<Rightarrow> unread \<Rightarrow> bool" where
  "settles score l u \<longleftrightarrow>
     list_all (\<lambda>origin.
       let floor = rate score l;
           bound = score (un_confidence u) (un_hops u) origin;
           below = score (next_down32 (un_confidence u)) (un_hops u) origin
       in bound < floor \<or> floor = bound \<and> nb_topic l \<le> un_after u \<and> below < floor) (un_origins u)"

definition walk_strongest :: "walk \<Rightarrow> nat \<Rightarrow> scoring \<Rightarrow> neighbor list option" where
  "walk_strongest w keep score =
     (let ranked = strongest (wk_neighbors w) keep score
      in if wk_unread w = [] \<or> keep = 0 then Some ranked
         else if length ranked < keep then None
         else if list_all (settles score (ranked ! (keep - 1))) (wk_unread w) then Some ranked else None)"

end
