(* ===== verification/Store_Walk_Read.thy ===== *)
theory Store_Walk_Read
  imports Store_Walk
begin

text \<open>
  What the bounded reading of a hop holds: every edge between a topic it stands on and a topic
  it read, and for each edge it left out a cut of that topic which the edge comes after.
\<close>

section \<open>The edges of one hop\<close>

definition edge_id :: "live_edge \<Rightarrow> edge_key" where
  "edge_id e = (le_from e, le_to e, le_kind e)"

definition wanted_rows :: "graph_db \<Rightarrow> project_id \<Rightarrow> edge_kind list option \<Rightarrow> edge_row list" where
  "wanted_rows db project kinds =
     filter (\<lambda>v. er_project v = project \<and> rv_invalidated_at v = None \<and> kind_wanted kinds (er_kind v)) (versions db)"

definition wanted_edges :: "graph_db \<Rightarrow> project_id \<Rightarrow> edge_kind list option \<Rightarrow> live_edge set" where
  "wanted_edges db project kinds = row_edge ` set (wanted_rows db project kinds)"

lemma row_edge_simps [simp]:
  "le_from (row_edge v) = er_from v" "le_to (row_edge v) = er_to v" "le_kind (row_edge v) = er_kind v"
  "le_confidence (row_edge v) = rv_confidence v" "le_derivation (row_edge v) = rv_derivation v"
  "edge_id (row_edge v) = er_key v"
  by (simp_all add: row_edge_def edge_id_def er_key_def)

lemma wanted_rowsD:
  "v \<in> set (wanted_rows db project kinds) \<Longrightarrow>
    v \<in> set (versions db) \<and> er_project v = project \<and> rv_invalidated_at v = None \<and> kind_wanted kinds (er_kind v)"
  by (simp add: wanted_rows_def)

lemma wanted_row_id:
  assumes ok: "graph_ok db" and v: "v \<in> set (wanted_rows db project kinds)" and w: "w \<in> set (wanted_rows db project kinds)"
    and k: "er_key v = er_key w"
  shows "v = w"
proof -
  note v' = wanted_rowsD [OF v] and w' = wanted_rowsD [OF w]
  have "live_row db project (er_key v) = Some v" using v' by (simp add: live_row_iff [OF ok])
  moreover have "live_row db project (er_key v) = Some w" using w' k by (simp add: live_row_iff [OF ok])
  ultimately show ?thesis by simp
qed

lemma wanted_edge_id:
  assumes "graph_ok db" "e \<in> wanted_edges db project kinds" "e' \<in> wanted_edges db project kinds" "edge_id e = edge_id e'"
  shows "e = e'"
proof -
  obtain v w where "v \<in> set (wanted_rows db project kinds)" "e = row_edge v"
    "w \<in> set (wanted_rows db project kinds)" "e' = row_edge w"
    using assms(2,3) unfolding wanted_edges_def by blast
  then show ?thesis using wanted_row_id [OF assms(1), of v project kinds w] assms(4) by simp
qed

lemma wanted_edgeD:
  assumes ok: "graph_ok db" and e: "e \<in> wanted_edges db project kinds"
  shows "le_from e \<noteq> le_to e" and "is_f32 (le_confidence e)" and "0 < le_confidence e"
proof -
  obtain v where v: "v \<in> set (wanted_rows db project kinds)" "e = row_edge v" using e unfolding wanted_edges_def by blast
  then have v': "v \<in> set (versions db)" using wanted_rowsD by blast
  from graph_okD(6) [OF ok v'] show "is_f32 (le_confidence e)" "0 < le_confidence e"
    by (simp_all add: version_checks_def v(2))
  from graph_okD(7) [OF ok v'] obtain r where r: "r \<in> set (relationships db)" "describes r v" by blast
  then have "rel_from r = er_from v" "rel_to r = er_to v" by (simp_all add: describes_def rel_key_def er_key_def)
  then show "le_from e \<noteq> le_to e" using graph_okD(3) [OF ok r(1)] v(2) by simp
qed

subsection \<open>The reading through identities\<close>

definition versions_of :: "graph_db \<Rightarrow> relationship \<Rightarrow> edge_row list" where
  "versions_of db r =
     filter (\<lambda>v. er_project v = rel_project r \<and> rv_relationship v = rel_id r \<and> rv_invalidated_at v = None) (versions db)"

lemma versions_of_one:
  assumes ok: "graph_ok db"
  shows "length (versions_of db r) \<le> 1"
proof -
  have "set (versions_of db r) \<subseteq> {v}" if "v \<in> set (versions_of db r)" for v
  proof
    fix w assume "w \<in> set (versions_of db r)"
    then show "w \<in> {v}" using one_live [OF ok, of w v] that by (simp add: versions_of_def)
  qed
  moreover have "distinct (versions_of db r)" using versions_distinct [OF ok] by (simp add: versions_of_def)
  ultimately show ?thesis
    by (metis card_1_singleton_iff card_mono distinct_card empty_iff equals0I finite.emptyI finite_insert is_singletonI
        is_singleton_altdef le_zero_eq nat_le_linear list.size(3) set_empty zero_le)
qed

lemma joined_row:
  assumes ok: "graph_ok db" and r: "r \<in> set (relationships db)" and v: "v \<in> set (versions_of db r)"
  shows "joined_edge r v = row_edge v" "er_key v = rel_key r" "er_project v = rel_project r"
proof -
  have v': "v \<in> set (versions db)" "rv_relationship v = rel_id r" "er_project v = rel_project r"
    using v by (simp_all add: versions_of_def)
  from graph_okD(7) [OF ok v'(1)] obtain a where a: "a \<in> set (relationships db)" "describes a v" by blast
  then have "a = r" using rel_by_id [OF ok a(1) r] v'(2) by (simp add: describes_def)
  then have d: "describes r v" using a(2) by simp
  then show "er_key v = rel_key r" "er_project v = rel_project r" by (simp_all add: describes_def)
  then show "joined_edge r v = row_edge v" by (simp add: joined_edge_def row_edge_def er_key_def rel_key_def)
qed

lemma joined_edges_live:
  "joined_edges db project kinds None touching =
     concat (map (\<lambda>r. map (joined_edge r) (versions_of db r))
       (filter (\<lambda>r. rel_project r = project \<and> touching r \<and> kind_wanted kinds (rel_kind r)) (relationships db)))"
  by (simp add: joined_edges_def counts_at_def versions_of_def)

lemma set_joined_edges:
  assumes ok: "graph_ok db" and t: "\<And>r. touching r \<longleftrightarrow> Q (rel_from r) (rel_to r)"
  shows "set (joined_edges db project kinds None touching) = {e \<in> wanted_edges db project kinds. Q (le_from e) (le_to e)}"
proof (intro equalityI subsetI)
  fix e assume "e \<in> set (joined_edges db project kinds None touching)"
  then obtain r v where r: "r \<in> set (relationships db)" "rel_project r = project" "Q (rel_from r) (rel_to r)"
    "kind_wanted kinds (rel_kind r)" and v: "v \<in> set (versions_of db r)" "e = joined_edge r v"
    by (auto simp: joined_edges_live t)
  note j = joined_row [OF ok r(1) v(1)]
  have "v \<in> set (wanted_rows db project kinds)"
    using v(1) r j(2,3) by (simp add: wanted_rows_def versions_of_def er_key_def rel_key_def)
  then show "e \<in> {e \<in> wanted_edges db project kinds. Q (le_from e) (le_to e)}"
    using r(3) j(1,2) v(2) by (simp add: wanted_edges_def er_key_def rel_key_def)
next
  fix e assume e: "e \<in> {e \<in> wanted_edges db project kinds. Q (le_from e) (le_to e)}"
  then obtain v where v: "v \<in> set (wanted_rows db project kinds)" "e = row_edge v" by (auto simp: wanted_edges_def)
  note v' = wanted_rowsD [OF v(1)]
  then have "v \<in> set (versions db)" by blast
  from graph_okD(7) [OF ok this] obtain r where r: "r \<in> set (relationships db)" "describes r v" by blast
  then have k: "rel_key r = er_key v" "rel_project r = project" "rel_id r = rv_relationship v"
    using v' by (simp_all add: describes_def)
  have vr: "v \<in> set (versions_of db r)" using v' k by (simp add: versions_of_def)
  have "touching r" "kind_wanted kinds (rel_kind r)"
    using e v(2) v' k(1) by (auto simp: t er_key_def rel_key_def)
  then show "e \<in> set (joined_edges db project kinds None touching)"
    using r(1) k(2) vr joined_row(1) [OF ok r(1) vr] v(2) by (force simp: joined_edges_live)
qed

lemma distinct_keys_concat:
  "distinct (map k rs) \<Longrightarrow> (\<And>r. r \<in> set rs \<Longrightarrow> length (f r) \<le> 1 \<and> (\<forall>e\<in>set (f r). key e = k r)) \<Longrightarrow>
    distinct (map key (concat (map f rs)))"
proof (induction rs)
  case (Cons r rs)
  have "distinct (map key (f r))" using Cons.prems(2) [of r] by (cases "f r") auto
  moreover have "key ` set (f r) \<inter> key ` set (concat (map f rs)) = {}"
  proof -
    have "key e = k r" if "e \<in> set (f r)" for e using Cons.prems(2) [of r] that by simp
    moreover have "key e \<in> k ` set rs" if "e \<in> set (concat (map f rs))" for e using Cons.prems(2) that by fastforce
    ultimately show ?thesis using Cons.prems(1) by fastforce
  qed
  moreover have "distinct (map key (concat (map f rs)))" by (rule Cons.IH) (use Cons.prems in auto)
  ultimately show ?case by simp
qed simp

lemma distinct_joined_edges:
  assumes ok: "graph_ok db"
  shows "distinct (joined_edges db project kinds None touching)"
proof -
  let ?rs = "filter (\<lambda>r. rel_project r = project \<and> touching r \<and> kind_wanted kinds (rel_kind r)) (relationships db)"
  have "distinct (map (\<lambda>r. (rel_project r, rel_key r)) ?rs)"
    using graph_okD(2) [OF ok] by (rule distinct_map_filter)
  then have d: "distinct (map rel_key ?rs)" by (auto simp: distinct_map inj_on_def)
  have "distinct (map edge_id (joined_edges db project kinds None touching))"
    unfolding joined_edges_live
  proof (rule distinct_keys_concat [OF d])
    fix r assume "r \<in> set ?rs"
    then have r: "r \<in> set (relationships db)" by simp
    show "length (map (joined_edge r) (versions_of db r)) \<le> 1 \<and>
      (\<forall>e\<in>set (map (joined_edge r) (versions_of db r)). edge_id e = rel_key r)"
      using versions_of_one [OF ok, of r] joined_row [OF ok r] by auto
  qed
  then show ?thesis by (simp only: distinct_map)
qed

subsection \<open>The bounded reading\<close>

lemma once_each_spec:
  "set (once_each once es) \<subseteq> set es \<and> distinct (map edge_id (once_each once es)) \<and>
   edge_id ` set (once_each once es) = edge_id ` set es - once"
  by (induction es arbitrary: once) (auto simp: Let_def edge_id_def [symmetric])

lemma side_rows:
  "map row_edge (filter (\<lambda>v. er_project v = project \<and> end_of outward (row_edge v) = standing \<and>
        rv_invalidated_at v = None \<and> kind_wanted kinds (er_kind v)) (versions db))
    = filter (\<lambda>e. end_of outward e = standing) (map row_edge (wanted_rows db project kinds))"
  by (auto simp: wanted_rows_def filter_map comp_def conj_ac intro: filter_cong)

lemma strongest_side_eq:
  "strongest_side db project kinds n standing outward =
     take n (sort_by (side_order outward) (filter (\<lambda>e. end_of outward e = standing) (map row_edge (wanted_rows db project kinds))))"
  by (simp only: strongest_side_def side_rows)

lemma set_strongest_side:
  "set (strongest_side db project kinds n standing outward) \<subseteq>
    {e \<in> wanted_edges db project kinds. end_of outward e = standing}"
  unfolding strongest_side_eq by (auto dest!: in_set_takeD simp: wanted_edges_def)

lemma side_order_preorder: "preorder_by (side_order outward)"
  unfolding side_order_def by (intro preorder_lex_by preorder_asc_by preorder_desc_by)

text \<open>What a cut says: an edge of the topic that was not read comes after it.\<close>

definition comes_after :: "rat \<times> topic_id \<Rightarrow> rat \<times> topic_id \<Rightarrow> bool" where
  "comes_after c x \<longleftrightarrow> fst x < fst c \<or> fst x = fst c \<and> snd c \<le> snd x"

lemma comes_after_refl [simp]: "comes_after c c"
  by (simp add: comes_after_def)

lemma comes_after_trans: "comes_after a b \<Longrightarrow> comes_after b c \<Longrightarrow> comes_after a c"
  by (auto simp: comes_after_def)

lemma side_order_comes_after:
  "side_order outward e e' \<longleftrightarrow> comes_after (le_confidence e, end_of (\<not> outward) e) (le_confidence e', end_of (\<not> outward) e')"
  by (auto simp: side_order_def order_by_defs comes_after_def)

lemma last_crossing_spec:
  "comes_after side (last_crossing outward es side) \<and>
   (last_crossing outward es side = side \<or>
     (\<exists>e\<in>set es. last_crossing outward es side = (le_confidence e, end_of (\<not> outward) e)))"
proof (induction es arbitrary: side)
  case (Cons e es)
  let ?x = "(le_confidence e, end_of (\<not> outward) e)"
  let ?side = "if le_confidence e < fst side \<or> le_confidence e = fst side \<and> snd side < end_of (\<not> outward) e then ?x else side"
  have l: "last_crossing outward (e # es) side = last_crossing outward es ?side" by (simp add: Let_def)
  have s: "comes_after side ?side" "?side = side \<or> ?side = ?x" by (auto simp: comes_after_def)
  have "comes_after side (last_crossing outward (e # es) side)"
    unfolding l using s(1) Cons [of ?side] comes_after_trans by blast
  moreover have "last_crossing outward (e # es) side = ?side \<or>
      (\<exists>e'\<in>set es. last_crossing outward (e # es) side = (le_confidence e', end_of (\<not> outward) e'))"
    unfolding l using Cons [of ?side] by blast
  ultimately show ?case using s(2) by auto
qed simp

text \<open>When a side was cut, an edge of that side left out comes after the side's last crossing.\<close>

lemma side_cut_bound:
  assumes e: "e \<in> wanted_edges db project kinds" "end_of outward e = standing"
    and unread: "e \<notin> set (strongest_side db project kinds n standing outward)" and n: "0 < n"
  shows "\<exists>c. side_cut n outward (strongest_side db project kinds n standing outward) = Some c \<and>
    comes_after c (le_confidence e, end_of (\<not> outward) e) \<and>
    (\<exists>e'\<in>set (strongest_side db project kinds n standing outward). c = (le_confidence e', end_of (\<not> outward) e'))"
proof -
  let ?all = "filter (\<lambda>e. end_of outward e = standing) (map row_edge (wanted_rows db project kinds))"
  let ?s = "sort_by (side_order outward) ?all" and ?r = "strongest_side db project kinds n standing outward"
  have r: "?r = take n ?s" by (rule strongest_side_eq)
  have "e \<in> set ?s" using e by (auto simp: wanted_edges_def)
  then have d: "e \<in> set (drop n ?s)" using unread unfolding r by (metis Un_iff append_take_drop_id set_append)
  then have l: "n \<le> length ?s" by (metis drop_all empty_iff empty_set nat_le_linear)
  then have len: "length ?r = n" unfolding r by simp
  then obtain f fs where f: "?r = f # fs" using n by (cases ?r) auto
  let ?c = "last_crossing outward ?r (le_confidence f, end_of (\<not> outward) f)"
  have "?c = (le_confidence f, end_of (\<not> outward) f) \<or> (\<exists>e'\<in>set ?r. ?c = (le_confidence e', end_of (\<not> outward) e'))"
    using last_crossing_spec by blast
  then obtain e' where e': "e' \<in> set ?r" "?c = (le_confidence e', end_of (\<not> outward) e')" using f by auto
  have "side_order outward e' e"
    by (rule preorder_by.take_sort_by_le [OF side_order_preorder]) (use e'(1) d r in auto)
  then have "comes_after ?c (le_confidence e, end_of (\<not> outward) e)" unfolding e'(2) side_order_comes_after .
  moreover have "side_cut n outward ?r = Some ?c" using len by (simp add: side_cut_def side_end_def f)
  ultimately show ?thesis using e' by blast
qed

lemma earlier_cut_bound:
  assumes "c = Some x \<or> c' = Some x"
  shows "\<exists>y. earlier_cut c c' = Some y \<and> comes_after y x \<and> (c = Some y \<or> c' = Some y)"
  using assms by (cases c; cases c') (auto simp: comes_after_def)

lemma topic_cut_exists:
  assumes "side_cut n outward (strongest_side db project kinds n p outward) = Some x"
  shows "\<exists>y. topic_cut db project kinds n p = Some \<lparr>cut_standing = p, cut_confidence = fst y, cut_after = snd y\<rparr> \<and>
    comes_after y x"
proof -
  have "side_cut n True (strongest_side db project kinds n p True) = Some x \<or>
      side_cut n False (strongest_side db project kinds n p False) = Some x"
    using assms by (cases outward) simp_all
  from earlier_cut_bound [OF this] obtain y where
    "earlier_cut (side_cut n True (strongest_side db project kinds n p True))
      (side_cut n False (strongest_side db project kinds n p False)) = Some y" "comes_after y x" by blast
  then show ?thesis by (intro exI [of _ y]) (simp add: topic_cut_def split_beta)
qed

definition sides_read :: "graph_db \<Rightarrow> project_id \<Rightarrow> topic_id list \<Rightarrow> edge_kind list option \<Rightarrow> nat \<Rightarrow> live_edge list" where
  "sides_read db project positions kinds n =
     concat (map (\<lambda>p. strongest_side db project kinds n p True) positions)
   @ concat (map (\<lambda>p. strongest_side db project kinds n p False) positions)"

definition endpoints :: "live_edge list \<Rightarrow> topic_id list" where
  "endpoints es = concat (map (\<lambda>e. [le_from e, le_to e]) es)"

lemma set_endpoints: "t \<in> set (endpoints es) \<longleftrightarrow> (\<exists>e\<in>set es. \<exists>outward. t = end_of outward e)"
  by (auto simp: endpoints_def end_of_def)

lemma strongest_edges_eq:
  "strongest_edges db project positions kinds n =
     (once_each {} (if List.map_filter (topic_cut db project kinds n) positions = [] then sides_read db project positions kinds n
        else sides_read db project positions kinds n @
          edges_between db project (map cut_standing (List.map_filter (topic_cut db project kinds n) positions))
            (endpoints (sides_read db project positions kinds n)) kinds),
      List.map_filter (topic_cut db project kinds n) positions)"
  by (simp add: strongest_edges_def Let_def sides_read_def endpoints_def)

lemma set_sides_read:
  "e \<in> set (sides_read db project positions kinds n) \<longleftrightarrow>
    (\<exists>p\<in>set positions. \<exists>outward. e \<in> set (strongest_side db project kinds n p outward))"
  by (auto simp: sides_read_def) (metis (full_types))+

lemma topic_cut_standing: "topic_cut db project kinds n p = Some c \<Longrightarrow> cut_standing c = p"
  by (auto simp: topic_cut_def)

lemma side_cut_read:
  assumes "side_cut n outward es = Some y"
  shows "\<exists>e\<in>set es. y = (le_confidence e, end_of (\<not> outward) e)"
proof -
  obtain f fs where f: "es = f # fs" using assms by (cases es) (auto simp: side_cut_def side_end_def split: if_splits)
  have y: "y = last_crossing outward es (le_confidence f, end_of (\<not> outward) f)"
    using assms f by (auto simp: side_cut_def side_end_def split: if_splits)
  show ?thesis using last_crossing_spec [of "(le_confidence f, end_of (\<not> outward) f)" outward es] unfolding y [symmetric]
    by (auto simp: f)
qed

lemma earlier_cut_either: "earlier_cut c c' = Some y \<Longrightarrow> c = Some y \<or> c' = Some y"
  by (cases c; cases c') (auto split: if_splits)

text \<open>A cut is where one of the topic's sides stopped.\<close>

lemma topic_cut_read:
  assumes "topic_cut db project kinds n p = Some c"
  shows "\<exists>outward. \<exists>e\<in>set (strongest_side db project kinds n p outward).
    cut_confidence c = le_confidence e \<and> cut_after c = end_of (\<not> outward) e"
proof -
  obtain y where y: "earlier_cut (side_cut n True (strongest_side db project kinds n p True))
      (side_cut n False (strongest_side db project kinds n p False)) = Some y"
    and c: "c = \<lparr>cut_standing = p, cut_confidence = fst y, cut_after = snd y\<rparr>"
    using assms by (auto simp: topic_cut_def)
  from earlier_cut_either [OF y] obtain outward where "side_cut n outward (strongest_side db project kinds n p outward) = Some y"
    by blast
  from side_cut_read [OF this] show ?thesis using c by force
qed

lemma cut_in_cuts:
  "p \<in> set positions \<Longrightarrow> topic_cut db project kinds n p = Some c \<Longrightarrow> c \<in> set (List.map_filter (topic_cut db project kinds n) positions)"
  by (force simp: List.map_filter_def)

lemma in_cutsD:
  "c \<in> set (List.map_filter (topic_cut db project kinds n) positions) \<Longrightarrow>
    cut_standing c \<in> set positions \<and> topic_cut db project kinds n (cut_standing c) = Some c"
  using topic_cut_standing by (fastforce simp: List.map_filter_def)

definition hop_read :: "graph_db \<Rightarrow> project_id \<Rightarrow> topic_id list \<Rightarrow> edge_kind list option \<Rightarrow> nat \<Rightarrow> live_edge list" where
  "hop_read db project positions kinds n = fst (strongest_edges db project positions kinds n)"

definition hop_cuts :: "graph_db \<Rightarrow> project_id \<Rightarrow> topic_id list \<Rightarrow> edge_kind list option \<Rightarrow> nat \<Rightarrow> cut_topic list" where
  "hop_cuts db project positions kinds n = List.map_filter (topic_cut db project kinds n) positions"

lemma set_edges_between:
  assumes "graph_ok db"
  shows "set (edges_between db project cuts touched kinds) =
    {e \<in> wanted_edges db project kinds.
       \<exists>outward. end_of outward e \<in> set cuts \<and> end_of (\<not> outward) e \<in> set touched}"
proof -
  have "set (edges_between db project cuts touched kinds) = {e \<in> wanted_edges db project kinds.
      le_from e \<in> set cuts \<and> le_to e \<in> set touched \<or> le_to e \<in> set cuts \<and> le_from e \<in> set touched}"
    unfolding edges_between_def by (rule set_joined_edges [OF assms]) simp
  also have "\<dots> = {e \<in> wanted_edges db project kinds.
       \<exists>outward. end_of outward e \<in> set cuts \<and> end_of (\<not> outward) e \<in> set touched}"
    by (auto simp: end_of_def)
  finally show ?thesis .
qed

lemma set_hop_read:
  assumes ok: "graph_ok db"
  shows "set (hop_read db project positions kinds n) = set (sides_read db project positions kinds n) \<union>
     (if hop_cuts db project positions kinds n = [] then {}
      else set (edges_between db project (map cut_standing (hop_cuts db project positions kinds n))
             (endpoints (sides_read db project positions kinds n)) kinds))"
    and "distinct (hop_read db project positions kinds n)"
    and "set (hop_read db project positions kinds n) \<subseteq> wanted_edges db project kinds"
proof -
  let ?es = "if hop_cuts db project positions kinds n = [] then sides_read db project positions kinds n
        else sides_read db project positions kinds n @
          edges_between db project (map cut_standing (hop_cuts db project positions kinds n))
            (endpoints (sides_read db project positions kinds n)) kinds"
  have h: "hop_read db project positions kinds n = once_each {} ?es"
    by (simp only: hop_read_def strongest_edges_eq fst_conv hop_cuts_def)
  have w: "set ?es \<subseteq> wanted_edges db project kinds"
    using set_strongest_side set_edges_between [OF ok] by (fastforce simp: set_sides_read split: if_splits)
  note o = once_each_spec [of "{}" ?es]
  then show sub: "set (hop_read db project positions kinds n) \<subseteq> wanted_edges db project kinds" using w h by auto
  show "distinct (hop_read db project positions kinds n)" using o h by (simp add: distinct_map)
  have "set (once_each {} ?es) = set ?es"
  proof
    show "set ?es \<subseteq> set (once_each {} ?es)"
    proof
      fix e assume e: "e \<in> set ?es"
      then have "edge_id e \<in> edge_id ` set (once_each {} ?es)" using o by blast
      then obtain e' where e': "e' \<in> set (once_each {} ?es)" "edge_id e = edge_id e'" by blast
      then have "e = e'" using wanted_edge_id [OF ok, of e project kinds e'] w e o by blast
      with e' show "e \<in> set (once_each {} ?es)" by simp
    qed
  qed (use o in blast)
  then show "set (hop_read db project positions kinds n) = set (sides_read db project positions kinds n) \<union>
     (if hop_cuts db project positions kinds n = [] then {}
      else set (edges_between db project (map cut_standing (hop_cuts db project positions kinds n))
             (endpoints (sides_read db project positions kinds n)) kinds))"
    unfolding h by auto
qed

text \<open>The topics a hop read an edge of.\<close>

definition hop_topics :: "graph_db \<Rightarrow> project_id \<Rightarrow> topic_id list \<Rightarrow> edge_kind list option \<Rightarrow> nat \<Rightarrow> topic_id set" where
  "hop_topics db project positions kinds n = set (endpoints (hop_read db project positions kinds n))"

lemma cut_touched:
  assumes c: "c \<in> set (hop_cuts db project positions kinds n)"
  shows "cut_standing c \<in> set (endpoints (sides_read db project positions kinds n))"
    and "cut_after c \<in> set (endpoints (sides_read db project positions kinds n))"
proof -
  note d = in_cutsD [OF c [unfolded hop_cuts_def]]
  from topic_cut_read [OF conjunct2 [OF d]] obtain outward e where
    e: "e \<in> set (strongest_side db project kinds n (cut_standing c) outward)" "cut_after c = end_of (\<not> outward) e" by blast
  have s: "e \<in> set (sides_read db project positions kinds n)" using d e(1) by (auto simp: set_sides_read)
  have "end_of outward e = cut_standing c" using set_strongest_side e(1) by blast
  then show "cut_standing c \<in> set (endpoints (sides_read db project positions kinds n))"
    using s unfolding set_endpoints by (metis (full_types))
  show "cut_after c \<in> set (endpoints (sides_read db project positions kinds n))"
    using s e(2) by (auto simp: set_endpoints)
qed

lemma hop_topics_eq:
  assumes ok: "graph_ok db"
  shows "hop_topics db project positions kinds n = set (endpoints (sides_read db project positions kinds n))"
proof (intro equalityI subsetI)
  fix t assume "t \<in> hop_topics db project positions kinds n"
  then obtain e outward where e: "e \<in> set (hop_read db project positions kinds n)" "t = end_of outward e"
    by (auto simp: hop_topics_def set_endpoints)
  then consider "e \<in> set (sides_read db project positions kinds n)"
    | "e \<in> set (edges_between db project (map cut_standing (hop_cuts db project positions kinds n))
             (endpoints (sides_read db project positions kinds n)) kinds)"
    unfolding set_hop_read(1) [OF ok] by (auto split: if_splits)
  then show "t \<in> set (endpoints (sides_read db project positions kinds n))"
  proof cases
    case 2
    then obtain o' where o': "end_of o' e \<in> cut_standing ` set (hop_cuts db project positions kinds n)"
      "end_of (\<not> o') e \<in> set (endpoints (sides_read db project positions kinds n))"
      by (auto simp: set_edges_between [OF ok])
    then show ?thesis using e(2) cut_touched(1) by (cases "outward = o'") auto
  qed (use e(2) set_endpoints in blast)
next
  fix t assume "t \<in> set (endpoints (sides_read db project positions kinds n))"
  then show "t \<in> hop_topics db project positions kinds n"
    by (auto simp: hop_topics_def set_endpoints set_hop_read(1) [OF ok])
qed

lemma hop_read_complete:
  assumes ok: "graph_ok db" and n: "0 < n" and e: "e \<in> wanted_edges db project kinds"
    and p: "end_of outward e \<in> set positions" and t: "end_of (\<not> outward) e \<in> hop_topics db project positions kinds n"
  shows "e \<in> set (hop_read db project positions kinds n)"
proof (cases "e \<in> set (strongest_side db project kinds n (end_of outward e) outward)")
  case True
  then show ?thesis using p by (auto simp: set_hop_read(1) [OF ok] set_sides_read)
next
  case False
  from side_cut_bound [OF e refl False n] obtain x where
    "side_cut n outward (strongest_side db project kinds n (end_of outward e) outward) = Some x" by blast
  from topic_cut_exists [OF this] obtain c where c: "topic_cut db project kinds n (end_of outward e) = Some c" by blast
  then have cc: "c \<in> set (hop_cuts db project positions kinds n)"
    unfolding hop_cuts_def by (rule cut_in_cuts [OF p])
  then have "end_of outward e \<in> set (map cut_standing (hop_cuts db project positions kinds n))"
    using topic_cut_standing [OF c] by force
  moreover have "hop_cuts db project positions kinds n \<noteq> []" using cc by auto
  ultimately show ?thesis
    using e t unfolding set_hop_read(1) [OF ok] set_edges_between [OF ok] hop_topics_eq [OF ok] by auto
qed

lemma hop_unread_bound:
  assumes ok: "graph_ok db" and n: "0 < n" and e: "e \<in> wanted_edges db project kinds"
    and p: "end_of outward e \<in> set positions" and u: "e \<notin> set (hop_read db project positions kinds n)"
  shows "\<exists>c\<in>set (hop_cuts db project positions kinds n). cut_standing c = end_of outward e \<and>
    (le_confidence e < cut_confidence c \<or>
     le_confidence e = cut_confidence c \<and> cut_after c < end_of (\<not> outward) e) \<and>
    is_f32 (cut_confidence c) \<and> 0 < cut_confidence c"
proof -
  let ?p = "end_of outward e"
  have "e \<notin> set (strongest_side db project kinds n ?p outward)"
    using u p by (auto simp: set_hop_read(1) [OF ok] set_sides_read)
  from side_cut_bound [OF e refl this n] obtain x where
    x: "side_cut n outward (strongest_side db project kinds n ?p outward) = Some x"
       "comes_after x (le_confidence e, end_of (\<not> outward) e)" by blast
  from topic_cut_exists [OF x(1)] obtain y where
    c: "topic_cut db project kinds n ?p = Some \<lparr>cut_standing = ?p, cut_confidence = fst y, cut_after = snd y\<rparr>"
    and y: "comes_after y x" by blast
  let ?c = "\<lparr>cut_standing = ?p, cut_confidence = fst y, cut_after = snd y\<rparr>"
  have cc: "?c \<in> set (hop_cuts db project positions kinds n)" unfolding hop_cuts_def by (rule cut_in_cuts [OF p c])
  have a: "comes_after y (le_confidence e, end_of (\<not> outward) e)" by (rule comes_after_trans [OF y x(2)])
  have "snd y \<noteq> end_of (\<not> outward) e"
  proof
    assume "snd y = end_of (\<not> outward) e"
    then have "end_of (\<not> outward) e \<in> hop_topics db project positions kinds n"
      using cut_touched(2) [OF cc] by (simp add: hop_topics_eq [OF ok])
    from hop_read_complete [OF ok n e p this] u show False by blast
  qed
  then have "le_confidence e < cut_confidence ?c \<or>
     le_confidence e = cut_confidence ?c \<and> cut_after ?c < end_of (\<not> outward) e"
    using a by (auto simp: comes_after_def)
  moreover obtain outward' e' where e': "e' \<in> set (strongest_side db project kinds n ?p outward')" "cut_confidence ?c = le_confidence e'"
    using topic_cut_read [OF c] by blast
  then have "e' \<in> wanted_edges db project kinds" using set_strongest_side by blast
  then have "is_f32 (cut_confidence ?c)" "0 < cut_confidence ?c"
    using wanted_edgeD(2,3) [OF ok] e'(2) by metis+
  ultimately show ?thesis by (intro bexI [OF _ cc]) simp
qed

lemma hop_read_uncut:
  assumes ok: "graph_ok db" and n: "0 < n" and "e \<in> wanted_edges db project kinds" and "end_of outward e \<in> set positions"
    and "hop_cuts db project positions kinds n = []"
  shows "e \<in> set (hop_read db project positions kinds n)"
  using hop_unread_bound [OF assms(1-4)] assms(5) by auto

lemma set_every_edge:
  assumes ok: "graph_ok db"
  shows "set (every_edge db project positions kinds None) =
     {e \<in> wanted_edges db project kinds. \<exists>outward. end_of outward e \<in> set positions}"
    and "distinct (every_edge db project positions kinds None)"
proof -
  have "set (every_edge db project positions kinds None) =
     {e \<in> wanted_edges db project kinds. le_from e \<in> set positions \<or> le_to e \<in> set positions}"
    unfolding every_edge_def by (rule set_joined_edges [OF ok]) simp
  then show "set (every_edge db project positions kinds None) =
     {e \<in> wanted_edges db project kinds. \<exists>outward. end_of outward e \<in> set positions}"
    by (auto simp: end_of_def)
  show "distinct (every_edge db project positions kinds None)"
    unfolding every_edge_def by (rule distinct_joined_edges [OF ok])
qed

end
