(* ===== verification/Store_Walk_Bounds.thy ===== *)
theory Store_Walk_Bounds
  imports Store_Walk_Read
begin

text \<open>
  The bounded reading against the full one: what one hop reaches both ways, the induction over the
  walk, and what a caller may conclude from the topics the bounded walk returned.
\<close>

section \<open>Crossings\<close>

lemma crossing_order_preorder: "preorder_by (crossing_order standing)"
  unfolding crossing_order_def by (intro preorder_lex_by preorder_asc_by preorder_desc_by)

interpretation crossing_sort: preorder_by "crossing_order standing" for standing
  by (rule crossing_order_preorder)

lemma crossing_of_simps [simp]:
  "fst (crossing_of o' e) = end_of (\<not> o') e" "cr_kind (snd (crossing_of o' e)) = le_kind e"
  "cr_confidence (snd (crossing_of o' e)) = le_confidence e" "cr_outbound (snd (crossing_of o' e)) = o'"
  "cr_derivation (snd (crossing_of o' e)) = le_derivation e"
  by (simp_all add: crossing_of_def)

lemma in_entered_from: "x \<in> set (entered_from p e) \<longleftrightarrow> (\<exists>o'. end_of o' e = p \<and> x = crossing_of o' e)"
  by (auto simp: entered_from_def end_of_def)

text \<open>A crossing and where it was entered from give the edge back.\<close>

definition uncross :: "topic_id \<Rightarrow> topic_id \<times> crossing \<Rightarrow> live_edge" where
  "uncross p x = \<lparr>le_from = (if cr_outbound (snd x) then p else fst x), le_to = (if cr_outbound (snd x) then fst x else p),
     le_kind = cr_kind (snd x), le_derivation = cr_derivation (snd x), le_confidence = cr_confidence (snd x)\<rparr>"

lemma uncross_crossing: "end_of o' e = p \<Longrightarrow> uncross p (crossing_of o' e) = e"
  by (auto simp: uncross_def crossing_of_def end_of_def)

lemma uncross_entered:
  assumes "\<forall>e\<in>set es. le_from e \<noteq> le_to e"
  shows "map (uncross p) (concat (map (entered_from p) es)) = filter (\<lambda>e. le_from e = p \<or> le_to e = p) es"
  using assms
proof (induction es)
  case (Cons e es)
  have "uncross p (crossing_of True e) = e" if "le_from e = p" using that by (simp add: uncross_crossing end_of_def)
  moreover have "uncross p (crossing_of False e) = e" if "le_to e = p" using that by (simp add: uncross_crossing end_of_def)
  ultimately have "map (uncross p) (entered_from p e) = (if le_from e = p \<or> le_to e = p then [e] else [])"
    using Cons.prems by (auto simp: entered_from_def)
  then show ?case using Cons by simp
qed simp

lemma distinct_entered:
  assumes "distinct es" "\<forall>e\<in>set es. le_from e \<noteq> le_to e"
  shows "distinct (concat (map (entered_from p) es))"
proof -
  have "distinct (map (uncross p) (concat (map (entered_from p) es)))"
    unfolding uncross_entered [OF assms(2)] using assms(1) by simp
  then show ?thesis by (simp only: distinct_map)
qed

lemma set_crossings: "x \<in> set (crossings es p) \<longleftrightarrow> (\<exists>e\<in>set es. \<exists>o'. end_of o' e = p \<and> x = crossing_of o' e)"
  by (simp add: crossings_def in_entered_from)

lemma crossing_order_antisym:
  assumes ok: "graph_ok db" and e: "e \<in> wanted_edges db project kinds" and e': "e' \<in> wanted_edges db project kinds"
    and x: "x \<in> set (entered_from p e)" and y: "y \<in> set (entered_from p e')"
    and o: "crossing_order p x y" "crossing_order p y x"
  shows "x = y"
proof -
  have eq: "fst x = fst y" "cr_kind (snd x) = cr_kind (snd y)" "asserted_from p x = asserted_from p y"
    using o by (auto simp: crossing_order_def order_by_defs)
  obtain a where a: "end_of a e = p" "x = crossing_of a e" using x by (auto simp: in_entered_from)
  obtain b where b: "end_of b e' = p" "y = crossing_of b e'" using y by (auto simp: in_entered_from)
  have "fst x \<noteq> p" using a wanted_edgeD(1) [OF ok e] by (cases a) (auto simp: end_of_def)
  then have "a = b" using eq(1,3) a b by (auto simp: asserted_from_def split: if_splits)
  moreover have "edge_id e = edge_id e'"
    using eq(1,2) a b \<open>a = b\<close> by (cases b) (auto simp: edge_id_def end_of_def)
  ultimately show ?thesis using wanted_edge_id [OF ok e e'] a b by simp
qed

lemma crossings_restricted:
  assumes ok: "graph_ok db"
    and es: "distinct es" "set es \<subseteq> wanted_edges db project kinds"
    and fs: "distinct fs" "set fs \<subseteq> wanted_edges db project kinds"
    and same: "\<And>e o'. e \<in> wanted_edges db project kinds \<Longrightarrow> end_of o' e = p \<Longrightarrow> e \<in> set es \<longleftrightarrow> e \<in> set fs \<and> end_of (\<not> o') e \<in> T"
  shows "crossings es p = filter (\<lambda>x. fst x \<in> T) (crossings fs p)"
proof -
  have loop: "\<forall>e\<in>set es. le_from e \<noteq> le_to e" "\<forall>e\<in>set fs. le_from e \<noteq> le_to e"
    using wanted_edgeD(1) [OF ok] es(2) fs(2) by blast+
  let ?xs = "concat (map (entered_from p) es)" and ?ys = "filter (\<lambda>x. fst x \<in> T) (concat (map (entered_from p) fs))"
  have "set ?xs = set ?ys"
  proof (intro equalityI subsetI)
    fix x assume "x \<in> set ?xs"
    then obtain e o' where e: "e \<in> set es" "end_of o' e = p" "x = crossing_of o' e" by (auto simp: in_entered_from)
    then show "x \<in> set ?ys" using same [of e o'] es(2) by (auto simp: in_entered_from)
  next
    fix x assume "x \<in> set ?ys"
    then obtain e o' where e: "e \<in> set fs" "end_of o' e = p" "x = crossing_of o' e" "fst x \<in> T" by (auto simp: in_entered_from)
    then show "x \<in> set ?xs" using same [of e o'] fs(2) by (auto simp: in_entered_from)
  qed
  then have "mset ?xs = mset ?ys"
    using distinct_entered [OF es(1) loop(1)] distinct_entered [OF fs(1) loop(2)]
    by (subst set_eq_iff_mset_eq_distinct [symmetric]) simp_all
  then have "sort_by (crossing_order p) ?xs = sort_by (crossing_order p) ?ys"
  proof (rule crossing_sort.sort_by_perm_on)
    fix x y assume "x \<in> set ?xs" "y \<in> set ?xs" and o: "crossing_order p x y" "crossing_order p y x"
    then obtain e e' where "e \<in> set es" "x \<in> set (entered_from p e)" "e' \<in> set es" "y \<in> set (entered_from p e')" by auto
    then show "x = y" using crossing_order_antisym [OF ok, of e project kinds e' x p y] es(2) o by blast
  qed
  then show ?thesis by (simp add: crossings_def crossing_sort.sort_by_filter)
qed

section \<open>One hop's crossings\<close>

definition lookup_arrival :: "arrivals \<Rightarrow> topic_id \<Rightarrow> neighbor option" where
  "lookup_arrival = map_of"

definition noted :: "nat \<Rightarrow> neighbor \<Rightarrow> neighbor option \<Rightarrow> neighbor" where
  "noted hop a held = (case held of None \<Rightarrow> a
     | Some h \<Rightarrow> if nb_hops h = hop \<and> nb_confidence h < nb_confidence a then a else h)"

lemma map_of_note: "map_of (note_arrival hop a r) = (map_of r)(nb_topic a \<mapsto> noted hop a (map_of r (nb_topic a)))"
  by (induction hop a r rule: note_arrival.induct) (auto simp: noted_def fun_eq_iff)

lemma note_keys: "set (map fst (note_arrival hop a r)) = insert (nb_topic a) (set (map fst r))"
  by (induction hop a r rule: note_arrival.induct) auto

lemma note_distinct: "distinct (map fst r) \<Longrightarrow> distinct (map fst (note_arrival hop a r))"
proof (induction hop a r rule: note_arrival.induct)
  case (2 hop a topic held rest)
  then show ?case using note_keys [of hop a rest] by auto
qed simp

text \<open>Two states agree on the topics of a set.\<close>

definition agree :: "topic_id set \<Rightarrow> walk_state \<Rightarrow> walk_state \<Rightarrow> bool" where
  "agree T s s' \<longleftrightarrow> (\<forall>t\<in>T. (\<forall>o'. (t, o') \<in> ws_seen s \<longleftrightarrow> (t, o') \<in> ws_seen s') \<and>
     map_of (ws_reached s) t = map_of (ws_reached s') t)"

lemma agreeD: "agree T s s' \<Longrightarrow> t \<in> T \<Longrightarrow> (t, o') \<in> ws_seen s \<longleftrightarrow> (t, o') \<in> ws_seen s'"
    "agree T s s' \<Longrightarrow> t \<in> T \<Longrightarrow> map_of (ws_reached s) t = map_of (ws_reached s') t"
  by (simp_all add: agree_def)

lemma arrival_topic [simp]: "nb_topic (arrival hop step x) = fst x"
  by (simp add: arrival_def)

lemma attempt_out: "fst x \<notin> T \<Longrightarrow> agree T s s' \<Longrightarrow> agree T (attempt hop step x s) s'"
  by (auto simp: agree_def attempt_def map_of_note)

lemma attempt_in: "fst x \<in> T \<Longrightarrow> agree T s s' \<Longrightarrow> agree T (attempt hop step x s) (attempt hop step x s')"
  by (auto simp: agree_def attempt_def map_of_note)

lemma attempts_agree:
  "agree T s s' \<Longrightarrow> agree T (fold (attempt hop step) xs s) (fold (attempt hop step) (filter (\<lambda>x. fst x \<in> T) xs) s')"
  by (induction xs arbitrary: s s') (auto simp: attempt_in attempt_out)

lemma cross_agree:
  assumes "\<And>step. step \<in> set frontier \<Longrightarrow> crossings es (st_topic step) = filter (\<lambda>x. fst x \<in> T) (crossings fs (st_topic step))"
    and "agree T s s'"
  shows "agree T (fold (\<lambda>step s. fold (attempt hop step) (crossings fs (st_topic step)) s) frontier s)
    (fold (\<lambda>step s. fold (attempt hop step) (crossings es (st_topic step)) s) frontier s')"
  using assms
proof (induction frontier arbitrary: s s')
  case (Cons step frontier)
  have "agree T (fold (attempt hop step) (crossings fs (st_topic step)) s) (fold (attempt hop step) (crossings es (st_topic step)) s')"
    using Cons.prems by (simp add: attempts_agree)
  then show ?case using Cons by simp
qed simp

text \<open>What a hop's crossings may add to a state: arrivals over the crossings of the frontier.\<close>

definition from_frontier :: "nat \<Rightarrow> walk_step list \<Rightarrow> live_edge list \<Rightarrow> neighbor \<Rightarrow> bool" where
  "from_frontier hop frontier es a \<longleftrightarrow>
     (\<exists>step\<in>set frontier. \<exists>x\<in>set (crossings es (st_topic step)). a = arrival hop step x \<and>
        \<not> (1 < hop \<and> fst x = st_origin step))"

definition extends :: "nat \<Rightarrow> (neighbor \<Rightarrow> bool) \<Rightarrow> walk_state \<Rightarrow> walk_state \<Rightarrow> bool" where
  "extends hop P s s' \<longleftrightarrow>
     (\<forall>t a. map_of (ws_reached s') t = Some a \<longrightarrow> map_of (ws_reached s) t = Some a \<or> nb_topic a = t \<and> P a) \<and>
     (\<forall>t. map_of (ws_reached s) t \<noteq> None \<longrightarrow> map_of (ws_reached s') t \<noteq> None) \<and>
     (\<forall>t a. map_of (ws_reached s) t = Some a \<and> nb_hops a \<noteq> hop \<longrightarrow> map_of (ws_reached s') t = Some a) \<and>
     (distinct (map fst (ws_reached s)) \<longrightarrow> distinct (map fst (ws_reached s')))"

lemma extendsD:
  assumes "extends hop P s s'"
  shows "map_of (ws_reached s') t = Some a \<Longrightarrow> map_of (ws_reached s) t = Some a \<or> nb_topic a = t \<and> P a"
    and "map_of (ws_reached s) t \<noteq> None \<Longrightarrow> map_of (ws_reached s') t \<noteq> None"
    and "distinct (map fst (ws_reached s)) \<Longrightarrow> distinct (map fst (ws_reached s'))"
    and "map_of (ws_reached s) t = Some a \<Longrightarrow> nb_hops a \<noteq> hop \<Longrightarrow> map_of (ws_reached s') t = Some a"
  using assms unfolding extends_def by blast+

lemma extends_refl: "extends hop P s s"
  by (simp add: extends_def)

lemma extends_trans:
  assumes "extends hop P a b" "extends hop P b c"
  shows "extends hop P a c"
  unfolding extends_def
proof (intro conjI allI impI)
  fix t x assume "map_of (ws_reached c) t = Some x"
  then show "map_of (ws_reached a) t = Some x \<or> nb_topic x = t \<and> P x"
    using extendsD(1) [OF assms(2)] extendsD(1) [OF assms(1)] by blast
next
  fix t assume "map_of (ws_reached a) t \<noteq> None"
  then show "map_of (ws_reached c) t \<noteq> None"
    by (intro extendsD(2) [OF assms(2)] extendsD(2) [OF assms(1)])
next
  fix t x assume "map_of (ws_reached a) t = Some x \<and> nb_hops x \<noteq> hop"
  then show "map_of (ws_reached c) t = Some x"
    using extendsD(4) [OF assms(2)] extendsD(4) [OF assms(1)] by blast
next
  assume "distinct (map fst (ws_reached a))"
  then show "distinct (map fst (ws_reached c))"
    by (intro extendsD(3) [OF assms(2)] extendsD(3) [OF assms(1)])
qed

lemma attempt_extends:
  assumes "\<not> (1 < hop \<and> fst x = st_origin step) \<Longrightarrow> P (arrival hop step x)"
  shows "extends hop P s (attempt hop step x s)"
proof (cases "1 < hop \<and> (fst x = st_origin step \<or> fst x = st_via step) \<or> (fst x, st_origin step) \<in> ws_seen s")
  case True
  then have "attempt hop step x s = s" by (auto simp: attempt_def)
  then show ?thesis by (simp add: extends_refl)
next
  case False
  let ?r = "note_arrival hop (arrival hop step x) (ws_reached s)"
  have r: "ws_reached (attempt hop step x s) = ?r" using False by (auto simp: attempt_def)
  have P: "P (arrival hop step x)" using assms False by blast
  have m: "map_of ?r t = (if t = fst x then Some (noted hop (arrival hop step x) (map_of (ws_reached s) t))
      else map_of (ws_reached s) t)" for t by (simp add: map_of_note)
  have n: "noted hop (arrival hop step x) h = arrival hop step x \<or> h = Some (noted hop (arrival hop step x) h)" for h
    by (cases h) (simp_all add: noted_def)
  show ?thesis
    unfolding extends_def r
  proof (intro conjI allI impI)
    fix t a assume "map_of ?r t = Some a"
    then show "map_of (ws_reached s) t = Some a \<or> nb_topic a = t \<and> P a"
      using P n [of "map_of (ws_reached s) t"] by (cases "t = fst x") (auto simp: m)
  next
    fix t a assume a: "map_of (ws_reached s) t = Some a \<and> nb_hops a \<noteq> hop"
    then show "map_of ?r t = Some a" by (cases "t = fst x") (auto simp: m noted_def)
  qed (simp_all add: m note_distinct)
qed

lemma cross_extends:
  assumes "\<And>a. from_frontier hop frontier es a \<Longrightarrow> P a"
  shows "extends hop P s (fold (\<lambda>step s. fold (attempt hop step) (crossings es (st_topic step)) s) frontier s)"
proof -
  have one: "extends hop P s (fold (attempt hop step) xs s)"
    if "step \<in> set frontier" "set xs \<subseteq> set (crossings es (st_topic step))" for step xs s
    using that(2)
  proof (induction xs arbitrary: s)
    case (Cons x xs)
    have "extends hop P s (attempt hop step x s)"
      using assms that(1) Cons.prems by (intro attempt_extends) (auto simp: from_frontier_def)
    moreover have "extends hop P (attempt hop step x s) (fold (attempt hop step) xs (attempt hop step x s))"
      using Cons by simp
    ultimately show ?case using extends_trans by simp
  qed (simp add: extends_refl)
  have "extends hop P s (fold (\<lambda>step s. fold (attempt hop step) (crossings es (st_topic step)) s) steps s)"
    if "set steps \<subseteq> set frontier" for steps s
    using that
  proof (induction steps arbitrary: s)
    case (Cons step steps)
    have "extends hop P s (fold (attempt hop step) (crossings es (st_topic step)) s)"
      using one Cons.prems by simp
    moreover have "extends hop P (fold (attempt hop step) (crossings es (st_topic step)) s)
      (fold (\<lambda>step s. fold (attempt hop step) (crossings es (st_topic step)) s) steps
        (fold (attempt hop step) (crossings es (st_topic step)) s))" using Cons by simp
    ultimately show ?case using extends_trans by simp
  qed (simp add: extends_refl)
  then show ?thesis by simp
qed

lemma cross_extends':
  "(\<And>a. from_frontier hop frontier es a \<Longrightarrow> P a) \<Longrightarrow> extends hop P s (cross hop frontier es s)"
  unfolding cross_def using cross_extends [of hop frontier es P "s\<lparr>ws_next := []\<rparr>"]
  by (simp add: extends_def)

lemma cross_agree':
  assumes "\<And>step. step \<in> set frontier \<Longrightarrow> crossings es (st_topic step) = filter (\<lambda>x. fst x \<in> T) (crossings fs (st_topic step))"
  shows "agree T (cross hop frontier fs s) (cross hop frontier es s)"
  unfolding cross_def by (rule cross_agree [OF assms]) (simp_all add: agree_def)

lemma cross_cong:
  "(\<And>step. step \<in> set frontier \<Longrightarrow> crossings es (st_topic step) = crossings fs (st_topic step)) \<Longrightarrow>
    cross hop frontier es s = cross hop frontier fs s"
  unfolding cross_def by (rule fold_cong) simp_all

section \<open>One hop, read in full or to a bound\<close>

definition misses :: "unread \<Rightarrow> neighbor \<Rightarrow> bool" where
  "misses u a \<longleftrightarrow> nb_hops a = un_hops u \<and> nb_via a = un_via u \<and> nb_origin a \<in> set (un_origins u) \<and>
     (nb_confidence a < un_confidence u \<or> nb_confidence a = un_confidence u \<and> un_after u < nb_topic a)"

definition bounded_by :: "unread list \<Rightarrow> arrivals \<Rightarrow> arrivals \<Rightarrow> bool" where
  "bounded_by us part whole \<longleftrightarrow>
     (\<forall>t a. map_of part t = Some a \<longrightarrow> map_of whole t = Some a) \<and>
     (\<forall>t a. map_of whole t = Some a \<longrightarrow> map_of part t = Some a \<or> (\<exists>u\<in>set us. misses u a))"

definition positions_of :: "walk_step list \<Rightarrow> topic_id list" where
  "positions_of frontier = sort (remdups (map st_topic frontier))"

lemma set_positions [simp]: "set (positions_of frontier) = st_topic ` set frontier"
  by (simp add: positions_of_def)

lemma from_frontier_edge:
  assumes "from_frontier hop frontier es a"
  shows "\<exists>step\<in>set frontier. \<exists>e\<in>set es. \<exists>o'. end_of o' e = st_topic step \<and> end_of (\<not> o') e = nb_topic a \<and>
    nb_hops a = hop \<and> nb_via a = st_topic step \<and> nb_origin a = st_origin step \<and> nb_confidence a = le_confidence e \<and>
    nb_kind a = le_kind e \<and> nb_derivation a = le_derivation e \<and> nb_outbound a = o' \<and>
    \<not> (1 < hop \<and> nb_topic a = nb_origin a)"
proof -
  obtain step x where x: "step \<in> set frontier" "x \<in> set (crossings es (st_topic step))" "a = arrival hop step x"
    "\<not> (1 < hop \<and> fst x = st_origin step)" using assms by (auto simp: from_frontier_def)
  from x(2) obtain e o' where e: "e \<in> set es" "end_of o' e = st_topic step" "x = crossing_of o' e" by (auto simp: set_crossings)
  show ?thesis
    by (rule bexI [OF _ x(1)], rule bexI [OF _ e(1)], rule exI [of _ o'])
      (use e x(4) in \<open>simp add: x(3) arrival_def\<close>)
qed

lemma every_edge_wanted:
  assumes "graph_ok db" and "set positions = st_topic ` set frontier" and "step \<in> set frontier"
    and "e \<in> wanted_edges db project kinds" and "end_of o' e = st_topic step"
  shows "e \<in> set (every_edge db project positions kinds None)"
  using assms by (auto simp: set_every_edge(1))

lemma hop_read_in:
  assumes "e \<in> set (hop_read db project positions kinds n)"
  shows "end_of o' e \<in> hop_topics db project positions kinds n"
  using assms by (auto simp: hop_topics_def set_endpoints)

lemma hop_crossings:
  assumes ok: "graph_ok db" and n: "0 < n" and step: "step \<in> set frontier"
  shows "crossings (hop_read db project (positions_of frontier) kinds n) (st_topic step) =
    filter (\<lambda>x. fst x \<in> hop_topics db project (positions_of frontier) kinds n)
      (crossings (every_edge db project (positions_of frontier) kinds None) (st_topic step))"
proof (rule crossings_restricted [OF ok set_hop_read(2,3) [OF ok] set_every_edge(2) [OF ok]])
  show "set (every_edge db project (positions_of frontier) kinds None) \<subseteq> wanted_edges db project kinds"
    by (auto simp: set_every_edge(1) [OF ok])
  fix e o' assume e: "e \<in> wanted_edges db project kinds" "end_of o' e = st_topic step"
  have p: "end_of o' e \<in> set (positions_of frontier)" using e(2) step by simp
  show "e \<in> set (hop_read db project (positions_of frontier) kinds n) \<longleftrightarrow>
     e \<in> set (every_edge db project (positions_of frontier) kinds None) \<and>
     end_of (\<not> o') e \<in> hop_topics db project (positions_of frontier) kinds n"
    using hop_read_complete [OF ok n e(1) p] hop_read_in every_edge_wanted [OF ok _ step e] by auto
qed

lemma hop_uncut:
  assumes ok: "graph_ok db" and n: "0 < n" and c: "hop_cuts db project (positions_of frontier) kinds n = []"
  shows "cross hop frontier (hop_read db project (positions_of frontier) kinds n) s
       = cross hop frontier (every_edge db project (positions_of frontier) kinds None) s"
proof (rule cross_cong)
  fix step assume step: "step \<in> set frontier"
  have "fst x \<in> hop_topics db project (positions_of frontier) kinds n"
    if x: "x \<in> set (crossings (every_edge db project (positions_of frontier) kinds None) (st_topic step))" for x
  proof -
    obtain e o' where e: "e \<in> set (every_edge db project (positions_of frontier) kinds None)" "end_of o' e = st_topic step"
      "x = crossing_of o' e" using x by (auto simp: set_crossings)
    have w: "e \<in> wanted_edges db project kinds" using e(1) by (simp add: set_every_edge(1) [OF ok])
    have "end_of o' e \<in> set (positions_of frontier)" using e(2) step by simp
    from hop_read_in [OF hop_read_uncut [OF ok n w this c]] show ?thesis using e(3) by simp
  qed
  then show "crossings (hop_read db project (positions_of frontier) kinds n) (st_topic step)
      = crossings (every_edge db project (positions_of frontier) kinds None) (st_topic step)"
    by (simp add: hop_crossings [OF ok n step] filter_id_conv)
qed

text \<open>What a state holds before hop \<open>hop\<close>: one entry per topic, each reached earlier.\<close>

definition walked :: "nat \<Rightarrow> walk_state \<Rightarrow> bool" where
  "walked hop s \<longleftrightarrow> distinct (map fst (ws_reached s)) \<and>
     (\<forall>t a. map_of (ws_reached s) t = Some a \<longrightarrow> nb_topic a = t \<and> nb_hops a < hop)"

lemma hop_bounded:
  assumes ok: "graph_ok db" and n: "0 < n" and w: "walked hop s"
  shows "bounded_by (map (unread_of hop frontier) (hop_cuts db project (positions_of frontier) kinds n))
    (ws_reached (cross hop frontier (hop_read db project (positions_of frontier) kinds n) s))
    (ws_reached (cross hop frontier (every_edge db project (positions_of frontier) kinds None) s))"
proof -
  let ?ps = "positions_of frontier"
  let ?E = "hop_read db project ?ps kinds n" and ?F = "every_edge db project ?ps kinds None"
  let ?T = "hop_topics db project ?ps kinds n" and ?us = "map (unread_of hop frontier) (hop_cuts db project ?ps kinds n)"
  let ?c = "cross hop frontier ?E s" and ?f = "cross hop frontier ?F s"
  have agree: "agree ?T ?f ?c" by (rule cross_agree' [OF hop_crossings [OF ok n]])
  have ec: "extends hop (\<lambda>a. nb_topic a \<in> ?T) s ?c"
  proof (rule cross_extends')
    fix a assume "from_frontier hop frontier ?E a"
    then show "nb_topic a \<in> ?T" using from_frontier_edge [of hop frontier ?E a] hop_read_in by metis
  qed
  have ef: "extends hop (from_frontier hop frontier ?F) s ?f" by (rule cross_extends')
  have out: "map_of (ws_reached ?c) t = map_of (ws_reached s) t" if t: "t \<notin> ?T" for t
  proof (rule option_ext)
    fix a
    have 1: "map_of (ws_reached ?c) t = Some a \<Longrightarrow> map_of (ws_reached s) t = Some a" for a
      using extendsD(1) [OF ec, of t a] t by blast
    show "map_of (ws_reached ?c) t = Some a \<longleftrightarrow> map_of (ws_reached s) t = Some a"
      using 1 extendsD(2) [OF ec, of t] by (cases "map_of (ws_reached ?c) t") auto
  qed
  have missed: "\<exists>u\<in>set ?us. misses u a" if a: "from_frontier hop frontier ?F a" and t: "nb_topic a \<notin> ?T" for a
  proof -
    obtain step e o' where e: "step \<in> set frontier" "e \<in> set ?F" "end_of o' e = st_topic step" "end_of (\<not> o') e = nb_topic a"
      "nb_hops a = hop" "nb_via a = st_topic step" "nb_origin a = st_origin step" "nb_confidence a = le_confidence e"
      using from_frontier_edge [OF a] by blast
    have we: "e \<in> wanted_edges db project kinds" using e(2) by (simp add: set_every_edge(1) [OF ok])
    have p: "end_of o' e \<in> set ?ps" using e(1,3) by simp
    have "e \<notin> set ?E" using hop_read_in [of e db project ?ps kinds n "\<not> o'"] t e(4) by auto
    from hop_unread_bound [OF ok n we p this] obtain c where c: "c \<in> set (hop_cuts db project ?ps kinds n)"
      "cut_standing c = st_topic step"
      "le_confidence e < cut_confidence c \<or> le_confidence e = cut_confidence c \<and> cut_after c < nb_topic a"
      using e(3,4) by auto
    then have "misses (unread_of hop frontier c) a"
      using e by (auto simp: misses_def unread_of_def)
    then show ?thesis using c(1) by auto
  qed
  show ?thesis
    unfolding bounded_by_def
  proof (intro conjI allI impI)
    fix t a assume c: "map_of (ws_reached ?c) t = Some a"
    show "map_of (ws_reached ?f) t = Some a"
    proof (cases "t \<in> ?T")
      case True
      then show ?thesis using c agreeD(2) [OF agree] by metis
    next
      case False
      then have "map_of (ws_reached s) t = Some a" using c out by simp
      moreover from this w have "nb_hops a < hop" unfolding walked_def by blast
      ultimately show ?thesis using extendsD(4) [OF ef, of t a] by simp
    qed
  next
    fix t a assume f: "map_of (ws_reached ?f) t = Some a"
    show "map_of (ws_reached ?c) t = Some a \<or> (\<exists>u\<in>set ?us. misses u a)"
    proof (cases "t \<in> ?T")
      case True
      then show ?thesis using f agreeD(2) [OF agree] by metis
    next
      case False
      then show ?thesis using extendsD(1) [OF ef f] out [OF False] missed by auto
    qed
  qed
qed

section \<open>The whole walk, read in full or to a bound\<close>

text \<open>The one hop, both ways.\<close>

lemma hop_once_full:
  "ex_at options = None \<Longrightarrow> hop_once db project options None hop frontier s =
    (cross hop frontier (every_edge db project (positions_of frontier) (ex_kinds options) None) s, [])"
  by (simp add: hop_once_def positions_of_def Let_def)

lemma hop_once_reading:
  "ex_at options = None \<Longrightarrow> hop_once db project options (Some n) hop frontier s =
    (let cuts = hop_cuts db project (positions_of frontier) (ex_kinds options) n;
         s1 = cross hop frontier (hop_read db project (positions_of frontier) (ex_kinds options) n) s
     in if cuts = [] then (s1, [])
        else if hop = ex_depth options \<or> enough options s1 then (s1, map (unread_of hop frontier) cuts)
        else (cross hop frontier (every_edge db project (positions_of frontier) (ex_kinds options) None) s, []))"
proof -
  have c: "snd (strongest_edges db project (positions_of frontier) (ex_kinds options) n)
    = hop_cuts db project (positions_of frontier) (ex_kinds options) n"
    by (simp add: hop_cuts_def strongest_edges_eq)
  assume "ex_at options = None"
  then show ?thesis
    by (simp add: hop_once_def positions_of_def [symmetric] hop_read_def c Let_def case_prod_beta)
qed

lemma walked_cross:
  assumes w: "walked hop s"
  shows "walked (Suc hop) (cross hop frontier es s)"
proof -
  have e: "extends hop (\<lambda>a. nb_hops a = hop) s (cross hop frontier es s)"
    by (rule cross_extends') (auto simp: from_frontier_def arrival_def)
  have "nb_topic a = t \<and> nb_hops a < Suc hop" if a: "map_of (ws_reached (cross hop frontier es s)) t = Some a" for t a
  proof (cases "map_of (ws_reached s) t = Some a")
    case True
    then have "nb_topic a = t \<and> nb_hops a < hop" using w unfolding walked_def by blast
    then show ?thesis by simp
  next
    case False
    then show ?thesis using extendsD(1) [OF e a] by simp
  qed
  then show ?thesis using extendsD(3) [OF e] w unfolding walked_def by blast
qed

lemma walked_mono: "walked hop s \<Longrightarrow> hop \<le> hop' \<Longrightarrow> walked hop' s"
  unfolding walked_def by (meson order_less_le_trans)

lemma bounded_by_refl: "bounded_by [] s s"
  by (simp add: bounded_by_def)

lemma bounded_by_keys: "bounded_by us part whole \<Longrightarrow> set (map fst part) \<subseteq> set (map fst whole)"
proof
  fix t assume b: "bounded_by us part whole" and "t \<in> set (map fst part)"
  then have "map_of part t \<noteq> None" by (simp add: map_of_eq_None_iff)
  then obtain a where "map_of part t = Some a" by blast
  then have "map_of whole t = Some a" using b unfolding bounded_by_def by blast
  then show "t \<in> set (map fst whole)" by (metis map_of_eq_None_iff option.distinct(1) set_map)
qed

lemma bounded_enough:
  assumes b: "bounded_by us (ws_reached s) (ws_reached s')"
    and d: "distinct (map fst (ws_reached s))" "distinct (map fst (ws_reached s'))" and e: "enough options s"
  shows "enough options s'"
proof -
  have "card (set (map fst (ws_reached s))) \<le> card (set (map fst (ws_reached s')))"
    by (rule card_mono [OF _ bounded_by_keys [OF b]]) simp
  then have "length (ws_reached s) \<le> length (ws_reached s')"
    unfolding distinct_card [OF d(1)] distinct_card [OF d(2)] by simp
  then show ?thesis using e by (auto simp: enough_def split: option.splits)
qed

lemma walk_hops_stop:
  assumes "left = 0 \<or> enough options (fst h)" and "h = hop_once db project options per hop frontier s"
  shows "walk_hops db project options per (Suc left) hop frontier s = h"
  using assms(1) by (auto simp: assms(2) [symmetric] Let_def case_prod_beta)

lemma walk_hops_go:
  assumes "hop_once db project options per hop frontier s = (s1, [])"
  shows "walk_hops db project options per (Suc left) hop frontier s =
    (if ws_next s1 = [] \<or> enough options s1 then (s1, [])
     else walk_hops db project options per left (hop + 1) (map fst (take MAX_FRONTIER (sort_by confidence_order (ws_next s1)))) s1)"
  using assms by (simp add: Let_def)

lemma walk_hops_bounded:
  assumes ok: "graph_ok db" and n: "0 < n" and now: "ex_at options = None"
  shows "walked hop s \<Longrightarrow> hop + left = Suc (ex_depth options) \<Longrightarrow>
    bounded_by (snd (walk_hops db project options (Some n) left hop frontier s))
      (ws_reached (fst (walk_hops db project options (Some n) left hop frontier s)))
      (ws_reached (fst (walk_hops db project options None left hop frontier s)))"
proof (induction left arbitrary: hop frontier s)
  case (Suc left)
  let ?E = "cross hop frontier (hop_read db project (positions_of frontier) (ex_kinds options) n) s"
  let ?F = "cross hop frontier (every_edge db project (positions_of frontier) (ex_kinds options) None) s"
  let ?cuts = "hop_cuts db project (positions_of frontier) (ex_kinds options) n"
  have full: "hop_once db project options None hop frontier s = (?F, [])" by (rule hop_once_full [OF now])
  note part = hop_once_reading [OF now, of db project n hop frontier s, unfolded Let_def]
  show ?case
  proof (cases "?cuts \<noteq> [] \<and> (hop = ex_depth options \<or> enough options ?E)")
    case True
    then have p: "hop_once db project options (Some n) hop frontier s = (?E, map (unread_of hop frontier) ?cuts)"
      by (simp add: part)
    have b: "bounded_by (map (unread_of hop frontier) ?cuts) (ws_reached ?E) (ws_reached ?F)"
      by (rule hop_bounded [OF ok n Suc.prems(1)])
    have "left = 0 \<or> enough options ?E" using True Suc.prems(2) by auto
    moreover have "left = 0 \<or> enough options ?F"
      using calculation bounded_enough [OF b] walked_cross [OF Suc.prems(1)] unfolding walked_def by blast
    ultimately show ?thesis
      using b by (simp only: walk_hops_stop [OF _ full [symmetric]] walk_hops_stop [OF _ p [symmetric]] fst_conv snd_conv)
  next
    case False
    then have p: "hop_once db project options (Some n) hop frontier s = (?F, [])"
      using hop_uncut [OF ok n, of project frontier "ex_kinds options" hop s] by (auto simp: part)
    show ?thesis
      unfolding walk_hops_go [OF full] walk_hops_go [OF p]
      using Suc.IH [OF walked_cross [OF Suc.prems(1)]] Suc.prems(2) by (simp add: bounded_by_refl)
  qed
qed (simp add: bounded_by_refl)

lemma hop_cut_f32:
  assumes ok: "graph_ok db" and c: "c \<in> set (hop_cuts db project positions kinds n)"
  shows "is_f32 (cut_confidence c) \<and> 0 < cut_confidence c"
proof -
  from topic_cut_read [OF conjunct2 [OF in_cutsD [OF c [unfolded hop_cuts_def]]]] obtain e o' where
    e: "e \<in> set (strongest_side db project kinds n (cut_standing c) o')" "cut_confidence c = le_confidence e" by blast
  have "e \<in> wanted_edges db project kinds" using set_strongest_side e(1) by blast
  from wanted_edgeD(2,3) [OF ok this] show ?thesis using e(2) by simp
qed

lemma walk_hops_unread:
  assumes ok: "graph_ok db" and now: "ex_at options = None"
  shows "u \<in> set (snd (walk_hops db project options (Some n) left hop frontier s)) \<Longrightarrow>
    is_f32 (un_confidence u) \<and> 0 < un_confidence u"
proof (induction left arbitrary: hop frontier s)
  case (Suc left)
  obtain s1 us where h: "hop_once db project options (Some n) hop frontier s = (s1, us)" by fastforce
  have "u \<in> set us \<or> u \<in> set (snd (walk_hops db project options (Some n) left (hop + 1)
      (map fst (take MAX_FRONTIER (sort_by confidence_order (ws_next s1)))) s1))"
    using Suc.prems by (auto simp: h Let_def case_prod_beta split: if_splits)
  then show ?case
  proof
    assume "u \<in> set us"
    then have "us = map (unread_of hop frontier) (hop_cuts db project (positions_of frontier) (ex_kinds options) n)"
      using h unfolding hop_once_reading [OF now] Let_def by (auto split: if_splits)
    with \<open>u \<in> set us\<close> obtain c where c: "c \<in> set (hop_cuts db project (positions_of frontier) (ex_kinds options) n)"
      "u = unread_of hop frontier c" by auto
    show ?thesis using hop_cut_f32 [OF ok c(1)] by (simp add: c(2) unread_of_def)
  qed (rule Suc.IH)
qed simp

lemma walk_hops_full_unread:
  assumes now: "ex_at options = None"
  shows "snd (walk_hops db project options None left hop frontier s) = []"
proof (induction left arbitrary: hop frontier s)
  case (Suc left)
  show ?case unfolding walk_hops_go [OF hop_once_full [OF now]] using Suc.IH by simp
qed simp

lemma walk_hops_walked:
  "walked hop s \<Longrightarrow> walked (hop + left) (fst (walk_hops db project options per left hop frontier s))"
proof (induction left arbitrary: hop frontier s)
  case (Suc left)
  obtain s1 us where h: "hop_once db project options per hop frontier s = (s1, us)" by fastforce
  have "\<exists>es. s1 = cross hop frontier es s"
    using h by (auto simp: hop_once_def Let_def case_prod_beta split: option.splits if_splits)
  then have w: "walked (Suc hop) s1" using walked_cross [OF Suc.prems] by blast
  show ?case
    using Suc.IH [of "hop + 1" s1] w walked_mono [OF w, of "Suc (hop + left)"] by (simp add: h Let_def case_prod_beta)
qed simp

section \<open>What the caller is handed\<close>

definition entries :: "neighbor list \<Rightarrow> arrivals" where
  "entries ns = map (\<lambda>a. (nb_topic a, a)) ns"

lemma map_of_entries: "distinct (map nb_topic ns) \<Longrightarrow> map_of (entries ns) t = Some a \<longleftrightarrow> a \<in> set ns \<and> nb_topic a = t"
  by (subst map_of_eq_Some_iff) (auto simp: entries_def comp_def)

lemma walked_keys:
  assumes "walked hop s"
  shows "map fst (ws_reached s) = map nb_topic (map snd (ws_reached s))"
proof -
  have d: "distinct (map fst (ws_reached s))"
    and t: "map_of (ws_reached s) t = Some a \<Longrightarrow> nb_topic a = t" for t a using assms unfolding walked_def by blast+
  have "fst x = nb_topic (snd x)" if "x \<in> set (ws_reached s)" for x
    using t [of "fst x" "snd x"] map_of_is_SomeI [OF d, of "fst x" "snd x"] that by simp
  then show ?thesis by simp
qed

lemma entries_of_keys: "map fst r = map nb_topic (map snd r) \<Longrightarrow> entries (map snd r) = r"
  by (induction r) (auto simp: entries_def)

definition seed_frontier :: "topic_id list \<Rightarrow> walk_step list" where
  "seed_frontier seeds = map (\<lambda>seed. \<lparr>st_topic = seed, st_origin = seed, st_via = seed\<rparr>) seeds"

definition no_arrivals :: walk_state where
  "no_arrivals = \<lparr>ws_seen = {}, ws_reached = [], ws_next = []\<rparr>"

lemma walk_from_eq:
  "ex_at options = None \<Longrightarrow> walk_from db project seeds options per =
     (if seeds = [] \<or> ex_depth options = 0 then \<lparr>wk_neighbors = [], wk_unread = []\<rparr>
      else let w = walk_hops db project options per (ex_depth options) 1 (seed_frontier seeds) no_arrivals
        in \<lparr>wk_neighbors = sort_by neighbor_order (map snd (ws_reached (fst w))), wk_unread = snd w\<rparr>)"
  by (simp add: walk_from_def seed_frontier_def no_arrivals_def Let_def case_prod_beta)

lemma walked_start: "walked hop no_arrivals"
  by (simp add: walked_def no_arrivals_def)

lemma walked_neighbors:
  assumes "walked hop s"
  shows "distinct (map nb_topic (sort_by neighbor_order (map snd (ws_reached s))))"
    and "map_of (ws_reached s) t = Some a \<longleftrightarrow> a \<in> set (sort_by neighbor_order (map snd (ws_reached s))) \<and> nb_topic a = t"
proof -
  have d: "distinct (map nb_topic (map snd (ws_reached s)))"
    using conjunct1 [OF assms [unfolded walked_def]] by (simp only: walked_keys [OF assms])
  have "mset (map nb_topic (sort_by neighbor_order ns)) = mset (map nb_topic ns)" for ns by simp
  then show "distinct (map nb_topic (sort_by neighbor_order (map snd (ws_reached s))))"
    using d mset_eq_imp_distinct_iff by blast
  show "map_of (ws_reached s) t = Some a \<longleftrightarrow> a \<in> set (sort_by neighbor_order (map snd (ws_reached s))) \<and> nb_topic a = t"
    using map_of_entries [OF d, of t a] by (simp only: entries_of_keys [OF walked_keys [OF assms]] set_sort_by)
qed

lemma neighbors_distinct:
  assumes "ex_at options = None"
  shows "distinct (map nb_topic (wk_neighbors (walk_from db project seeds options per)))"
proof -
  have w: "walked (1 + ex_depth options) (fst (walk_hops db project options per (ex_depth options) 1 (seed_frontier seeds) no_arrivals))"
    by (rule walk_hops_walked [OF walked_start])
  show ?thesis using walked_neighbors(1) [OF w] by (simp add: walk_from_eq [OF assms] Let_def)
qed

lemma bounded_neighbors:
  assumes w: "walked h part" "walked h' whole" and b: "bounded_by us (ws_reached part) (ws_reached whole)"
  shows "a \<in> set (sort_by neighbor_order (map snd (ws_reached part))) \<Longrightarrow>
      a \<in> set (sort_by neighbor_order (map snd (ws_reached whole)))"
    and "a \<in> set (sort_by neighbor_order (map snd (ws_reached whole))) \<Longrightarrow>
      a \<in> set (sort_by neighbor_order (map snd (ws_reached part))) \<or> (\<exists>u\<in>set us. misses u a)"
proof -
  note m = walked_neighbors(2) [OF w(1), of "nb_topic a" a] walked_neighbors(2) [OF w(2), of "nb_topic a" a]
  note b' = b [unfolded bounded_by_def]
  show "a \<in> set (sort_by neighbor_order (map snd (ws_reached part))) \<Longrightarrow>
      a \<in> set (sort_by neighbor_order (map snd (ws_reached whole)))" using m b' by blast
  show "a \<in> set (sort_by neighbor_order (map snd (ws_reached whole))) \<Longrightarrow>
      a \<in> set (sort_by neighbor_order (map snd (ws_reached part))) \<or> (\<exists>u\<in>set us. misses u a)" using m b' by blast
qed

text \<open>The bounded walk is part of the full one, and bounds what it lacks.\<close>

lemma reading_bounds:
  assumes ok: "graph_ok db" and now: "ex_at options = None"
    and r_def: "r = expand_reading db project seeds options per_topic"
  shows "a \<in> set (wk_neighbors r) \<Longrightarrow> a \<in> set (expand db project seeds options)"
    and "a \<in> set (expand db project seeds options) \<Longrightarrow> a \<in> set (wk_neighbors r) \<or> (\<exists>u\<in>set (wk_unread r). misses u a)"
proof -
  let ?w = "\<lambda>per. walk_hops db project options per (ex_depth options) 1 (seed_frontier seeds) no_arrivals"
  have b: "bounded_by (snd (?w (Some (max per_topic 1)))) (ws_reached (fst (?w (Some (max per_topic 1))))) (ws_reached (fst (?w None)))"
    by (rule walk_hops_bounded [OF ok _ now walked_start]) simp_all
  have w: "walked (1 + ex_depth options) (fst (?w per))" for per
    by (rule walk_hops_walked [OF walked_start])
  note parts = bounded_neighbors [OF w w b]
  show "a \<in> set (wk_neighbors r) \<Longrightarrow> a \<in> set (expand db project seeds options)"
    using parts(1) [of a]
    by (cases "seeds = [] \<or> ex_depth options = 0") (simp_all add: r_def expand_def expand_reading_def walk_from_eq [OF now] Let_def del: walk_hops.simps)
  show "a \<in> set (expand db project seeds options) \<Longrightarrow> a \<in> set (wk_neighbors r) \<or> (\<exists>u\<in>set (wk_unread r). misses u a)"
    using parts(2) [of a]
    by (cases "seeds = [] \<or> ex_depth options = 0") (simp_all add: r_def expand_def expand_reading_def walk_from_eq [OF now] Let_def del: walk_hops.simps)
qed

lemma reading_unread:
  assumes "graph_ok db" and "ex_at options = None" and "u \<in> set (wk_unread (expand_reading db project seeds options per_topic))"
  shows "is_f32 (un_confidence u) \<and> 0 < un_confidence u"
  using assms(3) walk_hops_unread [OF assms(1,2)] by (auto simp: expand_reading_def walk_from_eq [OF assms(2)] Let_def split: if_splits)

section \<open>The strongest arrivals\<close>

lemma rate_order_preorder: "preorder_by (rate_order score)"
  unfolding rate_order_def by (intro preorder_lex_by preorder_asc_by preorder_desc_by)

interpretation rating: preorder_by "rate_order score" for score
  by (rule rate_order_preorder)

text \<open>The score a caller ranks with does not fall as confidence rises, on the values confidence takes.\<close>

definition rises :: "scoring \<Rightarrow> bool" where
  "rises score \<longleftrightarrow> (\<forall>c c' hops origin. is_f32 c \<longrightarrow> is_f32 c' \<longrightarrow> c \<le> c' \<longrightarrow> score c hops origin \<le> score c' hops origin)"

lemma risesD: "rises score \<Longrightarrow> is_f32 c \<Longrightarrow> is_f32 c' \<Longrightarrow> c \<le> c' \<Longrightarrow> score c hops origin \<le> score c' hops origin"
  unfolding rises_def by blast

lemma settles_misses:
  assumes r: "rises score" and u: "is_f32 (un_confidence u) \<and> 0 < un_confidence u" and a: "is_f32 (nb_confidence a)"
    and m: "misses u a" and s: "settles score l u"
  shows "rate_order score l a"
proof -
  let ?bound = "score (un_confidence u) (un_hops u) (nb_origin a)"
    and ?below = "score (next_down32 (un_confidence u)) (un_hops u) (nb_origin a)"
  have h: "nb_hops a = un_hops u" "nb_origin a \<in> set (un_origins u)" using m by (auto simp: misses_def)
  have s': "?bound < rate score l \<or> rate score l = ?bound \<and> nb_topic l \<le> un_after u \<and> ?below < rate score l"
    using s h(2) by (auto simp: settles_def list_all_iff Let_def)
  consider "nb_confidence a < un_confidence u" | "nb_confidence a = un_confidence u" "un_after u < nb_topic a"
    using m by (auto simp: misses_def)
  then show ?thesis
  proof cases
    case 1
    then have "nb_confidence a \<le> next_down32 (un_confidence u)" using le_next_down32 u a by blast
    then have "rate score a \<le> ?below"
      unfolding rate_def h(1) using risesD [OF r a] next_down32_f32 u by blast
    moreover have "rate score a \<le> ?bound" unfolding rate_def h(1) using 1 risesD [OF r a] u by simp
    ultimately show ?thesis using s' by (auto simp: rate_order_def order_by_defs)
  next
    case 2
    then have "rate score a = ?bound" by (simp add: rate_def h(1))
    then show ?thesis using s' 2(2) by (auto simp: rate_order_def order_by_defs)
  qed
qed

lemma rate_order_antisym: "distinct (map nb_topic ns) \<Longrightarrow> a \<in> set ns \<Longrightarrow> b \<in> set ns \<Longrightarrow>
    rate_order score a b \<Longrightarrow> rate_order score b a \<Longrightarrow> a = b"
  by (auto simp: rate_order_def order_by_defs distinct_map dest: inj_onD)

lemma strongest_part:
  assumes d: "distinct (map nb_topic part)" "distinct (map nb_topic whole)"
    and sub: "set part \<subseteq> set whole"
    and low: "\<And>a. a \<in> set whole - set part \<Longrightarrow> 0 < keep \<and> keep \<le> length part \<and>
       rate_order score (sort_by (rate_order score) part ! (keep - 1)) a"
  shows "strongest part keep score = strongest whole keep score"
  unfolding strongest_def
  by (rule rating.take_sort_by_part [OF _ _ sub rate_order_antisym [OF d(2)]])
    (use d low in \<open>simp_all add: distinct_map\<close>)

lemma expand_f32:
  assumes "\<And>a. a \<in> set (expand db project seeds options) \<Longrightarrow> is_f32 (nb_confidence a)"
    and ok: "graph_ok db" and now: "ex_at options = None" and r: "rises score"
    and s: "walk_strongest (expand_reading db project seeds options per_topic) keep score = Some ranked"
  shows "ranked = strongest (expand db project seeds options) keep score"
proof -
  let ?w = "expand_reading db project seeds options per_topic"
  have d: "distinct (map nb_topic (wk_neighbors ?w))" "distinct (map nb_topic (expand db project seeds options))"
    unfolding expand_reading_def expand_def by (rule neighbors_distinct [OF now])+
  have ranked: "ranked = strongest (wk_neighbors ?w) keep score"
    using s by (auto simp: walk_strongest_def Let_def split: if_splits)
  have "strongest (wk_neighbors ?w) keep score = strongest (expand db project seeds options) keep score" if k: "keep \<noteq> 0"
  proof (rule strongest_part [OF d])
    fix a assume a: "a \<in> set (expand db project seeds options) - set (wk_neighbors ?w)"
    then obtain u where u: "u \<in> set (wk_unread ?w)" "misses u a" using reading_bounds(2) [OF ok now] by blast
    then have "wk_unread ?w \<noteq> []" by auto
    then have l: "keep \<le> length (strongest (wk_neighbors ?w) keep score)"
      and st: "settles score (strongest (wk_neighbors ?w) keep score ! (keep - 1)) u"
      using s k u(1) by (auto simp: walk_strongest_def Let_def list_all_iff split: if_splits)
    have "rate_order score (strongest (wk_neighbors ?w) keep score ! (keep - 1)) a"
      by (rule settles_misses [OF r reading_unread [OF ok now u(1)] _ u(2) st]) (use a assms(1) in blast)
    then show "0 < keep \<and> keep \<le> length (wk_neighbors ?w) \<and>
       rate_order score (sort_by (rate_order score) (wk_neighbors ?w) ! (keep - 1)) a"
      using k l by (simp add: strongest_def)
  qed (use reading_bounds(1) [OF ok now] in blast)
  then show ?thesis using ranked by (cases "keep = 0") (simp_all add: strongest_def)
qed

end
