(* ===== verification/Store_Walk_Sound.thy ===== *)
theory Store_Walk_Sound
  imports Store_Walk_Bounds
begin

text \<open>
  What the walk reports is in the graph: every neighbour is that many live edges from the seed it is
  credited to, over the edge it names. Then the walk's properties.
\<close>

section \<open>What is reached is linked\<close>

text \<open>A topic so many live edges from another, crossed in either direction.\<close>

inductive linked :: "graph_db \<Rightarrow> project_id \<Rightarrow> edge_kind list option \<Rightarrow> nat \<Rightarrow> topic_id \<Rightarrow> topic_id \<Rightarrow> bool"
  for db project kinds where
  linked_here: "linked db project kinds 0 t t"
| linked_on: "linked db project kinds h origin (end_of outward e) \<Longrightarrow> e \<in> wanted_edges db project kinds \<Longrightarrow>
    linked db project kinds (Suc h) origin (end_of (\<not> outward) e)"

inductive_cases linked_SucE: "linked db project kinds (Suc h) origin t"
inductive_simps linked_zero [simp]: "linked db project kinds 0 origin t"

definition genuine :: "graph_db \<Rightarrow> project_id \<Rightarrow> expansion \<Rightarrow> topic_id list \<Rightarrow> neighbor \<Rightarrow> bool" where
  "genuine db project options seeds a \<longleftrightarrow>
     nb_origin a \<in> set seeds \<and> nb_topic a \<noteq> nb_origin a \<and> 1 \<le> nb_hops a \<and> nb_hops a \<le> ex_depth options \<and>
     linked db project (ex_kinds options) (nb_hops a - 1) (nb_origin a) (nb_via a) \<and>
     (\<exists>e\<in>wanted_edges db project (ex_kinds options).
        end_of (nb_outbound a) e = nb_via a \<and> end_of (\<not> nb_outbound a) e = nb_topic a \<and>
        nb_kind a = le_kind e \<and> nb_derivation a = le_derivation e \<and> nb_confidence a = le_confidence e)"

lemma genuine_linked: "genuine db project options seeds a \<Longrightarrow>
    linked db project (ex_kinds options) (nb_hops a) (nb_origin a) (nb_topic a)"
  unfolding genuine_def
proof (elim conjE bexE)
  fix e assume "1 \<le> nb_hops a" and e: "e \<in> wanted_edges db project (ex_kinds options)" "end_of (nb_outbound a) e = nb_via a"
    "end_of (\<not> nb_outbound a) e = nb_topic a"
    and l: "linked db project (ex_kinds options) (nb_hops a - 1) (nb_origin a) (nb_via a)"
  from linked_on [OF l [folded e(2)] e(1)] show ?thesis using e(3) \<open>1 \<le> nb_hops a\<close> by simp
qed

definition standing_ok :: "graph_db \<Rightarrow> project_id \<Rightarrow> expansion \<Rightarrow> topic_id list \<Rightarrow> nat \<Rightarrow> walk_step \<Rightarrow> bool" where
  "standing_ok db project options seeds hop step \<longleftrightarrow> st_origin step \<in> set seeds \<and>
     linked db project (ex_kinds options) (hop - 1) (st_origin step) (st_topic step)"

lemma from_frontier_genuine:
  assumes ok: "graph_ok db" and fr: "\<forall>step\<in>set frontier. standing_ok db project options seeds hop step"
    and hop: "1 \<le> hop" "hop \<le> ex_depth options" and es: "set es \<subseteq> wanted_edges db project (ex_kinds options)"
    and a: "from_frontier hop frontier es a"
  shows "genuine db project options seeds a"
proof -
  obtain step e o' where s: "step \<in> set frontier" "e \<in> set es" "end_of o' e = st_topic step" "end_of (\<not> o') e = nb_topic a"
    "nb_hops a = hop" "nb_via a = st_topic step" "nb_origin a = st_origin step" "nb_confidence a = le_confidence e"
    "nb_kind a = le_kind e" "nb_derivation a = le_derivation e" "nb_outbound a = o'"
    and nb: "\<not> (1 < hop \<and> nb_topic a = nb_origin a)"
    using from_frontier_edge [OF a] by blast
  have st: "st_origin step \<in> set seeds" "linked db project (ex_kinds options) (hop - 1) (st_origin step) (st_topic step)"
    using fr s(1) by (auto simp: standing_ok_def)
  have e: "e \<in> wanted_edges db project (ex_kinds options)" using es s(2) by blast
  have "nb_topic a \<noteq> nb_origin a"
  proof (cases "hop = 1")
    case True
    then have "st_topic step = st_origin step" using st(2) by simp
    moreover have "end_of o' e \<noteq> end_of (\<not> o') e" using wanted_edgeD(1) [OF ok e] by (auto simp: end_of_def)
    ultimately show ?thesis using s by simp
  next
    case False
    then show ?thesis using nb hop by auto
  qed
  moreover have "\<exists>e\<in>wanted_edges db project (ex_kinds options). end_of (nb_outbound a) e = nb_via a \<and>
      end_of (\<not> nb_outbound a) e = nb_topic a \<and> nb_kind a = le_kind e \<and> nb_derivation a = le_derivation e \<and>
      nb_confidence a = le_confidence e"
    by (rule bexI [OF _ e]) (use s in simp)
  ultimately show ?thesis using st hop s by (simp add: genuine_def)
qed

lemma attempts_next:
  "(step', c) \<in> set (ws_next (fold (attempt hop step) xs s)) \<Longrightarrow> (step', c) \<in> set (ws_next s) \<or>
    (\<exists>x\<in>set xs. \<not> (1 < hop \<and> fst x = st_origin step) \<and> st_topic step' = fst x \<and> st_origin step' = st_origin step)"
proof (induction xs arbitrary: s)
  case (Cons x xs)
  have "(step', c) \<in> set (ws_next (attempt hop step x s)) \<Longrightarrow> (step', c) \<in> set (ws_next s) \<or>
    \<not> (1 < hop \<and> fst x = st_origin step) \<and> st_topic step' = fst x \<and> st_origin step' = st_origin step"
    by (auto simp: attempt_def split: if_splits)
  then show ?case using Cons.IH [of "attempt hop step x s"] Cons.prems by auto
qed simp

lemma cross_next:
  assumes "(step', c) \<in> set (ws_next (cross hop frontier es s))"
  shows "\<exists>a. from_frontier hop frontier es a \<and> st_topic step' = nb_topic a \<and> st_origin step' = nb_origin a"
proof -
  have "(step', c) \<in> set (ws_next (fold (\<lambda>step s. fold (attempt hop step) (crossings es (st_topic step)) s) steps s)) \<Longrightarrow>
    set steps \<subseteq> set frontier \<Longrightarrow> (step', c) \<in> set (ws_next s) \<or>
    (\<exists>a. from_frontier hop frontier es a \<and> st_topic step' = nb_topic a \<and> st_origin step' = nb_origin a)" for steps s
  proof (induction steps arbitrary: s)
    case (Cons step steps)
    let ?s = "fold (attempt hop step) (crossings es (st_topic step)) s"
    have step: "step \<in> set frontier" using Cons.prems(2) by simp
    consider "(step', c) \<in> set (ws_next ?s)"
      | "\<exists>a. from_frontier hop frontier es a \<and> st_topic step' = nb_topic a \<and> st_origin step' = nb_origin a"
      using Cons.IH [of ?s] Cons.prems by auto
    then show ?case
    proof cases
      case 1
      from attempts_next [OF this] show ?thesis
      proof
        assume "\<exists>x\<in>set (crossings es (st_topic step)). \<not> (1 < hop \<and> fst x = st_origin step) \<and>
           st_topic step' = fst x \<and> st_origin step' = st_origin step"
        then obtain x where x: "x \<in> set (crossings es (st_topic step))" "\<not> (1 < hop \<and> fst x = st_origin step)"
          "st_topic step' = fst x" "st_origin step' = st_origin step" by blast
        then have "from_frontier hop frontier es (arrival hop step x)" using step by (auto simp: from_frontier_def)
        then show ?thesis using x by (intro disjI2 exI [of _ "arrival hop step x"]) (simp add: arrival_def)
      qed simp
    qed simp
  qed simp
  from this [of frontier "s\<lparr>ws_next := []\<rparr>"] assms show ?thesis by (simp add: cross_def)
qed

lemma standing_ok_from:
  assumes "genuine db project options seeds a" "nb_hops a = hop" "st_topic step = nb_topic a" "st_origin step = nb_origin a"
  shows "standing_ok db project options seeds (Suc hop) step"
  using genuine_linked [OF assms(1)] assms by (auto simp: standing_ok_def genuine_def)

definition all_genuine :: "graph_db \<Rightarrow> project_id \<Rightarrow> expansion \<Rightarrow> topic_id list \<Rightarrow> walk_state \<Rightarrow> bool" where
  "all_genuine db project options seeds s \<longleftrightarrow>
     (\<forall>t a. map_of (ws_reached s) t = Some a \<longrightarrow> genuine db project options seeds a)"

lemma cross_genuine:
  assumes ok: "graph_ok db" and fr: "\<forall>step\<in>set frontier. standing_ok db project options seeds hop step"
    and hop: "1 \<le> hop" "hop \<le> ex_depth options" and es: "set es \<subseteq> wanted_edges db project (ex_kinds options)"
  shows "all_genuine db project options seeds s \<Longrightarrow> all_genuine db project options seeds (cross hop frontier es s)"
    and "(step', c) \<in> set (ws_next (cross hop frontier es s)) \<Longrightarrow> standing_ok db project options seeds (Suc hop) step'"
proof -
  have e: "extends hop (genuine db project options seeds) s (cross hop frontier es s)"
    by (rule cross_extends') (rule from_frontier_genuine [OF assms])
  show "all_genuine db project options seeds (cross hop frontier es s)" if "all_genuine db project options seeds s"
    using extendsD(1) [OF e] that unfolding all_genuine_def by blast
  assume "(step', c) \<in> set (ws_next (cross hop frontier es s))"
  from cross_next [OF this] obtain a where a: "from_frontier hop frontier es a" "st_topic step' = nb_topic a"
    "st_origin step' = nb_origin a" by blast
  have "nb_hops a = hop" using from_frontier_edge [OF a(1)] by blast
  then show "standing_ok db project options seeds (Suc hop) step'"
    using standing_ok_from from_frontier_genuine [OF assms a(1)] a by blast
qed

lemma walk_hops_genuine:
  assumes ok: "graph_ok db" and now: "ex_at options = None"
  shows "1 \<le> hop \<Longrightarrow> hop + left = Suc (ex_depth options) \<Longrightarrow>
    \<forall>step\<in>set frontier. standing_ok db project options seeds hop step \<Longrightarrow> all_genuine db project options seeds s \<Longrightarrow>
    all_genuine db project options seeds (fst (walk_hops db project options None left hop frontier s))"
proof (induction left arbitrary: hop frontier s)
  case (Suc left)
  let ?es = "every_edge db project (positions_of frontier) (ex_kinds options) None"
  let ?s = "cross hop frontier ?es s"
  have es: "set ?es \<subseteq> wanted_edges db project (ex_kinds options)" by (auto simp: set_every_edge(1) [OF ok])
  have hop: "hop \<le> ex_depth options" using Suc.prems(2) by simp
  note g = cross_genuine [OF ok Suc.prems(3,1) hop es]
  have "standing_ok db project options seeds (hop + 1) step"
    if "step \<in> set (map fst (take MAX_FRONTIER (sort_by confidence_order (ws_next ?s))))" for step
  proof -
    from that obtain x where x: "x \<in> set (take MAX_FRONTIER (sort_by confidence_order (ws_next ?s)))" "step = fst x"
      unfolding set_map by blast
    have "x \<in> set (ws_next ?s)" using in_set_takeD [OF x(1)] by (simp only: set_sort_by)
    then have "(step, snd x) \<in> set (ws_next ?s)" using x(2) by simp
    from g(2) [OF this] show ?thesis by simp
  qed
  then show ?case
    unfolding walk_hops_go [OF hop_once_full [OF now]]
    using Suc.IH [of "hop + 1"] Suc.prems(2) g(1) [OF Suc.prems(4)] by simp
qed simp

lemma expand_genuine:
  assumes ok: "graph_ok db" and now: "ex_at options = None" and a: "a \<in> set (expand db project seeds options)"
  shows "genuine db project options seeds a"
proof -
  let ?w = "walk_hops db project options None (ex_depth options) 1 (seed_frontier seeds) no_arrivals"
  have w: "walked (1 + ex_depth options) (fst ?w)" by (rule walk_hops_walked [OF walked_start])
  have g: "all_genuine db project options seeds (fst ?w)"
  proof (rule walk_hops_genuine [OF ok now])
    show "\<forall>step\<in>set (seed_frontier seeds). standing_ok db project options seeds 1 step"
      by (auto simp: seed_frontier_def standing_ok_def)
  qed (simp_all add: all_genuine_def no_arrivals_def)
  have "a \<in> set (sort_by neighbor_order (map snd (ws_reached (fst ?w))))"
    using a by (simp add: expand_def walk_from_eq [OF now] Let_def del: walk_hops.simps set_sort_by split: if_splits)
  then have "map_of (ws_reached (fst ?w)) (nb_topic a) = Some a" using walked_neighbors(2) [OF w] by blast
  then show ?thesis using g unfolding all_genuine_def by blast
qed

lemma genuine_f32: "graph_ok db \<Longrightarrow> genuine db project options seeds a \<Longrightarrow> is_f32 (nb_confidence a)"
  unfolding genuine_def using wanted_edgeD(2) by metis

lemma neighbor_order_preorder: "preorder_by neighbor_order"
  unfolding neighbor_order_def by (intro preorder_lex_by preorder_asc_by preorder_desc_by)

section \<open>A hub\<close>

definition hub_edges :: "asserting list" where
  "hub_edges = [(TopicId 1, TopicId 2, derived_claim Mentions 9 (1/2)), (TopicId 1, TopicId 3, explicit_claim DependsOn),
     (TopicId 4, TopicId 1, derived_claim Mentions 9 (1/4)), (TopicId 2, TopicId 5, explicit_claim DependsOn)]"

definition hub_empty :: graph_db where
  "hub_empty = \<lparr>g_topics = [TopicId 1, TopicId 2, TopicId 3, TopicId 4, TopicId 5], relationships = [], versions = []\<rparr>"

definition hub :: graph_db where
  "hub = fst (the (assert_edges 5 (\<lambda>n. word_of_nat n) (\<lambda>n. word_of_nat n) 7 hub_edges hub_empty hub_empty))"

lemma hub_ok: "graph_ok hub"
proof -
  have "assert_edges 5 (\<lambda>n. word_of_nat n) (\<lambda>n. word_of_nat n) 7 hub_edges hub_empty hub_empty \<noteq> None"
    by code_simp
  then obtain written where "assert_edges 5 (\<lambda>n. word_of_nat n) (\<lambda>n. word_of_nat n) 7 hub_edges hub_empty hub_empty
     = Some (hub, written)" by (auto simp: hub_def)
  moreover have "graph_ok hub_empty" by (simp add: graph_ok_def hub_empty_def)
  moreover have "distinct (map key_of hub_edges)" by (simp add: hub_edges_def)
  ultimately show ?thesis using assert_edges_stands(1) by blast
qed

definition by_confidence :: scoring where
  "by_confidence = (\<lambda>confidence hops origin. fmul confidence (1 / of_nat hops))"

lemma by_confidence_rises: "rises by_confidence"
  by (auto simp: rises_def by_confidence_def fmul_def intro!: rnd32_mono divide_right_mono)

section \<open>Properties\<close>

text \<open>
  When the walk that read only each topic's strongest edges says which arrivals rate
  highest, they are the ones the walk that read every edge gives, in the same order: for any score
  that does not fall as confidence rises.
\<close>

theorem strongest_settled:
  assumes "graph_ok db" and "ex_at options = None" and "rises score"
    and "walk_strongest (expand_reading db project seeds options per_topic) keep score = Some ranked"
  shows "ranked = strongest (expand db project seeds options) keep score"
  by (rule expand_f32 [OF _ assms]) (rule genuine_f32 [OF assms(1) expand_genuine [OF assms(1,2)]])

lemma strongest_settled_witness:
  "map nb_topic (strongest (expand hub 7 [TopicId 1] (keeping 1 (to_depth 2))) 1 by_confidence) = [TopicId 3]"
proof -
  have "walk_strongest (expand_reading hub 7 [TopicId 1] (keeping 1 (to_depth 2)) 1) 1 by_confidence \<noteq> None"
    by code_simp
  then obtain ranked where r: "walk_strongest (expand_reading hub 7 [TopicId 1] (keeping 1 (to_depth 2)) 1) 1 by_confidence = Some ranked"
    by blast
  have "ex_at (keeping 1 (to_depth 2)) = None" by (simp add: keeping_def to_depth_def)
  from strongest_settled [OF hub_ok this by_confidence_rises r]
  have "ranked = strongest (expand hub 7 [TopicId 1] (keeping 1 (to_depth 2))) 1 by_confidence" .
  moreover have "map nb_topic (the (walk_strongest (expand_reading hub 7 [TopicId 1] (keeping 1 (to_depth 2)) 1) 1 by_confidence)) = [TopicId 3]"
    by code_simp
  ultimately show ?thesis using r by simp
qed

text \<open>
  C35: The bounded walk invents nothing and owns up to what it lacks: its arrivals are arrivals of the
  full walk, and each arrival of the full walk that it lacks came in the hop, through the topic and
  from a seed of some unread entry, and ranks after that entry by confidence and then topic.
\<close>

theorem reading_owns_up:
  assumes "graph_ok db" and "ex_at options = None"
  shows "set (wk_neighbors (expand_reading db project seeds options per_topic)) \<subseteq> set (expand db project seeds options) \<and>
    (\<forall>a\<in>set (expand db project seeds options) - set (wk_neighbors (expand_reading db project seeds options per_topic)).
       \<exists>u\<in>set (wk_unread (expand_reading db project seeds options per_topic)).
         nb_hops a = un_hops u \<and> nb_via a = un_via u \<and> nb_origin a \<in> set (un_origins u) \<and>
         (nb_confidence a < un_confidence u \<or> nb_confidence a = un_confidence u \<and> un_after u < nb_topic a))"
  using reading_bounds [OF assms refl] unfolding misses_def by blast

lemma reading_owns_up_witness:
  "(\<exists>u\<in>set (wk_unread (expand_reading hub 7 [TopicId 1] (to_depth 1) 1)). un_via u = TopicId 1 \<and> un_origins u = [TopicId 1]) \<and>
   map nb_topic (wk_neighbors (expand_reading hub 7 [TopicId 1] (to_depth 1) 1)) = [TopicId 3, TopicId 4] \<and>
   map nb_topic (expand hub 7 [TopicId 1] (to_depth 1)) = [TopicId 3, TopicId 2, TopicId 4]"
proof -
  let ?r = "expand_reading hub 7 [TopicId 1] (to_depth 1) 1" and ?e = "expand hub 7 [TopicId 1] (to_depth 1)"
  have r: "map nb_topic (wk_neighbors ?r) = [TopicId 3, TopicId 4]" by code_simp
  have e: "map nb_topic ?e = [TopicId 3, TopicId 2, TopicId 4]" by code_simp
  obtain a where a: "a \<in> set ?e" "nb_topic a = TopicId 2"
  proof -
    have "TopicId 2 \<in> set (map nb_topic ?e)" unfolding e by simp
    then obtain a where "a \<in> set ?e" "TopicId 2 = nb_topic a" unfolding set_map by blast
    then show ?thesis using that by simp
  qed
  have "a \<notin> set (wk_neighbors ?r)"
  proof
    assume "a \<in> set (wk_neighbors ?r)"
    then have "nb_topic a \<in> set (map nb_topic (wk_neighbors ?r))" unfolding set_map by blast
    then show False unfolding r a(2) by simp
  qed
  moreover have "ex_at (to_depth 1) = None" by (simp add: to_depth_def)
  ultimately obtain u where u: "u \<in> set (wk_unread ?r)" "nb_origin a \<in> set (un_origins u)"
    using reading_owns_up [OF hub_ok, of "to_depth 1" 7 "[TopicId 1]" 1] a(1) by blast
  have "list_all (\<lambda>u. un_via u = TopicId 1 \<and> un_origins u = [TopicId 1]) (wk_unread ?r)" by code_simp
  then have "un_via u = TopicId 1 \<and> un_origins u = [TopicId 1]" using u(1) by (simp add: list_all_iff)
  then show ?thesis using u(1) r e by blast
qed

text \<open>
  Every neighbour the walk reports is reached over as many live edges of the wanted kinds as it
  says, from a seed it was given and is not, the last of them the edge whose kind, derivation,
  confidence and direction it carries; no topic is reported twice, and the nearer come first.
\<close>

theorem expand_reports_links:
  assumes "graph_ok db" and "ex_at options = None"
  shows "distinct (map nb_topic (expand db project seeds options)) \<and>
    sorted_wrt neighbor_order (expand db project seeds options) \<and>
    (\<forall>a\<in>set (expand db project seeds options).
       nb_origin a \<in> set seeds \<and> nb_topic a \<noteq> nb_origin a \<and> 1 \<le> nb_hops a \<and> nb_hops a \<le> ex_depth options \<and>
       linked db project (ex_kinds options) (nb_hops a - 1) (nb_origin a) (nb_via a) \<and>
       (\<exists>e\<in>wanted_edges db project (ex_kinds options).
          end_of (nb_outbound a) e = nb_via a \<and> end_of (\<not> nb_outbound a) e = nb_topic a \<and>
          nb_kind a = le_kind e \<and> nb_derivation a = le_derivation e \<and> nb_confidence a = le_confidence e))"
proof (intro conjI ballI)
  show "distinct (map nb_topic (expand db project seeds options))" unfolding expand_def by (rule neighbors_distinct [OF assms(2)])
  show "sorted_wrt neighbor_order (expand db project seeds options)"
    by (simp add: expand_def walk_from_eq [OF assms(2)] Let_def preorder_by.sorted_sort_by [OF neighbor_order_preorder] del: walk_hops.simps)
qed (use expand_genuine [OF assms] in \<open>unfold genuine_def, blast+\<close>)

lemma expand_reports_links_witness:
  "map (\<lambda>a. (nb_topic a, nb_hops a)) (expand hub 7 [TopicId 1] (to_depth 2)) =
     [(TopicId 3, 1), (TopicId 2, 1), (TopicId 4, 1), (TopicId 5, 2)] \<and>
   (\<exists>v. linked hub 7 None 1 (TopicId 1) v \<and> v \<noteq> TopicId 5)"
proof -
  let ?e = "expand hub 7 [TopicId 1] (to_depth 2)"
  have m: "map (\<lambda>a. (nb_topic a, nb_hops a)) ?e = [(TopicId 3, 1), (TopicId 2, 1), (TopicId 4, 1), (TopicId 5, 2)]" by code_simp
  have "(TopicId 5, 2) \<in> set (map (\<lambda>a. (nb_topic a, nb_hops a)) ?e)" unfolding m by simp
  then obtain a where a: "a \<in> set ?e" "nb_topic a = TopicId 5" "nb_hops a = 2" by auto
  have x: "ex_at (to_depth 2) = None" "ex_kinds (to_depth 2) = None" by (simp_all add: to_depth_def)
  have "linked hub 7 None 1 (TopicId 1) (nb_via a)"
    using expand_reports_links [OF hub_ok x(1), of 7 "[TopicId 1]"] a x(2) by auto
  moreover have "list_all (\<lambda>a. nb_via a \<noteq> TopicId 5) ?e" by code_simp
  ultimately show ?thesis using m a(1) by (auto simp: list_all_iff)
qed

section \<open>Stopping once enough is reached\<close>

lemma walk_hops_later:
  assumes "ex_at options = None"
  shows "walked hop s \<Longrightarrow> map_of (ws_reached s) t = Some a \<Longrightarrow>
      map_of (ws_reached (fst (walk_hops db project options None left hop frontier s))) t = Some a"
    and "walked hop s \<Longrightarrow> map_of (ws_reached (fst (walk_hops db project options None left hop frontier s))) t = Some b \<Longrightarrow>
      map_of (ws_reached s) t = Some b \<or> hop \<le> nb_hops b"
proof (induction left arbitrary: hop frontier s)
  case (Suc left)
  {
    case 1
    let ?s = "cross hop frontier (every_edge db project (positions_of frontier) (ex_kinds options) None) s"
    have e: "extends hop (\<lambda>a. nb_hops a = hop) s ?s" by (rule cross_extends') (auto simp: from_frontier_def arrival_def)
    have "nb_hops a < hop" using 1 unfolding walked_def by blast
    then have "map_of (ws_reached ?s) t = Some a" using extendsD(4) [OF e 1(2)] by simp
    then show ?case
      unfolding walk_hops_go [OF hop_once_full [OF assms]] using Suc.IH(1) [OF walked_cross [OF 1(1)]] by simp
  next
    case 2
    let ?s = "cross hop frontier (every_edge db project (positions_of frontier) (ex_kinds options) None) s"
    have e: "extends hop (\<lambda>a. nb_hops a = hop) s ?s" by (rule cross_extends') (auto simp: from_frontier_def arrival_def)
    have "map_of (ws_reached ?s) t = Some b \<or> Suc hop \<le> nb_hops b"
      using 2(2) Suc.IH(2) [OF walked_cross [OF 2(1)]]
      unfolding walk_hops_go [OF hop_once_full [OF assms]] by (auto split: if_splits)
    then show ?case using extendsD(1) [OF e, of t b] by auto
  }
qed simp_all

definition first_hops :: "walk_state \<Rightarrow> walk_state \<Rightarrow> bool" where
  "first_hops s s' \<longleftrightarrow> (\<forall>t a. map_of (ws_reached s) t = Some a \<longrightarrow> map_of (ws_reached s') t = Some a) \<and>
     (\<forall>t b. map_of (ws_reached s') t = Some b \<longrightarrow> map_of (ws_reached s) t = Some b \<or>
        (\<forall>t' a. map_of (ws_reached s) t' = Some a \<longrightarrow> nb_hops a < nb_hops b))"

lemma walk_hops_keep:
  assumes now: "ex_at options = None"
  shows "walked hop s \<Longrightarrow>
    walk_hops db project (options\<lparr>ex_keep := Some keep\<rparr>) None left hop frontier s
      = walk_hops db project (options\<lparr>ex_keep := None\<rparr>) None left hop frontier s \<or>
    keep \<le> length (ws_reached (fst (walk_hops db project (options\<lparr>ex_keep := Some keep\<rparr>) None left hop frontier s))) \<and>
    first_hops (fst (walk_hops db project (options\<lparr>ex_keep := Some keep\<rparr>) None left hop frontier s))
      (fst (walk_hops db project (options\<lparr>ex_keep := None\<rparr>) None left hop frontier s))"
proof (induction left arbitrary: hop frontier s)
  case (Suc left)
  let ?k = "options\<lparr>ex_keep := Some keep\<rparr>" and ?n = "options\<lparr>ex_keep := None\<rparr>"
  let ?s = "cross hop frontier (every_edge db project (positions_of frontier) (ex_kinds options) None) s"
  let ?fr = "map fst (take MAX_FRONTIER (sort_by confidence_order (ws_next ?s)))"
  have kn: "ex_at ?k = None" "ex_at ?n = None" using now by simp_all
  have w: "walked (hop + 1) ?s" using walked_cross [OF Suc.prems] by simp
  have k: "walk_hops db project ?k None (Suc left) hop frontier s =
      (if ws_next ?s = [] \<or> enough ?k ?s then (?s, []) else walk_hops db project ?k None left (hop + 1) ?fr ?s)"
    using walk_hops_go [OF hop_once_full [OF kn(1)]] by simp
  have n: "walk_hops db project ?n None (Suc left) hop frontier s =
      (if ws_next ?s = [] then (?s, []) else walk_hops db project ?n None left (hop + 1) ?fr ?s)"
    using walk_hops_go [OF hop_once_full [OF kn(2)]] by (simp add: enough_def)
  consider "ws_next ?s = []" | "ws_next ?s \<noteq> []" "enough ?k ?s" | "ws_next ?s \<noteq> []" "\<not> enough ?k ?s" by blast
  then show ?case
  proof cases
    case 2
    note l = walk_hops_later [OF kn(2) w, where db = db and project = project and left = left and frontier = ?fr]
    have "first_hops ?s (fst (walk_hops db project ?n None left (hop + 1) ?fr ?s))"
      unfolding first_hops_def
    proof (intro conjI allI impI)
      fix t b assume "map_of (ws_reached (fst (walk_hops db project ?n None left (hop + 1) ?fr ?s))) t = Some b"
      from l(2) [OF this] show "map_of (ws_reached ?s) t = Some b \<or>
          (\<forall>t' a. map_of (ws_reached ?s) t' = Some a \<longrightarrow> nb_hops a < nb_hops b)"
        using w unfolding walked_def by (meson order_less_le_trans)
    qed (rule l(1))
    moreover have "keep \<le> length (ws_reached ?s)" using 2(2) by (simp add: enough_def)
    ultimately show ?thesis using 2 by (simp only: k n if_True if_False simp_thms fst_conv)
  next
    case 3
    show ?thesis using Suc.IH [OF w, of ?fr] 3 by (simp only: k n if_False simp_thms)
  next
    case 1
    then show ?thesis by (simp only: k n if_True simp_thms)
  qed
qed simp

interpretation nearest: preorder_by neighbor_order
  by (rule neighbor_order_preorder)

lemma neighbor_order_antisym: "distinct (map nb_topic ns) \<Longrightarrow> a \<in> set ns \<Longrightarrow> b \<in> set ns \<Longrightarrow>
    neighbor_order a b \<Longrightarrow> neighbor_order b a \<Longrightarrow> a = b"
  by (auto simp: neighbor_order_def order_by_defs distinct_map dest: inj_onD)

lemma walked_distinct: "walked hop s \<Longrightarrow> distinct (map nb_topic (map snd (ws_reached s)))"
  unfolding walked_keys [symmetric] by (simp only: walked_def)

lemma nearest_part:
  assumes w: "walked h s" "walked h' s'" and k: "keep \<le> length (ws_reached s)" and f: "first_hops s s'"
  shows "take keep (sort_by neighbor_order (map snd (ws_reached s))) = take keep (sort_by neighbor_order (map snd (ws_reached s')))"
proof (cases "keep = 0")
  case False
  let ?p = "map snd (ws_reached s)" and ?w = "map snd (ws_reached s')"
  have ps: "a \<in> set ?p \<longleftrightarrow> map_of (ws_reached s) (nb_topic a) = Some a" for a using walked_neighbors(2) [OF w(1)] by simp
  have ws: "a \<in> set ?w \<longleftrightarrow> map_of (ws_reached s') (nb_topic a) = Some a" for a using walked_neighbors(2) [OF w(2)] by simp
  have d: "distinct (map nb_topic ?p)" "distinct (map nb_topic ?w)"
    by (rule walked_distinct [OF w(1)], rule walked_distinct [OF w(2)])
  show ?thesis
  proof (rule nearest.take_sort_by_part)
    show "distinct ?p" "distinct ?w" using d distinct_map by blast+
    show "set ?p \<subseteq> set ?w" using f ps ws unfolding first_hops_def by blast
    fix a assume a: "a \<in> set ?w - set ?p"
    have l: "keep - 1 < length (sort_by neighbor_order ?p)" using k False by simp
    have "sort_by neighbor_order ?p ! (keep - 1) \<in> set ?p" using nth_mem [OF l] by simp
    then have "nb_hops (sort_by neighbor_order ?p ! (keep - 1)) < nb_hops a"
      using a f ps ws unfolding first_hops_def by blast
    then show "0 < keep \<and> keep \<le> length ?p \<and> neighbor_order (sort_by neighbor_order ?p ! (keep - 1)) a"
      using False k by (simp add: neighbor_order_def order_by_defs)
  qed (rule neighbor_order_antisym [OF d(2)])
qed simp

lemma expand_keep:
  assumes now: "ex_at options = None"
  shows "take keep (expand db project seeds (options\<lparr>ex_keep := Some keep\<rparr>))
       = take keep (expand db project seeds (options\<lparr>ex_keep := None\<rparr>))"
proof -
  let ?w = "\<lambda>k. walk_hops db project (options\<lparr>ex_keep := k\<rparr>) None (ex_depth options) 1 (seed_frontier seeds) no_arrivals"
  have w: "walked (1 + ex_depth options) (fst (?w k))" for k by (rule walk_hops_walked [OF walked_start])
  have eq: "take keep (sort_by neighbor_order (map snd (ws_reached (fst (?w (Some keep))))))
    = take keep (sort_by neighbor_order (map snd (ws_reached (fst (?w None)))))"
    using walk_hops_keep [OF now walked_start, of db project keep "ex_depth options" 1 "seed_frontier seeds"]
      nearest_part [OF w w] by metis
  have kn: "ex_at (options\<lparr>ex_keep := k\<rparr>) = None" for k using now by simp
  show ?thesis using eq by (simp add: expand_def walk_from_eq [OF kn] Let_def del: walk_hops.simps)
qed

text \<open>
  Stopping the walk once it has reached as many topics as the caller keeps costs nothing: the
  first neighbours kept are those of the walk that goes on to its depth.
\<close>

theorem keeping_is_exact:
  assumes "ex_at options = None"
  shows "take keep (expand db project seeds (keeping keep options))
       = take keep (expand db project seeds (options\<lparr>ex_keep := None\<rparr>))"
  unfolding keeping_def by (rule expand_keep [OF assms])

lemma keeping_is_exact_witness:
  "map nb_topic (take 3 (expand hub 7 [TopicId 1] ((to_depth 2)\<lparr>ex_keep := None\<rparr>))) = [TopicId 3, TopicId 2, TopicId 4] \<and>
   length (expand hub 7 [TopicId 1] (keeping 3 (to_depth 2))) = 3 \<and>
   length (expand hub 7 [TopicId 1] (to_depth 2)) = 4"
proof -
  have "ex_at (to_depth 2) = None" by (simp add: to_depth_def)
  from keeping_is_exact [OF this, of 3 hub 7 "[TopicId 1]"]
  have "map nb_topic (take 3 (expand hub 7 [TopicId 1] ((to_depth 2)\<lparr>ex_keep := None\<rparr>)))
    = map nb_topic (take 3 (expand hub 7 [TopicId 1] (keeping 3 (to_depth 2))))" by simp
  also have "\<dots> = [TopicId 3, TopicId 2, TopicId 4]" by code_simp
  finally show ?thesis by (intro conjI; (assumption | code_simp))
qed

end
