(* ===== verification/RMap.thy ===== *)
theory RMap
  imports Prelude
begin

text \<open>
  Rust's \<open>BTreeMap\<close> as its entries in key order, behind the contract its callers rely on: the
  entry of a key is changed in place or added (\<open>entry\<close>), lookups see exactly that, and iteration is in
  key order with every key once. What a caller needs of a map filled by a run of updates is proved
  once from the contract.
\<close>

locale ordered_map =
  fixes invar :: "'m \<Rightarrow> bool"
    and lookup :: "'m \<Rightarrow> 'k::linorder \<Rightarrow> 'v option"
    and alter :: "'k \<Rightarrow> ('v option \<Rightarrow> 'v) \<Rightarrow> 'm \<Rightarrow> 'm"
    and entries :: "'m \<Rightarrow> ('k \<times> 'v) list"
  assumes invar_alter: "invar m \<Longrightarrow> invar (alter k f m)"
    and lookup_alter: "invar m \<Longrightarrow> lookup (alter k f m) = (lookup m)(k \<mapsto> f (lookup m k))"
    and entries_lookup: "invar m \<Longrightarrow> (k, v) \<in> set (entries m) \<longleftrightarrow> lookup m k = Some v"
    and entries_sorted: "invar m \<Longrightarrow> sorted_wrt (<) (map fst (entries m))"
begin

definition alter_all :: "('k \<times> ('v option \<Rightarrow> 'v)) list \<Rightarrow> 'm \<Rightarrow> 'm" where
  "alter_all ops m = fold (\<lambda>(k, f). alter k f) ops m"

lemma invar_alter_all: "invar m \<Longrightarrow> invar (alter_all ops m)"
  unfolding alter_all_def by (induction ops arbitrary: m) (auto simp: invar_alter)

text \<open>The updates of one key, in their order, decide what it maps to.\<close>

lemma lookup_alter_all:
  "invar m \<Longrightarrow> lookup (alter_all ops m) k = fold (\<lambda>f held. Some (f held)) (map snd (filter (\<lambda>op. fst op = k) ops)) (lookup m k)"
  unfolding alter_all_def
  by (induction ops arbitrary: m) (auto simp: lookup_alter invar_alter)

lemma keys_alter_all:
  "invar m \<Longrightarrow> lookup (alter_all ops m) k \<noteq> None \<longleftrightarrow> lookup m k \<noteq> None \<or> k \<in> fst ` set ops"
  unfolding alter_all_def
proof (induction ops arbitrary: m)
  case (Cons op ops)
  have "lookup (alter (fst op) (snd op) m) k \<noteq> None \<longleftrightarrow> k = fst op \<or> lookup m k \<noteq> None"
    using Cons.prems by (simp add: lookup_alter)
  then show ?case using Cons.IH [OF invar_alter [OF Cons.prems]] by (auto simp: case_prod_beta)
qed simp

lemma entries_distinct: "invar m \<Longrightarrow> distinct (map fst (entries m))"
  using entries_sorted strict_sorted_iff by blast

text \<open>Iteration is the keys in order, each with what it maps to.\<close>

lemma entries_eq:
  assumes "invar m"
  shows "entries m = map (\<lambda>k. (k, the (lookup m k))) (sorted_list_of_set {k. lookup m k \<noteq> None})"
proof -
  let ?ks = "map fst (entries m)"
  have "set ?ks = {k. lookup m k \<noteq> None}" using entries_lookup [OF assms] by force
  moreover have "sorted ?ks" "distinct ?ks" using entries_sorted [OF assms] strict_sorted_iff by blast+
  ultimately have ks: "sorted_list_of_set {k. lookup m k \<noteq> None} = ?ks"
    using sorted_list_of_set.idem_if_sorted_distinct by metis
  have "(fst e, the (lookup m (fst e))) = e" if "e \<in> set (entries m)" for e
    using entries_lookup [OF assms, of "fst e" "snd e"] that by simp
  then show ?thesis unfolding ks by (simp add: map_idI)
qed

lemma entries_sorted_wrt_keys: "invar m \<Longrightarrow> sorted (map fst (entries m))"
  using entries_sorted strict_sorted_iff by blast

end

section \<open>The map as its entries\<close>

type_synonym ('k, 'v) btree_map = "('k \<times> 'v) list"

text \<open>\<open>*map.entry(k)\<close> with what to put there, given what was.\<close>

fun bt_alter :: "'k::linorder \<Rightarrow> ('v option \<Rightarrow> 'v) \<Rightarrow> ('k, 'v) btree_map \<Rightarrow> ('k, 'v) btree_map" where
  "bt_alter k f [] = [(k, f None)]"
| "bt_alter k f ((a, b) # ps) =
     (if k < a then (k, f None) # (a, b) # ps
      else if k = a then (a, f (Some b)) # ps
      else (a, b) # bt_alter k f ps)"

definition bt_insert :: "'k::linorder \<Rightarrow> 'v \<Rightarrow> ('k, 'v) btree_map \<Rightarrow> ('k, 'v) btree_map" where
  "bt_insert k v = bt_alter k (\<lambda>_. v)"

definition bt_from :: "('k::linorder \<times> 'v) list \<Rightarrow> ('k, 'v) btree_map" where
  "bt_from ps = fold (\<lambda>(k, v). bt_insert k v) ps []"

definition bt_ok :: "('k::linorder, 'v) btree_map \<Rightarrow> bool" where
  "bt_ok m \<longleftrightarrow> sorted_wrt (<) (map fst m)"

lemma bt_ok_Nil [simp]: "bt_ok []"
  by (simp add: bt_ok_def)

lemma bt_alter_keys: "fst ` set (bt_alter k f m) = insert k (fst ` set m)"
  by (induction k f m rule: bt_alter.induct) auto

lemma bt_ok_alter [simp]: "bt_ok m \<Longrightarrow> bt_ok (bt_alter k f m)"
proof (induction k f m rule: bt_alter.induct)
  case (2 k f a b ps)
  then show ?case using bt_alter_keys [of k f ps] by (auto simp: bt_ok_def)
qed (simp add: bt_ok_def)

lemma bt_absent: "\<forall>x\<in>fst ` set m. k < x \<Longrightarrow> map_of m (k::'k::linorder) = None"
  by (auto simp: map_of_eq_None_iff)

lemma map_of_bt_alter: "bt_ok m \<Longrightarrow> map_of (bt_alter k f m) = (map_of m)(k \<mapsto> f (map_of m k))"
proof (induction k f m rule: bt_alter.induct)
  case (2 k f a b ps)
  have "map_of ps k = None" if "k < a" using 2(2) that by (intro bt_absent) (auto simp: bt_ok_def)
  then show ?case using 2 by (auto simp: bt_ok_def fun_eq_iff)
qed simp

interpretation bt: ordered_map bt_ok map_of bt_alter "\<lambda>m. m"
proof
  fix m :: "('k::linorder \<times> 'v) list" and k v
  assume ok: "bt_ok m"
  then have "distinct (map fst m)" unfolding bt_ok_def using strict_sorted_iff by blast
  then show "(k, v) \<in> set m \<longleftrightarrow> map_of m k = Some v" by simp
qed (simp_all add: map_of_bt_alter, simp add: bt_ok_def)

lemma map_of_bt_insert [simp]: "bt_ok m \<Longrightarrow> map_of (bt_insert k v m) = (map_of m)(k \<mapsto> v)"
  by (simp add: bt_insert_def map_of_bt_alter)

lemma bt_ok_insert [simp]: "bt_ok m \<Longrightarrow> bt_ok (bt_insert k v m)"
  by (simp add: bt_insert_def)

end
