(* ===== verification/Core_Fusion.thy ===== *)
theory Core_Fusion
  imports RMap RText F32 Core_Graph
begin

text \<open>
  Recall channels (\<open>crates/core/src/channel.rs\<close>) and the fusion of their ranked lists
  (\<open>crates/core/src/fusion.rs\<close>). Scores, weights and contributions are \<open>f32\<close> as in \<open>F32\<close>: finite values
  as rationals, every operation rounded; not-a-number and the infinities are outside the model, and
  so is the sign of zero. Ranks and spans are \<open>u32\<close>.
\<close>

type_synonym u32 = "32 word"

section \<open>Channels\<close>

datatype channel = LexicalSegmented | LexicalNgram | Vector | Graph

fun channel_rank :: "channel \<Rightarrow> nat" where
  "channel_rank LexicalSegmented = 0"
| "channel_rank LexicalNgram = 1"
| "channel_rank Vector = 2"
| "channel_rank Graph = 3"

lemma channel_rank_inj: "channel_rank a = channel_rank b \<Longrightarrow> a = b"
  by (cases a; cases b) simp_all

instantiation channel :: linorder
begin

definition less_eq_channel :: "channel \<Rightarrow> channel \<Rightarrow> bool" where
  "less_eq_channel a b \<longleftrightarrow> channel_rank a \<le> channel_rank b"

definition less_channel :: "channel \<Rightarrow> channel \<Rightarrow> bool" where
  "less_channel a b \<longleftrightarrow> channel_rank a < channel_rank b"

instance
  by standard (auto simp: less_eq_channel_def less_channel_def intro: channel_rank_inj)

end

fun calibrated :: "channel \<Rightarrow> (rat \<times> rat) option" where
  "calibrated LexicalSegmented = None"
| "calibrated LexicalNgram = None"
| "calibrated Vector = None"
| "calibrated Graph = Some (0, 1)"

fun channel_as_str :: "channel \<Rightarrow> string" where
  "channel_as_str LexicalSegmented = ''lexical_segmented''"
| "channel_as_str LexicalNgram = ''lexical_ngram''"
| "channel_as_str Vector = ''vector''"
| "channel_as_str Graph = ''graph''"

record scored =
  sc_topic :: topic_id
  sc_score :: "rat option"
  sc_span :: u32

definition scored_new :: "topic_id \<Rightarrow> rat \<Rightarrow> scored" where
  "scored_new topic score = \<lparr>sc_topic = topic, sc_score = Some score, sc_span = 0\<rparr>"

definition unscored :: "topic_id \<Rightarrow> scored" where
  "unscored topic = \<lparr>sc_topic = topic, sc_score = None, sc_span = 0\<rparr>"

definition in_span :: "u32 \<Rightarrow> scored \<Rightarrow> scored" where
  "in_span n s = s\<lparr>sc_span := n\<rparr>"

record channel_results =
  cs_channel :: channel
  cs_candidates :: "scored list"

definition results_unscored :: "channel \<Rightarrow> topic_id list \<Rightarrow> channel_results" where
  "results_unscored channel topics = \<lparr>cs_channel = channel, cs_candidates = map unscored topics\<rparr>"

definition results_topics :: "channel_results \<Rightarrow> topic_id list" where
  "results_topics r = map sc_topic (cs_candidates r)"

section \<open>Fusion\<close>

definition DEFAULT_K :: rat where "DEFAULT_K = 10"
definition SEGMENTED_WEIGHT :: rat where "SEGMENTED_WEIGHT = 1 / 8"
definition NGRAM_WEIGHT :: rat where "NGRAM_WEIGHT = 1 / 8"
definition GRAPH_WEIGHT :: rat where "GRAPH_WEIGHT = rnd32 (3 / 10)"

datatype why =
  WhyChannel (why_channel: channel) (why_rank: u32) (why_score: "rat option") (why_weight: rat) (why_contribution: rat)
| WhyPath ustr ustr nat ustr ustr edge_kind derivation
| WhyReranked rat

record fused_result =
  fr_topic :: topic_id
  fr_score :: rat
  fr_why :: "why list"
  fr_span :: u32

datatype combine = Reciprocal | Banded

record fusion =
  fu_combine :: combine
  fu_k :: rat
  fu_weights :: "(channel, rat) btree_map"

definition fusion_default :: fusion where
  "fusion_default = \<lparr>fu_combine = Banded, fu_k = DEFAULT_K,
     fu_weights = bt_from [(LexicalSegmented, SEGMENTED_WEIGHT), (LexicalNgram, NGRAM_WEIGHT), (Graph, GRAPH_WEIGHT)]\<rparr>"

definition with_weight :: "channel \<Rightarrow> rat \<Rightarrow> fusion \<Rightarrow> fusion" where
  "with_weight channel weight f = f\<lparr>fu_weights := bt_insert channel weight (fu_weights f)\<rparr>"

definition without :: "channel \<Rightarrow> fusion \<Rightarrow> fusion" where
  "without channel f = with_weight channel 0 f"

definition with_combine :: "combine \<Rightarrow> fusion \<Rightarrow> fusion" where
  "with_combine c f = f\<lparr>fu_combine := c\<rparr>"

definition with_k :: "rat \<Rightarrow> fusion \<Rightarrow> fusion" where
  "with_k k f = f\<lparr>fu_k := k\<rparr>"

definition fusion_weight :: "fusion \<Rightarrow> channel \<Rightarrow> rat" where
  "fusion_weight f channel = (case map_of (fu_weights f) channel of Some w \<Rightarrow> w | None \<Rightarrow> 1)"

record scaled =
  scaled_within :: "rat option"
  scaled_of :: nat

text \<open>An unsigned count as an \<open>f32\<close>.\<close>

definition f32_of_nat :: "nat \<Rightarrow> rat" where
  "f32_of_nat n = rnd32 (of_nat n)"

definition reciprocal :: "fusion \<Rightarrow> u32 \<Rightarrow> rat" where
  "reciprocal f rank = fdiv 1 (fadd (fu_k f) (f32_of_nat (unat rank)))"

definition band_floor :: "fusion \<Rightarrow> nat \<Rightarrow> rat" where
  "band_floor f n = fdiv (fadd (fu_k f) 1) (fadd (fu_k f) (f32_of_nat n))"

definition share :: "fusion \<Rightarrow> scaled \<Rightarrow> u32 \<Rightarrow> rat" where
  "share f s rank =
     (case fu_combine f of
        Reciprocal \<Rightarrow> reciprocal f rank
      | Banded \<Rightarrow>
          (case scaled_within s of
             Some w \<Rightarrow>
               (let floor = band_floor f (scaled_of s)
                in fdiv (fadd floor (fmul (fsub 1 floor) w)) (fadd (fu_k f) 1))
           | None \<Rightarrow> reciprocal f rank))"

text \<open>Every candidate's score on its channel's scale, aligned with the candidates.\<close>

definition scale_of :: "rat list \<Rightarrow> (rat \<times> rat) option \<Rightarrow> (rat \<times> rat) option" where
  "scale_of scores bounds =
     (let least = foldl min MAX32 scores; most = foldl max (- MAX32) scores
      in case bounds of
           Some (low, high) \<Rightarrow> if EPSILON32 < fsub high low then Some (low, fsub high low) else None
         | None \<Rightarrow> if EPSILON32 < fsub most least then Some (least, fsub most least) else None)"

definition within_scale :: "(rat \<times> rat) option \<Rightarrow> rat \<Rightarrow> rat option" where
  "within_scale scale score =
     map_option (\<lambda>(low, width). f32_clamp (fdiv (fsub score low) width) 0 1) scale"

definition rescale :: "scored list \<Rightarrow> (rat \<times> rat) option \<Rightarrow> scaled list" where
  "rescale candidates bounds =
     (let blank = \<lparr>scaled_within = None, scaled_of = length candidates\<rparr>;
          scores = List.map_filter sc_score candidates
      in if length scores \<noteq> length candidates \<or> scores = [] then replicate (length candidates) blank
         else map (\<lambda>score. \<lparr>scaled_within = within_scale (scale_of scores bounds) score, scaled_of = length candidates\<rparr>) scores)"

type_synonym accumulated = "rat \<times> why list \<times> (u32, rat) btree_map"

definition or_default :: "accumulated option \<Rightarrow> accumulated" where
  "or_default held = (case held of None \<Rightarrow> (0, [], []) | Some a \<Rightarrow> a)"

text \<open>What one candidate at one place of its list adds to its topic's entry.\<close>

definition vote :: "fusion \<Rightarrow> channel \<Rightarrow> rat \<Rightarrow> (nat \<times> scored \<times> scaled) \<Rightarrow> accumulated option \<Rightarrow> accumulated" where
  "vote f channel weight x held =
     (case x of (index, candidate, sc) \<Rightarrow>
       let rank = word_of_nat index + 1;
           contribution = fmul weight (share f sc rank);
           (score, why, spans) = or_default held
       in (fadd score contribution,
           why @ [WhyChannel channel rank (sc_score candidate) weight contribution],
           if channel \<noteq> Graph
           then bt_alter (sc_span candidate) (\<lambda>h. fadd (case h of None \<Rightarrow> 0 | Some s \<Rightarrow> s) contribution) spans
           else spans))"

definition placed :: "channel_results \<Rightarrow> (nat \<times> scored \<times> scaled) list" where
  "placed r = zip [0..<length (cs_candidates r)]
     (zip (cs_candidates r) (rescale (cs_candidates r) (calibrated (cs_channel r))))"

definition fuse_list :: "fusion \<Rightarrow> channel_results \<Rightarrow> (topic_id, accumulated) btree_map \<Rightarrow> (topic_id, accumulated) btree_map" where
  "fuse_list f r acc =
     (let weight = fusion_weight f (cs_channel r)
      in if weight = 0 then acc
         else fold (\<lambda>x. bt_alter (sc_topic (fst (snd x))) (vote f (cs_channel r) weight x)) (placed r) acc)"

text \<open>\<open>max_by\<close> keeps the last of equal greatest elements; here spans are keys, so none are equal.\<close>

definition span_le :: "u32 \<times> rat \<Rightarrow> u32 \<times> rat \<Rightarrow> bool" where
  "span_le a b \<longleftrightarrow> snd a < snd b \<or> snd a = snd b \<and> fst b \<le> fst a"

definition best_span :: "(u32, rat) btree_map \<Rightarrow> u32" where
  "best_span spans =
     (case spans of [] \<Rightarrow> 0
      | x # xs \<Rightarrow> fst (foldl (\<lambda>best y. if span_le best y then y else best) x xs))"

definition result_order :: "fused_result \<Rightarrow> fused_result \<Rightarrow> bool" where
  "result_order = lex_by (desc_by fr_score) (asc_by fr_topic)"

definition sort_results :: "fused_result list \<Rightarrow> fused_result list" where
  "sort_results = sort_by result_order"

definition fuse :: "fusion \<Rightarrow> channel_results list \<Rightarrow> fused_result list" where
  "fuse f ranked =
     sort_results
       (map (\<lambda>(topic, score, why, spans). \<lparr>fr_topic = topic, fr_score = score, fr_why = why, fr_span = best_span spans\<rparr>)
         (fold (fuse_list f) ranked []))"

section \<open>A run of votes\<close>

text \<open>The votes one list casts, as updates of the accumulator; and the trace entry of each.\<close>

definition cast :: "fusion \<Rightarrow> channel_results \<Rightarrow> (nat \<times> scored \<times> scaled) list" where
  "cast f r = (if fusion_weight f (cs_channel r) = 0 then [] else placed r)"

definition entry_of :: "fusion \<Rightarrow> channel_results \<Rightarrow> (nat \<times> scored \<times> scaled) \<Rightarrow> why" where
  "entry_of f r x = (case x of (index, candidate, sc) \<Rightarrow>
     WhyChannel (cs_channel r) (word_of_nat index + 1) (sc_score candidate) (fusion_weight f (cs_channel r))
       (fmul (fusion_weight f (cs_channel r)) (share f sc (word_of_nat index + 1))))"

definition topic_of_vote :: "(nat \<times> scored \<times> scaled) \<Rightarrow> topic_id" where
  "topic_of_vote x = sc_topic (fst (snd x))"

definition ballots :: "fusion \<Rightarrow> channel_results list \<Rightarrow> (channel_results \<times> (nat \<times> scored \<times> scaled)) list" where
  "ballots f ranked = concat (map (\<lambda>r. map (Pair r) (cast f r)) ranked)"

definition ballots_for :: "fusion \<Rightarrow> channel_results list \<Rightarrow> topic_id \<Rightarrow> (channel_results \<times> (nat \<times> scored \<times> scaled)) list" where
  "ballots_for f ranked t = filter (\<lambda>b. topic_of_vote (snd b) = t) (ballots f ranked)"

definition trace :: "fusion \<Rightarrow> channel_results list \<Rightarrow> topic_id \<Rightarrow> why list" where
  "trace f ranked t = map (\<lambda>b. entry_of f (fst b) (snd b)) (ballots_for f ranked t)"

text \<open>Which span each vote names, and with what weight: the graph names none.\<close>

definition span_votes :: "fusion \<Rightarrow> channel_results list \<Rightarrow> topic_id \<Rightarrow> (u32 \<times> rat) list" where
  "span_votes f ranked t =
     map (\<lambda>b. (sc_span (fst (snd (snd b))), why_contribution (entry_of f (fst b) (snd b))))
       (filter (\<lambda>b. cs_channel (fst b) \<noteq> Graph) (ballots_for f ranked t))"

definition span_total :: "(u32 \<times> rat) list \<Rightarrow> u32 \<Rightarrow> rat" where
  "span_total vs n = foldl fadd 0 (map snd (filter (\<lambda>v. fst v = n) vs))"

definition vote_of :: "fusion \<Rightarrow> (channel_results \<times> (nat \<times> scored \<times> scaled)) \<Rightarrow> topic_id \<times> (accumulated option \<Rightarrow> accumulated)" where
  "vote_of f b = (topic_of_vote (snd b), vote f (cs_channel (fst b)) (fusion_weight f (cs_channel (fst b))) (snd b))"

lemma fuse_list_votes: "fuse_list f r acc = bt.alter_all (map (vote_of f) (map (Pair r) (cast f r))) acc"
proof -
  have "fold (\<lambda>x. bt_alter (sc_topic (fst (snd x))) (vote f (cs_channel r) (fusion_weight f (cs_channel r)) x)) xs acc
      = fold (\<lambda>(k, f). bt_alter k f) (map (vote_of f) (map (Pair r) xs)) acc" for xs
    by (induction xs arbitrary: acc) (simp_all add: vote_of_def topic_of_vote_def)
  then show ?thesis by (simp add: fuse_list_def cast_def bt.alter_all_def Let_def)
qed

lemma fold_fuse_list: "fold (fuse_list f) ranked acc = bt.alter_all (map (vote_of f) (ballots f ranked)) acc"
  unfolding ballots_def
  by (induction ranked arbitrary: acc) (simp_all add: fuse_list_votes bt.alter_all_def)

text \<open>The accumulator's entry of a topic after its ballots.\<close>

definition poll :: "fusion \<Rightarrow> (channel_results \<times> (nat \<times> scored \<times> scaled)) \<Rightarrow> accumulated option \<Rightarrow> accumulated option" where
  "poll f b held = Some (snd (vote_of f b) held)"

definition span_op :: "u32 \<times> rat \<Rightarrow> u32 \<times> (rat option \<Rightarrow> rat)" where
  "span_op v = (fst v, \<lambda>h. fadd (case h of None \<Rightarrow> 0 | Some s \<Rightarrow> s) (snd v))"

definition span_map :: "(u32 \<times> rat) list \<Rightarrow> (u32, rat) btree_map" where
  "span_map vs = bt.alter_all (map span_op vs) []"

lemma poll_step:
  "poll f b held = Some
    (fadd (fst (or_default held)) (why_contribution (entry_of f (fst b) (snd b))),
     fst (snd (or_default held)) @ [entry_of f (fst b) (snd b)],
     (if cs_channel (fst b) \<noteq> Graph
      then bt.alter_all [span_op (sc_span (fst (snd (snd b))), why_contribution (entry_of f (fst b) (snd b)))] (snd (snd (or_default held)))
      else snd (snd (or_default held))))"
  by (cases b rule: prod.exhaust [OF _])
    (auto simp: poll_def vote_of_def vote_def entry_of_def span_op_def bt.alter_all_def Let_def case_prod_beta)

definition tally :: "(channel_results \<times> (nat \<times> scored \<times> scaled) \<Rightarrow> why) \<Rightarrow> (channel_results \<times> (nat \<times> scored \<times> scaled)) list \<Rightarrow> accumulated" where
  "tally entry bs = (foldl fadd 0 (map (\<lambda>b. why_contribution (entry b)) bs), map entry bs,
     span_map (map (\<lambda>b. (sc_span (fst (snd (snd b))), why_contribution (entry b))) (filter (\<lambda>b. cs_channel (fst b) \<noteq> Graph) bs)))"

lemma poll_tally:
  "bs \<noteq> [] \<Longrightarrow> fold (poll f) bs None = Some (tally (\<lambda>b. entry_of f (fst b) (snd b)) bs)"
proof (induction bs rule: rev_induct)
  case (snoc b bs)
  define held where "held = fold (poll f) bs None"
  have eq: "or_default held = tally (\<lambda>b. entry_of f (fst b) (snd b)) bs"
    using snoc.IH by (cases "bs = []") (simp_all add: held_def or_default_def tally_def span_map_def bt.alter_all_def)
  have "fold (poll f) (bs @ [b]) None = poll f b held" by (simp add: held_def)
  also have "\<dots> = Some (tally (\<lambda>b. entry_of f (fst b) (snd b)) (bs @ [b]))"
    unfolding poll_step eq by (simp add: tally_def span_map_def bt.alter_all_def)
  finally show ?case .
qed simp

lemma lookup_fused:
  "map_of (fold (fuse_list f) ranked []) t =
     (if ballots_for f ranked t = [] then None
      else Some (tally (\<lambda>b. entry_of f (fst b) (snd b)) (ballots_for f ranked t)))"
proof -
  have "map_of (fold (fuse_list f) ranked []) t
    = fold (\<lambda>g held. Some (g held)) (map snd (filter (\<lambda>op. fst op = t) (map (vote_of f) (ballots f ranked)))) None"
    by (simp add: fold_fuse_list bt.lookup_alter_all)
  also have "filter (\<lambda>op. fst op = t) (map (vote_of f) (ballots f ranked)) = map (vote_of f) (ballots_for f ranked t)"
    by (simp add: ballots_for_def filter_map comp_def vote_of_def)
  also have "fold (\<lambda>g held. Some (g held)) (map snd (map (vote_of f) (ballots_for f ranked t))) None
    = fold (poll f) (ballots_for f ranked t) None"
    by (simp add: fold_map comp_def) (simp add: poll_def [abs_def])
  finally show ?thesis using poll_tally by simp
qed

lemma fused_ok: "bt_ok (fold (fuse_list f) ranked [])"
  by (simp add: fold_fuse_list bt.invar_alter_all)

text \<open>Fusion as the code never computes it: topic by topic, from the ballots that name it.\<close>

definition result_for :: "fusion \<Rightarrow> channel_results list \<Rightarrow> topic_id \<Rightarrow> fused_result" where
  "result_for f ranked t = \<lparr>fr_topic = t, fr_score = foldl fadd 0 (map why_contribution (trace f ranked t)),
     fr_why = trace f ranked t, fr_span = best_span (span_map (span_votes f ranked t))\<rparr>"

definition voted :: "fusion \<Rightarrow> channel_results list \<Rightarrow> topic_id set" where
  "voted f ranked = {t. \<exists>r\<in>set ranked. fusion_weight f (cs_channel r) \<noteq> 0 \<and> t \<in> set (results_topics r)}"

lemma length_rescale [simp]: "length (rescale cs bounds) = length cs"
  by (simp add: rescale_def Let_def)

lemma placed_topics: "map topic_of_vote (placed r) = results_topics r"
  by (rule nth_equalityI) (simp_all add: placed_def results_topics_def topic_of_vote_def)

lemma ballots_for_Nil: "ballots_for f ranked t = [] \<longleftrightarrow> t \<notin> voted f ranked"
proof -
  have "(\<exists>x\<in>set (cast f r). topic_of_vote x = t) \<longleftrightarrow> fusion_weight f (cs_channel r) \<noteq> 0 \<and> t \<in> set (results_topics r)" for r
    by (auto simp: cast_def placed_topics [symmetric])
  then show ?thesis by (force simp: ballots_for_def ballots_def voted_def filter_empty_conv)
qed

lemma fuse_eq:
  "fuse f ranked = sort_by result_order (map (result_for f ranked) (sorted_list_of_set (voted f ranked)))"
proof -
  let ?m = "fold (fuse_list f) ranked []"
  have "map_of ?m t \<noteq> None \<longleftrightarrow> t \<in> voted f ranked" for t
    by (cases "t \<in> voted f ranked")
      (simp_all only: lookup_fused ballots_for_Nil simp_thms if_True if_False option.distinct)
  then have dom: "{k. map_of ?m k \<noteq> None} = voted f ranked" by (simp only: Collect_mem_eq)
  have "?m = map (\<lambda>k. (k, the (map_of ?m k))) (sorted_list_of_set {k. map_of ?m k \<noteq> None})"
    by (rule bt.entries_eq [OF fused_ok])
  then have m: "?m = map (\<lambda>t. (t, the (map_of ?m t))) (sorted_list_of_set (voted f ranked))"
    by (simp only: dom)
  have fin: "finite (voted f ranked)" unfolding voted_def by (rule finite_subset [of _ "\<Union>r\<in>set ranked. set (results_topics r)"]) auto
  let ?F = "\<lambda>(topic, score, why, spans). \<lparr>fr_topic = topic, fr_score = score, fr_why = why, fr_span = best_span spans\<rparr>"
  have "?F (t, the (map_of ?m t)) = result_for f ranked t" if t: "t \<in> voted f ranked" for t
  proof -
    have "map_of ?m t = Some (tally (\<lambda>b. entry_of f (fst b) (snd b)) (ballots_for f ranked t))"
      using t by (simp only: lookup_fused ballots_for_Nil simp_thms if_False)
    then show ?thesis by (simp add: result_for_def tally_def trace_def span_votes_def comp_def)
  qed
  then have "map (\<lambda>t. ?F (t, the (map_of ?m t))) (sorted_list_of_set (voted f ranked))
    = map (result_for f ranked) (sorted_list_of_set (voted f ranked))" using fin by (intro map_cong) auto
  moreover have "map ?F ?m = map (\<lambda>t. ?F (t, the (map_of ?m t))) (sorted_list_of_set (voted f ranked))"
    by (subst m) (simp only: map_map comp_def)
  ultimately have "map ?F ?m = map (result_for f ranked) (sorted_list_of_set (voted f ranked))" by (rule trans [rotated])
  then show ?thesis by (simp add: fuse_def sort_results_def)
qed


section \<open>What fusion returns\<close>

lemma result_order_preorder: "preorder_by result_order"
  unfolding result_order_def by (intro preorder_lex_by preorder_asc_by preorder_desc_by)

interpretation fused: preorder_by result_order
  by (rule result_order_preorder)

lemma result_for_topic [simp]: "fr_topic (result_for f ranked t) = t"
  by (simp add: result_for_def)

lemma voted_finite [simp]: "finite (voted f ranked)"
  unfolding voted_def by (rule finite_subset [of _ "\<Union>r\<in>set ranked. set (results_topics r)"]) auto

lemma fuse_topics:
  "distinct (map fr_topic (fuse f ranked))" "set (map fr_topic (fuse f ranked)) = voted f ranked"
  "sorted_wrt result_order (fuse f ranked)"
proof -
  have "mset (map fr_topic (fuse f ranked)) = mset (sorted_list_of_set (voted f ranked))"
    by (simp add: fuse_eq multiset.map_comp comp_def)
  then show "distinct (map fr_topic (fuse f ranked))" "set (map fr_topic (fuse f ranked)) = voted f ranked"
    using mset_eq_imp_distinct_iff mset_eq_setD by (fastforce)+
qed (simp add: fuse_eq fused.sorted_sort_by)

lemma fuse_result: "r \<in> set (fuse f ranked) \<Longrightarrow> r = result_for f ranked (fr_topic r)"
  by (auto simp: fuse_eq)

section \<open>The best span\<close>

lemma lookup_span_map:
  "map_of (span_map vs) n = (if n \<in> fst ` set vs then Some (span_total vs n) else None)"
proof -
  have *: "fold (\<lambda>g held. Some (g held)) (map snd (map span_op ws)) (Some s) = Some (foldl fadd s (map snd ws))" for ws s
    by (induction ws arbitrary: s) (simp_all add: span_op_def)
  have "map_of (span_map vs) n = fold (\<lambda>g held. Some (g held)) (map snd (filter (\<lambda>op. fst op = n) (map span_op vs))) None"
    by (simp add: span_map_def bt.lookup_alter_all)
  also have "filter (\<lambda>op. fst op = n) (map span_op vs) = map span_op (filter (\<lambda>v. fst v = n) vs)"
    by (simp add: filter_map comp_def span_op_def)
  also have "fold (\<lambda>g held. Some (g held)) (map snd (map span_op (filter (\<lambda>v. fst v = n) vs))) None =
      (if filter (\<lambda>v. fst v = n) vs = [] then None else Some (span_total vs n))"
    using * by (cases "filter (\<lambda>v. fst v = n) vs") (simp_all add: span_total_def, simp add: span_op_def)
  finally show ?thesis by (auto simp: filter_empty_conv)
qed

lemma max_by_foldl:
  "foldl (\<lambda>best y. if span_le best y then y else best) x xs \<in> insert x (set xs) \<and>
   (\<forall>y\<in>insert x (set xs). span_le y (foldl (\<lambda>best y. if span_le best y then y else best) x xs))"
proof (induction xs arbitrary: x)
  case (Cons y xs)
  have t: "span_le a b \<Longrightarrow> span_le b c \<Longrightarrow> span_le a c" for a b c by (auto simp: span_le_def)
  have l: "span_le x y \<or> span_le y x" "span_le a a" for a by (auto simp: span_le_def)
  let ?z = "if span_le x y then y else x"
  from Cons.IH [of ?z] show ?case using l t by (auto split: if_splits) 
qed (simp add: span_le_def)

lemma best_span_in: "bt_ok m \<Longrightarrow> m \<noteq> [] \<Longrightarrow> \<exists>w. map_of m (best_span m) = Some w \<and>
    (\<forall>n v. map_of m n = Some v \<longrightarrow> v < w \<or> v = w \<and> best_span m \<le> n)"
proof -
  assume ok: "bt_ok m" and "m \<noteq> []"
  then obtain x xs where m: "m = x # xs" by (cases m) auto
  define b where "b = foldl (\<lambda>best y. if span_le best y then y else best) x xs"
  have b: "b \<in> set m" "\<forall>y\<in>set m. span_le y b" using max_by_foldl [of x xs] by (simp_all add: m b_def)
  have e: "(n, v) \<in> set m \<longleftrightarrow> map_of m n = Some v" for n v using bt.entries_lookup [OF ok] by simp
  have "best_span m = fst b" by (simp add: best_span_def m b_def)
  moreover have "map_of m (fst b) = Some (snd b)" using b(1) e [of "fst b" "snd b"] by simp
  moreover have "v < snd b \<or> v = snd b \<and> fst b \<le> n" if "map_of m n = Some v" for n v
    using bspec [OF b(2), of "(n, v)"] e [of n v] that by (auto simp: span_le_def)
  ultimately show ?thesis by auto
qed

lemma best_span_spec:
  assumes "vs \<noteq> []"
  shows "best_span (span_map vs) \<in> fst ` set vs \<and>
    (\<forall>n\<in>fst ` set vs. span_total vs n < span_total vs (best_span (span_map vs)) \<or>
       span_total vs n = span_total vs (best_span (span_map vs)) \<and> best_span (span_map vs) \<le> n)"
proof -
  have ok: "bt_ok (span_map vs)" by (simp add: span_map_def bt.invar_alter_all)
  have "map_of (span_map vs) (fst (hd vs)) \<noteq> None" using assms by (simp add: lookup_span_map)
  then have "span_map vs \<noteq> []" by auto
  from best_span_in [OF ok this] show ?thesis by (auto simp: lookup_span_map split: if_splits)
qed

section \<open>The band\<close>

lemma f32_of_nat_ge_one: "1 \<le> n \<Longrightarrow> 1 \<le> f32_of_nat n"
  unfolding f32_of_nat_def by (rule le_rnd32) simp_all

lemma fdiv_le_one: "0 < b \<Longrightarrow> a \<le> b \<Longrightarrow> fdiv a b \<le> 1"
  unfolding fdiv_def by (rule rnd32_le) simp_all

lemma fdiv_nonneg: "0 \<le> a \<Longrightarrow> 0 < b \<Longrightarrow> 0 \<le> fdiv a b"
  unfolding fdiv_def by (rule le_rnd32) simp_all

lemma fadd_ge_one: "0 \<le> a \<Longrightarrow> 1 \<le> b \<Longrightarrow> 1 \<le> fadd a b"
  unfolding fadd_def by (rule le_rnd32) simp_all

lemma fadd_ge_left: "is_f32 a \<Longrightarrow> 0 \<le> b \<Longrightarrow> a \<le> fadd a b"
  unfolding fadd_def by (rule le_rnd32) simp_all

lemma band_floor_unit:
  assumes "0 \<le> fu_k f" "1 \<le> n"
  shows "is_f32 (band_floor f n)" "0 \<le> band_floor f n" "band_floor f n \<le> 1"
proof -
  have p: "1 \<le> fadd (fu_k f) (f32_of_nat n)" "1 \<le> fadd (fu_k f) 1"
    using fadd_ge_one f32_of_nat_ge_one assms by auto
  then show "0 \<le> band_floor f n" unfolding band_floor_def by (intro fdiv_nonneg) simp_all
  show "band_floor f n \<le> 1"
    unfolding band_floor_def using p by (intro fdiv_le_one fadd_mono f32_of_nat_ge_one assms) simp_all
qed (simp add: band_floor_def)

definition banded :: "fusion \<Rightarrow> nat \<Rightarrow> rat \<Rightarrow> rat" where
  "banded f n w = fdiv (fadd (band_floor f n) (fmul (fsub 1 (band_floor f n)) w)) (fadd (fu_k f) 1)"

lemma banded_mono:
  assumes k: "0 \<le> fu_k f" "1 \<le> n" and w: "0 \<le> w" "w \<le> w'"
  shows "banded f n w \<le> banded f n w'"
  unfolding banded_def
  using fsub_nonneg [OF band_floor_unit(3) [OF k]] fadd_ge_one [OF k(1), of 1] w
  by (intro fdiv_mono fadd_mono fmul_mono) auto

lemma banded_ends:
  assumes k: "0 \<le> fu_k f" "1 \<le> n"
  shows "banded f n 0 = fdiv (band_floor f n) (fadd (fu_k f) 1)"
    and "banded f n 1 = fdiv 1 (fadd (fu_k f) 1)"
proof -
  note u = band_floor_unit [OF k]
  show "banded f n 0 = fdiv (band_floor f n) (fadd (fu_k f) 1)"
    using u(1) by (simp add: banded_def fmul_def fadd_def is_f32_id)
  have "fmul (fsub 1 (band_floor f n)) 1 = fsub 1 (band_floor f n)" by (simp add: fmul_def fsub_def)
  then show "banded f n 1 = fdiv 1 (fadd (fu_k f) 1)" using fadd_rest [OF u] by (simp add: banded_def)
qed

section \<open>A channel's own scale\<close>

lemma foldl_min: "foldl min (a::'a::linorder) xs = Min (insert a (set xs))"
proof (induction xs arbitrary: a)
  case (Cons x xs)
  have "Min (insert (min a x) S) = Min (insert a (insert x S))" if "finite S" for S
    using that by (cases "S = {}") (simp_all add: min.assoc)
  then show ?case using Cons by simp
qed simp

lemma foldl_max: "foldl max (a::'a::linorder) xs = Max (insert a (set xs))"
proof (induction xs arbitrary: a)
  case (Cons x xs)
  have "Max (insert (max a x) S) = Max (insert a (insert x S))" if "finite S" for S
    using that by (cases "S = {}") (simp_all add: max.assoc)
  then show ?case using Cons by simp
qed simp

text \<open>Every candidate scored, and every score a finite value of the type.\<close>

definition scores_ok :: "rat list \<Rightarrow> bool" where
  "scores_ok scores \<longleftrightarrow> (\<forall>s\<in>set scores. is_f32 s \<and> - MAX32 \<le> s \<and> s \<le> MAX32)"

lemma foldl_scores:
  assumes "scores_ok scores" "scores \<noteq> []"
  shows "foldl min MAX32 scores = Min (set scores)" "foldl max (- MAX32) scores = Max (set scores)"
proof -
  have m: "Min (set scores) \<in> set scores" "Max (set scores) \<in> set scores" using assms(2) by simp_all
  then show "foldl min MAX32 scores = Min (set scores)" "foldl max (- MAX32) scores = Max (set scores)"
    using assms unfolding scores_ok_def by (auto simp: foldl_min foldl_max min_absorb2 max_absorb2)
qed

lemma map_filter_scores:
  assumes "map sc_score cs = map Some scores"
  shows "List.map_filter sc_score cs = scores"
proof -
  have "List.map_filter sc_score cs = List.map_filter (\<lambda>x. x) (map sc_score cs)"
    by (simp add: List.map_filter_def comp_def filter_map)
  then show ?thesis unfolding assms by (simp add: List.map_filter_def comp_def)
qed

lemma rescale_scored:
  assumes "map sc_score cs = map Some scores" "scores \<noteq> []"
  shows "rescale cs bounds = map (\<lambda>score. \<lparr>scaled_within = within_scale (scale_of scores bounds) score, scaled_of = length cs\<rparr>) scores"
proof -
  have "length scores = length cs" using arg_cong [OF assms(1), of length] by simp
  then show ?thesis using assms(2) by (simp add: rescale_def Let_def map_filter_scores [OF assms(1)])
qed

lemma clamp_mono: "x \<le> y \<Longrightarrow> f32_clamp x 0 1 \<le> f32_clamp y 0 1"
  by (auto simp: f32_clamp_def)

lemma clamp_unit: "0 \<le> f32_clamp x 0 1" "f32_clamp x 0 1 \<le> 1"
  by (auto simp: f32_clamp_def)

text \<open>The place of a score on a channel's own spread: its worst is 0, its best is 1, and order is kept.\<close>

definition place :: "rat list \<Rightarrow> rat \<Rightarrow> rat" where
  "place scores s = f32_clamp (fdiv (fsub s (Min (set scores))) (fsub (Max (set scores)) (Min (set scores)))) 0 1"

lemma place_spec:
  assumes "EPSILON32 < fsub (Max (set scores)) (Min (set scores))"
  shows "0 \<le> place scores s \<and> place scores s \<le> 1" and "s \<le> s' \<Longrightarrow> place scores s \<le> place scores s'"
    and "place scores (Min (set scores)) = 0" and "place scores (Max (set scores)) = 1"
proof -
  let ?w = "fsub (Max (set scores)) (Min (set scores))"
  have w: "0 < ?w" using assms by (simp add: EPSILON32_def less_trans [rotated])
  show "0 \<le> place scores s \<and> place scores s \<le> 1" using clamp_unit by (simp add: place_def)
  show "s \<le> s' \<Longrightarrow> place scores s \<le> place scores s'"
    unfolding place_def using w by (intro clamp_mono fdiv_mono) (simp_all add: fsub_def rnd32_mono)
  have "fdiv ?w ?w = 1" using w by (simp add: fdiv_def is_f32_id)
  then show "place scores (Max (set scores)) = 1" by (simp add: place_def f32_clamp_def)
  show "place scores (Min (set scores)) = 0" by (simp add: place_def fsub_def fdiv_def f32_clamp_def)
qed

lemma rescale_spread:
  assumes "map sc_score cs = map Some scores" "scores_ok scores" "scores \<noteq> []"
    "EPSILON32 < fsub (Max (set scores)) (Min (set scores))"
  shows "rescale cs None = map (\<lambda>score. \<lparr>scaled_within = Some (place scores score), scaled_of = length cs\<rparr>) scores"
  using assms(4) by (simp add: rescale_scored [OF assms(1,3)] scale_of_def foldl_scores [OF assms(2,3)] within_scale_def place_def Let_def)

lemma rescale_calibrated:
  assumes "map sc_score cs = map Some scores" "scores_ok scores" "scores \<noteq> []"
  shows "rescale cs (calibrated Graph) = map (\<lambda>score. \<lparr>scaled_within = Some (f32_clamp score 0 1), scaled_of = length cs\<rparr>) scores"
proof -
  have "fsub 1 0 = 1" "EPSILON32 < 1" by (simp_all add: fsub_def EPSILON32_def is_f32_id)
  moreover have "fdiv (fsub s 0) 1 = s" if "s \<in> set scores" for s
    using assms(2) that by (simp add: scores_ok_def fsub_def fdiv_def is_f32_id)
  ultimately show ?thesis by (simp add: rescale_scored [OF assms(1,3)] scale_of_def within_scale_def)
qed

section \<open>Silencing a channel\<close>

lemma fusion_weight_with: "bt_ok (fu_weights f) \<Longrightarrow>
    fusion_weight (with_weight c w f) c' = (if c' = c then w else fusion_weight f c')"
  by (simp add: fusion_weight_def with_weight_def)

lemma with_weight_fields [simp]:
  "fu_k (with_weight c w f) = fu_k f" "fu_combine (with_weight c w f) = fu_combine f"
  by (simp_all add: with_weight_def)

lemma share_with_weight [simp]: "share (with_weight c w f) s rank = share f s rank"
  by (simp add: share_def reciprocal_def band_floor_def split: combine.split option.split)

lemma vote_with_weight [simp]: "vote (with_weight c w f) ch weight x = vote f ch weight x"
  by (simp add: vote_def fun_eq_iff)

lemma fuse_list_without:
  "bt_ok (fu_weights f) \<Longrightarrow> fuse_list (without c f) r = (if cs_channel r = c then id else fuse_list f r)"
  by (simp add: without_def fuse_list_def fusion_weight_with fun_eq_iff Let_def)

lemma fuse_without:
  assumes "bt_ok (fu_weights f)"
  shows "fuse (without c f) ranked = fuse f (filter (\<lambda>r. cs_channel r \<noteq> c) ranked)"
proof -
  have "fold (fuse_list (without c f)) ranked acc = fold (fuse_list f) (filter (\<lambda>r. cs_channel r \<noteq> c) ranked) acc" for acc
    by (induction ranked arbitrary: acc) (simp_all add: fuse_list_without [OF assms])
  then show ?thesis by (simp add: fuse_def)
qed

section \<open>Properties\<close>

definition sample_lists :: "channel_results list" where
  "sample_lists =
     [\<lparr>cs_channel = LexicalSegmented, cs_candidates = [in_span 2 (scored_new (TopicId 1) 9), scored_new (TopicId 2) (9/2)]\<rparr>,
      \<lparr>cs_channel = Vector, cs_candidates = [scored_new (TopicId 2) (3/4), scored_new (TopicId 1) (1/2), in_span 1 (scored_new (TopicId 3) (1/4))]\<rparr>,
      \<lparr>cs_channel = Graph, cs_candidates = [scored_new (TopicId 4) (1/2)]\<rparr>]"

text \<open>
  C38: Fusing the channels' lists is, topic by topic, what the lists say of it: the topics are those
  some channel of non-zero weight names, each once, its trace has one entry per place it holds in
  those lists, its score is the sum of the trace's contributions in that order, and results are
  ordered by score and then by topic.
\<close>

theorem fuse_by_topic:
  "fuse f ranked = sort_by result_order (map (result_for f ranked) (sorted_list_of_set (voted f ranked)))"
  by (rule fuse_eq)

text \<open>
  Stopping to ask a channel gives what leaving its list out gives: it names no topic, adds to no
  score, leaves no trace and votes for no span.
\<close>

theorem without_is_absence:
  assumes "bt_ok (fu_weights f)"
  shows "fuse (without c f) ranked = fuse f (filter (\<lambda>r. cs_channel r \<noteq> c) ranked)"
  by (rule fuse_without [OF assms])

lemma without_is_absence_witness:
  "map fr_topic (fuse (without Vector fusion_default) sample_lists) = map fr_topic (fuse fusion_default [sample_lists ! 0, sample_lists ! 2])"
proof -
  have ok: "bt_ok (fu_weights fusion_default)" by code_simp
  have "filter (\<lambda>r. cs_channel r \<noteq> Vector) sample_lists = [sample_lists ! 0, sample_lists ! 2]" by (simp add: sample_lists_def)
  with without_is_absence [OF ok, of Vector sample_lists] show ?thesis by simp
qed

text \<open>
  A banded channel's candidates lie in the band reciprocal ranks would span: the best scored is
  worth exactly a first rank, the worst scored is worth the band's floor, none more or less than
  these, and a better score is never worth less.
\<close>

theorem banded_share_in_band:
  assumes "fu_combine f = Banded" and "0 \<le> fu_k f" and "1 \<le> n" and "0 \<le> w" and "w \<le> w'" and "w' \<le> 1"
  shows "share f \<lparr>scaled_within = Some 0, scaled_of = n\<rparr> rank = fdiv (band_floor f n) (fadd (fu_k f) 1) \<and>
    share f \<lparr>scaled_within = Some 0, scaled_of = n\<rparr> rank \<le> share f \<lparr>scaled_within = Some w, scaled_of = n\<rparr> rank \<and>
    share f \<lparr>scaled_within = Some w, scaled_of = n\<rparr> rank \<le> share f \<lparr>scaled_within = Some w', scaled_of = n\<rparr> rank' \<and>
    share f \<lparr>scaled_within = Some w', scaled_of = n\<rparr> rank' \<le> share f \<lparr>scaled_within = Some 1, scaled_of = n\<rparr> rank' \<and>
    share f \<lparr>scaled_within = Some 1, scaled_of = n\<rparr> rank = reciprocal f 1"
proof -
  have s: "share f \<lparr>scaled_within = Some v, scaled_of = n\<rparr> r = banded f n v" for v r
    using assms(1) by (simp add: share_def banded_def Let_def)
  have "f32_of_nat 1 = 1" by (simp add: f32_of_nat_def is_f32_id)
  then have "reciprocal f 1 = fdiv 1 (fadd (fu_k f) 1)" by (simp add: reciprocal_def)
  then show ?thesis
    unfolding s using banded_ends [OF assms(2,3)] banded_mono [OF assms(2,3), of 0 w] banded_mono [OF assms(2,3), of w w']
      banded_mono [OF assms(2,3), of w' 1] assms(4-6) by simp
qed

lemma banded_share_in_band_witness:
  "share fusion_default \<lparr>scaled_within = Some 1, scaled_of = 50\<rparr> 7 = reciprocal fusion_default 1 \<and>
   share fusion_default \<lparr>scaled_within = Some (1/4), scaled_of = 50\<rparr> 9 \<le> share fusion_default \<lparr>scaled_within = Some (1/2), scaled_of = 50\<rparr> 3"
proof -
  have "fu_combine fusion_default = Banded" "0 \<le> fu_k fusion_default" by (simp_all add: fusion_default_def DEFAULT_K_def)
  from banded_share_in_band [OF this, of 50 "1/4" "1/2" 9 3] banded_share_in_band [OF this, of 50 "1/4" "1/2" 7 3]
  show ?thesis by simp
qed

text \<open>
  A channel's scores are read on its own scale: for a channel without a declared range whose
  scores spread, the worst candidate falls at 0 and the best at 1, all between and in score order;
  the graph's scores are read as they are, whatever else the list holds.
\<close>

theorem rescale_scale:
  assumes "map sc_score cs = map Some scores" and "scores_ok scores" and "scores \<noteq> []"
  shows "rescale cs (calibrated Graph) = map (\<lambda>s. \<lparr>scaled_within = Some (f32_clamp s 0 1), scaled_of = length cs\<rparr>) scores \<and>
    (EPSILON32 < fsub (Max (set scores)) (Min (set scores)) \<longrightarrow>
      rescale cs None = map (\<lambda>s. \<lparr>scaled_within = Some (place scores s), scaled_of = length cs\<rparr>) scores \<and>
      place scores (Min (set scores)) = 0 \<and> place scores (Max (set scores)) = 1 \<and>
      (\<forall>s s'. s \<le> s' \<longrightarrow> 0 \<le> place scores s \<and> place scores s \<le> place scores s' \<and> place scores s' \<le> 1))"
  using rescale_calibrated [OF assms] rescale_spread [OF assms] place_spec by blast

lemma rescale_scale_witness:
  "rescale [scored_new (TopicId 1) 9, scored_new (TopicId 2) 3, scored_new (TopicId 3) 5] None =
     [\<lparr>scaled_within = Some (place [9, 3, 5] 9), scaled_of = 3\<rparr>, \<lparr>scaled_within = Some (place [9, 3, 5] 3), scaled_of = 3\<rparr>,
      \<lparr>scaled_within = Some (place [9, 3, 5] 5), scaled_of = 3\<rparr>] \<and> place [9, 3, 5] 3 = 0 \<and> place [9, 3, 5] 9 = 1"
proof -
  have "map sc_score [scored_new (TopicId 1) 9, scored_new (TopicId 2) 3, scored_new (TopicId 3) 5] = map Some [9, 3, 5]"
    by (simp add: scored_new_def)
  moreover have "scores_ok [9, 3, 5]" by code_simp
  moreover have "Max (set [9, 3, 5::rat]) = 9" "Min (set [9, 3, 5::rat]) = 3" by simp_all
  moreover have "EPSILON32 < fsub 9 3" by code_simp
  ultimately show ?thesis
    using rescale_scale [of "[scored_new (TopicId 1) 9, scored_new (TopicId 2) 3, scored_new (TopicId 3) 5]" "[9, 3, 5]"] by simp
qed

text \<open>
  The span a result reports is one the index channels found it by, with the most weight behind
  it, the earliest of those that tie; a topic only the graph found reports span 0.
\<close>

theorem fuse_span:
  assumes "r \<in> set (fuse f ranked)"
  shows "if span_votes f ranked (fr_topic r) = [] then fr_span r = 0
    else fr_span r \<in> fst ` set (span_votes f ranked (fr_topic r)) \<and>
      (\<forall>n\<in>fst ` set (span_votes f ranked (fr_topic r)).
         span_total (span_votes f ranked (fr_topic r)) n < span_total (span_votes f ranked (fr_topic r)) (fr_span r) \<or>
         span_total (span_votes f ranked (fr_topic r)) n = span_total (span_votes f ranked (fr_topic r)) (fr_span r) \<and> fr_span r \<le> n)"
proof -
  have s: "fr_span r = best_span (span_map (span_votes f ranked (fr_topic r)))"
    by (subst fuse_result [OF assms]) (simp add: result_for_def)
  show ?thesis
  proof (cases "span_votes f ranked (fr_topic r) = []")
    case True
    then show ?thesis using s by (simp add: span_map_def bt.alter_all_def best_span_def)
  next
    case False
    from best_span_spec [OF False] show ?thesis using False by (simp add: s)
  qed
qed

lemma fuse_span_witness:
  "\<exists>r\<in>set (fuse fusion_default sample_lists). fr_topic r = TopicId 4 \<and> fr_span r = 0"
proof -
  have "fusion_weight fusion_default Graph \<noteq> 0" by code_simp
  then have "TopicId 4 \<in> voted fusion_default sample_lists"
    by (auto simp: voted_def sample_lists_def results_topics_def scored_new_def)
  then have "TopicId 4 \<in> fr_topic ` set (fuse fusion_default sample_lists)" using fuse_topics(2) [of fusion_default sample_lists] by simp
  then obtain r where r: "r \<in> set (fuse fusion_default sample_lists)" "fr_topic r = TopicId 4" by auto
  have "span_votes fusion_default sample_lists (TopicId 4) = []" by code_simp
  then show ?thesis using fuse_span [OF r(1)] r by auto
qed

end
