(* ===== verification/Core_Cascade.thy ===== *)
theory Core_Cascade
  imports Core_Ids
begin

text \<open>
  The vocabulary of the cascade outbox (\<open>crates/core/src/cascade.rs\<close>): the kinds of derived
  work a write owes, their wire names and derived order, the retry bound and the backlog bound.
\<close>

datatype job_kind = SyncTopicIndex | DeriveMentions | BackfillMentions | OptimizeIndex

definition job_kinds :: "job_kind list" where
  "job_kinds = [SyncTopicIndex, DeriveMentions, BackfillMentions, OptimizeIndex]"

definition URGENT :: "job_kind list" where
  "URGENT = [SyncTopicIndex, DeriveMentions, BackfillMentions]"

definition MAINTENANCE :: "job_kind list" where
  "MAINTENANCE = [OptimizeIndex]"

fun job_kind_as_str :: "job_kind \<Rightarrow> string" where
  "job_kind_as_str SyncTopicIndex = ''sync_topic_index''"
| "job_kind_as_str DeriveMentions = ''derive_mentions''"
| "job_kind_as_str BackfillMentions = ''backfill_mentions''"
| "job_kind_as_str OptimizeIndex = ''optimize_index''"

definition job_kind_parse :: "string \<Rightarrow> job_kind option" where
  "job_kind_parse name = find (\<lambda>kind. job_kind_as_str kind = name) job_kinds"

fun job_kind_rank :: "job_kind \<Rightarrow> nat" where
  "job_kind_rank SyncTopicIndex = 0"
| "job_kind_rank DeriveMentions = 1"
| "job_kind_rank BackfillMentions = 2"
| "job_kind_rank OptimizeIndex = 3"

lemma job_kind_rank_inj: "job_kind_rank a = job_kind_rank b \<Longrightarrow> a = b"
  by (cases a; cases b) simp_all

text \<open>The derived \<open>Ord\<close>: the order of declaration.\<close>

instantiation job_kind :: linorder
begin

definition less_eq_job_kind :: "job_kind \<Rightarrow> job_kind \<Rightarrow> bool" where
  "less_eq_job_kind a b \<longleftrightarrow> job_kind_rank a \<le> job_kind_rank b"

definition less_job_kind :: "job_kind \<Rightarrow> job_kind \<Rightarrow> bool" where
  "less_job_kind a b \<longleftrightarrow> job_kind_rank a < job_kind_rank b"

instance
  by standard (auto simp: less_eq_job_kind_def less_job_kind_def intro: job_kind_rank_inj)

end

definition MAX_ATTEMPTS :: int where
  "MAX_ATTEMPTS = 8"

definition LAGGING_AT :: int where
  "LAGGING_AT = 10000"

definition may_defer :: "int \<Rightarrow> bool" where
  "may_defer pending \<longleftrightarrow> pending < LAGGING_AT"

lemma job_kinds_complete [simp]: "kind \<in> set job_kinds"
  by (cases kind) (simp_all add: job_kinds_def)

text \<open>The urgent kinds and the upkeep ones share no kind and leave none out.\<close>

lemma kinds_partition: "set URGENT \<inter> set MAINTENANCE = {}" "set URGENT \<union> set MAINTENANCE = set job_kinds"
  by (auto simp: URGENT_def MAINTENANCE_def job_kinds_def)

lemma job_kind_roundtrip: "job_kind_parse name = Some kind \<longleftrightarrow> name = job_kind_as_str kind"
proof
  assume "job_kind_parse name = Some kind"
  then show "name = job_kind_as_str kind" by (auto simp: job_kind_parse_def dest: find_SomeD)
next
  assume "name = job_kind_as_str kind"
  then show "job_kind_parse name = Some kind"
    by (cases kind) (simp_all add: job_kind_parse_def job_kinds_def)
qed

end
