(* ===== verification/Store_Jobs.thy ===== *)
theory Store_Jobs
  imports Core_Cascade Core_Ledger
begin

text \<open>
  The cascade outbox (\<open>crates/store/src/jobs.rs\<close>, table \<open>index_jobs\<close>).

  The table is a list of rows; a statement is a function of it. PostgreSQL promises no order of
  rows, so nothing here rests on the order and the step relation lets it change between
  statements. Every \<open>now_utc()\<close> is an argument \<open>now\<close>; the ids \<open>IndexJobId::new()\<close> mints are an
  argument; the rows another transaction has locked, which \<open>SKIP LOCKED\<close> passes over, are an
  argument of \<open>claim\<close>. A statement PostgreSQL refuses is \<open>None\<close> and leaves the table as it was.
  \<open>attempts\<close> is an \<open>i32\<close> that the invariant keeps between 0 and 8.
\<close>

type_synonym worker = string

definition LEASE :: int where
  "LEASE = 60 * 1000000"

definition RETRY_AFTER :: int where
  "RETRY_AFTER = 3600 * 1000000"

record job_row =
  jr_id :: job_id
  jr_project :: project_id
  jr_kind :: job_kind
  jr_subject :: "uuid option"
  jr_priority :: int
  jr_available_at :: instant
  jr_created_at :: instant
  jr_attempts :: int
  jr_claimed_at :: "instant option"
  jr_claimed_by :: "worker option"
  jr_last_error :: "string option"

type_synonym queue = "job_row list"

record job =
  j_id :: job_id
  j_project :: project_id
  j_kind :: job_kind
  j_subject :: "uuid option"
  j_attempts :: int
  j_claimed_at :: "instant option"

fun priority :: "job_kind \<Rightarrow> int" where
  "priority SyncTopicIndex = 10"
| "priority DeriveMentions = 20"
| "priority BackfillMentions = 50"
| "priority OptimizeIndex = 100"

definition row_to_job :: "job_row \<Rightarrow> job" where
  "row_to_job r = \<lparr>j_id = jr_id r, j_project = jr_project r, j_kind = jr_kind r,
     j_subject = jr_subject r, j_attempts = jr_attempts r, j_claimed_at = jr_claimed_at r\<rparr>"

section \<open>Queueing work\<close>

text \<open>The work a row asks for: the unique constraint of V12, which treats nulls as equal.\<close>

type_synonym work = "project_id \<times> job_kind \<times> uuid option"

definition work_of :: "job_row \<Rightarrow> work" where
  "work_of r = (jr_project r, jr_kind r, jr_subject r)"

definition queued_row :: "instant \<Rightarrow> project_id \<Rightarrow> uuid option \<Rightarrow> job_id \<times> job_kind \<Rightarrow> job_row" where
  "queued_row now project subject queued =
     \<lparr>jr_id = fst queued, jr_project = project, jr_kind = snd queued, jr_subject = subject,
      jr_priority = priority (snd queued), jr_available_at = now, jr_created_at = now,
      jr_attempts = 0, jr_claimed_at = None, jr_claimed_by = None, jr_last_error = None\<rparr>"

definition requested_again :: "instant \<Rightarrow> job_row \<Rightarrow> job_row" where
  "requested_again now r = r\<lparr>jr_available_at := now, jr_claimed_at := None, jr_claimed_by := None,
     jr_last_error := None, jr_attempts := 0\<rparr>"

definition upsert_job :: "instant \<Rightarrow> job_row \<Rightarrow> queue \<Rightarrow> queue option" where
  "upsert_job now new q =
     (if \<exists>r\<in>set q. work_of r = work_of new
      then Some (map (\<lambda>r. if work_of r = work_of new then requested_again now r else r) q)
      else if jr_id new \<in> jr_id ` set q then None
      else Some (q @ [new]))"

fun upsert_jobs :: "instant \<Rightarrow> job_row list \<Rightarrow> queue \<Rightarrow> queue option" where
  "upsert_jobs now [] q = Some q"
| "upsert_jobs now (new # rest) q =
     (case upsert_job now new q of None \<Rightarrow> None | Some q' \<Rightarrow> upsert_jobs now rest q')"

text \<open>One statement may not touch one row twice: a kind named twice is refused.\<close>

definition enqueue_all ::
  "instant \<Rightarrow> (nat \<Rightarrow> job_id) \<Rightarrow> project_id \<Rightarrow> job_kind list \<Rightarrow> uuid option \<Rightarrow> queue \<Rightarrow> queue option" where
  "enqueue_all now fresh project kinds subject q =
     (if kinds = [] then Some q
      else if \<not> distinct kinds then None
      else upsert_jobs now
             (map (queued_row now project subject) (zip (map fresh [0..<length kinds]) kinds)) q)"

definition enqueue ::
  "instant \<Rightarrow> (nat \<Rightarrow> job_id) \<Rightarrow> project_id \<Rightarrow> job_kind \<Rightarrow> uuid option \<Rightarrow> queue \<Rightarrow> queue option" where
  "enqueue now fresh project kind subject q = enqueue_all now fresh project [kind] subject q"

section \<open>Taking work\<close>

definition due :: "instant \<Rightarrow> project_id \<Rightarrow> job_kind list \<Rightarrow> job_row \<Rightarrow> bool" where
  "due now project kinds r \<longleftrightarrow>
     jr_project r = project \<and> jr_kind r \<in> set kinds \<and> jr_priority r \<in> set (map priority kinds) \<and>
     jr_available_at r \<le> now \<and> jr_attempts r < MAX_ATTEMPTS"

definition claim_order :: "job_row \<Rightarrow> job_row \<Rightarrow> bool" where
  "claim_order = lex_by (asc_by jr_priority) (asc_by jr_available_at)"

definition claim_ids ::
  "instant \<Rightarrow> project_id \<Rightarrow> nat \<Rightarrow> job_kind list \<Rightarrow> job_id set \<Rightarrow> queue \<Rightarrow> job_id list" where
  "claim_ids now project batch kinds locked q =
     map jr_id (take batch
       (sort_by claim_order (filter (\<lambda>r. due now project kinds r \<and> jr_id r \<notin> locked) q)))"

definition held_row :: "instant \<Rightarrow> worker \<Rightarrow> job_row \<Rightarrow> job_row" where
  "held_row now worker r = r\<lparr>jr_claimed_at := Some now, jr_claimed_by := Some worker,
     jr_attempts := jr_attempts r + 1, jr_available_at := now + LEASE\<rparr>"

definition claim ::
  "instant \<Rightarrow> project_id \<Rightarrow> worker \<Rightarrow> int \<Rightarrow> job_kind list \<Rightarrow> job_id set \<Rightarrow> queue
    \<Rightarrow> (queue \<times> job list) option" where
  "claim now project worker batch kinds locked q =
     (if batch < 0 then None
      else let ids = claim_ids now project (nat batch) kinds locked q in
        Some (map (\<lambda>r. if jr_id r \<in> set ids then held_row now worker r else r) q,
              map (row_to_job \<circ> held_row now worker) (filter (\<lambda>r. jr_id r \<in> set ids) q)))"

section \<open>Settling work\<close>

definition held_by_claim :: "job list \<Rightarrow> worker \<Rightarrow> job_row \<Rightarrow> bool" where
  "held_by_claim jobs worker r \<longleftrightarrow>
     jr_claimed_by r = Some worker \<and>
     (\<exists>j\<in>set jobs. jr_id r = j_id j \<and> j_claimed_at j \<noteq> None \<and> jr_claimed_at r = j_claimed_at j)"

definition complete :: "job list \<Rightarrow> worker \<Rightarrow> queue \<Rightarrow> queue \<times> job_id list" where
  "complete jobs worker q =
     (if jobs = [] then (q, [])
      else (filter (\<lambda>r. \<not> held_by_claim jobs worker r) q,
            map jr_id (filter (held_by_claim jobs worker) q)))"

definition fail :: "instant \<Rightarrow> job \<Rightarrow> worker \<Rightarrow> string \<Rightarrow> queue \<Rightarrow> queue" where
  "fail now job worker error q =
     (let exhausted = MAX_ATTEMPTS \<le> j_attempts job;
          retry_at = now + RETRY_AFTER
      in map (\<lambda>r. if jr_id r = j_id job \<and> jr_claimed_by r = Some worker
           then r\<lparr>jr_last_error := Some error, jr_claimed_at := None, jr_claimed_by := None,
                  jr_available_at := (if exhausted then jr_available_at r else retry_at)\<rparr>
           else r) q)"

section \<open>Reading the queue\<close>

definition pending :: "project_id \<Rightarrow> queue \<Rightarrow> int" where
  "pending project q = int (length (filter (\<lambda>r. jr_project r = project) q))"

definition pending_up_to :: "project_id \<Rightarrow> int \<Rightarrow> queue \<Rightarrow> int" where
  "pending_up_to project cap q =
     int (length (take (nat (max cap 0)) (filter (\<lambda>r. jr_project r = project) q)))"

definition any_in_flight :: "instant \<Rightarrow> project_id \<Rightarrow> queue \<Rightarrow> bool" where
  "any_in_flight now project q \<longleftrightarrow>
     (\<exists>r\<in>set q. jr_project r = project \<and>
        (jr_claimed_at r \<noteq> None \<and> now < jr_available_at r \<or>
         jr_attempts r < MAX_ATTEMPTS \<and> (jr_claimed_at r \<noteq> None \<or> jr_available_at r \<le> now)))"

record owing_row =
  ow_project :: project_id
  ow_name :: string
  ow_never_failed :: bool


text \<open>
  \<open>owing\<close> lists projects in name order. The collation that orders names is PostgreSQL's, so
  the order is an argument.
\<close>

definition owing ::
  "(string \<Rightarrow> string \<Rightarrow> bool) \<Rightarrow> (project_id \<times> string) list \<Rightarrow> instant \<Rightarrow> job_kind list \<Rightarrow> queue
    \<Rightarrow> owing_row list" where
  "owing name_le projects now kinds q =
     map (\<lambda>(project, name).
            \<lparr>ow_project = project, ow_name = name,
             ow_never_failed = (\<exists>r\<in>set q. due now project kinds r \<and> jr_last_error r = None)\<rparr>)
       (filter (\<lambda>(project, name). \<exists>r\<in>set q. due now project kinds r)
         (sort_by (\<lambda>a b. name_le (snd a) (snd b)) projects))"

definition is_exhausted :: "project_id \<Rightarrow> job_row \<Rightarrow> bool" where
  "is_exhausted project r \<longleftrightarrow> jr_project r = project \<and> MAX_ATTEMPTS \<le> jr_attempts r"

definition exhausted :: "project_id \<Rightarrow> queue \<Rightarrow> (job \<times> string) list" where
  "exhausted project q =
     map (\<lambda>r. (row_to_job r, case jr_last_error r of None \<Rightarrow> '''' | Some e \<Rightarrow> e))
       (sort_by claim_order (filter (is_exhausted project) q))"

section \<open>What a person does about work that ran out of attempts\<close>

definition replay :: "instant \<Rightarrow> project_id \<Rightarrow> queue \<Rightarrow> queue \<times> nat" where
  "replay now project q =
     (map (\<lambda>r. if is_exhausted project r
           then r\<lparr>jr_attempts := 0, jr_available_at := now, jr_claimed_at := None, jr_claimed_by := None\<rparr>
           else r) q,
      length (filter (is_exhausted project) q))"

definition discard :: "project_id \<Rightarrow> queue \<Rightarrow> queue \<times> nat" where
  "discard project q =
     (filter (\<lambda>r. \<not> is_exhausted project r) q, length (filter (is_exhausted project) q))"

section \<open>The queue as a state machine\<close>

datatype queue_op =
    Enqueue instant "nat \<Rightarrow> job_id" project_id "job_kind list" "uuid option"
  | Claim instant project_id worker int "job_kind list" "job_id set"
  | Complete "job list" worker
  | Fail instant job worker string
  | Replay instant project_id
  | Discard project_id

text \<open>A refused statement leaves the table as it was.\<close>

fun exec_op :: "queue_op \<Rightarrow> queue \<Rightarrow> queue" where
  "exec_op (Enqueue now fresh project kinds subject) q =
     (case enqueue_all now fresh project kinds subject q of None \<Rightarrow> q | Some q' \<Rightarrow> q')"
| "exec_op (Claim now project worker batch kinds locked) q =
     (case claim now project worker batch kinds locked q of None \<Rightarrow> q | Some (q', _) \<Rightarrow> q')"
| "exec_op (Complete jobs worker) q = fst (complete jobs worker q)"
| "exec_op (Fail now job worker error) q = fail now job worker error q"
| "exec_op (Replay now project) q = fst (replay now project q)"
| "exec_op (Discard project) q = fst (discard project q)"

inductive queue_step :: "queue \<Rightarrow> queue \<Rightarrow> bool" where
  op: "q' = exec_op x q \<Longrightarrow> queue_step q q'"
| reorder: "mset q' = mset q \<Longrightarrow> queue_step q q'"

inductive reachable_queue :: "queue \<Rightarrow> bool" where
  empty: "reachable_queue []"
| step: "reachable_queue q \<Longrightarrow> queue_step q q' \<Longrightarrow> reachable_queue q'"

section \<open>Properties\<close>

lemma row_updates_keep [simp]:
  "jr_id (requested_again now r) = jr_id r" "work_of (requested_again now r) = work_of r"
  "jr_id (held_row now w r) = jr_id r" "work_of (held_row now w r) = work_of r"
  by (simp_all add: requested_again_def held_row_def work_of_def)

lemma queued_row_id [simp]: "jr_id (queued_row now project subject (i, kind)) = i"
  and queued_row_work [simp]: "work_of (queued_row now project subject (i, kind)) = (project, kind, subject)"
  by (simp_all add: queued_row_def work_of_def)

subsection \<open>The invariant\<close>

definition row_ok :: "job_row \<Rightarrow> bool" where
  "row_ok r \<longleftrightarrow> jr_priority r = priority (jr_kind r) \<and> 0 \<le> jr_attempts r \<and> jr_attempts r \<le> MAX_ATTEMPTS \<and>
     (jr_claimed_at r = None \<longleftrightarrow> jr_claimed_by r = None) \<and> (jr_claimed_at r \<noteq> None \<longrightarrow> 1 \<le> jr_attempts r)"

definition queue_ok :: "queue \<Rightarrow> bool" where
  "queue_ok q \<longleftrightarrow> distinct (map jr_id q) \<and> distinct (map work_of q) \<and> (\<forall>r\<in>set q. row_ok r)"

lemma queue_ok_map:
  assumes "queue_ok q" and "\<And>r. jr_id (f r) = jr_id r" and "\<And>r. work_of (f r) = work_of r"
    and "\<And>r. r \<in> set q \<Longrightarrow> row_ok r \<Longrightarrow> row_ok (f r)"
  shows "queue_ok (map f q)"
  using assms by (auto simp: queue_ok_def comp_def)

lemma queue_ok_filter: "queue_ok q \<Longrightarrow> queue_ok (filter P q)"
  by (auto simp: queue_ok_def distinct_map_filter)

lemma queue_ok_append:
  "queue_ok q \<Longrightarrow> row_ok r \<Longrightarrow> jr_id r \<notin> jr_id ` set q \<Longrightarrow> work_of r \<notin> work_of ` set q
    \<Longrightarrow> queue_ok (q @ [r])"
  by (auto simp: queue_ok_def)

lemma queued_row_ok: "row_ok (queued_row now project subject x)"
  by (simp add: row_ok_def queued_row_def MAX_ATTEMPTS_def)

lemma requested_again_ok: "row_ok r \<Longrightarrow> row_ok (requested_again now r)"
  by (simp add: row_ok_def requested_again_def)

lemma upsert_job_ok:
  assumes "queue_ok q" and "row_ok new" and "upsert_job now new q = Some q'"
  shows "queue_ok q'"
proof (cases "\<exists>r\<in>set q. work_of r = work_of new")
  case True
  with assms show ?thesis
    by (auto simp: upsert_job_def intro!: queue_ok_map requested_again_ok)
next
  case False
  with assms show ?thesis
    by (auto simp: upsert_job_def intro!: queue_ok_append split: if_splits)
qed

lemma upsert_jobs_ok:
  "queue_ok q \<Longrightarrow> \<forall>new\<in>set news. row_ok new \<Longrightarrow> upsert_jobs now news q = Some q' \<Longrightarrow> queue_ok q'"
proof (induction news arbitrary: q)
  case (Cons new news)
  then show ?case by (auto split: option.splits intro: upsert_job_ok)
qed simp

lemma enqueue_all_ok:
  "queue_ok q \<Longrightarrow> enqueue_all now fresh project kinds subject q = Some q' \<Longrightarrow> queue_ok q'"
  by (auto simp: enqueue_all_def queued_row_ok split: if_splits elim!: upsert_jobs_ok [rotated 2])

lemma claim_order_preorder: "preorder_by claim_order"
  unfolding claim_order_def by (intro preorder_lex_by preorder_asc_by)

interpretation queue_order: preorder_by claim_order
  by (rule claim_order_preorder)

lemma claim_ids_due:
  assumes "queue_ok q" and "r \<in> set q" and "jr_id r \<in> set (claim_ids now project n kinds locked q)"
  shows "due now project kinds r \<and> jr_id r \<notin> locked"
proof -
  from assms(3) obtain r' where r': "r' \<in> set q" "jr_id r' = jr_id r" "due now project kinds r'" "jr_id r' \<notin> locked"
    by (auto simp: claim_ids_def dest!: set_take_in)
  with assms(1,2) have "r' = r" by (auto simp: queue_ok_def distinct_map dest: inj_onD)
  with r' show ?thesis by simp
qed

lemma held_row_ok: "row_ok r \<Longrightarrow> due t project kinds r \<Longrightarrow> row_ok (held_row now w r)"
  by (auto simp: row_ok_def held_row_def due_def)

lemma claim_SomeD:
  "claim now project worker batch kinds locked q = Some (q', jobs) \<Longrightarrow>
    0 \<le> batch \<and>
    q' = map (\<lambda>r. if jr_id r \<in> set (claim_ids now project (nat batch) kinds locked q)
               then held_row now worker r else r) q \<and>
    jobs = map (row_to_job \<circ> held_row now worker)
             (filter (\<lambda>r. jr_id r \<in> set (claim_ids now project (nat batch) kinds locked q)) q)"
  by (auto simp: claim_def Let_def split: if_splits)

lemma claim_ok:
  assumes "queue_ok q" and "claim now project worker batch kinds locked q = Some (q', jobs)"
  shows "queue_ok q'"
proof -
  let ?ids = "claim_ids now project (nat batch) kinds locked q"
  have q': "q' = map (\<lambda>r. if jr_id r \<in> set ?ids then held_row now worker r else r) q"
    using claim_SomeD [OF assms(2)] by simp
  show ?thesis unfolding q'
    using assms(1)
    by (intro queue_ok_map) (auto intro: held_row_ok dest: claim_ids_due [OF assms(1)])
qed

lemma complete_ok: "queue_ok q \<Longrightarrow> queue_ok (fst (complete jobs worker q))"
  by (simp add: complete_def queue_ok_filter)

lemma fail_ok: "queue_ok q \<Longrightarrow> queue_ok (fail now j w e q)"
  unfolding fail_def Let_def by (intro queue_ok_map) (auto simp: row_ok_def work_of_def)

lemma replay_ok: "queue_ok q \<Longrightarrow> queue_ok (fst (replay now project q))"
  unfolding replay_def fst_conv
  by (intro queue_ok_map) (auto simp: row_ok_def work_of_def MAX_ATTEMPTS_def)

lemma discard_ok: "queue_ok q \<Longrightarrow> queue_ok (fst (discard project q))"
  by (simp add: discard_def queue_ok_filter)

lemma exec_op_ok: "queue_ok q \<Longrightarrow> queue_ok (exec_op x q)"
  by (cases x) (auto simp: complete_ok fail_ok replay_ok discard_ok
      split: option.splits prod.splits intro: enqueue_all_ok claim_ok)

lemma queue_ok_mset: "mset q' = mset q \<Longrightarrow> queue_ok q \<Longrightarrow> queue_ok q'"
  unfolding queue_ok_def by (metis mset_eq_imp_distinct_iff mset_map set_mset_mset)

lemma queue_step_ok: "queue_step q q' \<Longrightarrow> queue_ok q \<Longrightarrow> queue_ok q'"
  by (induction rule: queue_step.induct) (auto intro: exec_op_ok queue_ok_mset)

lemma reachable_queue_okI: "reachable_queue q \<Longrightarrow> queue_ok q"
  by (induction rule: reachable_queue.induct) (auto simp: queue_ok_def [of "[]"] intro: queue_step_ok)

subsection \<open>Requests coalesce\<close>

definition fresh_request :: "instant \<Rightarrow> job_row \<Rightarrow> bool" where
  "fresh_request now r \<longleftrightarrow> jr_available_at r = now \<and> jr_attempts r = 0 \<and> jr_claimed_at r = None \<and>
     jr_claimed_by r = None \<and> jr_last_error r = None"

lemma requested_again_fresh [simp]: "fresh_request now (requested_again now r)"
  by (simp add: fresh_request_def requested_again_def)

lemma upsert_job_spec:
  assumes "jr_id new \<notin> jr_id ` set q" and "fresh_request now new"
  shows "\<exists>q'. upsert_job now new q = Some q' \<and> work_of ` set q' = insert (work_of new) (work_of ` set q) \<and>
    jr_id ` set q' \<subseteq> insert (jr_id new) (jr_id ` set q) \<and>
    (\<forall>r\<in>set q'. if work_of r = work_of new then fresh_request now r else r \<in> set q)"
proof (cases "\<exists>r\<in>set q. work_of r = work_of new")
  case True
  let ?f = "\<lambda>r. if work_of r = work_of new then requested_again now r else r"
  have w: "work_of (?f r) = work_of r" and i: "jr_id (?f r) = jr_id r" for r by simp_all
  have "work_of ` set (map ?f q) = work_of ` set q" by (simp only: set_map image_image w)
  moreover have "jr_id ` set (map ?f q) = jr_id ` set q" by (simp only: set_map image_image i)
  moreover have "\<forall>r\<in>set (map ?f q). if work_of r = work_of new then fresh_request now r else r \<in> set q"
    by auto
  moreover have "upsert_job now new q = Some (map ?f q)" using True by (simp add: upsert_job_def)
  moreover have "insert (work_of new) (work_of ` set q) = work_of ` set q" using True by (metis image_eqI insert_absorb)
  ultimately show ?thesis by (intro exI [of _ "map ?f q"] conjI) (simp_all only: subset_insertI)
next
  case False
  then have "upsert_job now new q = Some (q @ [new])" using assms(1) by (simp add: upsert_job_def)
  then show ?thesis using False assms(2) by (intro exI [of _ "q @ [new]"]) auto
qed

lemma disjoint_step: "A \<subseteq> insert x B \<Longrightarrow> x \<notin> C \<Longrightarrow> C \<inter> B = {} \<Longrightarrow> C \<inter> A = {}"
  by blast

lemma upsert_jobs_spec:
  assumes "distinct (map jr_id news)" and "jr_id ` set news \<inter> jr_id ` set q = {}"
    and "distinct (map work_of news)" and "\<forall>new\<in>set news. fresh_request now new"
  shows "\<exists>q'. upsert_jobs now news q = Some q' \<and> work_of ` set q' = work_of ` set news \<union> work_of ` set q \<and>
    (\<forall>r\<in>set q'. if work_of r \<in> work_of ` set news then fresh_request now r else r \<in> set q)"
  using assms
proof (induction news arbitrary: q)
  case (Cons new news)
  have "jr_id new \<notin> jr_id ` set q" "fresh_request now new" using Cons.prems by auto
  from upsert_job_spec [OF this] obtain q1 where q1: "upsert_job now new q = Some q1"
    "work_of ` set q1 = insert (work_of new) (work_of ` set q)"
    "jr_id ` set q1 \<subseteq> insert (jr_id new) (jr_id ` set q)"
    "\<forall>r\<in>set q1. if work_of r = work_of new then fresh_request now r else r \<in> set q" by (elim exE conjE)
  have disj: "jr_id ` set news \<inter> jr_id ` set q1 = {}" using q1(3) Cons.prems(1,2)
    by (intro disjoint_step [OF q1(3)]) auto
  have "distinct (map jr_id news)" "jr_id ` set news \<inter> jr_id ` set q1 = {}" "distinct (map work_of news)"
    "\<forall>new\<in>set news. fresh_request now new"
    using Cons.prems disj by auto
  from Cons.IH [OF this] obtain q' where q': "upsert_jobs now news q1 = Some q'"
    "work_of ` set q' = work_of ` set news \<union> work_of ` set q1"
    "\<forall>r\<in>set q'. if work_of r \<in> work_of ` set news then fresh_request now r else r \<in> set q1"
    by (elim exE conjE)
  have new: "if work_of r \<in> work_of ` set (new # news) then fresh_request now r else r \<in> set q"
    if "r \<in> set q'" for r
    using bspec [OF q'(3) that] q1(4) by (auto split: if_splits)
  have works: "work_of ` set q' = work_of ` set (new # news) \<union> work_of ` set q"
    unfolding q'(2) q1(2) by auto
  show ?case
    by (intro exI [of _ q'] conjI ballI new works) (simp_all add: q1(1) q'(1))
qed simp

lemma enqueue_all_spec:
  assumes "queue_ok q" and "distinct kinds" and "inj_on fresh {..<length kinds}"
    and "fresh ` {..<length kinds} \<inter> jr_id ` set q = {}"
  shows "\<exists>q'. enqueue_all now fresh project kinds subject q = Some q' \<and> queue_ok q' \<and>
    work_of ` set q' = (\<lambda>kind. (project, kind, subject)) ` set kinds \<union> work_of ` set q \<and>
    (\<forall>r\<in>set q'. if work_of r \<in> (\<lambda>kind. (project, kind, subject)) ` set kinds
       then fresh_request now r else r \<in> set q)"
proof (cases "kinds = []")
  case False
  let ?news = "map (queued_row now project subject) (zip (map fresh [0..<length kinds]) kinds)"
  have ids: "map jr_id ?news = map fresh [0..<length kinds]"
    by (rule nth_equalityI) (simp_all add: queued_row_def)
  have works: "map work_of ?news = map (\<lambda>kind. (project, kind, subject)) kinds"
    by (rule nth_equalityI) (simp_all add: queued_row_def work_of_def)
  have set_works: "work_of ` set ?news = (\<lambda>kind. (project, kind, subject)) ` set kinds"
    using arg_cong [OF works, of set] by (simp only: set_map)
  have 1: "distinct (map jr_id ?news)" unfolding ids using assms(3) by (simp add: distinct_map lessThan_atLeast0)
  have "jr_id ` set ?news = fresh ` {..<length kinds}"
    using arg_cong [OF ids, of set] by (simp only: set_map set_upt lessThan_atLeast0)
  then have 2: "jr_id ` set ?news \<inter> jr_id ` set q = {}" using assms(4) by simp
  have 3: "distinct (map work_of ?news)" unfolding works using assms(2) by (simp add: distinct_map inj_on_def)
  have 4: "\<forall>new\<in>set ?news. fresh_request now new" by (auto simp: fresh_request_def queued_row_def)
  from upsert_jobs_spec [OF 1 2 3 4] obtain q' where q': "upsert_jobs now ?news q = Some q'"
    "work_of ` set q' = work_of ` set ?news \<union> work_of ` set q"
    "\<forall>r\<in>set q'. if work_of r \<in> work_of ` set ?news then fresh_request now r else r \<in> set q"
    by (elim exE conjE)
  have e: "enqueue_all now fresh project kinds subject q = Some q'"
    using False assms(2) q'(1) by (simp add: enqueue_all_def)
  show ?thesis
    by (intro exI [of _ q'] conjI e enqueue_all_ok [OF assms(1) e] q'(2,3) [unfolded set_works])
qed (use assms in \<open>simp add: enqueue_all_def\<close>)

subsection \<open>What a claim takes\<close>

lemma mset_map_if:
  "mset (map (\<lambda>x. if P x then f x else x) xs) = mset (map f (filter P xs)) + mset (filter (\<lambda>x. \<not> P x) xs)"
  by (induction xs) auto

lemma mset_split_filter: "mset (filter P xs) + mset (filter (\<lambda>x. \<not> P x) xs) = mset xs"
  by (induction xs) auto

lemma claim_rows:
  assumes "queue_ok q"
  shows "mset (filter (\<lambda>r. jr_id r \<in> set (claim_ids now project n kinds locked q)) q)
    = mset (take n (sort_by claim_order (filter (\<lambda>r. due now project kinds r \<and> jr_id r \<notin> locked) q)))"
proof -
  let ?taken = "take n (sort_by claim_order (filter (\<lambda>r. due now project kinds r \<and> jr_id r \<notin> locked) q))"
  have d: "distinct q" using assms by (auto simp: queue_ok_def distinct_map)
  have "set ?taken \<subseteq> set q" by (auto dest!: set_take_in)
  then have "set (filter (\<lambda>r. jr_id r \<in> set (claim_ids now project n kinds locked q)) q) = set ?taken"
    using assms unfolding claim_ids_def queue_ok_def distinct_map by (auto dest: inj_onD)
  with d show ?thesis by (subst set_eq_iff_mset_eq_distinct [symmetric]) simp_all
qed

lemma claim_spec:
  assumes "queue_ok q" and "claim now project worker batch kinds locked q = Some (q', jobs)"
  shows "\<exists>taken left rest.
    mset q = mset taken + mset left + mset rest \<and>
    mset taken + mset left = mset (filter (\<lambda>r. due now project kinds r \<and> jr_id r \<notin> locked) q) \<and>
    length taken = min (nat batch) (length taken + length left) \<and>
    (\<forall>a\<in>set taken. \<forall>b\<in>set left. claim_order a b) \<and>
    mset q' = mset (map (held_row now worker) taken) + mset left + mset rest \<and>
    mset jobs = mset (map (row_to_job \<circ> held_row now worker) taken)"
proof -
  let ?due = "\<lambda>r. due now project kinds r \<and> jr_id r \<notin> locked"
  let ?S = "sort_by claim_order (filter ?due q)"
  let ?taken = "take (nat batch) ?S" and ?left = "drop (nat batch) ?S" and ?rest = "filter (\<lambda>r. \<not> ?due r) q"
  let ?P = "\<lambda>r. jr_id r \<in> set (claim_ids now project (nat batch) kinds locked q)"
  note c = claim_SomeD [OF assms(2)]
  have S: "mset ?taken + mset ?left = mset (filter ?due q)"
    by (metis append_take_drop_id mset_append mset_sort_by)
  have q: "mset q = mset ?taken + mset ?left + mset ?rest"
    unfolding S by (rule mset_split_filter [symmetric])
  have taken: "mset (filter ?P q) = mset ?taken" by (rule claim_rows [OF assms(1)])
  have "mset (filter ?P q) + mset (filter (\<lambda>r. \<not> ?P r) q) = mset q"
    by (rule mset_split_filter)
  then have other: "mset (filter (\<lambda>r. \<not> ?P r) q) = mset ?left + mset ?rest"
    unfolding taken q by (simp add: add.assoc)
  have "mset q' = mset (map (held_row now worker) (filter ?P q)) + mset (filter (\<lambda>r. \<not> ?P r) q)"
    using c mset_map_if [of ?P "held_row now worker" q] by simp
  then have q': "mset q' = mset (map (held_row now worker) ?taken) + mset ?left + mset ?rest"
    unfolding other by (simp only: mset_map taken add.assoc)
  have jobs: "mset jobs = mset (map (row_to_job \<circ> held_row now worker) ?taken)"
    using c by (simp only: mset_map taken)
  show ?thesis
    by (rule exI [of _ ?taken], rule exI [of _ ?left], rule exI [of _ ?rest], intro conjI q S q' jobs ballI)
      (auto simp: min_def intro: queue_order.take_sort_by_le)
qed

lemma claim_jobsD:
  assumes "queue_ok q" and "claim now project worker batch kinds locked q = Some (q', jobs)" and "j \<in> set jobs"
  shows "\<exists>r\<in>set q. due now project kinds r \<and> jr_id r \<notin> locked \<and> j = row_to_job (held_row now worker r) \<and>
     held_row now worker r \<in> set q'"
proof -
  note c = claim_SomeD [OF assms(2)]
  from c assms(3) obtain r where r: "r \<in> set q" "jr_id r \<in> set (claim_ids now project (nat batch) kinds locked q)"
    "j = row_to_job (held_row now worker r)" by auto
  moreover have "held_row now worker r \<in> set q'" using c r(1,2) by force
  ultimately show ?thesis using claim_ids_due [OF assms(1)] by blast
qed

subsection \<open>Runs of operations\<close>

definition run_ops :: "queue_op list \<Rightarrow> queue \<Rightarrow> queue" where
  "run_ops ops q = fold exec_op ops q"

lemma run_ops_simps [simp]: "run_ops [] q = q" "run_ops (x # ops) q = run_ops ops (exec_op x q)"
  by (simp_all add: run_ops_def)

lemma run_ops_ok: "queue_ok q \<Longrightarrow> queue_ok (run_ops ops q)"
  by (induction ops arbitrary: q) (simp_all add: exec_op_ok)

lemma run_ops_invariant:
  assumes "\<And>x q. x \<in> set ops \<Longrightarrow> \<forall>r\<in>set q. P r \<Longrightarrow> \<forall>r\<in>set (exec_op x q). P r" and "\<forall>r\<in>set q. P r"
  shows "\<forall>r\<in>set (run_ops ops q). P r"
  using assms
proof (induction ops arbitrary: q)
  case (Cons x ops)
  have "\<forall>r\<in>set (exec_op x q). P r" using Cons.prems(1) [OF list.set_intros(1) Cons.prems(2)] .
  moreover have "\<forall>r\<in>set (exec_op y q0). P r" if "y \<in> set ops" "\<forall>r\<in>set q0. P r" for y q0
    by (rule Cons.prems(1) [OF list.set_intros(2) [OF that(1)] that(2)])
  ultimately show ?case unfolding run_ops_simps by (intro Cons.IH)
qed simp

text \<open>What a row of the table after an operation was before it.\<close>

lemma upsert_job_rows:
  "upsert_job now new q = Some q' \<Longrightarrow> fresh_request now new \<Longrightarrow> r \<in> set q' \<Longrightarrow>
    fresh_request now r \<and> work_of r = work_of new \<and>
      (jr_id r = jr_id new \<or> (\<exists>r0\<in>set q. jr_id r0 = jr_id r \<and> work_of r0 = work_of r))
    \<or> r \<in> set q \<and> work_of r \<noteq> work_of new"
  by (auto simp: upsert_job_def split: if_splits)

lemma upsert_jobs_rows:
  "upsert_jobs now news q = Some q' \<Longrightarrow> \<forall>new\<in>set news. fresh_request now new \<Longrightarrow> r \<in> set q' \<Longrightarrow>
    fresh_request now r \<and> work_of r \<in> work_of ` set news \<and>
      (jr_id r \<in> jr_id ` set news \<or> (\<exists>r0\<in>set q. jr_id r0 = jr_id r \<and> work_of r0 = work_of r))
    \<or> r \<in> set q \<and> work_of r \<notin> work_of ` set news"
proof (induction news arbitrary: q)
  case (Cons new news)
  then obtain q1 where q1: "upsert_job now new q = Some q1" "upsert_jobs now news q1 = Some q'"
    by (auto split: option.splits)
  have new: "fresh_request now new" using Cons.prems(2) by simp
  note first = upsert_job_rows [OF q1(1) new]
  from Cons.IH [OF q1(2)] Cons.prems have
    "fresh_request now r \<and> work_of r \<in> work_of ` set news \<and>
      (jr_id r \<in> jr_id ` set news \<or> (\<exists>r0\<in>set q1. jr_id r0 = jr_id r \<and> work_of r0 = work_of r))
     \<or> r \<in> set q1 \<and> work_of r \<notin> work_of ` set news" by simp
  then show ?case
  proof
    assume "r \<in> set q1 \<and> work_of r \<notin> work_of ` set news"
    with first [of r] show ?case by auto
  next
    assume later: "fresh_request now r \<and> work_of r \<in> work_of ` set news \<and>
      (jr_id r \<in> jr_id ` set news \<or> (\<exists>r0\<in>set q1. jr_id r0 = jr_id r \<and> work_of r0 = work_of r))"
    then have "jr_id r \<in> jr_id ` set (new # news) \<or> (\<exists>r0\<in>set q. jr_id r0 = jr_id r \<and> work_of r0 = work_of r)"
      using first by (auto simp: image_iff) metis
    with later show ?case by auto
  qed
qed simp

lemma enqueue_all_rows:
  assumes "enqueue_all now fresh project kinds subject q = Some q'" and "r \<in> set q'"
  shows "fresh_request now r \<and> (\<exists>kind\<in>set kinds. work_of r = (project, kind, subject)) \<and>
      ((\<exists>n<length kinds. jr_id r = fresh n) \<or> (\<exists>r0\<in>set q. jr_id r0 = jr_id r \<and> work_of r0 = work_of r))
    \<or> r \<in> set q \<and> \<not> (\<exists>kind\<in>set kinds. work_of r = (project, kind, subject))"
proof (cases "kinds = []")
  case False
  let ?news = "map (queued_row now project subject) (zip (map fresh [0..<length kinds]) kinds)"
  have u: "upsert_jobs now ?news q = Some q'" using assms(1) False by (auto simp: enqueue_all_def split: if_splits)
  have f: "\<forall>new\<in>set ?news. fresh_request now new" by (auto simp: fresh_request_def queued_row_def)
  have ids: "map jr_id ?news = map fresh [0..<length kinds]"
    by (rule nth_equalityI) (simp_all add: queued_row_def)
  have works: "map work_of ?news = map (\<lambda>kind. (project, kind, subject)) kinds"
    by (rule nth_equalityI) (simp_all add: queued_row_def work_of_def)
  have i: "jr_id ` set ?news = fresh ` {..<length kinds}"
    using arg_cong [OF ids, of set] by (simp only: set_map set_upt lessThan_atLeast0)
  have w: "work_of ` set ?news = (\<lambda>kind. (project, kind, subject)) ` set kinds"
    using arg_cong [OF works, of set] by (simp only: set_map)
  show ?thesis using upsert_jobs_rows [OF u f assms(2)] unfolding i w by (auto simp: image_iff)
qed (use assms in \<open>simp add: enqueue_all_def\<close>)

lemma claim_rowsD:
  assumes "claim now project worker batch kinds locked q = Some (q', jobs)" and "r \<in> set q'"
  shows "r \<in> set q \<and> jr_id r \<notin> j_id ` set jobs
    \<or> (\<exists>r0\<in>set q. r = held_row now worker r0 \<and> jr_id r0 \<in> set (claim_ids now project (nat batch) kinds locked q))"
  using claim_SomeD [OF assms(1)] assms(2) by (auto simp: row_to_job_def split: if_splits)

lemma fail_rows:
  "r \<in> set (fail now j w e q) \<Longrightarrow> r \<in> set q \<or>
    (\<exists>r0\<in>set q. jr_id r0 = j_id j \<and> jr_claimed_by r0 = Some w \<and>
      r = r0\<lparr>jr_last_error := Some e, jr_claimed_at := None, jr_claimed_by := None,
             jr_available_at := (if MAX_ATTEMPTS \<le> j_attempts j then jr_available_at r0 else now + RETRY_AFTER)\<rparr>)"
  by (auto simp: fail_def Let_def split: if_splits)

lemma replay_rows:
  "r \<in> set (fst (replay now project q)) \<Longrightarrow> r \<in> set q \<and> \<not> is_exhausted project r \<or>
    (\<exists>r0\<in>set q. is_exhausted project r0 \<and> r = r0\<lparr>jr_attempts := 0, jr_available_at := now,
        jr_claimed_at := None, jr_claimed_by := None\<rparr>)"
  by (auto simp: replay_def split: if_splits)

lemma complete_rows: "r \<in> set (fst (complete jobs w q)) \<Longrightarrow> r \<in> set q"
  by (auto simp: complete_def split: if_splits)

lemma discard_rows: "r \<in> set (fst (discard project q)) \<Longrightarrow> r \<in> set q"
  by (auto simp: discard_def)

lemmas row_cases = claim_rowsD fail_rows replay_rows complete_rows discard_rows enqueue_all_rows

subsection \<open>A stale attempt settles nothing\<close>

fun claims_at :: "instant \<Rightarrow> worker \<Rightarrow> queue_op \<Rightarrow> bool" where
  "claims_at t w (Claim now project worker batch kinds locked) \<longleftrightarrow> now = t \<and> worker = w"
| "claims_at t w _ \<longleftrightarrow> False"

definition not_held_as :: "job_id \<Rightarrow> instant \<Rightarrow> worker \<Rightarrow> job_row \<Rightarrow> bool" where
  "not_held_as i t w r \<longleftrightarrow> jr_id r = i \<longrightarrow> \<not> (jr_claimed_at r = Some t \<and> jr_claimed_by r = Some w)"

lemma exec_op_not_held:
  assumes "\<forall>r\<in>set q. not_held_as i t w r" and "\<not> claims_at t w x"
  shows "\<forall>r\<in>set (exec_op x q). not_held_as i t w r"
proof (cases x)
  case (Enqueue now fresh project kinds subject)
  then show ?thesis
    using assms(1) enqueue_all_rows [of now fresh project kinds subject q]
    by (fastforce simp: not_held_as_def fresh_request_def split: option.splits)
next
  case (Claim now project worker batch kinds locked)
  show ?thesis
  proof (cases "claim now project worker batch kinds locked q")
    case (Some p)
    obtain q' jobs where p: "p = (q', jobs)" by (cases p)
    show ?thesis using assms Claim Some p claim_rowsD [OF Some [unfolded p]]
      by (fastforce simp: not_held_as_def held_row_def)
  qed (use assms Claim in simp)
next
  case (Fail now j worker e)
  then show ?thesis using assms(1) fail_rows [of _ now j worker e q] by (fastforce simp: not_held_as_def)
next
  case (Replay now project)
  then show ?thesis using assms(1) replay_rows [of _ now project q] by (fastforce simp: not_held_as_def)
next
  case (Complete jobs worker)
  then show ?thesis using assms(1) complete_rows by auto
next
  case (Discard project)
  then show ?thesis using assms(1) discard_rows by auto
qed

lemma stale_completion_settles_nothing:
  assumes "queue_ok q" and "r \<in> set q" and "jr_id r = j_id j" and "work_of r = (project, kind, subject)"
    and "j_claimed_at j = Some t"
    and "enqueue_all now fresh project kinds subject q = Some q1" and "kind \<in> set kinds"
    and "\<forall>x\<in>set ops. \<not> claims_at t w x"
  shows "j_id j \<notin> set (snd (complete [j] w (run_ops ops q1)))"
proof -
  have "\<forall>r\<in>set q1. not_held_as (j_id j) t w r"
  proof
    fix r' assume r': "r' \<in> set q1"
    from enqueue_all_rows [OF assms(6) r'] show "not_held_as (j_id j) t w r'"
    proof
      assume r'': "r' \<in> set q \<and> \<not> (\<exists>kind\<in>set kinds. work_of r' = (project, kind, subject))"
      then have "jr_id r' \<noteq> j_id j"
        using assms(1-4,7) by (metis queue_ok_def distinct_map inj_onD)
      then show ?thesis by (simp add: not_held_as_def)
    qed (simp add: not_held_as_def fresh_request_def)
  qed
  then have "\<forall>r\<in>set (run_ops ops q1). not_held_as (j_id j) t w r"
    using assms(8) by (intro run_ops_invariant exec_op_not_held) auto
  then show ?thesis
    using assms(5) by (auto simp: complete_def held_by_claim_def not_held_as_def split: if_splits)
qed

subsection \<open>A running lease is exclusive\<close>

fun requests_work :: "work \<Rightarrow> queue_op \<Rightarrow> bool" where
  "requests_work k (Enqueue now fresh project kinds subject) \<longleftrightarrow> (\<exists>kind\<in>set kinds. k = (project, kind, subject))"
| "requests_work k (Replay now project) \<longleftrightarrow> fst k = project"
| "requests_work k _ \<longleftrightarrow> False"

fun mints :: "job_id \<Rightarrow> queue_op \<Rightarrow> bool" where
  "mints i (Enqueue now fresh project kinds subject) \<longleftrightarrow> (\<exists>n<length kinds. fresh n = i)"
| "mints i _ \<longleftrightarrow> False"

fun before :: "instant \<Rightarrow> queue_op \<Rightarrow> bool" where
  "before t (Claim now project worker batch kinds locked) \<longleftrightarrow> now < t"
| "before t (Fail now j worker e) \<longleftrightarrow> now < t"
| "before t _ \<longleftrightarrow> False"

definition leased_until :: "job_id \<Rightarrow> work \<Rightarrow> instant \<Rightarrow> job_row \<Rightarrow> bool" where
  "leased_until i k t r \<longleftrightarrow> jr_id r = i \<longrightarrow> work_of r = k \<and> t \<le> jr_available_at r"

lemma exec_op_leased:
  assumes l: "\<forall>r\<in>set q. leased_until i k (t + LEASE) r" and "\<not> requests_work k x" and "\<not> mints i x" and "\<not> before t x"
  shows "\<forall>r\<in>set (exec_op x q). leased_until i k (t + LEASE) r"
proof (cases x)
  case (Enqueue now fresh project kinds subject)
  show ?thesis
  proof (cases "enqueue_all now fresh project kinds subject q")
    case (Some q')
    have "leased_until i k (t + LEASE) r" if r: "r \<in> set q'" for r
    proof -
      from enqueue_all_rows [OF Some r] show ?thesis
      proof
        assume "fresh_request now r \<and> (\<exists>kind\<in>set kinds. work_of r = (project, kind, subject)) \<and>
          ((\<exists>n<length kinds. jr_id r = fresh n) \<or> (\<exists>r0\<in>set q. jr_id r0 = jr_id r \<and> work_of r0 = work_of r))"
        then show ?thesis using l assms(2,3) Enqueue by (fastforce simp: leased_until_def)
      qed (use l in auto)
    qed
    then show ?thesis using Enqueue Some by simp
  qed (use assms Enqueue in simp)
next
  case (Claim now project worker batch kinds locked)
  show ?thesis
  proof (cases "claim now project worker batch kinds locked q")
    case (Some p)
    obtain q' jobs where p: "p = (q', jobs)" by (cases p)
    show ?thesis using assms Claim Some p claim_rowsD [OF Some [unfolded p]]
      by (fastforce simp: leased_until_def held_row_def work_of_def)
  qed (use assms Claim in simp)
next
  case (Fail now j worker e)
  have "t + LEASE \<le> now + RETRY_AFTER" using assms(4) Fail by (simp add: LEASE_def RETRY_AFTER_def)
  then show ?thesis using l fail_rows [of _ now j worker e q] Fail
    by (fastforce simp: leased_until_def work_of_def)
next
  case (Replay now project)
  then show ?thesis using assms(1,2) replay_rows [of _ now project q]
    by (fastforce simp: leased_until_def is_exhausted_def work_of_def)
next
  case (Complete jobs worker)
  then show ?thesis using assms(1) complete_rows by auto
next
  case (Discard project)
  then show ?thesis using assms(1) discard_rows by auto
qed

lemma queue_ok_id: "queue_ok q \<Longrightarrow> a \<in> set q \<Longrightarrow> b \<in> set q \<Longrightarrow> jr_id a = jr_id b \<Longrightarrow> a = b"
  by (auto simp: queue_ok_def distinct_map dest: inj_onD)

lemma works_map: "(\<And>r. work_of (f r) = work_of r) \<Longrightarrow> work_of ` set (map f q) = work_of ` set q"
  by (simp only: set_map image_image)

lemma leased_not_claimed:
  assumes "queue_ok q" and "claim t project worker batch kinds locked q = Some (q1, jobs)" and "j \<in> set jobs"
    and "\<forall>x\<in>set ops. \<not> requests_work (j_project j, j_kind j, j_subject j) x \<and> \<not> mints (j_id j) x \<and> \<not> before t x"
    and "claim t' project' worker' batch' kinds' locked' (run_ops ops q1) = Some (q2, jobs')" and "t' < t + LEASE"
  shows "j_id j \<notin> j_id ` set jobs'"
proof
  let ?k = "(j_project j, j_kind j, j_subject j)"
  assume "j_id j \<in> j_id ` set jobs'"
  then obtain j' where j': "j' \<in> set jobs'" "j_id j' = j_id j" by auto
  obtain r where r: "r \<in> set q" "j = row_to_job (held_row t worker r)" "held_row t worker r \<in> set q1"
    using claim_jobsD [OF assms(1-3)] by auto
  have ok: "queue_ok q1" by (rule claim_ok [OF assms(1,2)])
  have "leased_until (j_id j) ?k (t + LEASE) r'" if "r' \<in> set q1" for r'
  proof -
    have "r' = held_row t worker r" if "jr_id r' = j_id j"
      by (rule queue_ok_id [OF ok \<open>r' \<in> set q1\<close> r(3)]) (use that r(2) in \<open>simp add: row_to_job_def\<close>)
    then show ?thesis by (auto simp: leased_until_def r(2) row_to_job_def work_of_def held_row_def)
  qed
  then have l: "\<forall>r\<in>set (run_ops ops q1). leased_until (j_id j) ?k (t + LEASE) r"
    using assms(4) by (intro run_ops_invariant exec_op_leased) auto
  have "queue_ok (run_ops ops q1)" by (rule run_ops_ok [OF ok])
  from claim_jobsD [OF this assms(5) j'(1)] obtain r' where
    "r' \<in> set (run_ops ops q1)" "due t' project' kinds' r'" "jr_id r' = j_id j"
    using j'(2) by (auto simp: row_to_job_def)
  with l assms(6) show False by (auto simp: leased_until_def due_def)
qed

subsection \<open>Attempts run out\<close>

fun claims_job :: "job_id \<Rightarrow> queue_op \<Rightarrow> queue \<Rightarrow> bool" where
  "claims_job i (Claim now project worker batch kinds locked) q \<longleftrightarrow>
     (case claim now project worker batch kinds locked q of None \<Rightarrow> False | Some (_, jobs) \<Rightarrow> i \<in> j_id ` set jobs)"
| "claims_job i _ q \<longleftrightarrow> False"

fun claim_count :: "job_id \<Rightarrow> queue_op list \<Rightarrow> queue \<Rightarrow> nat" where
  "claim_count i [] q = 0"
| "claim_count i (x # ops) q = (if claims_job i x q then 1 else 0) + claim_count i ops (exec_op x q)"

definition tried :: "job_id \<Rightarrow> work \<Rightarrow> int \<Rightarrow> job_row \<Rightarrow> bool" where
  "tried i k n r \<longleftrightarrow> jr_id r = i \<longrightarrow> work_of r = k \<and> n \<le> jr_attempts r"

lemma exec_op_tried:
  assumes l: "\<forall>r\<in>set q. tried i k n r" and "\<not> requests_work k x" and "\<not> mints i x"
  shows "\<forall>r\<in>set (exec_op x q). tried i k (if claims_job i x q then n + 1 else n) r"
proof (cases x)
  case (Enqueue now fresh project kinds subject)
  show ?thesis
  proof (cases "enqueue_all now fresh project kinds subject q")
    case (Some q')
    have "tried i k n r" if r: "r \<in> set q'" for r
    proof -
      from enqueue_all_rows [OF Some r] show ?thesis
      proof
        assume "fresh_request now r \<and> (\<exists>kind\<in>set kinds. work_of r = (project, kind, subject)) \<and>
          ((\<exists>n<length kinds. jr_id r = fresh n) \<or> (\<exists>r0\<in>set q. jr_id r0 = jr_id r \<and> work_of r0 = work_of r))"
        then show ?thesis using l assms(2,3) Enqueue by (fastforce simp: tried_def)
      qed (use l in auto)
    qed
    then show ?thesis using Enqueue Some by simp
  qed (use assms Enqueue in simp)
next
  case (Claim now project worker batch kinds locked)
  show ?thesis
  proof (cases "claim now project worker batch kinds locked q")
    case (Some p)
    obtain q' jobs where p: "p = (q', jobs)" by (cases p)
    note c = Some [unfolded p]
    have "tried i k (if i \<in> j_id ` set jobs then n + 1 else n) r" if "r \<in> set q'" for r
      using claim_rowsD [OF c that] l by (auto simp: tried_def held_row_def work_of_def)
    then show ?thesis using Claim c by simp
  qed (use assms Claim in simp)
next
  case (Fail now j worker e)
  then show ?thesis using l fail_rows [of _ now j worker e q] by (fastforce simp: tried_def work_of_def)
next
  case (Replay now project)
  then show ?thesis using assms(1,2) replay_rows [of _ now project q]
    by (fastforce simp: tried_def is_exhausted_def work_of_def)
next
  case (Complete jobs worker)
  then show ?thesis using assms(1) complete_rows by auto
next
  case (Discard project)
  then show ?thesis using assms(1) discard_rows by auto
qed

lemma claims_job_due:
  assumes "queue_ok q" and "claims_job i x q"
  shows "\<exists>r\<in>set q. jr_id r = i \<and> jr_attempts r < MAX_ATTEMPTS"
proof -
  obtain now project worker batch kinds locked q' jobs j where
    x: "x = Claim now project worker batch kinds locked" "claim now project worker batch kinds locked q = Some (q', jobs)"
       "j \<in> set jobs" "j_id j = i"
    using assms(2) by (cases x) (auto split: option.splits)
  from claim_jobsD [OF assms(1) x(2,3)] x(4) show ?thesis by (auto simp: row_to_job_def due_def)
qed

lemma claim_count_bound:
  assumes "queue_ok q" and "\<forall>r\<in>set q. tried i k n r" and "n \<le> MAX_ATTEMPTS"
    and "\<forall>x\<in>set ops. \<not> requests_work k x \<and> \<not> mints i x"
  shows "int (claim_count i ops q) \<le> MAX_ATTEMPTS - n"
  using assms
proof (induction ops arbitrary: q n)
  case (Cons x ops)
  let ?n = "if claims_job i x q then n + 1 else n"
  have 1: "\<forall>r\<in>set (exec_op x q). tried i k ?n r" using Cons.prems by (intro exec_op_tried) auto
  have 2: "?n \<le> MAX_ATTEMPTS"
    using Cons.prems(2,3) claims_job_due [OF Cons.prems(1), of i x] by (fastforce simp: tried_def)
  from Cons.IH [OF exec_op_ok [OF Cons.prems(1)] 1 2] Cons.prems(4) show ?case by (auto split: if_splits)
qed simp

lemma claim_count_left:
  assumes "queue_ok q" and "r \<in> set q"
    and "\<forall>x\<in>set ops. \<not> requests_work (work_of r) x \<and> \<not> mints (jr_id r) x"
  shows "int (claim_count (jr_id r) ops q) \<le> MAX_ATTEMPTS - jr_attempts r"
proof (rule claim_count_bound [OF assms(1) _ _ assms(3)])
  show "\<forall>r'\<in>set q. tried (jr_id r) (work_of r) (jr_attempts r) r'"
    using assms(1,2) by (auto simp: tried_def queue_ok_def distinct_map dest: inj_onD)
  show "jr_attempts r \<le> MAX_ATTEMPTS" using assms(1,2) by (auto simp: queue_ok_def row_ok_def)
qed

subsection \<open>What the reads answer\<close>

lemma claim_empty_iff:
  assumes "queue_ok q" and "0 < batch" and "claim now project worker batch kinds {} q = Some (q', jobs)"
  shows "jobs = [] \<longleftrightarrow> \<not> (\<exists>r\<in>set q. due now project kinds r)"
proof -
  obtain taken left rest where t: "mset taken + mset left = mset (filter (due now project kinds) q)"
    "length taken = min (nat batch) (length taken + length left)"
    "mset jobs = mset (map (row_to_job \<circ> held_row now worker) taken)"
    using claim_spec [OF assms(1,3)] by auto
  have l: "length taken + length left = length (filter (due now project kinds) q)"
    using arg_cong [OF t(1), of size] by (simp only: size_union size_mset)
  have "length jobs = length taken" using arg_cong [OF t(3), of size] by simp
  then have "jobs = [] \<longleftrightarrow> length (filter (due now project kinds) q) = 0"
    using t(2) assms(2) unfolding l by (auto simp: min_def split: if_splits)
  then show ?thesis by (simp add: filter_empty_conv)
qed

lemma owing_iff_claimable:
  assumes "queue_ok q" and "(project, name) \<in> set projects" and "0 < batch"
    and "claim now project worker batch kinds {} q = Some (q', jobs)"
  shows "project \<in> ow_project ` set (owing name_le projects now kinds q) \<longleftrightarrow> jobs \<noteq> []"
  using assms(2) unfolding claim_empty_iff [OF assms(1,3,4)] by (force simp: owing_def)

lemma any_in_flight_iff:
  assumes "queue_ok q"
  shows "any_in_flight now project q \<longleftrightarrow>
    (\<exists>r\<in>set q. jr_project r = project \<and> jr_claimed_at r \<noteq> None \<and> now < jr_available_at r) \<or>
    (\<exists>r\<in>set q. due now project job_kinds r)"
proof -
  have "due now project job_kinds r \<longleftrightarrow> jr_project r = project \<and> jr_available_at r \<le> now \<and> jr_attempts r < MAX_ATTEMPTS"
    if "r \<in> set q" for r
    using assms that by (auto simp: due_def queue_ok_def row_ok_def)
  then show ?thesis unfolding any_in_flight_def by (metis not_less)
qed

lemma pending_up_to_min:
  "pending_up_to project cap q = min (max cap 0) (pending project q) \<and>
   may_defer (pending_up_to project LAGGING_AT q) = may_defer (pending project q)"
  by (auto simp: pending_up_to_def pending_def may_defer_def LAGGING_AT_def min_def)

subsection \<open>Only settling work removes it\<close>

lemma enqueue_keeps_work:
  assumes "enqueue_all now fresh project kinds subject q = Some q'"
  shows "work_of ` set q \<subseteq> work_of ` set q'"
proof -
  have 1: "work_of ` set q \<subseteq> work_of ` set q'" if "upsert_job now new q = Some q'" for new q q'
  proof (cases "\<exists>r\<in>set q. work_of r = work_of new")
    case True
    with that have "q' = map (\<lambda>r. if work_of r = work_of new then requested_again now r else r) q"
      by (simp add: upsert_job_def)
    then show ?thesis by (simp only: works_map row_updates_keep(2) if_distrib [of work_of] if_cancel)
  qed (use that in \<open>auto simp: upsert_job_def split: if_splits\<close>)
  have "work_of ` set q \<subseteq> work_of ` set q'" if "upsert_jobs now news q = Some q'" for news q
    using that
  proof (induction news arbitrary: q)
    case (Cons new news)
    then show ?case using 1 by (auto split: option.splits) blast
  qed simp
  then show ?thesis using assms by (auto simp: enqueue_all_def split: if_splits)
qed

lemma removal_is_settling:
  assumes "k \<in> work_of ` set q" and "k \<notin> work_of ` set (exec_op x q)"
  shows "(\<exists>jobs worker. x = Complete jobs worker \<and> (\<exists>r\<in>set q. work_of r = k \<and> held_by_claim jobs worker r)) \<or>
         (\<exists>project. x = Discard project \<and> (\<exists>r\<in>set q. work_of r = k \<and> is_exhausted project r))"
proof (cases x)
  case (Complete jobs worker)
  then show ?thesis using assms by (auto simp: complete_def split: if_splits)
next
  case (Discard project)
  then show ?thesis using assms by (auto simp: discard_def)
next
  case (Enqueue now fresh project kinds subject)
  then show ?thesis using assms enqueue_keeps_work by (fastforce split: option.splits)
next
  case (Claim now project worker batch kinds locked)
  show ?thesis
  proof (cases "claim now project worker batch kinds locked q")
    case (Some p)
    obtain q' jobs where p: "p = (q', jobs)" by (cases p)
    have q': "q' = map (\<lambda>r. if jr_id r \<in> set (claim_ids now project (nat batch) kinds locked q)
        then held_row now worker r else r) q"
      using claim_SomeD [OF Some [unfolded p]] by blast
    have "work_of ` set q' = work_of ` set q" unfolding q' by (rule works_map) simp
    then show ?thesis using assms Claim Some p by simp
  qed (use assms Claim in simp)
next
  case (Fail now j worker e)
  have "work_of ` set (fail now j worker e q) = work_of ` set q"
    unfolding fail_def Let_def set_map image_image by (intro image_cong) (auto simp: work_of_def)
  then show ?thesis using assms Fail by simp
next
  case (Replay now project)
  have "work_of ` set (fst (replay now project q)) = work_of ` set q"
    unfolding replay_def fst_conv set_map image_image by (intro image_cong) (auto simp: work_of_def)
  then show ?thesis using assms Replay by simp
qed

subsection \<open>The properties\<close>

definition sample_queue :: queue where
  "sample_queue = [queued_row 0 1 (Some 5) (7, SyncTopicIndex), queued_row 3 1 (Some 5) (8, OptimizeIndex)]"

lemma sample_enqueue:
  "enqueue_all 0 (\<lambda>n. 7) 1 [SyncTopicIndex] (Some 5) [] = Some [queued_row 0 1 (Some 5) (7, SyncTopicIndex)]"
  by (simp add: enqueue_all_def upsert_job_def)

lemma sample_ok: "queue_ok sample_queue"
  by (simp add: queue_ok_def sample_queue_def queued_row_ok)

text \<open>
  C1: whatever statements run against the outbox, in whatever order and interleaving, it never
  holds two rows for the same work, no two rows share an id, every row's stored priority is
  its kind's, attempts stay between 0 and 8, and a row names a holder exactly when it names
  the time it was taken, after at least one attempt.
\<close>

theorem reachable_queue_ok:
  assumes "reachable_queue q"
  shows "queue_ok q"
  by (rule reachable_queue_okI [OF assms])

theorem reachable_queue_ok_witness:
  "reachable_queue [queued_row 0 1 (Some 5) (7, SyncTopicIndex)] \<and>
   queue_ok [queued_row 0 1 (Some 5) (7, SyncTopicIndex)]"
proof -
  have "queue_step [] (exec_op (Enqueue 0 (\<lambda>n. 7) 1 [SyncTopicIndex] (Some 5)) [])"
    by (rule queue_step.op) (rule refl)
  then have "reachable_queue [queued_row 0 1 (Some 5) (7, SyncTopicIndex)]"
    using reachable_queue.step [OF reachable_queue.empty] by (simp add: sample_enqueue)
  then show ?thesis using reachable_queue_ok by blast
qed

text \<open>
  C5: asking for several kinds of work against one subject always succeeds with freshly minted
  ids, leaves exactly one row per kind asked for beside the work already owed, makes each of
  them due at once with no attempts, no holder and no error even where a worker was holding
  it, and touches no other row.
\<close>

theorem enqueue_coalesces:
  assumes "queue_ok q" and "distinct kinds" and "inj_on fresh {..<length kinds}"
    and "fresh ` {..<length kinds} \<inter> jr_id ` set q = {}"
  shows "\<exists>q'. enqueue_all now fresh project kinds subject q = Some q' \<and> queue_ok q' \<and>
    work_of ` set q' = (\<lambda>kind. (project, kind, subject)) ` set kinds \<union> work_of ` set q \<and>
    (\<forall>r\<in>set q'. if work_of r \<in> (\<lambda>kind. (project, kind, subject)) ` set kinds
       then fresh_request now r else r \<in> set q)"
  by (rule enqueue_all_spec [OF assms])

theorem enqueue_coalesces_witness:
  "queue_ok sample_queue \<and> distinct [SyncTopicIndex, DeriveMentions] \<and>
   (\<exists>q'. enqueue_all 9 (\<lambda>n. if n = 0 then 20 else 21) 1 [SyncTopicIndex, DeriveMentions] (Some 5) sample_queue = Some q' \<and>
     work_of ` set q' = {(1, SyncTopicIndex, Some 5), (1, DeriveMentions, Some 5), (1, OptimizeIndex, Some 5)})"
proof -
  let ?kinds = "[SyncTopicIndex, DeriveMentions]" and ?fresh = "\<lambda>n::nat. if n = 0 then 20 else 21 :: job_id"
  have d: "distinct ?kinds" by simp
  have i: "inj_on ?fresh {..<length ?kinds}" by (auto simp: inj_on_def)
  have f: "?fresh ` {..<length ?kinds} \<inter> jr_id ` set sample_queue = {}"
    by (auto simp: sample_queue_def)
  from enqueue_coalesces [OF sample_ok d i f, of 9 1 "Some 5"] show ?thesis
    using sample_ok by (auto simp: sample_queue_def)
qed

text \<open>
  C4: a claim takes, of the rows that are due and not locked, a full batch or all there are;
  nothing it leaves should have run before something it takes; each row it takes is held by
  the worker under a lease with one more attempt counted, every other row is as it was, and
  what it returns is exactly the rows it took.
\<close>

theorem claim_correct:
  assumes "queue_ok q" and "claim now project worker batch kinds locked q = Some (q', jobs)"
  shows "\<exists>taken left rest.
    mset q = mset taken + mset left + mset rest \<and>
    mset taken + mset left = mset (filter (\<lambda>r. due now project kinds r \<and> jr_id r \<notin> locked) q) \<and>
    length taken = min (nat batch) (length taken + length left) \<and>
    (\<forall>a\<in>set taken. \<forall>b\<in>set left. claim_order a b) \<and>
    mset q' = mset (map (held_row now worker) taken) + mset left + mset rest \<and>
    mset jobs = mset (map (row_to_job \<circ> held_row now worker) taken)"
  by (rule claim_spec [OF assms])

lemma sample_claim:
  "claim 5 1 ''a'' 1 job_kinds {} sample_queue
    = Some ([held_row 5 ''a'' (queued_row 0 1 (Some 5) (7, SyncTopicIndex)), queued_row 3 1 (Some 5) (8, OptimizeIndex)],
            [row_to_job (held_row 5 ''a'' (queued_row 0 1 (Some 5) (7, SyncTopicIndex)))])"
proof -
  have "due 5 1 job_kinds r" if "r \<in> set sample_queue" for r
    using that by (auto simp: due_def sample_queue_def queued_row_def MAX_ATTEMPTS_def job_kinds_def)
  then have "filter (\<lambda>r. due 5 1 job_kinds r \<and> jr_id r \<notin> {}) sample_queue = sample_queue" by simp
  then show ?thesis
    by (simp add: claim_def claim_ids_def) (simp add: sample_queue_def claim_order_def order_by_defs queued_row_def)
qed

theorem claim_correct_witness:
  "queue_ok sample_queue \<and>
   claim 5 1 ''a'' 1 job_kinds {} sample_queue
    = Some ([held_row 5 ''a'' (queued_row 0 1 (Some 5) (7, SyncTopicIndex)), queued_row 3 1 (Some 5) (8, OptimizeIndex)],
            [row_to_job (held_row 5 ''a'' (queued_row 0 1 (Some 5) (7, SyncTopicIndex)))]) \<and>
   (\<exists>taken left. length taken = 1 \<and>
     mset taken + mset left = mset (filter (\<lambda>r. due 5 1 job_kinds r \<and> jr_id r \<notin> {}) sample_queue))"
proof -
  from claim_correct [OF sample_ok sample_claim] obtain taken left where
    "mset taken + mset left = mset (filter (\<lambda>r. due 5 1 job_kinds r \<and> jr_id r \<notin> {}) sample_queue)"
    "mset [row_to_job (held_row 5 ''a'' (queued_row 0 1 (Some 5) (7, SyncTopicIndex)))]
      = mset (map (row_to_job \<circ> held_row 5 ''a'') taken)" by blast
  moreover from this(2) have "length taken = 1" by (metis length_map size_mset length_Cons list.size(3) One_nat_def)
  ultimately show ?thesis using sample_ok sample_claim by blast
qed

text \<open>
  C2: work requested again while an attempt at it is running is not lost to that attempt: whatever
  happens in between, the attempt's completion finds its claim gone and settles nothing, so long
  as the same worker did not take a new claim at the very instant of the old one.
\<close>

theorem requested_again_not_completed:
  assumes "queue_ok q" and "r \<in> set q" and "jr_id r = j_id j" and "work_of r = (project, kind, subject)"
    and "j_claimed_at j = Some t"
    and "enqueue_all now fresh project kinds subject q = Some q1" and "kind \<in> set kinds"
    and "\<forall>x\<in>set ops. \<not> claims_at t w x"
  shows "j_id j \<notin> set (snd (complete [j] w (run_ops ops q1)))"
  by (rule stale_completion_settles_nothing [OF assms])

definition sample_job :: job where
  "sample_job = row_to_job (held_row 5 ''a'' (queued_row 0 1 (Some 5) (7, SyncTopicIndex)))"

definition sample_held :: queue where
  "sample_held = [held_row 5 ''a'' (queued_row 0 1 (Some 5) (7, SyncTopicIndex)), queued_row 3 1 (Some 5) (8, OptimizeIndex)]"

lemma sample_held_ok: "queue_ok sample_held"
  using claim_ok [OF sample_ok sample_claim] by (simp add: sample_held_def)

theorem requested_again_not_completed_witness:
  "snd (complete [sample_job] ''a'' sample_held) = [7] \<and>
   (\<exists>q1. enqueue_all 6 (\<lambda>n. 9) 1 [SyncTopicIndex] (Some 5) sample_held = Some q1 \<and>
     j_id sample_job \<notin> set (snd (complete [sample_job] ''a'' (run_ops [Claim 7 1 ''b'' 4 job_kinds {}] q1))))"
proof -
  obtain q1 where q1: "enqueue_all 6 (\<lambda>n. 9) 1 [SyncTopicIndex] (Some 5) sample_held = Some q1"
    by (simp add: enqueue_all_def upsert_job_def sample_held_def)
  have "j_id sample_job \<notin> set (snd (complete [sample_job] ''a'' (run_ops [Claim 7 1 ''b'' 4 job_kinds {}] q1)))"
    by (rule requested_again_not_completed [OF sample_held_ok _ _ _ _ q1,
          of "held_row 5 ''a'' (queued_row 0 1 (Some 5) (7, SyncTopicIndex))" _ SyncTopicIndex 5])
      (simp_all add: sample_held_def sample_job_def row_to_job_def held_row_def queued_row_def work_of_def)
  moreover have "snd (complete [sample_job] ''a'' sample_held) = [7]"
    by (simp add: complete_def held_by_claim_def sample_held_def sample_job_def row_to_job_def held_row_def queued_row_def)
  ultimately show ?thesis using q1 by blast
qed

text \<open>
  C3: a running lease is exclusive: between a claim and the end of its lease, whatever other
  workers run, no claim by anybody takes the same job, unless its work is requested again.
\<close>

theorem lease_exclusive:
  assumes "queue_ok q" and "claim t project worker batch kinds locked q = Some (q1, jobs)" and "j \<in> set jobs"
    and "\<forall>x\<in>set ops. \<not> requests_work (j_project j, j_kind j, j_subject j) x \<and> \<not> mints (j_id j) x \<and> \<not> before t x"
    and "claim t' project' worker' batch' kinds' locked' (run_ops ops q1) = Some (q2, jobs')" and "t' < t + LEASE"
  shows "j_id j \<notin> j_id ` set jobs'"
  by (rule leased_not_claimed [OF assms])

theorem lease_exclusive_witness:
  "\<exists>q2 jobs'. claim (5 + LEASE - 1) 1 ''b'' 4 job_kinds {} (run_ops [Fail 6 sample_job ''b'' ''x''] sample_held) = Some (q2, jobs') \<and>
     7 \<notin> j_id ` set jobs'"
proof -
  obtain q2 jobs' where c: "claim (5 + LEASE - 1) 1 ''b'' 4 job_kinds {}
      (run_ops [Fail 6 sample_job ''b'' ''x''] sample_held) = Some (q2, jobs')"
    by (simp add: claim_def Let_def)
  have "j_id sample_job \<notin> j_id ` set jobs'"
    by (rule lease_exclusive [OF sample_ok sample_claim [folded sample_held_def sample_job_def] _ _ c])
      (simp_all add: sample_job_def)
  then show ?thesis using c by (auto simp: sample_job_def row_to_job_def)
qed

text \<open>
  Attempts run out: however the statements interleave, a job is taken at most as many times
  as it has attempts left, eight from the moment its work was requested, until its work is
  requested again or replayed.
\<close>

theorem attempts_bounded:
  assumes "queue_ok q" and "r \<in> set q"
    and "\<forall>x\<in>set ops. \<not> requests_work (work_of r) x \<and> \<not> mints (jr_id r) x"
  shows "int (claim_count (jr_id r) ops q) \<le> MAX_ATTEMPTS - jr_attempts r"
  by (rule claim_count_left [OF assms])

theorem attempts_bounded_witness:
  "int (claim_count 7 (replicate 20 (Claim 5 1 ''a'' 1 job_kinds {})) sample_queue) \<le> 8"
  using attempts_bounded [OF sample_ok, of "queued_row 0 1 (Some 5) (7, SyncTopicIndex)"
      "replicate 20 (Claim 5 1 ''a'' 1 job_kinds {})"]
  by (simp add: sample_queue_def) (simp add: queued_row_def MAX_ATTEMPTS_def)

text \<open>
  Only settling work removes it: when a statement takes the last row of some work away, it
  is the completion of a claim that still held the row, or a person discarding work whose
  attempts had run out.
\<close>

theorem only_settling_removes:
  assumes "k \<in> work_of ` set q" and "k \<notin> work_of ` set (exec_op x q)"
  shows "(\<exists>jobs worker. x = Complete jobs worker \<and> (\<exists>r\<in>set q. work_of r = k \<and> held_by_claim jobs worker r)) \<or>
         (\<exists>project. x = Discard project \<and> (\<exists>r\<in>set q. work_of r = k \<and> is_exhausted project r))"
  by (rule removal_is_settling [OF assms])

theorem only_settling_removes_witness:
  "(1, SyncTopicIndex, Some 5) \<in> work_of ` set sample_held \<and>
   (1, SyncTopicIndex, Some 5) \<notin> work_of ` set (exec_op (Complete [sample_job] ''a'') sample_held) \<and>
   (\<exists>r\<in>set sample_held. held_by_claim [sample_job] ''a'' r)"
proof -
  have 1: "(1, SyncTopicIndex, Some 5) \<in> work_of ` set sample_held" by (simp add: sample_held_def)
  have 2: "(1, SyncTopicIndex, Some 5) \<notin> work_of ` set (exec_op (Complete [sample_job] ''a'') sample_held)"
    by (simp add: complete_def held_by_claim_def sample_held_def sample_job_def row_to_job_def held_row_def
        queued_row_def work_of_def)
  from only_settling_removes [OF 1 2] show ?thesis using 1 2 by auto
qed

text \<open>
  What a drain waits for is exact: some job is in flight just when a lease on one is running
  or one is due; a failed job waiting out its retry and a lapsed last attempt are neither.
\<close>

theorem any_in_flight_exact:
  assumes "queue_ok q"
  shows "any_in_flight now project q \<longleftrightarrow>
    (\<exists>r\<in>set q. jr_project r = project \<and> jr_claimed_at r \<noteq> None \<and> now < jr_available_at r) \<or>
    (\<exists>r\<in>set q. due now project job_kinds r)"
  by (rule any_in_flight_iff [OF assms])

theorem any_in_flight_exact_witness: "queue_ok sample_held \<and> any_in_flight 6 1 sample_held"
  using sample_held_ok any_in_flight_exact [OF sample_held_ok, of 6 1]
  by (simp add: sample_held_def held_row_def queued_row_def LEASE_def)

text \<open>
  A project is reported as owing work of some kinds exactly when a claim for those kinds,
  at the same instant with nothing locked, takes something.
\<close>

theorem owing_exact:
  assumes "queue_ok q" and "(project, name) \<in> set projects" and "0 < batch"
    and "claim now project worker batch kinds {} q = Some (q', jobs)"
  shows "project \<in> ow_project ` set (owing name_le projects now kinds q) \<longleftrightarrow> jobs \<noteq> []"
  by (rule owing_iff_claimable [OF assms])

theorem owing_exact_witness:
  "1 \<in> ow_project ` set (owing (\<lambda>a b. True) [(1, ''p'')] 5 job_kinds sample_queue)"
  using owing_exact [OF sample_ok _ _ sample_claim, of "''p''" "[(1, ''p'')]"] by simp

text \<open>
  The count a write reads is the exact one cut at its cap, so the decision whether a write
  may leave its work to others is the one the whole count would give.
\<close>

theorem pending_up_to_decides:
  "pending_up_to project cap q = min (max cap 0) (pending project q) \<and>
   may_defer (pending_up_to project LAGGING_AT q) = may_defer (pending project q)"
  by (rule pending_up_to_min)

subsection \<open>Two places where the code and its comments part\<close>

text \<open>
  The comment on \<open>Job::claimed_at\<close> says no job \<open>exhausted\<close> returns is held. One whose last
  attempt is running is.
\<close>

lemma exhausted_may_be_held:
  "\<exists>q. queue_ok q \<and> (\<exists>(j, e)\<in>set (exhausted 1 q). j_claimed_at j = Some 5)"
proof -
  let ?r = "held_row 5 ''a'' (queued_row 0 1 (Some 5) (7, SyncTopicIndex)\<lparr>jr_attempts := 7\<rparr>)"
  have "queue_ok [?r]" by (simp add: queue_ok_def row_ok_def held_row_def queued_row_def MAX_ATTEMPTS_def)
  moreover have "exhausted 1 [?r] = [(row_to_job ?r, '''')]"
    by (simp add: exhausted_def is_exhausted_def held_row_def queued_row_def MAX_ATTEMPTS_def)
  ultimately show ?thesis by (intro exI [of _ "[?r]"]) (simp add: row_to_job_def held_row_def)
qed

text \<open>
  \<open>complete\<close> tells a claim from a later one of the same process; \<open>fail\<close> compares the process
  alone, so a failure reported after the lease ran out and the same process took the job again
  releases the later claim, whose completion then settles nothing.
\<close>

lemma stale_failure_releases_later_claim:
  "\<exists>q later. queue_ok q \<and> claim (5 + LEASE) 1 ''a'' 1 [SyncTopicIndex] {} sample_held = Some (q, [later]) \<and>
     snd (complete [later] ''a'' q) = [7] \<and>
     snd (complete [later] ''a'' (fail (6 + LEASE) sample_job ''a'' ''timeout'' q)) = []"
proof -
  let ?q = "[held_row (5 + LEASE) ''a'' (held_row 5 ''a'' (queued_row 0 1 (Some 5) (7, SyncTopicIndex))),
    queued_row 3 1 (Some 5) (8, OptimizeIndex)]"
  let ?j = "row_to_job (held_row (5 + LEASE) ''a'' (held_row 5 ''a'' (queued_row 0 1 (Some 5) (7, SyncTopicIndex))))"
  have c: "claim (5 + LEASE) 1 ''a'' 1 [SyncTopicIndex] {} sample_held = Some (?q, [?j])"
    by (simp add: claim_def claim_ids_def sample_held_def due_def held_row_def queued_row_def MAX_ATTEMPTS_def LEASE_def)
  have "queue_ok ?q" by (rule claim_ok [OF sample_held_ok c])
  moreover have "snd (complete [?j] ''a'' ?q) = [7]"
    by (simp add: complete_def held_by_claim_def row_to_job_def held_row_def queued_row_def)
  moreover have "snd (complete [?j] ''a'' (fail (6 + LEASE) sample_job ''a'' ''timeout'' ?q)) = []"
    by (simp add: complete_def held_by_claim_def row_to_job_def held_row_def queued_row_def fail_def sample_job_def)
  ultimately show ?thesis using c by blast
qed

end
