(* ===== verification/Core_Version.thy ===== *)
theory Core_Version
  imports Prelude
begin

text \<open>
  Version resolution over a topic's ledger (\<open>crates/core/src/version.rs\<close>). Version numbers
  and offsets are \<open>u32\<close>; \<open>as u32\<close> of an index is the word of that index and wraps past
  \<open>2\<^sup>3\<^sup>2\<close>, so the facts about offsets ask for a ledger of at most that many versions.
\<close>

type_synonym version_offset = "32 word"

record resolved_version =
  rv_version :: "32 word"
  rv_actual_offset :: version_offset
  rv_is_current :: bool
  rv_oldest_version :: "32 word"
  rv_latest_version :: "32 word"
  rv_available_versions :: "32 word"

definition LATEST :: version_offset where
  "LATEST = 0"

definition resolve :: "32 word list \<Rightarrow> version_offset \<Rightarrow> resolved_version option" where
  "resolve versions offset =
     (if length versions = 0 then None
      else let latest_index = length versions - 1;
               index = latest_index - unat offset
           in Some \<lparr>rv_version = versions ! index,
                    rv_actual_offset = word_of_nat (latest_index - index),
                    rv_is_current = (index = latest_index),
                    rv_oldest_version = versions ! 0,
                    rv_latest_version = versions ! latest_index,
                    rv_available_versions = word_of_nat (length versions)\<rparr>)"

lemma resolve_None_iff: "resolve versions offset = None \<longleftrightarrow> versions = []"
  by (simp add: resolve_def Let_def)

lemma resolve_Some:
  "versions \<noteq> [] \<Longrightarrow> resolve versions offset = Some
     \<lparr>rv_version = versions ! (length versions - 1 - unat offset),
      rv_actual_offset = word_of_nat (min (length versions - 1) (unat offset)),
      rv_is_current = (length versions = 1 \<or> offset = 0),
      rv_oldest_version = hd versions,
      rv_latest_version = last versions,
      rv_available_versions = word_of_nat (length versions)\<rparr>"
proof -
  assume ne: "versions \<noteq> []"
  let ?n = "length versions"
  have n: "0 < ?n" using ne by simp
  have 1: "?n - 1 - (?n - 1 - unat offset) = min (?n - 1) (unat offset)" by arith
  have 2: "(?n - 1 - unat offset = ?n - 1) \<longleftrightarrow> (?n = 1 \<or> offset = 0)"
  proof -
    have "(?n - 1 - unat offset = ?n - 1) \<longleftrightarrow> (?n = 1 \<or> unat offset = 0)" using n by arith
    then show ?thesis by (simp add: unat_eq_0)
  qed
  show ?thesis
    using ne by (simp only: resolve_def Let_def 1 2) (simp add: hd_conv_nth last_conv_nth)
qed

text \<open>
  Resolving an offset against a topic's surviving versions answers exactly when there is
  one; it selects the version that many back from the newest, clamped at the oldest, and
  reports how far it really went, whether that is the current version, and the ends of the
  ledger.
\<close>

theorem resolve_correct:
  assumes "length versions \<le> 2 ^ 32"
  shows "(resolve versions offset = None \<longleftrightarrow> versions = []) \<and>
    (\<forall>r. resolve versions offset = Some r \<longrightarrow>
       unat (rv_actual_offset r) = min (unat offset) (length versions - 1) \<and>
       rv_version r = rev versions ! unat (rv_actual_offset r) \<and>
       (rv_is_current r \<longleftrightarrow> rv_actual_offset r = 0) \<and>
       rv_oldest_version r = hd versions \<and> rv_latest_version r = last versions)"
proof (intro conjI allI impI)
  show "resolve versions offset = None \<longleftrightarrow> versions = []" by (rule resolve_None_iff)
next
  fix r assume r: "resolve versions offset = Some r"
  then have ne: "versions \<noteq> []" by (auto simp: resolve_def)
  let ?n = "length versions"
  have off: "unat (word_of_nat (min (?n - 1) (unat offset)) :: 32 word) = min (?n - 1) (unat offset)"
    using assms ne by (intro unat_word_of_nat_id) (cases versions, auto simp: min_def)
  note r' = r [unfolded resolve_Some [OF ne], simplified option.inject, symmetric]
  show 1: "unat (rv_actual_offset r) = min (unat offset) (?n - 1)"
    using off by (simp add: r' min.commute)
  have "versions ! (?n - 1 - unat offset) = rev versions ! min (unat offset) (?n - 1)"
  proof -
    have "min (unat offset) (?n - 1) < ?n" using ne by (cases versions) (auto simp: min_def)
    moreover have "?n - Suc (min (unat offset) (?n - 1)) = ?n - 1 - unat offset" by (auto simp: min_def)
    ultimately show ?thesis by (simp only: rev_nth)
  qed
  then show "rv_version r = rev versions ! unat (rv_actual_offset r)"
    unfolding 1 by (simp add: r')
  have "(rv_actual_offset r = 0) \<longleftrightarrow> (min (?n - 1) (unat offset) = 0)"
    using 1 by (simp add: unat_eq_0 [symmetric] min.commute)
  also have "\<dots> \<longleftrightarrow> (?n = 1 \<or> offset = 0)" using ne by (cases versions) (auto simp: min_def unat_eq_0)
  finally show "rv_is_current r \<longleftrightarrow> rv_actual_offset r = 0" by (simp add: r')
  show "rv_oldest_version r = hd versions" "rv_latest_version r = last versions" by (simp_all add: r')
qed

theorem resolve_correct_witness:
  "length [1, 4, 7 :: 32 word] \<le> 2 ^ 32 \<and>
   map_option rv_version (resolve [1, 4, 7] 9) = Some 1 \<and>
   map_option rv_actual_offset (resolve [1, 4, 7] 9) = Some 2"
proof -
  have l: "length [1, 4, 7 :: 32 word] \<le> 2 ^ 32" by simp
  show ?thesis using l resolve_correct [OF l, of 9] by (simp add: resolve_def)
qed

text \<open>
  Soft deleting the newest version promotes the one before it: what an offset selects
  among the survivors is what one more step back selected before the delete.
\<close>

theorem resolve_promotes:
  assumes "versions \<noteq> []" and "unat offset + 1 < 2 ^ 32"
  shows "map_option rv_version (resolve versions offset)
       = map_option rv_version (resolve (versions @ [newest]) (offset + 1))"
proof -
  have 1: "unat (offset + 1) = unat offset + 1"
    using assms(2) by (simp add: unat_plus_simple [THEN iffD1] word_le_nat_alt unat_word_ariths)
  show ?thesis
    using assms(1) by (simp add: resolve_Some 1 nth_append)
qed

theorem resolve_promotes_witness:
  "[1, 2 :: 32 word] \<noteq> [] \<and> unat (0 :: 32 word) + 1 < 2 ^ 32 \<and>
   map_option rv_version (resolve [1, 2] 0) = map_option rv_version (resolve ([1, 2] @ [3]) (0 + 1))"
  using resolve_promotes [of "[1, 2]" 0 3] by simp

end
