(* ===== verification/Store_Ledger.thy ===== *)
theory Store_Ledger
  imports Store_Jobs RText Core_Version F32
begin

text \<open>
  The versioned ledger (\<open>crates/store/src/repository.rs\<close>): sources and their evidence, topics, their
  states, the pointer at the state a topic stands for, names and aliases.

  The tables are lists of rows, and a statement is a function of them. A statement PostgreSQL
  refuses (a key taken, a reference missing, a number past the column's range) is \<open>None\<close>, as is a read
  the code panics on. Clocks and minted identifiers are arguments. The transactions that change a
  topic lock its row first (\<open>FOR UPDATE\<close>), so their statements are modelled as run without another
  transaction's between them on the same topic. Version numbers are 32-bit in both languages and are
  naturals here, refused past \<open>2\<^sup>3\<^sup>1 - 1\<close> as the column does. That a row's project exists
  is not checked: every caller holds a project \<open>ensure_project\<close> returned.
\<close>

section \<open>Rows\<close>

type_synonym source_id = uuid
type_synonym source_version_id = uuid
type_synonym span_id = uuid

record source_row =
  so_id :: source_id
  so_project :: project_id
  so_kind :: source_kind
  so_locator :: ustr
  so_created_at :: instant
  so_root :: "ustr option"

record source_version =
  sv_id :: source_version_id
  sv_project :: project_id
  sv_source :: source_id
  sv_number :: nat
  sv_content :: ustr
  sv_hash :: string
  sv_decision :: filter_decision
  sv_reason :: string
  sv_recorded_at :: instant

record source_span =
  sp_id :: span_id
  sp_project :: project_id
  sp_version :: source_version_id
  sp_start :: nat
  sp_end :: nat
  sp_language :: "string option"
  sp_confidence :: "rat option"

record topic_row =
  tp_id :: topic_id
  tp_project :: project_id
  tp_name :: ustr
  tp_path :: "ustr option"
  tp_created_at :: instant
  tp_current :: "topic_state_id option"
  tp_current_version :: "nat option"

record state_row =
  ts_id :: topic_state_id
  ts_project :: project_id
  ts_topic :: topic_id
  ts_number :: nat
  ts_span :: span_id
  ts_observed_at :: instant
  ts_recorded_at :: instant
  ts_validity :: validity
  ts_supersedes :: "topic_state_id option"
  ts_deleted_at :: "instant option"

record alias_row =
  al_project :: project_id
  al_name :: ustr
  al_topic :: topic_id
  al_renamed_at :: instant

record name_row =
  nt_project :: project_id
  nt_topic :: topic_id
  nt_key :: ustr
  nt_tokens :: int

record file_row =
  fi_project :: project_id
  fi_root :: ustr
  fi_file :: ustr
  fi_size :: int
  fi_modified_ns :: int
  fi_changed_ns :: int
  fi_inode :: int
  fi_read_ns :: int
  fi_hash :: string
  fi_sections :: int
  fi_build :: string

record synced_row =
  sy_project :: project_id
  sy_path :: ustr
  sy_vector_index :: string
  sy_added_at :: instant

record project =
  pj_id :: project_id
  pj_name :: ustr
  pj_created_at :: instant

record ledger =
  l_sources :: "source_row list"
  l_evidence :: "source_version list"
  l_spans :: "source_span list"
  l_topics :: "topic_row list"
  l_states :: "state_row list"
  l_aliases :: "alias_row list"
  l_names :: "name_row list"
  l_files :: "file_row list"
  l_synced :: "synced_row list"
  l_projects :: "project list"
  l_jobs :: queue

definition empty_ledger :: ledger where
  "empty_ledger = \<lparr>l_sources = [], l_evidence = [], l_spans = [], l_topics = [], l_states = [], l_aliases = [],
     l_names = [], l_files = [], l_synced = [], l_projects = [], l_jobs = []\<rparr>"

section \<open>Values\<close>

record topic =
  to_id :: topic_id
  to_project :: project_id
  to_name :: ustr
  to_path :: "ustr option"
  to_created_at :: instant

record topic_state =
  st_id :: topic_state_id
  st_project :: project_id
  st_of :: topic_id
  st_version :: nat
  st_content :: ustr
  st_span :: span_id
  st_language :: "string option"
  st_observed_at :: instant
  st_recorded_at :: instant
  st_validity :: validity
  st_supersedes :: "topic_state_id option"
  st_deleted_at :: "instant option"

record evidence =
  ev_content :: ustr
  ev_hash :: string
  ev_decision :: filter_decision
  ev_reason :: string
  ev_language :: "string option"
  ev_confidence :: "rat option"

record locked_topic =
  lt_topic :: topic
  lt_current :: "topic_state_id option"

record promotion =
  pr_topic :: locked_topic
  pr_observed_at :: instant
  pr_validity :: validity
  pr_owed :: "job_kind list"

definition row_to_topic :: "topic_row \<Rightarrow> topic" where
  "row_to_topic t = \<lparr>to_id = tp_id t, to_project = tp_project t, to_name = tp_name t, to_path = tp_path t,
     to_created_at = tp_created_at t\<rparr>"

definition row_to_locked :: "topic_row \<Rightarrow> locked_topic" where
  "row_to_locked t = \<lparr>lt_topic = row_to_topic t, lt_current = tp_current t\<rparr>"

section \<open>Text of a span\<close>

definition span_text :: "ustr \<Rightarrow> nat \<Rightarrow> nat \<Rightarrow> ustr option" where
  "span_text text start stop =
     (if stop < start then None
      else case cut_at start text of
        None \<Rightarrow> None
      | Some (_, rest) \<Rightarrow> map_option fst (cut_at (stop - start) rest))"

definition content_of_span :: "source_span \<Rightarrow> source_version \<Rightarrow> ustr option" where
  "content_of_span sp v =
     (if sp_start sp = 0 \<and> sp_end sp = byte_len (sv_content v) then Some (sv_content v)
      else span_text (sv_content v) (sp_start sp) (sp_end sp))"

definition row_to_topic_state :: "state_row \<times> source_span \<times> source_version \<Rightarrow> topic_state option" where
  "row_to_topic_state x = (case x of (r, sp, v) \<Rightarrow>
     map_option (\<lambda>content. \<lparr>st_id = ts_id r, st_project = ts_project r, st_of = ts_topic r, st_version = ts_number r,
         st_content = content, st_span = ts_span r, st_language = sp_language sp, st_observed_at = ts_observed_at r,
         st_recorded_at = ts_recorded_at r, st_validity = ts_validity r, st_supersedes = ts_supersedes r,
         st_deleted_at = ts_deleted_at r\<rparr>)
       (content_of_span sp v))"

text \<open>The two joins every state read makes.\<close>

definition span_joins :: "ledger \<Rightarrow> state_row \<Rightarrow> (state_row \<times> source_span \<times> source_version) option" where
  "span_joins db r =
     (case find (\<lambda>sp. sp_id sp = ts_span r) (l_spans db) of
        None \<Rightarrow> None
      | Some sp \<Rightarrow> map_option (\<lambda>v. (r, sp, v)) (find (\<lambda>v. sv_id v = sp_version sp) (l_evidence db)))"

definition read_states :: "ledger \<Rightarrow> state_row list \<Rightarrow> topic_state list option" where
  "read_states db rows = those (map row_to_topic_state (List.map_filter (span_joins db) rows))"

section \<open>Sources\<close>

definition source_here :: "ledger \<Rightarrow> project_id \<Rightarrow> ustr \<Rightarrow> source_row option" where
  "source_here db project locator = find (\<lambda>s. so_project s = project \<and> so_locator s = locator) (l_sources db)"

definition ensure_source_created ::
  "instant \<Rightarrow> source_id \<Rightarrow> project_id \<Rightarrow> source_kind \<Rightarrow> ustr \<Rightarrow> ledger \<Rightarrow> ((source_id \<times> bool) \<times> ledger) option" where
  "ensure_source_created now fresh project kind locator db =
     (case source_here db project locator of
        Some s \<Rightarrow> Some ((so_id s, False), db)
      | None \<Rightarrow>
          if fresh \<in> so_id ` set (l_sources db) then None
          else Some ((fresh, True), db\<lparr>l_sources := l_sources db @
            [\<lparr>so_id = fresh, so_project = project, so_kind = kind, so_locator = locator,
              so_created_at = now, so_root = None\<rparr>]\<rparr>))"

definition ensure_source ::
  "instant \<Rightarrow> source_id \<Rightarrow> project_id \<Rightarrow> source_kind \<Rightarrow> ustr \<Rightarrow> ledger \<Rightarrow> (source_id \<times> ledger) option" where
  "ensure_source now fresh project kind locator db =
     map_option (\<lambda>(x, db'). (fst x, db')) (ensure_source_created now fresh project kind locator db)"

definition set_source_root :: "source_id \<Rightarrow> ustr \<Rightarrow> ledger \<Rightarrow> ledger" where
  "set_source_root source tree db = db\<lparr>l_sources :=
     map (\<lambda>s. if so_id s = source \<and> so_root s \<noteq> Some tree then s\<lparr>so_root := Some tree\<rparr> else s) (l_sources db)\<rparr>"

definition set_roots_at :: "project_id \<Rightarrow> ustr list \<Rightarrow> ustr \<Rightarrow> ledger \<Rightarrow> ledger" where
  "set_roots_at project locators tree db =
     (if locators = [] then db
      else db\<lparr>l_sources := map (\<lambda>s. if so_project s = project \<and> so_locator s \<in> set locators \<and> so_root s \<noteq> Some tree
         then s\<lparr>so_root := Some tree\<rparr> else s) (l_sources db)\<rparr>)"

definition source_at :: "ledger \<Rightarrow> project_id \<Rightarrow> ustr \<Rightarrow> bool" where
  "source_at db project locator \<longleftrightarrow> source_here db project locator \<noteq> None"

definition newest_first :: "source_version \<Rightarrow> source_version \<Rightarrow> bool" where
  "newest_first = desc_by sv_number"

definition latest_source_version :: "ledger \<Rightarrow> project_id \<Rightarrow> source_id \<Rightarrow> source_version option" where
  "latest_source_version db project source =
     (case sort_by newest_first (filter (\<lambda>v. sv_project v = project \<and> sv_source v = source) (l_evidence db)) of
        [] \<Rightarrow> None | v # _ \<Rightarrow> Some v)"

definition latest_hash_at :: "ledger \<Rightarrow> project_id \<Rightarrow> ustr \<Rightarrow> string option" where
  "latest_hash_at db project locator =
     (case source_here db project locator of
        None \<Rightarrow> None | Some s \<Rightarrow> map_option sv_hash (latest_source_version db project (so_id s)))"

section \<open>Recording evidence\<close>

text \<open>\<open>COALESCE(MAX(version), 0) + 1\<close>, refused past the column.\<close>

definition following_number :: "nat list \<Rightarrow> nat option" where
  "following_number numbers = (let n = foldr max numbers 0 + 1 in if n < 2 ^ 31 then Some n else None)"

lemma following_number_code [code]:
  "following_number numbers = (let n = foldr max numbers 0 + 1 in if int n < 2147483648 then Some n else None)"
  by (simp add: following_number_def Let_def)

definition source_numbers :: "ledger \<Rightarrow> project_id \<Rightarrow> source_id \<Rightarrow> nat list" where
  "source_numbers db project source =
     map sv_number (filter (\<lambda>v. sv_project v = project \<and> sv_source v = source) (l_evidence db))"

definition state_numbers :: "ledger \<Rightarrow> project_id \<Rightarrow> topic_id \<Rightarrow> nat list" where
  "state_numbers db project topic =
     map ts_number (filter (\<lambda>r. ts_project r = project \<and> ts_topic r = topic) (l_states db))"

text \<open>A version of its source and the span over all of it.\<close>

definition insert_version ::
  "instant \<Rightarrow> source_version_id \<Rightarrow> span_id \<Rightarrow> project_id \<Rightarrow> source_id \<Rightarrow> evidence \<Rightarrow> ledger
    \<Rightarrow> ((source_version \<times> source_span) \<times> ledger) option" where
  "insert_version now version_id span_id project source ev db =
     (case following_number (source_numbers db project source) of
        None \<Rightarrow> None
      | Some number \<Rightarrow>
          if version_id \<in> sv_id ` set (l_evidence db) \<or> span_id \<in> sp_id ` set (l_spans db)
             \<or> source \<notin> so_id ` set (l_sources db)
          then None
          else
            let v = \<lparr>sv_id = version_id, sv_project = project, sv_source = source, sv_number = number,
                 sv_content = ev_content ev, sv_hash = ev_hash ev, sv_decision = ev_decision ev,
                 sv_reason = ev_reason ev, sv_recorded_at = now\<rparr>;
                sp = \<lparr>sp_id = span_id, sp_project = project, sp_version = version_id, sp_start = 0,
                 sp_end = byte_len (ev_content ev), sp_language = ev_language ev, sp_confidence = ev_confidence ev\<rparr>
            in Some ((v, sp), db\<lparr>l_evidence := l_evidence db @ [v], l_spans := l_spans db @ [sp]\<rparr>))"

definition append_evidence ::
  "instant \<Rightarrow> source_version_id \<Rightarrow> span_id \<Rightarrow> project_id \<Rightarrow> source_id \<Rightarrow> evidence \<Rightarrow> ledger
    \<Rightarrow> ((source_version \<times> source_span) \<times> ledger) option" where
  "append_evidence = insert_version"

definition point_at :: "topic_id \<Rightarrow> (topic_state_id \<times> nat) option \<Rightarrow> ledger \<Rightarrow> ledger" where
  "point_at topic state db = db\<lparr>l_topics :=
     map (\<lambda>t. if tp_id t = topic then t\<lparr>tp_current := map_option fst state, tp_current_version := map_option snd state\<rparr> else t)
       (l_topics db)\<rparr>"

text \<open>The state over a span, the pointer moved to it, and the work it owes.\<close>

definition append_state ::
  "instant \<Rightarrow> topic_state_id \<Rightarrow> (nat \<Rightarrow> job_id) \<Rightarrow> project_id \<Rightarrow> span_id \<Rightarrow> promotion \<Rightarrow> ledger
    \<Rightarrow> (state_row \<times> ledger) option" where
  "append_state now state_id fresh_job project span_id pr db =
     (let topic = to_id (lt_topic (pr_topic pr)) in
      case following_number (state_numbers db project topic) of
        None \<Rightarrow> None
      | Some number \<Rightarrow>
          if state_id \<in> ts_id ` set (l_states db) \<or> topic \<notin> tp_id ` set (l_topics db)
             \<or> \<not> set_option (lt_current (pr_topic pr)) \<subseteq> ts_id ` set (l_states db)
          then None
          else
            let r = \<lparr>ts_id = state_id, ts_project = project, ts_topic = topic, ts_number = number, ts_span = span_id,
                 ts_observed_at = pr_observed_at pr, ts_recorded_at = now, ts_validity = pr_validity pr,
                 ts_supersedes = lt_current (pr_topic pr), ts_deleted_at = None\<rparr>
            in case enqueue_all now fresh_job project (pr_owed pr) (Some (uuid_of topic)) (l_jobs db) of
                 None \<Rightarrow> None
               | Some jobs \<Rightarrow>
                   Some (r, point_at topic (Some (state_id, number))
                     (db\<lparr>l_states := l_states db @ [r], l_jobs := jobs\<rparr>)))"

definition append_promoted ::
  "instant \<Rightarrow> source_version_id \<Rightarrow> span_id \<Rightarrow> topic_state_id \<Rightarrow> (nat \<Rightarrow> job_id) \<Rightarrow> project_id \<Rightarrow> source_id
    \<Rightarrow> evidence \<Rightarrow> promotion \<Rightarrow> ledger \<Rightarrow> ((source_version \<times> source_span \<times> topic_state) \<times> ledger) option" where
  "append_promoted now version_id span_id state_id fresh_job project source ev pr db =
     (case insert_version now version_id span_id project source ev db of
        None \<Rightarrow> None
      | Some ((v, sp), db1) \<Rightarrow>
          (case append_state now state_id fresh_job project span_id pr db1 of
             None \<Rightarrow> None
           | Some (r, db2) \<Rightarrow>
               Some ((v, sp, \<lparr>st_id = state_id, st_project = project, st_of = to_id (lt_topic (pr_topic pr)),
                  st_version = ts_number r, st_content = ev_content ev, st_span = span_id, st_language = ev_language ev,
                  st_observed_at = pr_observed_at pr, st_recorded_at = now, st_validity = pr_validity pr,
                  st_supersedes = lt_current (pr_topic pr), st_deleted_at = None\<rparr>), db2)))"

section \<open>Topics\<close>

definition topic_named :: "ledger \<Rightarrow> project_id \<Rightarrow> ustr \<Rightarrow> topic_row option" where
  "topic_named db project name = find (\<lambda>t. tp_project t = project \<and> tp_name t = name) (l_topics db)"

definition lock_topic :: "ledger \<Rightarrow> project_id \<Rightarrow> ustr \<Rightarrow> locked_topic option" where
  "lock_topic db project name = map_option row_to_locked (topic_named db project name)"

text \<open>\<open>as i16\<close> of a count, and the saturating conversion.\<close>

definition as_i16 :: "nat \<Rightarrow> int" where
  "as_i16 n = sint (word_of_nat n :: 16 word)"

definition to_i16 :: "nat \<Rightarrow> int" where
  "to_i16 n = (if n \<le> 32767 then int n else 32767)"

lemma to_i16_code [code]: "to_i16 n = (let i = int n in if i \<le> 32767 then i else 32767)"
  by (simp add: to_i16_def Let_def)

definition create_topic ::
  "instant \<Rightarrow> topic_id \<Rightarrow> project_id \<Rightarrow> ustr \<Rightarrow> (ustr \<times> nat) option \<Rightarrow> ledger \<Rightarrow> (locked_topic \<times> ledger) option" where
  "create_topic now fresh project name named db =
     (case topic_named db project name of
        Some t \<Rightarrow> Some (row_to_locked t, db)
      | None \<Rightarrow>
          if fresh \<in> tp_id ` set (l_topics db) then None
          else
            let t = \<lparr>tp_id = fresh, tp_project = project, tp_name = name, tp_path = None, tp_created_at = now,
                 tp_current = None, tp_current_version = None\<rparr>
            in Some (row_to_locked t, db\<lparr>l_topics := l_topics db @ [t],
                 l_names := l_names db @ (case named of None \<Rightarrow> []
                   | Some (key, tokens) \<Rightarrow> [\<lparr>nt_project = project, nt_topic = fresh, nt_key = key, nt_tokens = as_i16 tokens\<rparr>])\<rparr>))"

definition create_topic_named where
  "create_topic_named now fresh project name key tokens db = create_topic now fresh project name (Some (key, tokens)) db"

definition create_topic_unnamed where
  "create_topic_unnamed now fresh project name db = create_topic now fresh project name None db"

definition has_name :: "ledger \<Rightarrow> project_id \<Rightarrow> topic_id \<Rightarrow> bool" where
  "has_name db project topic \<longleftrightarrow> (\<exists>n\<in>set (l_names db). nt_project n = project \<and> nt_topic n = topic)"

definition name_topic :: "project_id \<Rightarrow> ustr \<Rightarrow> ustr \<Rightarrow> nat \<Rightarrow> ledger \<Rightarrow> topic_id option \<times> ledger" where
  "name_topic project name key tokens db =
     (case topic_named db project name of
        None \<Rightarrow> (None, db)
      | Some t \<Rightarrow>
          if has_name db project (tp_id t) then (None, db)
          else (Some (tp_id t), db\<lparr>l_names := l_names db @
             [\<lparr>nt_project = project, nt_topic = tp_id t, nt_key = key, nt_tokens = to_i16 tokens\<rparr>]\<rparr>))"

definition record_topic_name :: "project_id \<Rightarrow> topic_id \<times> ustr \<times> nat \<Rightarrow> ledger \<Rightarrow> ledger" where
  "record_topic_name project x db =
     (case x of (topic, key, tokens) \<Rightarrow>
       if has_name db project topic
       then db\<lparr>l_names := map (\<lambda>n. if nt_project n = project \<and> nt_topic n = topic
              then n\<lparr>nt_key := key, nt_tokens := to_i16 tokens\<rparr> else n) (l_names db)\<rparr>
       else db\<lparr>l_names := l_names db @ [\<lparr>nt_project = project, nt_topic = topic, nt_key = key, nt_tokens = to_i16 tokens\<rparr>]\<rparr>)"

text \<open>One statement may not write one row twice.\<close>

definition record_topic_names :: "project_id \<Rightarrow> (topic_id \<times> ustr \<times> nat) list \<Rightarrow> ledger \<Rightarrow> ledger option" where
  "record_topic_names project names db =
     (if distinct (map fst names) \<and> fst ` set names \<subseteq> tp_id ` set (l_topics db)
      then Some (fold (record_topic_name project) names db) else None)"

definition widest_topic_name :: "ledger \<Rightarrow> project_id \<Rightarrow> nat" where
  "widest_topic_name db project =
     (case map nt_tokens (filter (\<lambda>n. nt_project n = project) (l_names db)) of
        [] \<Rightarrow> 0 | n # ns \<Rightarrow> nat (max (foldl max n ns) 0))"

definition names_matching :: "ledger \<Rightarrow> project_id \<Rightarrow> ustr list \<Rightarrow> (ustr \<times> topic_id) list" where
  "names_matching db project runs =
     map (\<lambda>n. (nt_key n, nt_topic n)) (filter (\<lambda>n. nt_project n = project \<and> nt_key n \<in> set runs) (l_names db))"

definition topics_named_by :: "ledger \<Rightarrow> project_id \<Rightarrow> ustr list \<Rightarrow> topic_id list" where
  "topics_named_by db project runs = map snd (names_matching db project runs)"

section \<open>Reading topics and states\<close>

definition live_states :: "ledger \<Rightarrow> topic_id \<Rightarrow> state_row list" where
  "live_states db topic = filter (\<lambda>r. ts_topic r = topic \<and> ts_deleted_at r = None) (l_states db)"

definition topic_versions :: "ledger \<Rightarrow> topic_id \<Rightarrow> nat list" where
  "topic_versions db topic = sort (map ts_number (live_states db topic))"

definition topic_state_at :: "ledger \<Rightarrow> project_id \<Rightarrow> topic_id \<Rightarrow> nat \<Rightarrow> topic_state option option" where
  "topic_state_at db project topic version =
     (case List.map_filter (span_joins db)
            (filter (\<lambda>r. ts_project r = project \<and> ts_topic r = topic \<and> ts_number r = version) (l_states db)) of
        [] \<Rightarrow> Some None
      | x # _ \<Rightarrow> map_option Some (row_to_topic_state x))"

definition current_row :: "ledger \<Rightarrow> topic_row \<Rightarrow> state_row option" where
  "current_row db t = (case tp_current t of None \<Rightarrow> None | Some s \<Rightarrow> find (\<lambda>r. ts_id r = s) (l_states db))"

definition all_current_topic_states :: "ledger \<Rightarrow> project_id \<Rightarrow> topic_state list option" where
  "all_current_topic_states db project =
     read_states db (sort_by (asc_by ts_topic) (filter (\<lambda>r. ts_deleted_at r = None)
       (List.map_filter (current_row db) (filter (\<lambda>t. tp_project t = project) (l_topics db)))))"

definition current_topic_ids :: "ledger \<Rightarrow> project_id \<Rightarrow> topic_id list" where
  "current_topic_ids db project =
     sort (map tp_id (filter (\<lambda>t. tp_project t = project \<and>
       (case current_row db t of None \<Rightarrow> False | Some r \<Rightarrow> ts_deleted_at r = None)) (l_topics db)))"

definition current_states_named :: "ledger \<Rightarrow> project_id \<Rightarrow> topic_id list \<Rightarrow> (ustr \<times> topic_state) list option" where
  "current_states_named db project topics =
     (if topics = [] then Some []
      else those (map (\<lambda>(name, x). map_option (Pair name) (row_to_topic_state x))
        (List.map_filter (\<lambda>t. case current_row db t of None \<Rightarrow> None | Some r \<Rightarrow> map_option (Pair (tp_name t)) (span_joins db r))
          (filter (\<lambda>t. tp_project t = project \<and> tp_id t \<in> set topics) (l_topics db)))))"

definition current_states_of :: "ledger \<Rightarrow> project_id \<Rightarrow> topic_id list \<Rightarrow> topic_state list option" where
  "current_states_of db project topics = map_option (map snd) (current_states_named db project topics)"

definition current_content :: "ledger \<Rightarrow> project_id \<Rightarrow> ustr \<Rightarrow> ustr option option" where
  "current_content db project name =
     (case Option.bind (topic_named db project name) (\<lambda>t. Option.bind (current_row db t) (span_joins db)) of
        None \<Rightarrow> Some None
      | Some (_, sp, v) \<Rightarrow> map_option Some (content_of_span sp v))"

definition topics_by_id :: "ledger \<Rightarrow> project_id \<Rightarrow> topic_id list \<Rightarrow> (topic_id \<times> ustr \<times> topic_state_id option) list" where
  "topics_by_id db project topics =
     map (\<lambda>t. (tp_id t, tp_name t, tp_current t)) (filter (\<lambda>t. tp_project t = project \<and> tp_id t \<in> set topics) (l_topics db))"

definition find_topic :: "ledger \<Rightarrow> project_id \<Rightarrow> ustr \<Rightarrow> topic option" where
  "find_topic db project name =
     (case topic_named db project name of
        Some t \<Rightarrow> Some (row_to_topic t)
      | None \<Rightarrow>
          (case find (\<lambda>a. al_project a = project \<and> al_name a = name) (l_aliases db) of
             None \<Rightarrow> None
           | Some a \<Rightarrow> map_option row_to_topic (find (\<lambda>t. tp_id t = al_topic a) (l_topics db))))"

text \<open>Names sort by the database's collation, an argument.\<close>

definition all_topics :: "(ustr \<Rightarrow> ustr \<Rightarrow> bool) \<Rightarrow> ledger \<Rightarrow> project_id \<Rightarrow> topic list" where
  "all_topics collate db project =
     map row_to_topic (sort_by (\<lambda>a b. collate (tp_name a) (tp_name b)) (filter (\<lambda>t. tp_project t = project) (l_topics db)))"

definition recent_topics :: "ledger \<Rightarrow> project_id \<Rightarrow> nat \<Rightarrow> topic list" where
  "recent_topics db project limit =
     map row_to_topic (take limit (sort_by (desc_by tp_created_at) (filter (\<lambda>t. tp_project t = project) (l_topics db))))"

definition topic_count :: "ledger \<Rightarrow> project_id \<Rightarrow> nat" where
  "topic_count db project = length (filter (\<lambda>t. tp_project t = project) (l_topics db))"

section \<open>Deleting, repairing, renaming\<close>

definition newest_state :: "ledger \<Rightarrow> topic_id \<Rightarrow> state_row option" where
  "newest_state db topic = (case sort_by (desc_by ts_number) (live_states db topic) of [] \<Rightarrow> None | r # _ \<Rightarrow> Some r)"

definition pointer_of :: "state_row option \<Rightarrow> (topic_state_id \<times> nat) option" where
  "pointer_of r = map_option (\<lambda>r. (ts_id r, ts_number r)) r"

definition delete_where :: "instant \<Rightarrow> (state_row \<Rightarrow> bool) \<Rightarrow> ledger \<Rightarrow> ledger" where
  "delete_where now P db = db\<lparr>l_states :=
     map (\<lambda>r. if P r \<and> ts_deleted_at r = None then r\<lparr>ts_deleted_at := Some now\<rparr> else r) (l_states db)\<rparr>"

definition soft_delete_topic_state :: "instant \<Rightarrow> topic_id \<Rightarrow> nat \<Rightarrow> ledger \<Rightarrow> bool \<times> ledger" where
  "soft_delete_topic_state now topic version db =
     (if \<exists>r\<in>set (l_states db). ts_topic r = topic \<and> ts_number r = version \<and> ts_deleted_at r = None
      then let db1 = delete_where now (\<lambda>r. ts_topic r = topic \<and> ts_number r = version) db
           in (True, point_at topic (pointer_of (newest_state db1 topic)) db1)
      else (False, db))"

definition retire_topic ::
  "instant \<Rightarrow> (nat \<Rightarrow> job_id) \<Rightarrow> project_id \<Rightarrow> topic_id \<Rightarrow> ledger \<Rightarrow> (bool \<times> ledger) option" where
  "retire_topic now fresh_job project topic db =
     (if live_states db topic = [] then Some (False, db)
      else let db1 = point_at topic None (delete_where now (\<lambda>r. ts_topic r = topic) db)
           in map_option (\<lambda>jobs. (True, db1\<lparr>l_jobs := jobs\<rparr>))
                (enqueue_all now fresh_job project [SyncTopicIndex, DeriveMentions] (Some (uuid_of topic)) (l_jobs db1)))"

definition pointer_row :: "topic_row \<Rightarrow> (topic_state_id \<times> nat) option \<Rightarrow> bool" where
  "pointer_row t p \<longleftrightarrow> tp_current t = map_option fst p \<and> tp_current_version t = map_option snd p"

definition repair_current_state_pointers :: "project_id \<Rightarrow> ledger \<Rightarrow> nat \<times> ledger" where
  "repair_current_state_pointers project db =
     (let wrong = (\<lambda>t. tp_project t = project \<and> \<not> pointer_row t (pointer_of (newest_state db (tp_id t))))
      in (length (filter wrong (l_topics db)),
          db\<lparr>l_topics := map (\<lambda>t. if wrong t
             then t\<lparr>tp_current := map_option ts_id (newest_state db (tp_id t)),
                    tp_current_version := map_option ts_number (newest_state db (tp_id t))\<rparr> else t) (l_topics db)\<rparr>))"

definition put_alias :: "instant \<Rightarrow> project_id \<Rightarrow> ustr \<Rightarrow> ustr \<Rightarrow> topic_id \<Rightarrow> alias_row list \<Rightarrow> alias_row list" where
  "put_alias now project f t topic aliases =
     (let kept = filter (\<lambda>a. \<not> (al_project a = project \<and> al_name a = t)) aliases
      in if \<exists>a\<in>set kept. al_project a = project \<and> al_name a = f
         then map (\<lambda>a. if al_project a = project \<and> al_name a = f then a\<lparr>al_topic := topic, al_renamed_at := now\<rparr> else a) kept
         else kept @ [\<lparr>al_project = project, al_name = f, al_topic = topic, al_renamed_at = now\<rparr>])"

definition retitled :: "topic_id \<Rightarrow> ustr \<Rightarrow> topic_row \<Rightarrow> topic_row" where
  "retitled topic name t = (if tp_id t = topic then t\<lparr>tp_name := name\<rparr> else t)"

definition refiled :: "project_id \<Rightarrow> ustr \<Rightarrow> ustr \<Rightarrow> source_row \<Rightarrow> source_row" where
  "refiled project f t s = (if so_project s = project \<and> so_locator s = f then s\<lparr>so_locator := t\<rparr> else s)"

definition rename_topic ::
  "instant \<Rightarrow> (nat \<Rightarrow> job_id) \<Rightarrow> project_id \<Rightarrow> topic_id \<Rightarrow> ustr \<times> ustr \<Rightarrow> ustr \<times> ustr \<Rightarrow> ledger \<Rightarrow> (bool \<times> ledger) option" where
  "rename_topic now fresh_job project topic names locators db =
     (if topic_named db project (snd names) \<noteq> None \<or> source_here db project (snd locators) \<noteq> None then Some (False, db)
      else
        let db1 = db\<lparr>l_topics := map (retitled topic (snd names)) (l_topics db),
              l_sources := map (refiled project (fst locators) (snd locators)) (l_sources db),
              l_aliases := put_alias now project (fst names) (snd names) topic (l_aliases db)\<rparr>
        in map_option (\<lambda>jobs. (True, db1\<lparr>l_jobs := jobs\<rparr>))
             (enqueue_all now fresh_job project [SyncTopicIndex] (Some (uuid_of topic)) (l_jobs db1)))"

text \<open>A file's record is forgotten when one of its sections' topics is written by hand.\<close>

definition forget_file_record_of :: "project_id \<Rightarrow> ustr \<Rightarrow> ledger \<Rightarrow> ledger" where
  "forget_file_record_of project topic db = db\<lparr>l_files := filter (\<lambda>f. \<not>
     (\<exists>s\<in>set (l_sources db). so_project s = project \<and> so_locator s = lit ''file:'' @ topic \<and>
        fi_project f = project \<and> so_root s = Some (fi_root f) \<and>
        (topic = fi_file f \<or> starts_with topic (fi_file f @ [32, 8250, 32]) \<or> starts_with topic (fi_file f @ lit '' #'')))) (l_files db)\<rparr>"

end
