(* ===== verification/Store_Ledger_Inv.thy ===== *)
theory Store_Ledger_Inv
  imports Store_Ledger
begin

text \<open>
  The ledger's invariant and that every statement keeps it: identities and names are unique, versions
  are numbered without gap or repeat, spans cover their evidence, a state follows the one it
  supersedes, and each topic points at its newest undeleted state.
\<close>

section \<open>Numbers\<close>

text \<open>The versions of one thing are numbered from 1 with no gap and no repeat.\<close>

definition numbers_dense :: "nat list \<Rightarrow> bool" where
  "numbers_dense ns \<longleftrightarrow> set ns = {1..length ns}"

lemma numbers_dense_Nil [simp]: "numbers_dense []"
  by (simp add: numbers_dense_def)

lemma numbers_dense_distinct: "numbers_dense ns \<Longrightarrow> distinct ns"
  by (rule card_distinct) (simp add: numbers_dense_def)

lemma foldr_max_dense:
  assumes "numbers_dense ns"
  shows "foldr max ns 0 = length ns"
proof -
  have *: "foldr max xs 0 = Max (insert 0 (set xs))" for xs :: "nat list"
    by (induction xs) (simp_all add: Max_insert [symmetric] insert_commute del: Max_insert)
  have "Max (insert 0 {1..n}) = n" for n :: nat
    by (rule Max_eqI) auto
  then show ?thesis using assms by (simp add: * numbers_dense_def)
qed

lemma following_dense: "numbers_dense ns \<Longrightarrow> following_number ns = (if length ns + 1 < 2 ^ 31 then Some (length ns + 1) else None)"
  by (simp add: following_number_def Let_def foldr_max_dense)

lemma numbers_dense_snoc: "numbers_dense ns \<Longrightarrow> following_number ns = Some n \<Longrightarrow> numbers_dense (ns @ [n])"
  by (auto simp: following_dense numbers_dense_def split: if_splits)

section \<open>The invariant\<close>

definition sources_ok :: "source_row list \<Rightarrow> bool" where
  "sources_ok ss \<longleftrightarrow> distinct (map so_id ss) \<and> distinct (map (\<lambda>s. (so_project s, so_locator s)) ss)"

definition evidence_ok :: "source_row list \<Rightarrow> source_version list \<Rightarrow> source_span list \<Rightarrow> bool" where
  "evidence_ok ss vs sps \<longleftrightarrow>
     distinct (map sv_id vs) \<and> distinct (map sp_id sps) \<and> (\<forall>v\<in>set vs. sv_source v \<in> so_id ` set ss) \<and>
     (\<forall>project source. numbers_dense (map sv_number (filter (\<lambda>v. sv_project v = project \<and> sv_source v = source) vs))) \<and>
     (\<forall>sp\<in>set sps. \<exists>v\<in>set vs. sv_id v = sp_version sp \<and> sp_start sp = 0 \<and> sp_end sp = byte_len (sv_content v))"

definition topics_ok :: "topic_row list \<Rightarrow> bool" where
  "topics_ok ts \<longleftrightarrow> distinct (map tp_id ts) \<and> distinct (map (\<lambda>t. (tp_project t, tp_name t)) ts)"

definition states_of :: "state_row list \<Rightarrow> topic_id \<Rightarrow> state_row list" where
  "states_of rs topic = filter (\<lambda>r. ts_topic r = topic) rs"

definition states_ok :: "topic_row list \<Rightarrow> source_span list \<Rightarrow> state_row list \<Rightarrow> bool" where
  "states_ok ts sps rs \<longleftrightarrow>
     distinct (map ts_id rs) \<and>
     (\<forall>r\<in>set rs. ts_span r \<in> sp_id ` set sps \<and> (\<exists>t\<in>set ts. tp_id t = ts_topic r \<and> tp_project t = ts_project r)) \<and>
     (\<forall>topic. numbers_dense (map ts_number (states_of rs topic))) \<and>
     (\<forall>r\<in>set rs. \<forall>s. ts_supersedes r = Some s \<longrightarrow>
        (\<exists>r'\<in>set rs. ts_id r' = s \<and> ts_topic r' = ts_topic r \<and> ts_number r' < ts_number r))"

definition pointers_ok :: "ledger \<Rightarrow> bool" where
  "pointers_ok db \<longleftrightarrow> (\<forall>t\<in>set (l_topics db). pointer_row t (pointer_of (newest_state db (tp_id t))))"

definition ledger_ok :: "ledger \<Rightarrow> bool" where
  "ledger_ok db \<longleftrightarrow> sources_ok (l_sources db) \<and> evidence_ok (l_sources db) (l_evidence db) (l_spans db) \<and>
     topics_ok (l_topics db) \<and> states_ok (l_topics db) (l_spans db) (l_states db) \<and> pointers_ok db \<and> queue_ok (l_jobs db)"

lemma ledger_okD:
  assumes "ledger_ok db"
  shows "sources_ok (l_sources db)" "evidence_ok (l_sources db) (l_evidence db) (l_spans db)" "topics_ok (l_topics db)"
    "states_ok (l_topics db) (l_spans db) (l_states db)" "pointers_ok db" "queue_ok (l_jobs db)"
  using assms unfolding ledger_ok_def by blast+

lemma ledger_okI:
  "sources_ok (l_sources db) \<Longrightarrow> evidence_ok (l_sources db) (l_evidence db) (l_spans db) \<Longrightarrow> topics_ok (l_topics db) \<Longrightarrow>
    states_ok (l_topics db) (l_spans db) (l_states db) \<Longrightarrow> pointers_ok db \<Longrightarrow> queue_ok (l_jobs db) \<Longrightarrow> ledger_ok db"
  unfolding ledger_ok_def by blast

section \<open>The newest state\<close>

lemma in_live: "r \<in> set (live_states db topic) \<longleftrightarrow> r \<in> set (l_states db) \<and> ts_topic r = topic \<and> ts_deleted_at r = None"
  by (auto simp: live_states_def)

lemma state_by_number:
  assumes "states_ok ts sps rs" "r \<in> set rs" "r' \<in> set rs" "ts_topic r = ts_topic r'" "ts_number r = ts_number r'"
  shows "r = r'"
proof -
  have "distinct (map ts_number (states_of rs (ts_topic r)))"
    using assms(1) numbers_dense_distinct unfolding states_ok_def by blast
  moreover have "r \<in> set (states_of rs (ts_topic r))" "r' \<in> set (states_of rs (ts_topic r))"
    using assms(2-4) by (simp_all add: states_of_def)
  ultimately show ?thesis using assms(5) by (auto simp: distinct_map dest: inj_onD)
qed

lemma newest_stateD:
  assumes "newest_state db topic = Some r"
  shows "r \<in> set (live_states db topic)" and "r' \<in> set (live_states db topic) \<Longrightarrow> ts_number r' \<le> ts_number r"
proof -
  obtain rs where s: "sort_by (desc_by ts_number) (live_states db topic) = r # rs"
    using assms by (auto simp: newest_state_def split: list.splits)
  have "r \<in> set (sort_by (desc_by ts_number) (live_states db topic))" by (simp add: s)
  then show "r \<in> set (live_states db topic)" by simp
  show "ts_number r' \<le> ts_number r" if "r' \<in> set (live_states db topic)"
    using preorder_by.sort_by_Cons_least [OF preorder_desc_by s that] by (simp add: desc_by_def)
qed

lemma newest_state_None: "newest_state db topic = None \<longleftrightarrow> live_states db topic = []"
  by (auto simp: newest_state_def split: list.splits)

lemma newest_stateI:
  assumes ok: "states_ok ts sps (l_states db)" and r: "r \<in> set (live_states db topic)"
    and top: "\<And>r'. r' \<in> set (live_states db topic) \<Longrightarrow> ts_number r' \<le> ts_number r"
  shows "newest_state db topic = Some r"
proof -
  have "newest_state db topic \<noteq> None" using r newest_state_None [of db topic] by auto
  then obtain r' where r': "newest_state db topic = Some r'" by blast
  have "r' \<in> set (live_states db topic)" by (rule newest_stateD(1) [OF r'])
  moreover have "ts_number r' = ts_number r" using top calculation newest_stateD(2) [OF r' r] by fastforce
  ultimately have "r' = r" using state_by_number [OF ok] r in_live by metis
  then show ?thesis using r' by simp
qed

lemma newest_state_cong: "live_states db topic = live_states db' topic \<Longrightarrow> newest_state db topic = newest_state db' topic"
  by (simp add: newest_state_def)

section \<open>Each statement keeps it\<close>

lemma point_at_fields [simp]:
  "l_sources (point_at topic s db) = l_sources db" "l_evidence (point_at topic s db) = l_evidence db"
  "l_spans (point_at topic s db) = l_spans db" "l_states (point_at topic s db) = l_states db"
  "l_jobs (point_at topic s db) = l_jobs db" "l_aliases (point_at topic s db) = l_aliases db"
  "l_names (point_at topic s db) = l_names db" "l_files (point_at topic s db) = l_files db"
  by (simp_all add: point_at_def)

lemma point_at_topics: "l_topics (point_at topic s db) =
    map (\<lambda>t. if tp_id t = topic then t\<lparr>tp_current := map_option fst s, tp_current_version := map_option snd s\<rparr> else t) (l_topics db)"
  by (simp add: point_at_def)

lemma topics_ok_map:
  assumes "\<And>t. tp_id (f t) = tp_id t" "\<And>t. tp_project (f t) = tp_project t" "\<And>t. tp_name (f t) = tp_name t"
  shows "topics_ok (map f ts) = topics_ok ts"
  by (simp add: topics_ok_def comp_def assms)

lemma states_ok_topics:
  assumes "\<And>t. tp_id (f t) = tp_id t" "\<And>t. tp_project (f t) = tp_project t"
  shows "states_ok (map f ts) sps rs = states_ok ts sps rs"
  by (simp add: states_ok_def assms)

lemma pointed_topics_ok [simp]:
  "topics_ok (l_topics (point_at topic s db)) = topics_ok (l_topics db)"
  "states_ok (l_topics (point_at topic s db)) sps rs = states_ok (l_topics db) sps rs"
  unfolding point_at_topics by (rule topics_ok_map states_ok_topics; simp)+

lemma newest_point_at [simp]: "newest_state (point_at topic s db) t = newest_state db t"
  by (rule newest_state_cong) (simp add: live_states_def)

lemma pointers_point_at:
  assumes "\<And>t. t \<in> set (l_topics db) \<Longrightarrow> tp_id t \<noteq> topic \<Longrightarrow> pointer_row t (pointer_of (newest_state db (tp_id t)))"
    and "s = pointer_of (newest_state db topic)"
  shows "pointers_ok (point_at topic s db)"
  using assms by (auto simp: pointers_ok_def point_at_topics pointer_row_def)

lemma map_keeps_row:
  assumes "distinct (map f xs)" and "distinct (map g xs)" and "\<And>x. f (h x) = f x" "\<And>x. g (h x) = g x"
  shows "distinct (map f (map h xs)) \<and> distinct (map g (map h xs))"
  using assms by (simp add: comp_def)

lemma ensure_source_ok:
  assumes ok: "ledger_ok db" and e: "ensure_source_created now fresh project kind locator db = Some ((s, created), db')"
  shows "ledger_ok db'"
    and "\<exists>r\<in>set (l_sources db'). so_id r = s \<and> so_project r = project \<and> so_locator r = locator"
    and "l_evidence db' = l_evidence db" "l_spans db' = l_spans db" "l_topics db' = l_topics db" "l_states db' = l_states db"
      "l_aliases db' = l_aliases db" "l_names db' = l_names db" "l_files db' = l_files db" "l_jobs db' = l_jobs db"
      "set (l_sources db) \<subseteq> set (l_sources db')" "created \<longleftrightarrow> source_here db project locator = None"
proof -
  have a: "db' = db \<or> db' = db\<lparr>l_sources := l_sources db @ [\<lparr>so_id = fresh, so_project = project, so_kind = kind,
       so_locator = locator, so_created_at = now, so_root = None\<rparr>]\<rparr> \<and> fresh \<notin> so_id ` set (l_sources db) \<and>
       source_here db project locator = None"
    using e by (auto simp: ensure_source_created_def split: option.splits if_splits)
  then show "l_evidence db' = l_evidence db" "l_spans db' = l_spans db" "l_topics db' = l_topics db" "l_states db' = l_states db"
      "l_aliases db' = l_aliases db" "l_names db' = l_names db" "l_files db' = l_files db" "l_jobs db' = l_jobs db"
      "set (l_sources db) \<subseteq> set (l_sources db')" by auto
  show "created \<longleftrightarrow> source_here db project locator = None"
    using e by (auto simp: ensure_source_created_def split: option.splits if_splits)
  show "\<exists>r\<in>set (l_sources db'). so_id r = s \<and> so_project r = project \<and> so_locator r = locator"
    using e by (auto simp: ensure_source_created_def source_here_def split: option.splits if_splits dest!: find_SomeD)
  have p: "pointers_ok db' = pointers_ok db" "queue_ok (l_jobs db') = queue_ok (l_jobs db)"
    using a by (auto simp: pointers_ok_def newest_state_def live_states_def)
  show "ledger_ok db'"
  proof (cases "db' = db")
    case False
    then have f: "l_sources db' = l_sources db @ [\<lparr>so_id = fresh, so_project = project, so_kind = kind,
       so_locator = locator, so_created_at = now, so_root = None\<rparr>]" "fresh \<notin> so_id ` set (l_sources db)"
       "source_here db project locator = None"
       "l_evidence db' = l_evidence db" "l_spans db' = l_spans db" "l_topics db' = l_topics db" "l_states db' = l_states db"
      using a by auto
    have "(project, locator) \<notin> (\<lambda>s. (so_project s, so_locator s)) ` set (l_sources db)"
      using f(3) by (auto simp: source_here_def find_None_iff)
    then show ?thesis
      using ok p unfolding ledger_ok_def f by (auto simp: sources_ok_def evidence_ok_def f(2))
  qed (use ok in simp)
qed

lemma pointers_cong: "l_topics db' = l_topics db \<Longrightarrow> l_states db' = l_states db \<Longrightarrow> pointers_ok db' = pointers_ok db"
  by (simp add: pointers_ok_def newest_state_def live_states_def)

lemma insert_versionD:
  assumes "insert_version now vid sid project source ev db = Some ((v, sp), db')"
  shows "following_number (source_numbers db project source) = Some (sv_number v)"
    and "v = \<lparr>sv_id = vid, sv_project = project, sv_source = source, sv_number = sv_number v, sv_content = ev_content ev,
       sv_hash = ev_hash ev, sv_decision = ev_decision ev, sv_reason = ev_reason ev, sv_recorded_at = now\<rparr>"
    and "sp = \<lparr>sp_id = sid, sp_project = project, sp_version = vid, sp_start = 0, sp_end = byte_len (ev_content ev),
       sp_language = ev_language ev, sp_confidence = ev_confidence ev\<rparr>"
    and "vid \<notin> sv_id ` set (l_evidence db)" "sid \<notin> sp_id ` set (l_spans db)" "source \<in> so_id ` set (l_sources db)"
    and "db' = db\<lparr>l_evidence := l_evidence db @ [v], l_spans := l_spans db @ [sp]\<rparr>"
  using assms by (auto simp: insert_version_def Let_def split: option.splits if_splits)

lemma evidence_ok_snoc:
  assumes ok: "evidence_ok ss vs sps" and vid: "sv_id v \<notin> sv_id ` set vs" and sid: "sp_id sp \<notin> sp_id ` set sps"
    and source: "sv_source v \<in> so_id ` set ss"
    and n: "following_number (map sv_number (filter (\<lambda>w. sv_project w = sv_project v \<and> sv_source w = sv_source v) vs)) = Some (sv_number v)"
    and sp: "sp_version sp = sv_id v" "sp_start sp = 0" "sp_end sp = byte_len (sv_content v)"
  shows "evidence_ok ss (vs @ [v]) (sps @ [sp])"
proof -
  have d: "numbers_dense (map sv_number (filter (\<lambda>w. sv_project w = p \<and> sv_source w = s) (vs @ [v])))" for p s
  proof (cases "p = sv_project v \<and> s = sv_source v")
    case True
    have "numbers_dense (map sv_number (filter (\<lambda>w. sv_project w = p \<and> sv_source w = s) vs))"
      using ok unfolding evidence_ok_def by blast
    from numbers_dense_snoc [OF this] show ?thesis using True n by simp
  next
    case False
    then have "filter (\<lambda>w. sv_project w = p \<and> sv_source w = s) (vs @ [v]) = filter (\<lambda>w. sv_project w = p \<and> sv_source w = s) vs"
      by auto
    then show ?thesis using ok unfolding evidence_ok_def by metis
  qed
  show ?thesis
    unfolding evidence_ok_def
  proof (intro conjI allI ballI)
    fix p s show "numbers_dense (map sv_number (filter (\<lambda>w. sv_project w = p \<and> sv_source w = s) (vs @ [v])))" by (rule d)
  next
    fix x assume "x \<in> set (sps @ [sp])"
    then show "\<exists>w\<in>set (vs @ [v]). sv_id w = sp_version x \<and> sp_start x = 0 \<and> sp_end x = byte_len (sv_content w)"
      using ok sp unfolding evidence_ok_def by auto
  next
    fix x assume "x \<in> set (vs @ [v])"
    then show "sv_source x \<in> so_id ` set ss" using ok source unfolding evidence_ok_def by auto
  qed (use ok vid sid in \<open>simp_all add: evidence_ok_def\<close>)
qed

lemma states_ok_spans: "states_ok ts sps rs \<Longrightarrow> set sps \<subseteq> set sps' \<Longrightarrow> states_ok ts sps' rs"
  unfolding states_ok_def by blast

lemma states_ok_more_topics: "states_ok ts sps rs \<Longrightarrow> set ts \<subseteq> set ts' \<Longrightarrow> states_ok ts' sps rs"
  unfolding states_ok_def by blast

lemma insert_version_ok:
  assumes ok: "ledger_ok db" and i: "insert_version now vid sid project source ev db = Some ((v, sp), db')"
  shows "ledger_ok db'"
proof -
  note d = insert_versionD [OF i]
  have f: "sv_id v = vid" "sv_project v = project" "sv_source v = source" "sv_content v = ev_content ev"
    using arg_cong [OF d(2), of sv_id] arg_cong [OF d(2), of sv_project] arg_cong [OF d(2), of sv_source]
      arg_cong [OF d(2), of sv_content] by simp_all
  have e: "evidence_ok (l_sources db) (l_evidence db @ [v]) (l_spans db @ [sp])"
    by (rule evidence_ok_snoc [OF ledger_okD(2) [OF ok]])
      (use d f in \<open>simp_all add: source_numbers_def\<close>)
  have db': "l_sources db' = l_sources db" "l_evidence db' = l_evidence db @ [v]" "l_spans db' = l_spans db @ [sp]"
    "l_topics db' = l_topics db" "l_states db' = l_states db" "l_jobs db' = l_jobs db" using d(7) by simp_all
  have "states_ok (l_topics db) (l_spans db @ [sp]) (l_states db)"
    by (rule states_ok_spans [OF ledger_okD(4) [OF ok]]) auto
  moreover have "pointers_ok db'" using pointers_cong [OF db'(4,5)] ledger_okD(5) [OF ok] by simp
  ultimately show ?thesis
    using ledger_okD(1,3,6) [OF ok] e by (intro ledger_okI) (simp_all add: db')
qed

lemma append_stateD:
  assumes "append_state now state_id fresh_job project span_id pr db = Some (r, db')"
  obtains jobs where
    "following_number (state_numbers db project (to_id (lt_topic (pr_topic pr)))) = Some (ts_number r)"
    "r = \<lparr>ts_id = state_id, ts_project = project, ts_topic = to_id (lt_topic (pr_topic pr)), ts_number = ts_number r,
       ts_span = span_id, ts_observed_at = pr_observed_at pr, ts_recorded_at = now, ts_validity = pr_validity pr,
       ts_supersedes = lt_current (pr_topic pr), ts_deleted_at = None\<rparr>"
    "state_id \<notin> ts_id ` set (l_states db)"
    "enqueue_all now fresh_job project (pr_owed pr) (Some (uuid_of (to_id (lt_topic (pr_topic pr))))) (l_jobs db) = Some jobs"
    "db' = point_at (to_id (lt_topic (pr_topic pr))) (Some (state_id, ts_number r)) (db\<lparr>l_states := l_states db @ [r], l_jobs := jobs\<rparr>)"
proof -
  obtain number jobs where x: "following_number (state_numbers db project (to_id (lt_topic (pr_topic pr)))) = Some number"
    "state_id \<notin> ts_id ` set (l_states db)"
    "enqueue_all now fresh_job project (pr_owed pr) (Some (uuid_of (to_id (lt_topic (pr_topic pr))))) (l_jobs db) = Some jobs"
    "r = \<lparr>ts_id = state_id, ts_project = project, ts_topic = to_id (lt_topic (pr_topic pr)), ts_number = number,
       ts_span = span_id, ts_observed_at = pr_observed_at pr, ts_recorded_at = now, ts_validity = pr_validity pr,
       ts_supersedes = lt_current (pr_topic pr), ts_deleted_at = None\<rparr>"
    "db' = point_at (to_id (lt_topic (pr_topic pr))) (Some (state_id, number)) (db\<lparr>l_states := l_states db @ [r], l_jobs := jobs\<rparr>)"
    using assms unfolding append_state_def Let_def by (auto split: option.splits if_splits)
  have "ts_number r = number" using x(4) by simp
  then show thesis using that x by simp
qed

text \<open>Within a topic's own project the numbers a state is given are the topic's.\<close>

lemma state_numbers_topic:
  assumes "states_ok ts sps (l_states db)" "topics_ok ts" "t \<in> set ts"
  shows "state_numbers db (tp_project t) (tp_id t) = map ts_number (states_of (l_states db) (tp_id t))"
proof -
  have "ts_project r = tp_project t" if r: "r \<in> set (l_states db)" "ts_topic r = tp_id t" for r
  proof -
    obtain u where u: "u \<in> set ts" "tp_id u = ts_topic r" "tp_project u = ts_project r"
      using assms(1) r(1) unfolding states_ok_def by blast
    have "inj_on tp_id (set ts)" using assms(2) by (simp add: topics_ok_def distinct_map)
    then have "u = t" using u r(2) assms(3) by (auto dest: inj_onD)
    then show ?thesis using u by simp
  qed
  then show ?thesis unfolding state_numbers_def states_of_def
    by (intro arg_cong [of _ _ "map ts_number"] filter_cong) auto
qed

lemma states_of_snoc: "states_of (rs @ [r]) topic = states_of rs topic @ (if ts_topic r = topic then [r] else [])"
  by (simp add: states_of_def)

lemma dense_max: "numbers_dense (map ts_number (states_of rs topic)) \<Longrightarrow> r \<in> set rs \<Longrightarrow> ts_topic r = topic \<Longrightarrow>
    ts_number r \<le> length (states_of rs topic)"
proof -
  assume d: "numbers_dense (map ts_number (states_of rs topic))" and r: "r \<in> set rs" "ts_topic r = topic"
  have "ts_number r \<in> set (map ts_number (states_of rs topic))" using r by (auto simp: states_of_def)
  then show ?thesis using d by (simp add: numbers_dense_def)
qed

lemma states_ok_snoc:
  assumes ok: "states_ok ts sps rs" and t: "t \<in> set ts" "tp_id t = ts_topic r" "tp_project t = ts_project r"
    and new: "ts_id r \<notin> ts_id ` set rs" "ts_span r \<in> sp_id ` set sps"
    and n: "following_number (map ts_number (states_of rs (ts_topic r))) = Some (ts_number r)"
    and s: "\<And>s. ts_supersedes r = Some s \<Longrightarrow> \<exists>r'\<in>set rs. ts_id r' = s \<and> ts_topic r' = ts_topic r"
  shows "states_ok ts sps (rs @ [r])"
  unfolding states_ok_def
proof (intro conjI allI ballI impI)
  have d: "numbers_dense (map ts_number (states_of rs topic))" for topic using ok unfolding states_ok_def by blast
  show "numbers_dense (map ts_number (states_of (rs @ [r]) topic))" for topic
    using d numbers_dense_snoc [OF d n] by (auto simp: states_of_snoc)
  have num: "ts_number r = length (states_of rs (ts_topic r)) + 1" using n following_dense [OF d] by (auto split: if_splits)
  fix x assume x: "x \<in> set (rs @ [r])"
  show "ts_span x \<in> sp_id ` set sps" using x ok new(2) unfolding states_ok_def by auto
  show "\<exists>t\<in>set ts. tp_id t = ts_topic x \<and> tp_project t = ts_project x" using x ok t unfolding states_ok_def by auto
  fix s' assume s': "ts_supersedes x = Some s'"
  show "\<exists>r'\<in>set (rs @ [r]). ts_id r' = s' \<and> ts_topic r' = ts_topic x \<and> ts_number r' < ts_number x"
  proof (cases "x = r")
    case True
    then obtain r' where r': "r' \<in> set rs" "ts_id r' = s'" "ts_topic r' = ts_topic r" using s s' by blast
    then have "ts_number r' < ts_number r" using dense_max [OF d r'(1,3)] num by simp
    then show ?thesis using True r' by auto
  next
    case False
    then show ?thesis using x s' ok unfolding states_ok_def by auto
  qed
qed (use ok new(1) in \<open>simp add: states_ok_def\<close>)

text \<open>What the held lock says: the topic is there, under its project, with its pointer.\<close>

lemma lock_topicD:
  assumes "lock_topic db project name = Some lt"
  obtains t where "t \<in> set (l_topics db)" "topic_named db project name = Some t" "tp_project t = project" "tp_name t = name"
    "to_id (lt_topic lt) = tp_id t" "lt_current lt = tp_current t"
proof -
  obtain t where t: "topic_named db project name = Some t" "lt = row_to_locked t" using assms by (auto simp: lock_topic_def)
  from find_SomeD [OF t(1) [unfolded topic_named_def]] show thesis
    using t that [of t] by (simp add: row_to_locked_def row_to_topic_def)
qed

lemma topic_by_id: "topics_ok ts \<Longrightarrow> a \<in> set ts \<Longrightarrow> b \<in> set ts \<Longrightarrow> tp_id a = tp_id b \<Longrightarrow> a = b"
  by (auto simp: topics_ok_def distinct_map dest: inj_onD)

lemma pointer_state:
  assumes ok: "ledger_ok db" and t: "t \<in> set (l_topics db)" and c: "tp_current t = Some s"
  obtains r where "newest_state db (tp_id t) = Some r" "ts_id r = s" "r \<in> set (l_states db)" "ts_topic r = tp_id t"
    "ts_deleted_at r = None" "tp_current_version t = Some (ts_number r)"
proof -
  have p: "pointer_row t (pointer_of (newest_state db (tp_id t)))" using ledger_okD(5) [OF ok] t by (simp add: pointers_ok_def)
  then obtain r where r: "newest_state db (tp_id t) = Some r" "ts_id r = s" "tp_current_version t = Some (ts_number r)"
    using c by (cases "newest_state db (tp_id t)") (auto simp: pointer_row_def pointer_of_def)
  then show thesis using that newest_stateD(1) [OF r(1)] by (simp add: in_live)
qed

lemma append_state_ok:
  assumes ok: "ledger_ok db" and sid: "span_id \<in> sp_id ` set (l_spans db)"
    and lock: "lock_topic db project name = Some (pr_topic pr)"
    and a: "append_state now state_id fresh_job project span_id pr db = Some (r, db')"
  shows "ledger_ok db'" and "newest_state db' (to_id (lt_topic (pr_topic pr))) = Some r"
proof -
  obtain t where t: "t \<in> set (l_topics db)" "tp_project t = project" "to_id (lt_topic (pr_topic pr)) = tp_id t"
    "lt_current (pr_topic pr) = tp_current t" using lock_topicD [OF lock] by metis
  obtain jobs where j: "following_number (state_numbers db project (tp_id t)) = Some (ts_number r)"
    "r = \<lparr>ts_id = state_id, ts_project = project, ts_topic = tp_id t, ts_number = ts_number r,
       ts_span = span_id, ts_observed_at = pr_observed_at pr, ts_recorded_at = now, ts_validity = pr_validity pr,
       ts_supersedes = tp_current t, ts_deleted_at = None\<rparr>"
    "state_id \<notin> ts_id ` set (l_states db)"
    "enqueue_all now fresh_job project (pr_owed pr) (Some (uuid_of (tp_id t))) (l_jobs db) = Some jobs"
    "db' = point_at (tp_id t) (Some (state_id, ts_number r)) (db\<lparr>l_states := l_states db @ [r], l_jobs := jobs\<rparr>)"
    using append_stateD [OF a] t by metis
  have f: "ts_id r = state_id" "ts_project r = project" "ts_topic r = tp_id t" "ts_span r = span_id"
    "ts_supersedes r = tp_current t" "ts_deleted_at r = None"
    using arg_cong [OF j(2), of ts_id] arg_cong [OF j(2), of ts_project] arg_cong [OF j(2), of ts_topic] arg_cong [OF j(2), of ts_span]
      arg_cong [OF j(2), of ts_supersedes] arg_cong [OF j(2), of ts_deleted_at] by simp_all
  have n: "following_number (map ts_number (states_of (l_states db) (tp_id t))) = Some (ts_number r)"
    using j(1) state_numbers_topic [OF ledger_okD(4,3) [OF ok] t(1)] t(2) by simp
  have st: "states_ok (l_topics db) (l_spans db) (l_states db @ [r])"
  proof (rule states_ok_snoc [OF ledger_okD(4) [OF ok] t(1)])
    fix s assume "ts_supersedes r = Some s"
    then show "\<exists>r'\<in>set (l_states db). ts_id r' = s \<and> ts_topic r' = ts_topic r"
      using pointer_state [OF ok t(1), of s] f by metis
  qed (use f t j(3) sid n in simp_all)
  let ?db1 = "db\<lparr>l_states := l_states db @ [r], l_jobs := jobs\<rparr>"
  have d: "numbers_dense (map ts_number (states_of (l_states db) (tp_id t)))" using ledger_okD(4) [OF ok] unfolding states_ok_def by blast
  have num: "ts_number r = length (states_of (l_states db) (tp_id t)) + 1" using n following_dense [OF d] by (auto split: if_splits)
  have new: "newest_state ?db1 (tp_id t) = Some r"
  proof (rule newest_stateI [of "l_topics db" "l_spans db"])
    fix r' assume "r' \<in> set (live_states ?db1 (tp_id t))"
    then have "r' = r \<or> r' \<in> set (l_states db) \<and> ts_topic r' = tp_id t" by (auto simp: in_live)
    then show "ts_number r' \<le> ts_number r" using dense_max [OF d, of r'] num by auto
  qed (use st f in \<open>simp_all add: in_live\<close>)
  have other: "newest_state ?db1 x = newest_state db x" if "x \<noteq> tp_id t" for x
    by (rule newest_state_cong) (use that f in \<open>simp add: live_states_def\<close>)
  have "pointers_ok (point_at (tp_id t) (Some (state_id, ts_number r)) ?db1)"
    by (rule pointers_point_at) (use ledger_okD(5) [OF ok] other new f in \<open>simp_all add: pointers_ok_def pointer_of_def\<close>)
  then show "ledger_ok db'"
    using ledger_okD(1,2,3,6) [OF ok] st enqueue_all_ok [OF ledger_okD(6) [OF ok] j(4)]
    by (intro ledger_okI) (simp_all add: j(5))
  show "newest_state db' (to_id (lt_topic (pr_topic pr))) = Some r" using new by (simp add: j(5) t(3))
qed

lemma lock_after_insert:
  assumes "insert_version now vid sid project source ev db = Some (x, db')"
  shows "lock_topic db' p name = lock_topic db p name"
  using assms insert_versionD(7) [of now vid sid project source ev db "fst x" "snd x" db'] by (simp add: lock_topic_def topic_named_def)

lemma append_promoted_ok:
  assumes ok: "ledger_ok db" and lock: "lock_topic db project name = Some (pr_topic pr)"
    and a: "append_promoted now vid sid state_id fresh_job project source ev pr db = Some (x, db')"
  shows "ledger_ok db'"
proof -
  obtain v sp db1 r where s: "insert_version now vid sid project source ev db = Some ((v, sp), db1)"
    "append_state now state_id fresh_job project sid pr db1 = Some (r, db')"
    using a by (auto simp: append_promoted_def split: option.splits prod.splits)
  have "sp_id sp = sid" using insert_versionD(3) [OF s(1)] by simp
  then have "sid \<in> sp_id ` set (l_spans db1)" using insert_versionD(7) [OF s(1)] by simp
  then show ?thesis using append_state_ok(1) [OF insert_version_ok [OF ok s(1)] _ _ s(2)] lock lock_after_insert [OF s(1)] by simp
qed

lemma create_topicD:
  assumes "create_topic now fresh project name named db = Some (lt, db')"
  obtains (found) t where "topic_named db project name = Some t" "lt = row_to_locked t" "db' = db"
  | (new) t where "topic_named db project name = None" "fresh \<notin> tp_id ` set (l_topics db)"
      "t = \<lparr>tp_id = fresh, tp_project = project, tp_name = name, tp_path = None, tp_created_at = now,
         tp_current = None, tp_current_version = None\<rparr>" "lt = row_to_locked t"
      "l_topics db' = l_topics db @ [t]" "l_states db' = l_states db" "l_sources db' = l_sources db"
      "l_evidence db' = l_evidence db" "l_spans db' = l_spans db" "l_jobs db' = l_jobs db" "l_aliases db' = l_aliases db"
      "l_files db' = l_files db"
  using assms by (auto simp: create_topic_def Let_def split: option.splits if_splits)

lemma no_states_yet:
  assumes "states_ok ts sps rs" "topic \<notin> tp_id ` set ts" "r \<in> set rs"
  shows "ts_topic r \<noteq> topic"
  using assms unfolding states_ok_def by force

lemma topics_ok_snoc:
  "topics_ok ts \<Longrightarrow> tp_id t \<notin> tp_id ` set ts \<Longrightarrow> (tp_project t, tp_name t) \<notin> (\<lambda>t. (tp_project t, tp_name t)) ` set ts \<Longrightarrow>
    topics_ok (ts @ [t])"
  by (simp add: topics_ok_def)

lemma create_topic_ok:
  assumes ok: "ledger_ok db" and c: "create_topic now fresh project name named db = Some (lt, db')"
  shows "ledger_ok db' \<and> lock_topic db' project name = Some lt"
  using c
proof (cases rule: create_topicD)
  case (found t)
  then show ?thesis using ok by (simp add: lock_topic_def)
next
  case (new t)
  have "(project, name) \<notin> (\<lambda>t. (tp_project t, tp_name t)) ` set (l_topics db)"
    using new(1) by (auto simp: topic_named_def find_None_iff)
  then have t: "topics_ok (l_topics db')" unfolding new(5) using ledger_okD(3) [OF ok] new(2,3) by (intro topics_ok_snoc) simp_all
  have s: "states_ok (l_topics db') (l_spans db') (l_states db')"
    unfolding new by (rule states_ok_more_topics [OF ledger_okD(4) [OF ok]]) auto
  have n: "newest_state db' x = newest_state db x" for x by (rule newest_state_cong) (simp add: live_states_def new)
  have "live_states db fresh = []"
    using no_states_yet [OF ledger_okD(4) [OF ok] new(2)] by (simp add: live_states_def filter_empty_conv)
  then have "newest_state db fresh = None" by (simp add: newest_state_None)
  then have "pointers_ok db'"
    using ledger_okD(5) [OF ok] by (auto simp: pointers_ok_def n new pointer_row_def pointer_of_def)
  with t s have "ledger_ok db'" using ledger_okD(1,2,6) [OF ok] by (intro ledger_okI) (simp_all add: new)
  moreover have "find P (xs @ [y]) = (case find P xs of None \<Rightarrow> if P y then Some y else None | Some x \<Rightarrow> Some x)"
    for P and xs :: "topic_row list" and y by (induction xs) auto
  then have "topic_named db' project name = Some t"
    using new(1,3) by (simp add: topic_named_def new(5))
  ultimately show ?thesis by (simp add: lock_topic_def new(4))
qed

lemma name_topic_fields:
  "l_topics (snd (name_topic project name key tokens db)) = l_topics db" "l_states (snd (name_topic project name key tokens db)) = l_states db"
  "l_sources (snd (name_topic project name key tokens db)) = l_sources db" "l_evidence (snd (name_topic project name key tokens db)) = l_evidence db"
  "l_spans (snd (name_topic project name key tokens db)) = l_spans db" "l_jobs (snd (name_topic project name key tokens db)) = l_jobs db"
  by (simp_all add: name_topic_def split: option.split)

lemma record_name_fields:
  "l_topics (record_topic_name p x db) = l_topics db" "l_states (record_topic_name p x db) = l_states db"
  "l_sources (record_topic_name p x db) = l_sources db" "l_evidence (record_topic_name p x db) = l_evidence db"
  "l_spans (record_topic_name p x db) = l_spans db" "l_jobs (record_topic_name p x db) = l_jobs db"
  by (simp_all add: record_topic_name_def split: prod.split)

lemma record_names_fields:
  "l_topics (fold (record_topic_name p) xs db) = l_topics db" "l_states (fold (record_topic_name p) xs db) = l_states db"
  "l_sources (fold (record_topic_name p) xs db) = l_sources db" "l_evidence (fold (record_topic_name p) xs db) = l_evidence db"
  "l_spans (fold (record_topic_name p) xs db) = l_spans db" "l_jobs (fold (record_topic_name p) xs db) = l_jobs db"
  by (induction xs arbitrary: db) (simp_all add: record_name_fields)

text \<open>A statement that touches none of the checked tables keeps the invariant.\<close>

lemma ledger_ok_cong:
  assumes "ledger_ok db" "l_topics db' = l_topics db" "l_states db' = l_states db" "l_sources db' = l_sources db"
    "l_evidence db' = l_evidence db" "l_spans db' = l_spans db" "queue_ok (l_jobs db')"
  shows "ledger_ok db'"
  using ledger_okD [OF assms(1)] assms(7) pointers_cong [OF assms(2,3)] by (intro ledger_okI) (simp_all add: assms)

lemma sources_map_ok:
  assumes "ledger_ok db" and db': "db' = db\<lparr>l_sources := map f (l_sources db)\<rparr>"
    and "\<And>s. so_id (f s) = so_id s" "\<And>s. so_project (f s) = so_project s" "\<And>s. so_locator (f s) = so_locator s"
  shows "ledger_ok db'"
proof -
  have "so_id ` set (map f (l_sources db)) = so_id ` set (l_sources db)" by (simp add: image_image assms)
  then have "evidence_ok (map f (l_sources db)) vs sps = evidence_ok (l_sources db) vs sps" for vs sps
    by (simp only: evidence_ok_def)
  moreover have "sources_ok (map f (l_sources db)) = sources_ok (l_sources db)" by (simp add: sources_ok_def comp_def assms)
  ultimately show ?thesis
    using ledger_okD [OF assms(1)] pointers_cong [of db' db] by (intro ledger_okI) (simp_all add: db')
qed

lemma set_source_root_ok: "ledger_ok db \<Longrightarrow> ledger_ok (set_source_root source tree db)"
  by (rule sources_map_ok [of db _ "\<lambda>s. if so_id s = source \<and> so_root s \<noteq> Some tree then s\<lparr>so_root := Some tree\<rparr> else s"])
    (simp_all add: set_source_root_def)

lemma set_roots_at_ok: "ledger_ok db \<Longrightarrow> ledger_ok (set_roots_at project locators tree db)"
proof (cases "locators = []")
  case False
  assume "ledger_ok db"
  then show ?thesis
    by (rule sources_map_ok [of db _ "\<lambda>s. if so_project s = project \<and> so_locator s \<in> set locators \<and> so_root s \<noteq> Some tree
         then s\<lparr>so_root := Some tree\<rparr> else s"]) (simp_all add: set_roots_at_def False)
qed (simp add: set_roots_at_def)

section \<open>Deleting\<close>

lemma delete_where_fields [simp]:
  "l_topics (delete_where now P db) = l_topics db" "l_sources (delete_where now P db) = l_sources db"
  "l_evidence (delete_where now P db) = l_evidence db" "l_spans (delete_where now P db) = l_spans db"
  "l_jobs (delete_where now P db) = l_jobs db" "l_aliases (delete_where now P db) = l_aliases db"
  "l_names (delete_where now P db) = l_names db" "l_files (delete_where now P db) = l_files db"
  by (simp_all add: delete_where_def)

definition closed_off :: "instant \<Rightarrow> (state_row \<Rightarrow> bool) \<Rightarrow> state_row \<Rightarrow> state_row" where
  "closed_off now P r = (if P r \<and> ts_deleted_at r = None then r\<lparr>ts_deleted_at := Some now\<rparr> else r)"

lemma closed_off_fields [simp]:
  "ts_id (closed_off now P r) = ts_id r" "ts_topic (closed_off now P r) = ts_topic r" "ts_number (closed_off now P r) = ts_number r"
  "ts_project (closed_off now P r) = ts_project r" "ts_span (closed_off now P r) = ts_span r"
  "ts_supersedes (closed_off now P r) = ts_supersedes r"
  "ts_deleted_at (closed_off now P r) = None \<longleftrightarrow> ts_deleted_at r = None \<and> \<not> P r"
  by (auto simp: closed_off_def)

lemma delete_where_states: "l_states (delete_where now P db) = map (closed_off now P) (l_states db)"
  by (simp add: delete_where_def closed_off_def [abs_def])

lemma states_ok_closed: "states_ok ts sps (map (closed_off now P) rs) = states_ok ts sps rs"
proof -
  have "map ts_number (states_of (map (closed_off now P) rs) topic) = map ts_number (states_of rs topic)" for topic
    by (simp add: states_of_def filter_map comp_def)
  then show ?thesis by (simp add: states_ok_def comp_def)
qed

lemma live_delete_where: "live_states (delete_where now P db) topic = filter (\<lambda>r. \<not> P r) (live_states db topic)"
  if "\<And>r. P r \<Longrightarrow> True"
proof -
  have "filter (\<lambda>r. ts_topic r = topic \<and> ts_deleted_at r = None) (map (closed_off now P) rs)
      = filter (\<lambda>r. \<not> P r) (filter (\<lambda>r. ts_topic r = topic \<and> ts_deleted_at r = None) rs)" for rs
    by (induction rs) (auto simp: closed_off_def)
  then show ?thesis by (simp add: live_states_def delete_where_states)
qed

lemma deleted_ok:
  assumes ok: "ledger_ok db" and P: "\<And>r. P r \<Longrightarrow> ts_topic r = topic"
  shows "ledger_ok (point_at topic (pointer_of (newest_state (delete_where now P db) topic)) (delete_where now P db))"
proof -
  let ?db1 = "delete_where now P db"
  have other: "newest_state ?db1 x = newest_state db x" if x: "x \<noteq> topic" for x
  proof (rule newest_state_cong)
    have "\<not> P r" if "r \<in> set (live_states db x)" for r using P that x by (auto simp: in_live)
    then show "live_states ?db1 x = live_states db x" by (simp add: live_delete_where filter_id_conv)
  qed
  have "pointers_ok (point_at topic (pointer_of (newest_state ?db1 topic)) ?db1)"
    by (rule pointers_point_at) (use ledger_okD(5) [OF ok] other in \<open>simp_all add: pointers_ok_def\<close>)
  then show ?thesis
    using ledger_okD [OF ok] by (intro ledger_okI) (simp_all add: delete_where_states states_ok_closed)
qed

lemma soft_delete_ok: "ledger_ok db \<Longrightarrow> ledger_ok (snd (soft_delete_topic_state now topic version db))"
  using deleted_ok [of db "\<lambda>r. ts_topic r = topic \<and> ts_number r = version" topic now]
  by (simp add: soft_delete_topic_state_def Let_def)

lemma retire_topicD:
  assumes "retire_topic now fresh project topic db = Some (b, db')"
  obtains (gone) "live_states db topic = []" "\<not> b" "db' = db"
  | (retired) jobs where "live_states db topic \<noteq> []" b
      "enqueue_all now fresh project [SyncTopicIndex, DeriveMentions] (Some (uuid_of topic)) (l_jobs db) = Some jobs"
      "db' = (point_at topic None (delete_where now (\<lambda>r. ts_topic r = topic) db))\<lparr>l_jobs := jobs\<rparr>"
  using assms by (auto simp: retire_topic_def Let_def split: if_splits)

lemma newest_after_retire: "newest_state (delete_where now (\<lambda>r. ts_topic r = topic) db) topic = None"
  by (auto simp: newest_state_None live_delete_where filter_empty_conv in_live)

lemma retire_topic_ok:
  assumes ok: "ledger_ok db" and r: "retire_topic now fresh project topic db = Some (b, db')"
  shows "ledger_ok db'"
  using r
proof (cases rule: retire_topicD)
  case (retired jobs)
  have p: "ledger_ok (point_at topic None (delete_where now (\<lambda>r. ts_topic r = topic) db))"
    using deleted_ok [OF ok, of "\<lambda>r. ts_topic r = topic" topic now] by (simp add: newest_after_retire pointer_of_def)
  have "queue_ok jobs" using enqueue_all_ok [OF ledger_okD(6) [OF ok] retired(3)] .
  then show ?thesis unfolding retired(4) by (intro ledger_ok_cong [OF p]) simp_all
qed (use ok in simp)

section \<open>Repairing\<close>

text \<open>Where the invariant holds there is nothing to repair.\<close>

lemma repair_noop:
  assumes "ledger_ok db"
  shows "repair_current_state_pointers project db = (0, db)"
proof -
  have "pointer_row t (pointer_of (newest_state db (tp_id t)))" if "t \<in> set (l_topics db)" for t
    using ledger_okD(5) [OF assms] that by (simp add: pointers_ok_def)
  then have "map (\<lambda>t. if tp_project t = project \<and> \<not> pointer_row t (pointer_of (newest_state db (tp_id t)))
             then t\<lparr>tp_current := map_option ts_id (newest_state db (tp_id t)),
                    tp_current_version := map_option ts_number (newest_state db (tp_id t))\<rparr> else t) (l_topics db) = l_topics db"
    "filter (\<lambda>t. tp_project t = project \<and> \<not> pointer_row t (pointer_of (newest_state db (tp_id t)))) (l_topics db) = []"
    by (auto intro: map_idI simp: filter_empty_conv)
  then show ?thesis by (simp add: repair_current_state_pointers_def Let_def)
qed

text \<open>And from any pointers at all, repairing makes them right.\<close>

lemma repair_points:
  assumes "t \<in> set (l_topics (snd (repair_current_state_pointers project db)))" and "tp_project t = project"
  shows "pointer_row t (pointer_of (newest_state (snd (repair_current_state_pointers project db)) (tp_id t)))"
proof -
  have n: "newest_state (snd (repair_current_state_pointers project db)) x = newest_state db x" for x
    by (rule newest_state_cong) (simp add: live_states_def repair_current_state_pointers_def Let_def)
  have eq: "l_topics (snd (repair_current_state_pointers project db)) =
      map (\<lambda>u. if tp_project u = project \<and> \<not> pointer_row u (pointer_of (newest_state db (tp_id u)))
             then u\<lparr>tp_current := map_option ts_id (newest_state db (tp_id u)),
                    tp_current_version := map_option ts_number (newest_state db (tp_id u))\<rparr> else u) (l_topics db)"
    by (simp add: repair_current_state_pointers_def Let_def)
  obtain u where u: "u \<in> set (l_topics db)" "t = (if tp_project u = project \<and> \<not> pointer_row u (pointer_of (newest_state db (tp_id u)))
             then u\<lparr>tp_current := map_option ts_id (newest_state db (tp_id u)),
                    tp_current_version := map_option ts_number (newest_state db (tp_id u))\<rparr> else u)"
    using assms(1) unfolding eq set_map by blast
  show ?thesis
  proof (cases "tp_project u = project \<and> \<not> pointer_row u (pointer_of (newest_state db (tp_id u)))")
    case True
    then have "tp_id t = tp_id u" "tp_current t = map_option ts_id (newest_state db (tp_id u))"
      "tp_current_version t = map_option ts_number (newest_state db (tp_id u))" using u(2) by simp_all
    then show ?thesis unfolding n by (simp add: pointer_row_def pointer_of_def option.map_comp comp_def)
  next
    case False
    then have "t = u" using u(2) by (simp only: if_False)
    then show ?thesis unfolding n using False assms(2) by simp
  qed
qed

end
