(* ===== verification/Store_Files.thy ===== *)
theory Store_Files
  imports Store_Ledger
begin

text \<open>
  The rest of \<open>crates/store/src/repository.rs\<close>: projects and their purge, what an ingest keeps of the
  files it read, the paths kept in sync, the sections a file has on the retrieval surface, and the
  literal search over the evidence. Names sort by the database's collation and letters fold by its
  \<open>lower\<close>; both are arguments. The \<open>C\<close> collation compares UTF-8 bytes, which is the order of the code
  points.
\<close>

section \<open>Projects\<close>

definition ensure_project :: "instant \<Rightarrow> project_id \<Rightarrow> ustr \<Rightarrow> ledger \<Rightarrow> (project \<times> ledger) option" where
  "ensure_project now fresh name db =
     (case find (\<lambda>p. pj_name p = name) (l_projects db) of
        Some p \<Rightarrow> Some (p, db)
      | None \<Rightarrow>
          if fresh \<in> pj_id ` set (l_projects db) then None
          else let p = \<lparr>pj_id = fresh, pj_name = name, pj_created_at = now\<rparr>
               in Some (p, db\<lparr>l_projects := l_projects db @ [p]\<rparr>))"

record purged_project =
  pu_id :: project_id
  pu_topics :: nat
  pu_sources :: nat
  pu_synced :: "ustr list"

text \<open>
  The delete cascades: the rows of the project, and the rows that reference a row deleted. A state's
  span, the state it supersedes and a topic's current state do not cascade, so a row left behind
  referencing one of them refuses the statement.
\<close>

definition cascaded :: "project_id \<Rightarrow> ledger \<Rightarrow> ledger" where
  "cascaded project db =
     (let sources = filter (\<lambda>s. so_project s \<noteq> project) (l_sources db);
          evidence = filter (\<lambda>v. sv_project v \<noteq> project \<and> sv_source v \<in> so_id ` set sources) (l_evidence db);
          spans = filter (\<lambda>sp. sp_project sp \<noteq> project \<and> sp_version sp \<in> sv_id ` set evidence) (l_spans db);
          topics = filter (\<lambda>t. tp_project t \<noteq> project) (l_topics db);
          states = filter (\<lambda>r. ts_project r \<noteq> project \<and> ts_topic r \<in> tp_id ` set topics) (l_states db)
      in \<lparr>l_sources = sources, l_evidence = evidence, l_spans = spans, l_topics = topics, l_states = states,
          l_aliases = filter (\<lambda>a. al_project a \<noteq> project \<and> al_topic a \<in> tp_id ` set topics) (l_aliases db),
          l_names = filter (\<lambda>n. nt_project n \<noteq> project \<and> nt_topic n \<in> tp_id ` set topics) (l_names db),
          l_files = filter (\<lambda>f. fi_project f \<noteq> project) (l_files db),
          l_synced = filter (\<lambda>y. sy_project y \<noteq> project) (l_synced db),
          l_projects = filter (\<lambda>p. pj_id p \<noteq> project) (l_projects db),
          l_jobs = filter (\<lambda>j. jr_project j \<noteq> project) (l_jobs db)\<rparr>)"

definition dangling :: "ledger \<Rightarrow> bool" where
  "dangling db \<longleftrightarrow>
     (\<exists>r\<in>set (l_states db). ts_span r \<notin> sp_id ` set (l_spans db) \<or>
        \<not> set_option (ts_supersedes r) \<subseteq> ts_id ` set (l_states db)) \<or>
     (\<exists>t\<in>set (l_topics db). \<not> set_option (tp_current t) \<subseteq> ts_id ` set (l_states db))"

fun c_le :: "ustr \<Rightarrow> ustr \<Rightarrow> bool" where
  "c_le [] b = True"
| "c_le (x # a) [] = False"
| "c_le (x # a) (y # b) = (x < y \<or> x = y \<and> c_le a b)"

definition purge_project :: "(ustr \<Rightarrow> ustr \<Rightarrow> bool) \<Rightarrow> ustr \<Rightarrow> ledger \<Rightarrow> (purged_project option \<times> ledger) option" where
  "purge_project collate name db =
     (case find (\<lambda>p. pj_name p = name) (l_projects db) of
        None \<Rightarrow> Some (None, db)
      | Some p \<Rightarrow>
          if dangling (cascaded (pj_id p) db) then None
          else Some (Some \<lparr>pu_id = pj_id p,
             pu_topics = length (filter (\<lambda>t. tp_project t = pj_id p) (l_topics db)),
             pu_sources = length (filter (\<lambda>s. so_project s = pj_id p) (l_sources db)),
             pu_synced = sort_by collate (map sy_path (filter (\<lambda>y. sy_project y = pj_id p) (l_synced db)))\<rparr>,
           cascaded (pj_id p) db))"

section \<open>What an ingest recorded of its files\<close>

text \<open>Two columns hold an unsigned count in a signed column's bits.\<close>

record file_record =
  fr_root :: ustr
  fr_file :: ustr
  fr_size :: "64 word"
  fr_modified_ns :: int
  fr_changed_ns :: int
  fr_inode :: "64 word"
  fr_read_ns :: int
  fr_hash :: string
  fr_sections :: "32 word"
  fr_build :: string

definition record_of_row :: "file_row \<Rightarrow> file_record" where
  "record_of_row f = \<lparr>fr_root = fi_root f, fr_file = fi_file f, fr_size = word_of_int (fi_size f),
     fr_modified_ns = fi_modified_ns f, fr_changed_ns = fi_changed_ns f, fr_inode = word_of_int (fi_inode f),
     fr_read_ns = fi_read_ns f, fr_hash = fi_hash f, fr_sections = word_of_int (max (fi_sections f) 0), fr_build = fi_build f\<rparr>"

definition recorded_row :: "project_id \<Rightarrow> file_record \<Rightarrow> file_row" where
  "recorded_row project r = \<lparr>fi_project = project, fi_root = fr_root r, fi_file = fr_file r, fi_size = sint (fr_size r),
     fi_modified_ns = fr_modified_ns r, fi_changed_ns = fr_changed_ns r, fi_inode = sint (fr_inode r),
     fi_read_ns = fr_read_ns r, fi_hash = fr_hash r, fi_sections = min (uint (fr_sections r)) 2147483647,
     fi_build = fr_build r\<rparr>"

definition file_here :: "project_id \<Rightarrow> ustr \<times> ustr \<Rightarrow> file_row \<Rightarrow> bool" where
  "file_here project k f \<longleftrightarrow> fi_project f = project \<and> (fi_root f, fi_file f) = k"

definition file_records_of :: "ledger \<Rightarrow> project_id \<Rightarrow> (ustr \<times> ustr) list \<Rightarrow> file_record list" where
  "file_records_of db project files =
     concat (map (\<lambda>k. map record_of_row (filter (file_here project k) (l_files db))) files)"

definition file_records_under :: "ledger \<Rightarrow> project_id \<Rightarrow> ustr \<Rightarrow> ustr \<Rightarrow> file_record list" where
  "file_records_under db project tree prefix =
     map record_of_row (filter (\<lambda>f. fi_project f = project \<and> fi_root f = tree \<and> starts_with (fi_file f) prefix) (l_files db))"

definition put_file_record :: "project_id \<Rightarrow> file_record \<Rightarrow> file_row list \<Rightarrow> file_row list" where
  "put_file_record project r files =
     (let k = (fr_root r, fr_file r) in
      if list_ex (file_here project k) files
      then map (\<lambda>f. if file_here project k f then recorded_row project r else f) files
      else files @ [recorded_row project r])"

text \<open>One statement may not write one row twice.\<close>

definition put_file_records :: "project_id \<Rightarrow> file_record list \<Rightarrow> ledger \<Rightarrow> ledger option" where
  "put_file_records project records db =
     (if distinct (map (\<lambda>r. (fr_root r, fr_file r)) records)
      then Some (db\<lparr>l_files := fold (put_file_record project) records (l_files db)\<rparr>) else None)"

definition forget_file_records :: "project_id \<Rightarrow> (ustr \<times> ustr) list \<Rightarrow> ledger \<Rightarrow> ledger" where
  "forget_file_records project files db =
     db\<lparr>l_files := filter (\<lambda>f. \<not> (\<exists>k\<in>set files. file_here project k f)) (l_files db)\<rparr>"

definition forget_records_of_files :: "project_id \<Rightarrow> ustr list \<Rightarrow> ledger \<Rightarrow> ledger" where
  "forget_records_of_files project files db =
     db\<lparr>l_files := filter (\<lambda>f. \<not> (fi_project f = project \<and> fi_file f \<in> set files)) (l_files db)\<rparr>"

definition written_by_hand_since :: "ledger \<Rightarrow> project_id \<Rightarrow> ustr \<Rightarrow> instant \<Rightarrow> bool" where
  "written_by_hand_since db project topic since \<longleftrightarrow>
     (\<exists>s\<in>set (l_sources db). so_project s = project \<and> so_locator s = lit ''manual:'' @ topic \<and>
        (\<exists>v\<in>set (l_evidence db). sv_project v = project \<and> sv_source v = so_id s \<and> since \<le> sv_recorded_at v))"

definition forget_file_records_written_since ::
  "project_id \<Rightarrow> (ustr \<times> ustr \<times> ustr) list \<Rightarrow> instant \<Rightarrow> ledger \<Rightarrow> ledger" where
  "forget_file_records_written_since project sections since db =
     db\<lparr>l_files := filter (\<lambda>f. \<not> (\<exists>(tree, file, topic)\<in>set sections. file_here project (tree, file) f \<and>
        written_by_hand_since db project topic since)) (l_files db)\<rparr>"

section \<open>The sections a file has on the surface\<close>

record file_topic =
  ft_name :: ustr
  ft_current :: topic_state_id
  ft_root :: "ustr option"

text \<open>A file source and the topic its locator names after \<open>file:\<close>, where that topic says something.\<close>

definition file_topic_rows :: "ledger \<Rightarrow> project_id \<Rightarrow> source_row \<Rightarrow> file_topic list" where
  "file_topic_rows db project s =
     (if so_project s = project \<and> so_kind s = SourceFile
      then List.map_filter (\<lambda>t. if tp_project t = project \<and> tp_name t = drop 5 (so_locator s)
             then map_option (\<lambda>c. \<lparr>ft_name = tp_name t, ft_current = c, ft_root = so_root s\<rparr>) (tp_current t) else None) (l_topics db)
      else [])"

definition file_topic_names :: "ledger \<Rightarrow> project_id \<Rightarrow> file_topic list" where
  "file_topic_names db project = concat (map (file_topic_rows db project) (l_sources db))"

definition LAST_CHAR :: uchar where
  "LAST_CHAR = 1114111"

definition under_prefix :: "ustr \<Rightarrow> ustr \<Rightarrow> bool" where
  "under_prefix locator prefix \<longleftrightarrow>
     c_le (lit ''file:'' @ prefix) locator \<and> c_le locator (lit ''file:'' @ prefix @ [LAST_CHAR]) \<and>
     locator \<noteq> lit ''file:'' @ prefix @ [LAST_CHAR]"

definition file_topics_under :: "ledger \<Rightarrow> project_id \<Rightarrow> ustr list \<Rightarrow> file_topic list" where
  "file_topics_under db project prefixes =
     remdups (concat (map (\<lambda>prefix. concat (map (file_topic_rows db project)
       (filter (\<lambda>s. under_prefix (so_locator s) prefix) (l_sources db)))) prefixes))"

definition count_file_topics_under :: "ledger \<Rightarrow> project_id \<Rightarrow> ustr \<Rightarrow> nat" where
  "count_file_topics_under db project prefix =
     length (concat (map (file_topic_rows db project) (filter (\<lambda>s. under_prefix (so_locator s) prefix) (l_sources db))))"

definition file_roots_of :: "ledger \<Rightarrow> project_id \<Rightarrow> ustr list \<Rightarrow> (ustr \<times> ustr) list" where
  "file_roots_of db project topics =
     List.map_filter (\<lambda>s. if so_project s = project \<and> so_locator s \<in> (\<lambda>t. lit ''file:'' @ t) ` set topics
       then map_option (Pair (drop 5 (so_locator s))) (so_root s) else None) (l_sources db)"

definition topics_to_name :: "(ustr \<Rightarrow> ustr \<Rightarrow> bool) \<Rightarrow> ledger \<Rightarrow> project_id \<Rightarrow> topic list" where
  "topics_to_name collate db project =
     map row_to_topic (sort_by (\<lambda>a b. collate (tp_name a) (tp_name b))
       (filter (\<lambda>t. tp_project t = project \<and>
          (\<not> source_at db project (lit ''file:'' @ tp_name t) \<or> source_at db project (lit ''manual:'' @ tp_name t))) (l_topics db)))"

record named =
  nm_name :: ustr
  nm_topic :: topic_id
  nm_current :: topic_state_id
  nm_content :: ustr

definition current_named :: "ledger \<Rightarrow> project_id \<Rightarrow> ustr list \<Rightarrow> named list option" where
  "current_named db project names =
     those (List.map_filter (\<lambda>t. map_option (\<lambda>(r, sp, v). map_option
         (\<lambda>content. \<lparr>nm_name = tp_name t, nm_topic = tp_id t, nm_current = ts_id r, nm_content = content\<rparr>) (content_of_span sp v))
         (Option.bind (current_row db t) (span_joins db)))
       (filter (\<lambda>t. tp_project t = project \<and> tp_name t \<in> set names) (l_topics db)))"

section \<open>Paths kept in sync\<close>

record synced_path =
  sn_project :: ustr
  sn_path :: ustr
  sn_vector_index :: string

definition sync_path :: "instant \<Rightarrow> project_id \<Rightarrow> string \<Rightarrow> ustr \<Rightarrow> synced_row list \<Rightarrow> synced_row list" where
  "sync_path now project vector_index path rows =
     (if list_ex (\<lambda>y. sy_project y = project \<and> sy_path y = path) rows
      then map (\<lambda>y. if sy_project y = project \<and> sy_path y = path then y\<lparr>sy_vector_index := vector_index\<rparr> else y) rows
      else rows @ [\<lparr>sy_project = project, sy_path = path, sy_vector_index = vector_index, sy_added_at = now\<rparr>])"

definition sync_paths :: "instant \<Rightarrow> project_id \<Rightarrow> ustr list \<Rightarrow> string \<Rightarrow> ledger \<Rightarrow> ledger option" where
  "sync_paths now project paths vector_index db =
     (if distinct paths then Some (db\<lparr>l_synced := fold (sync_path now project vector_index) paths (l_synced db)\<rparr>) else None)"

definition unsync_paths :: "project_id \<Rightarrow> ustr list \<Rightarrow> ledger \<Rightarrow> ustr list \<times> ledger" where
  "unsync_paths project paths db =
     (let goes = (\<lambda>y. sy_project y = project \<and> sy_path y \<in> set paths)
      in (map sy_path (filter goes (l_synced db)), db\<lparr>l_synced := filter (\<lambda>y. \<not> goes y) (l_synced db)\<rparr>))"

definition with_project :: "ledger \<Rightarrow> synced_row list \<Rightarrow> synced_path list" where
  "with_project db rows = List.map_filter (\<lambda>y. map_option (\<lambda>p. \<lparr>sn_project = pj_name p, sn_path = sy_path y,
     sn_vector_index = sy_vector_index y\<rparr>) (find (\<lambda>p. pj_id p = sy_project y) (l_projects db))) rows"

definition synced_paths_of :: "(ustr \<Rightarrow> ustr \<Rightarrow> bool) \<Rightarrow> ledger \<Rightarrow> project_id \<Rightarrow> synced_path list" where
  "synced_paths_of collate db project =
     sort_by (\<lambda>a b. collate (sn_path a) (sn_path b)) (with_project db (filter (\<lambda>y. sy_project y = project) (l_synced db)))"

definition synced_paths :: "(ustr \<Rightarrow> ustr \<Rightarrow> bool) \<Rightarrow> ledger \<Rightarrow> synced_path list" where
  "synced_paths collate db =
     sort_by (\<lambda>a b. if sn_project a = sn_project b then collate (sn_path a) (sn_path b) else collate (sn_project a) (sn_project b))
       (with_project db (l_synced db))"

section \<open>Searching the evidence\<close>

text \<open>\<open>position\<close>: in characters from one, 0 where there is none.\<close>

fun position_from :: "nat \<Rightarrow> ustr \<Rightarrow> ustr \<Rightarrow> nat" where
  "position_from n needle [] = (if needle = [] then n else 0)"
| "position_from n needle (c # cs) = (if starts_with (c # cs) needle then n else position_from (n + 1) needle cs)"

definition byte_offset :: "ustr \<Rightarrow> nat \<Rightarrow> nat" where
  "byte_offset content position =
     (if position - 1 < length content then byte_len (take (position - 1) content) else byte_len content)"

record evidence_match =
  em_source_version :: source_version
  em_locator :: ustr
  em_offset :: nat

definition match_order :: "source_version \<Rightarrow> source_version \<Rightarrow> bool" where
  "match_order a b \<longleftrightarrow> sv_recorded_at b < sv_recorded_at a \<or> sv_recorded_at a = sv_recorded_at b \<and> sv_id a \<le> sv_id b"

definition match_position :: "(ustr \<Rightarrow> ustr) \<Rightarrow> bool \<Rightarrow> ustr \<Rightarrow> ustr \<Rightarrow> nat" where
  "match_position lower case_sensitive needle content =
     (if case_sensitive then position_from 1 needle content else position_from 1 (lower needle) (lower content))"

definition grep_evidence ::
  "(ustr \<Rightarrow> ustr) \<Rightarrow> ledger \<Rightarrow> project_id \<Rightarrow> ustr \<Rightarrow> bool \<Rightarrow> nat \<Rightarrow> evidence_match list" where
  "grep_evidence lower db project needle case_sensitive limit =
     map (\<lambda>(v, s). \<lparr>em_source_version = v, em_locator = so_locator s,
         em_offset = byte_offset (sv_content v) (match_position lower case_sensitive needle (sv_content v))\<rparr>)
       (take limit (sort_by (\<lambda>a b. match_order (fst a) (fst b))
         (List.map_filter (\<lambda>v. map_option (Pair v) (find (\<lambda>s. so_id s = sv_source v) (l_sources db)))
           (filter (\<lambda>v. sv_project v = project \<and> 0 < match_position lower case_sensitive needle (sv_content v)) (l_evidence db)))))"

end
