(* ===== verification/Store_Files_Sound.thy ===== *)
theory Store_Files_Sound
  imports Store_Ledger_Inv Store_Files
begin

text \<open>
  What \<open>Store_Files\<close> promises: a purge leaves no row of its project and the invariant of the rest, the
  records of an ingest's files read back, the range read for a prefix is the prefix, and a literal
  search points at the first occurrence.
\<close>

section \<open>Purging\<close>

lemma numbers_filtered:
  assumes "\<And>v. v \<in> set vs \<Longrightarrow> P v \<Longrightarrow> Q v"
  shows "filter P (filter Q vs) = filter P vs"
  using assms by (induction vs) auto

lemma cascaded_sources_ok: "sources_ok ss \<Longrightarrow> sources_ok (filter P ss)"
  by (simp add: sources_ok_def distinct_map_filter)

lemma cascaded_topics_ok: "topics_ok ts \<Longrightarrow> topics_ok (filter P ts)"
  by (simp add: topics_ok_def distinct_map_filter)

lemma none_filter: "(\<And>v. v \<in> set vs \<Longrightarrow> \<not> P v) \<Longrightarrow> filter P vs = []"
  by (simp add: filter_empty_conv)

lemma cascaded_evidence_ok:
  assumes ok: "evidence_ok ss vs sps"
    and vs': "vs' = filter (\<lambda>v. sv_project v \<noteq> project \<and> sv_source v \<in> so_id ` set ss') vs" and ss': "set ss' \<subseteq> set ss"
    and sps': "sps' = filter (\<lambda>sp. sp_project sp \<noteq> project \<and> sp_version sp \<in> sv_id ` set vs') sps"
  shows "evidence_ok ss' vs' sps'"
proof -
  have ids: "distinct (map sv_id vs')" "distinct (map sp_id sps')"
    using ok by (simp_all add: evidence_ok_def vs' sps' distinct_map_filter)
  have d: "numbers_dense (map sv_number (filter (\<lambda>v. sv_project v = p \<and> sv_source v = s) vs'))" for p s
  proof (cases "p \<noteq> project \<and> s \<in> so_id ` set ss'")
    case True
    then have "filter (\<lambda>v. sv_project v = p \<and> sv_source v = s) vs' = filter (\<lambda>v. sv_project v = p \<and> sv_source v = s) vs"
      unfolding vs' by (intro numbers_filtered) auto
    then show ?thesis using ok unfolding evidence_ok_def by metis
  next
    case False
    then have "filter (\<lambda>v. sv_project v = p \<and> sv_source v = s) vs' = []" unfolding vs' by (intro none_filter) auto
    then show ?thesis by simp
  qed
  have sp: "\<exists>v\<in>set vs'. sv_id v = sp_version x \<and> sp_start x = 0 \<and> sp_end x = byte_len (sv_content v)" if x: "x \<in> set sps'" for x
  proof -
    obtain v where v: "v \<in> set vs" "sv_id v = sp_version x" "sp_start x = 0" "sp_end x = byte_len (sv_content v)"
      using ok x unfolding evidence_ok_def sps' by auto
    have "sp_version x \<in> sv_id ` set vs'" using x unfolding sps' by simp
    then obtain w where w: "w \<in> set vs'" "sv_id w = sp_version x" by (metis imageE)
    then have "w \<in> set vs" unfolding vs' by simp
    moreover have "inj_on sv_id (set vs)" using ok by (simp add: evidence_ok_def distinct_map)
    moreover have "sv_id w = sv_id v" using v w by simp
    ultimately have "w = v" using v(1) by (simp only: inj_on_eq_iff)
    then show ?thesis using v w by blast
  qed
  show ?thesis
    unfolding evidence_ok_def using ids d sp by (auto simp: vs')
qed

lemma cascaded_states_ok:
  assumes ok: "states_ok ts sps rs"
    and ts': "ts' = filter (\<lambda>t. tp_project t \<noteq> project) ts"
    and rs': "rs' = filter (\<lambda>r. ts_project r \<noteq> project \<and> ts_topic r \<in> tp_id ` set ts') rs"
    and whole: "\<And>r. r \<in> set rs' \<Longrightarrow> ts_span r \<in> sp_id ` set sps' \<and> set_option (ts_supersedes r) \<subseteq> ts_id ` set rs'"
    and tok: "topics_ok ts"
  shows "states_ok ts' sps' rs'"
  unfolding states_ok_def
proof (intro conjI allI ballI impI)
  show ids: "distinct (map ts_id rs')" using ok by (simp add: states_ok_def rs' distinct_map_filter)
  have kept: "(\<exists>t\<in>set ts'. tp_id t = ts_topic r \<and> tp_project t = ts_project r)"
    if k: "r \<in> set rs" "ts_topic r \<in> tp_id ` set ts'" for r
  proof -
    obtain t where t: "t \<in> set ts" "tp_id t = ts_topic r" "tp_project t = ts_project r" using ok k(1) unfolding states_ok_def by blast
    obtain u where u: "u \<in> set ts'" "tp_id u = ts_topic r" using k(2) by (metis imageE)
    then have "u = t" using topic_by_id [OF tok] t unfolding ts' by simp
    then show ?thesis using t u by blast
  qed
  show "numbers_dense (map ts_number (states_of rs' topic))" for topic
  proof (cases "topic \<in> tp_id ` set ts'")
    case True
    have "filter (\<lambda>r. ts_topic r = topic) rs' = filter (\<lambda>r. ts_topic r = topic) rs"
      unfolding rs'
    proof (rule numbers_filtered)
      fix r assume r: "r \<in> set rs" "ts_topic r = topic"
      then obtain t where "t \<in> set ts'" "tp_project t = ts_project r" using kept True by blast
      then have "ts_project r \<noteq> project" unfolding ts' by auto
      then show "ts_project r \<noteq> project \<and> ts_topic r \<in> tp_id ` set ts'" using r True by simp
    qed
    then show ?thesis using ok unfolding states_ok_def states_of_def by metis
  next
    case False
    then have "states_of rs' topic = []" unfolding states_of_def rs' by (intro none_filter) auto
    then show ?thesis by simp
  qed
  fix r assume r: "r \<in> set rs'"
  then have r0: "r \<in> set rs" "ts_topic r \<in> tp_id ` set ts'" unfolding rs' by auto
  show "ts_span r \<in> sp_id ` set sps'" using whole [OF r] by simp
  show "\<exists>t\<in>set ts'. tp_id t = ts_topic r \<and> tp_project t = ts_project r" by (rule kept [OF r0])
  fix s assume s: "ts_supersedes r = Some s"
  then obtain r' where r': "r' \<in> set rs" "ts_id r' = s" "ts_topic r' = ts_topic r" "ts_number r' < ts_number r"
    using ok r0(1) unfolding states_ok_def by blast
  obtain q where q: "q \<in> set rs'" "ts_id q = s" using whole [OF r] s by auto
  then have "q \<in> set rs" unfolding rs' by simp
  then have "q = r'" using ok q(2) r'(1,2) by (auto simp: states_ok_def distinct_map dest: inj_onD)
  then show "\<exists>r'\<in>set rs'. ts_id r' = s \<and> ts_topic r' = ts_topic r \<and> ts_number r' < ts_number r" using q r' by blast
qed

lemma cascaded_fields:
  "l_sources (cascaded project db) = filter (\<lambda>s. so_project s \<noteq> project) (l_sources db)"
  "l_evidence (cascaded project db) = filter (\<lambda>v. sv_project v \<noteq> project \<and> sv_source v \<in> so_id ` set (l_sources (cascaded project db))) (l_evidence db)"
  "l_spans (cascaded project db) = filter (\<lambda>sp. sp_project sp \<noteq> project \<and> sp_version sp \<in> sv_id ` set (l_evidence (cascaded project db))) (l_spans db)"
  "l_topics (cascaded project db) = filter (\<lambda>t. tp_project t \<noteq> project) (l_topics db)"
  "l_states (cascaded project db) = filter (\<lambda>r. ts_project r \<noteq> project \<and> ts_topic r \<in> tp_id ` set (l_topics (cascaded project db))) (l_states db)"
  "l_jobs (cascaded project db) = filter (\<lambda>j. jr_project j \<noteq> project) (l_jobs db)"
  by (simp_all add: cascaded_def Let_def)

lemma cascaded_live:
  assumes ok: "ledger_ok db" and t: "t \<in> set (l_topics db)" "tp_project t \<noteq> project"
  shows "live_states (cascaded project db) (tp_id t) = live_states db (tp_id t)"
  unfolding live_states_def cascaded_fields(5)
proof (rule numbers_filtered)
  fix r assume r: "r \<in> set (l_states db)" "ts_topic r = tp_id t \<and> ts_deleted_at r = None"
  then obtain u where u: "u \<in> set (l_topics db)" "tp_id u = ts_topic r" "tp_project u = ts_project r"
    using ledger_okD(4) [OF ok] unfolding states_ok_def by blast
  then have "u = t" using topic_by_id [OF ledger_okD(3) [OF ok] u(1) t(1)] r by simp
  then show "ts_project r \<noteq> project \<and> ts_topic r \<in> tp_id ` set (l_topics (cascaded project db))"
    using u t r by (auto simp: cascaded_fields(4))
qed

lemma cascaded_ok:
  assumes ok: "ledger_ok db" and whole: "\<not> dangling (cascaded project db)"
  shows "ledger_ok (cascaded project db)"
proof (rule ledger_okI)
  show "sources_ok (l_sources (cascaded project db))"
    using cascaded_sources_ok ledger_okD(1) [OF ok] by (simp add: cascaded_fields(1))
  show "evidence_ok (l_sources (cascaded project db)) (l_evidence (cascaded project db)) (l_spans (cascaded project db))"
    by (rule cascaded_evidence_ok [OF ledger_okD(2) [OF ok] cascaded_fields(2) _ cascaded_fields(3)]) (auto simp: cascaded_fields(1))
  show "topics_ok (l_topics (cascaded project db))"
    using cascaded_topics_ok ledger_okD(3) [OF ok] by (simp add: cascaded_fields(4))
  show "states_ok (l_topics (cascaded project db)) (l_spans (cascaded project db)) (l_states (cascaded project db))"
    by (rule cascaded_states_ok [OF ledger_okD(4) [OF ok] cascaded_fields(4,5) _ ledger_okD(3) [OF ok]])
      (use whole in \<open>auto simp: dangling_def\<close>)
  show "pointers_ok (cascaded project db)"
    unfolding pointers_ok_def
  proof
    fix t assume "t \<in> set (l_topics (cascaded project db))"
    then have t: "t \<in> set (l_topics db)" "tp_project t \<noteq> project" by (auto simp: cascaded_fields(4))
    have "newest_state (cascaded project db) (tp_id t) = newest_state db (tp_id t)"
      by (rule newest_state_cong [OF cascaded_live [OF ok t]])
    then show "pointer_row t (pointer_of (newest_state (cascaded project db) (tp_id t)))"
      using ledger_okD(5) [OF ok] t(1) by (simp add: pointers_ok_def)
  qed
  show "queue_ok (l_jobs (cascaded project db))" using queue_ok_filter ledger_okD(6) [OF ok] by (simp add: cascaded_fields(6))
qed

lemma purge_project_ok: "ledger_ok db \<Longrightarrow> purge_project collate name db = Some (x, db') \<Longrightarrow> ledger_ok db'"
  by (auto simp: purge_project_def cascaded_ok split: option.splits if_splits)

lemma ensure_project_ok: "ledger_ok db \<Longrightarrow> ensure_project now fresh name db = Some (p, db') \<Longrightarrow> ledger_ok db'"
  by (rule ledger_ok_cong [of db]) (auto simp: ensure_project_def Let_def ledger_okD(6) split: option.splits if_splits)



section \<open>Prefix ranges\<close>

lemma c_le_append: "c_le (a @ b) (a @ c) = c_le b c"
  by (induction a) auto

lemma c_le_prefix: "c_le a b \<Longrightarrow> c_le b (a @ [m]) \<Longrightarrow> b \<noteq> a @ [m] \<Longrightarrow> \<exists>rest. b = a @ rest \<and> (rest = [] \<or> hd rest < m)"
proof (induction a arbitrary: b)
  case Nil
  then show ?case by (cases b) (auto elim: c_le.elims)
next
  case (Cons x a)
  then obtain b' where b: "b = x # b'" by (cases b) auto
  then show ?case using Cons by auto
qed

lemma under_prefix_iff: "under_prefix locator prefix \<longleftrightarrow>
    (\<exists>rest. locator = lit ''file:'' @ prefix @ rest \<and> (rest = [] \<or> hd rest < LAST_CHAR))"
proof
  assume "under_prefix locator prefix"
  then show "\<exists>rest. locator = lit ''file:'' @ prefix @ rest \<and> (rest = [] \<or> hd rest < LAST_CHAR)"
    using c_le_prefix [of "lit ''file:'' @ prefix" locator LAST_CHAR] by (simp add: under_prefix_def)
next
  assume "\<exists>rest. locator = lit ''file:'' @ prefix @ rest \<and> (rest = [] \<or> hd rest < LAST_CHAR)"
  then obtain rest where r: "locator = (lit ''file:'' @ prefix) @ rest" "rest = [] \<or> hd rest < LAST_CHAR" by auto
  have "c_le (lit ''file:'' @ prefix) locator" using c_le_append [of "lit ''file:'' @ prefix" "[]" rest] by (simp add: r(1))
  moreover have "c_le rest [LAST_CHAR]" "rest \<noteq> [LAST_CHAR]" using r(2) by (cases rest; auto)+
  then have "c_le locator (lit ''file:'' @ prefix @ [LAST_CHAR])"
    using c_le_append [of "lit ''file:'' @ prefix" rest "[LAST_CHAR]"] by (simp add: r(1))
  ultimately show "under_prefix locator prefix" using \<open>rest \<noteq> [LAST_CHAR]\<close> by (auto simp: under_prefix_def r(1))
qed

section \<open>File records\<close>

definition files_ok :: "file_row list \<Rightarrow> bool" where
  "files_ok fs \<longleftrightarrow> distinct (map (\<lambda>f. (fi_project f, fi_root f, fi_file f)) fs)"

lemma recorded_row_key [simp]: "fi_project (recorded_row p r) = p" "fi_root (recorded_row p r) = fr_root r" "fi_file (recorded_row p r) = fr_file r"
  by (simp_all add: recorded_row_def)

lemma put_file_record_ok: "files_ok fs \<Longrightarrow> files_ok (put_file_record project r fs)"
proof -
  assume ok: "files_ok fs"
  show ?thesis
  proof (cases "list_ex (file_here project (fr_root r, fr_file r)) fs")
    case True
    have "map (\<lambda>f. (fi_project f, fi_root f, fi_file f)) (map (\<lambda>f. if file_here project (fr_root r, fr_file r) f then recorded_row project r else f) fs)
        = map (\<lambda>f. (fi_project f, fi_root f, fi_file f)) fs"
      by (auto simp: file_here_def)
    then show ?thesis using ok True by (simp only: put_file_record_def Let_def if_True files_ok_def)
  next
    case False
    then show ?thesis using ok by (auto simp: put_file_record_def files_ok_def list_ex_iff file_here_def)
  qed
qed

lemma find_key': "distinct (map f xs) \<Longrightarrow> x \<in> set xs \<Longrightarrow> find (\<lambda>y. f y = f x) xs = Some x"
  by (induction xs) (auto simp: rev_image_eqI)

lemma filter_key: "distinct (map f xs) \<Longrightarrow> x \<in> set xs \<Longrightarrow> filter (\<lambda>y. f y = f x) xs = [x]"
  by (induction xs) (auto simp: filter_empty_conv rev_image_eqI)

lemma put_here:
  assumes "files_ok fs"
  shows "filter (file_here project k) (put_file_record project r fs)
    = (if k = (fr_root r, fr_file r) then [recorded_row project r] else filter (file_here project k) fs)"
proof (cases "k = (fr_root r, fr_file r)")
  case True
  have "recorded_row project r \<in> set (put_file_record project r fs)"
    by (force simp: put_file_record_def Let_def list_ex_iff)
  from filter_key [OF put_file_record_ok [OF assms, of project r, unfolded files_ok_def] this]
  show ?thesis by (simp add: True file_here_def [abs_def])
next
  case False
  have "filter (file_here project k) (map (\<lambda>f. if file_here project (fr_root r, fr_file r) f then recorded_row project r else f) xs)
      = filter (file_here project k) xs" for xs
    using False by (induction xs) (auto simp: file_here_def)
  moreover have "\<not> file_here project k (recorded_row project r)" using False by (auto simp: file_here_def)
  ultimately show ?thesis using False by (simp add: put_file_record_def Let_def)
qed

lemma put_all:
  assumes "files_ok fs" "distinct (map (\<lambda>r. (fr_root r, fr_file r)) records)"
  shows "files_ok (fold (put_file_record project) records fs) \<and>
    filter (file_here project k) (fold (put_file_record project) records fs)
     = (case find (\<lambda>r. (fr_root r, fr_file r) = k) records of Some r \<Rightarrow> [recorded_row project r] | None \<Rightarrow> filter (file_here project k) fs)"
  using assms
proof (induction records arbitrary: fs)
  case (Cons r records)
  note ih = Cons.IH [OF put_file_record_ok [OF Cons.prems(1)]]
  have n: "find (\<lambda>r. (fr_root r, fr_file r) = k) records = None" if "k = (fr_root r, fr_file r)"
    using Cons.prems(2) unfolding find_None_iff that by (auto simp: image_iff)
  show ?case using ih Cons.prems n by (auto simp: put_here [OF Cons.prems(1)] split: option.split)
qed simp

text \<open>What a record keeps through its columns: everything but a section count past \<open>2\<^sup>3\<^sup>1 - 1\<close>.\<close>

definition recorded_as :: "file_record \<Rightarrow> file_record" where
  "recorded_as r = (if 2147483647 < uint (fr_sections r) then r\<lparr>fr_sections := 2147483647\<rparr> else r)"

lemma file_record_recorded: "record_of_row (recorded_row project r) = recorded_as r"
  by (cases r) (auto simp: record_of_row_def recorded_row_def recorded_as_def min_def)

section \<open>Literal search\<close>

lemma position_from_spec:
  "0 < n \<Longrightarrow> position_from n needle content = (if \<exists>k\<le>length content. starts_with (drop k content) needle
     then n + (LEAST k. starts_with (drop k content) needle) else 0)"
proof (induction n needle content rule: position_from.induct)
  case (1 n needle)
  then show ?case by (auto simp: starts_with_def intro!: Least_equality)
next
  case (2 n needle c cs)
  show ?case
  proof (cases "starts_with (c # cs) needle")
    case True
    then have "(LEAST k. starts_with (drop k (c # cs)) needle) = 0" by (intro Least_equality) auto
    then show ?thesis using True by (auto intro: exI [of _ 0])
  next
    case False
    have ex: "(\<exists>k\<le>length (c # cs). starts_with (drop k (c # cs)) needle) \<longleftrightarrow> (\<exists>k\<le>length cs. starts_with (drop k cs) needle)"
    proof
      assume "\<exists>k\<le>length (c # cs). starts_with (drop k (c # cs)) needle"
      then obtain k where k: "k \<le> length (c # cs)" "starts_with (drop k (c # cs)) needle" by blast
      with False show "\<exists>k\<le>length cs. starts_with (drop k cs) needle" by (cases k) auto
    qed (use le_SucI in \<open>force intro: exI [of _ "Suc _"]\<close>)
    have least: "(LEAST k. starts_with (drop k (c # cs)) needle) = Suc (LEAST k. starts_with (drop k cs) needle)"
      if "starts_with (drop k cs) needle" for k
      using Least_Suc [of "\<lambda>k. starts_with (drop k (c # cs)) needle" "Suc k"] False that by simp
    show ?thesis using 2 False ex least by auto
  qed
qed

section \<open>What the statements promise\<close>


definition two_projects :: ledger where
  "two_projects = empty_ledger
     \<lparr>l_projects := [\<lparr>pj_id = 7, pj_name = lit ''a'', pj_created_at = 1\<rparr>, \<lparr>pj_id = 8, pj_name = lit ''b'', pj_created_at = 1\<rparr>],
      l_sources := [\<lparr>so_id = 2, so_project = 7, so_kind = Manual, so_locator = lit ''x'', so_created_at = 11, so_root = None\<rparr>,
        \<lparr>so_id = 3, so_project = 8, so_kind = SourceFile, so_locator = lit ''y'', so_created_at = 11, so_root = None\<rparr>]\<rparr>"



text \<open>
  C34: what an ingest records of its files is what it reads back, each file's record replaced and every
  other left alone; the counts kept in signed columns come back as they went in, and only a section
  count past 2,147,483,647 is capped.
\<close>

theorem file_records_read_back:
  assumes "files_ok (l_files db)" and "put_file_records project records db = Some db'"
  shows "files_ok (l_files db') \<and>
    (\<forall>r\<in>set records. file_records_of db' project [(fr_root r, fr_file r)] = [recorded_as r]) \<and>
    (\<forall>k. k \<notin> (\<lambda>r. (fr_root r, fr_file r)) ` set records \<longrightarrow> file_records_of db' project [k] = file_records_of db project [k])"
proof -
  have d: "distinct (map (\<lambda>r. (fr_root r, fr_file r)) records)" "l_files db' = fold (put_file_record project) records (l_files db)"
    using assms(2) by (auto simp: put_file_records_def split: if_splits)
  note all = put_all [OF assms(1) d(1), of project]
  have one: "file_records_of db' project [(fr_root r, fr_file r)] = [recorded_as r]" if "r \<in> set records" for r
  proof -
    have "find (\<lambda>x. (fr_root x, fr_file x) = (fr_root r, fr_file r)) records = Some r"
      using find_key' [OF d(1) that] .
    then show ?thesis using all [of "(fr_root r, fr_file r)"] by (simp only: file_records_of_def d(2) list.map concat.simps append_Nil2 option.case file_record_recorded)
  qed
  have other: "file_records_of db' project [k] = file_records_of db project [k]" if "k \<notin> (\<lambda>r. (fr_root r, fr_file r)) ` set records" for k
  proof -
    have "find (\<lambda>x. (fr_root x, fr_file x) = k) records = None" using that by (auto simp: find_None_iff)
    then show ?thesis using all [of k] by (simp add: file_records_of_def d(2))
  qed
  show ?thesis using all one other by (simp add: d(2))
qed

definition sample_record :: file_record where
  "sample_record = \<lparr>fr_root = lit ''/r'', fr_file = lit ''a'', fr_size = 12, fr_modified_ns = 1, fr_changed_ns = 2,
     fr_inode = - 1, fr_read_ns = 3, fr_hash = ''h'', fr_sections = 4294967295, fr_build = ''b''\<rparr>"

theorem file_records_read_back_witness:
  "\<exists>db'. put_file_records 7 [sample_record] empty_ledger = Some db' \<and>
     file_records_of db' 7 [(lit ''/r'', lit ''a'')] = [sample_record\<lparr>fr_sections := 2147483647\<rparr>]"
proof -
  have ok: "files_ok (l_files empty_ledger)" by (simp add: files_ok_def empty_ledger_def)
  obtain db' where p: "put_file_records 7 [sample_record] empty_ledger = Some db'" by (simp add: put_file_records_def)
  have "recorded_as sample_record = sample_record\<lparr>fr_sections := 2147483647\<rparr>"
    by (simp add: recorded_as_def sample_record_def)
  then show ?thesis using file_records_read_back [OF ok p] p by (simp add: sample_record_def)
qed

text \<open>
  Asking for the sections whose name starts with a prefix, by a range of the locators, finds
  exactly the file locators that continue it by anything but the last character there is.
\<close>

theorem prefix_range_is_prefix:
  "under_prefix locator prefix \<longleftrightarrow>
    starts_with locator (lit ''file:'' @ prefix) \<and>
    (drop (5 + length prefix) locator = [] \<or> hd (drop (5 + length prefix) locator) < LAST_CHAR)"
proof -
  let ?low = "lit ''file:'' @ prefix"
  have n: "length ?low = 5 + length prefix" by (simp add: lit_def)
  show ?thesis
  proof
    assume "under_prefix locator prefix"
    then obtain rest where "locator = ?low @ rest" "rest = [] \<or> hd rest < LAST_CHAR" unfolding under_prefix_iff by auto
    then show "starts_with locator ?low \<and> (drop (5 + length prefix) locator = [] \<or> hd (drop (5 + length prefix) locator) < LAST_CHAR)"
      using n by (metis append_eq_conv_conj starts_with_def)
  next
    assume a: "starts_with locator ?low \<and> (drop (5 + length prefix) locator = [] \<or> hd (drop (5 + length prefix) locator) < LAST_CHAR)"
    then have "locator = ?low @ drop (5 + length prefix) locator"
      unfolding starts_with_def n by (metis append_take_drop_id)
    then show "under_prefix locator prefix" unfolding under_prefix_iff using a by (metis append.assoc)
  qed
qed

text \<open>
  A literal search reports only evidence that holds the text, whatever the filter decided of it,
  at the byte where the text first occurs: cut there, the evidence goes on with it, and nowhere
  earlier does it.
\<close>

theorem grep_offset_is_first:
  assumes "m \<in> set (grep_evidence lower db project needle True limit)"
  shows "em_source_version m \<in> set (l_evidence db) \<and> sv_project (em_source_version m) = project \<and>
    (\<exists>before after. cut_at (em_offset m) (sv_content (em_source_version m)) = Some (before, after) \<and> starts_with after needle \<and>
       (\<forall>k<length before. \<not> starts_with (drop k (sv_content (em_source_version m))) needle))"
proof -
  obtain v where v: "v \<in> set (l_evidence db)" "sv_project v = project" "0 < match_position lower True needle (sv_content v)"
    "em_source_version m = v" "em_offset m = byte_offset (sv_content v) (match_position lower True needle (sv_content v))"
    using assms by (auto simp: grep_evidence_def map_filter_def dest!: set_take_in)
  let ?c = "sv_content v" and ?P = "\<lambda>k. starts_with (drop k (sv_content v)) needle"
  have p: "match_position lower True needle ?c = Suc (LEAST k. ?P k)" "\<exists>k\<le>length ?c. ?P k"
    using v(3) position_from_spec [of 1 needle ?c] by (auto simp: match_position_def split: if_splits)
  then have P: "?P (LEAST k. ?P k)" by (metis LeastI)
  have le: "(LEAST k. ?P k) \<le> length ?c" using p(2) Least_le order_trans by metis
  then have "em_offset m = byte_len (take (LEAST k. ?P k) ?c)"
    by (simp add: v(5) byte_offset_def p(1))
  then have cut: "cut_at (em_offset m) ?c = Some (take (LEAST k. ?P k) ?c, drop (LEAST k. ?P k) ?c)" by (simp add: cut_at_take)
  have "\<not> ?P k" if "k < length (take (LEAST k. ?P k) ?c)" for k using that not_less_Least [of k ?P] by simp
  then show ?thesis using cut P v by auto
qed

definition one_note :: ledger where
  "one_note = two_projects\<lparr>l_evidence := [\<lparr>sv_id = 5, sv_project = 7, sv_source = 2, sv_number = 1, sv_content = [233, 97, 98],
     sv_hash = ''h'', sv_decision = Filtered, sv_reason = ''r'', sv_recorded_at = 12\<rparr>]\<rparr>"

theorem grep_offset_is_first_witness:
  "map em_offset (grep_evidence id one_note 7 [98] True 5) = [3] \<and>
   (\<exists>m\<in>set (grep_evidence id one_note 7 [98] True 5). \<exists>after. cut_at 3 (sv_content (em_source_version m)) = Some ([233, 97], after) \<and>
      starts_with after [98])"
proof -
  have o: "map em_offset (grep_evidence id one_note 7 [98] True 5) = [3]" 
    and c: "map (\<lambda>m. cut_at 3 (sv_content (em_source_version m))) (grep_evidence id one_note 7 [98] True 5) = [Some ([233, 97], [98])]" by code_simp+
  then obtain m where m: "m \<in> set (grep_evidence id one_note 7 [98] True 5)" "em_offset m = 3"
    "cut_at 3 (sv_content (em_source_version m)) = Some ([233, 97], [98])"
    by (cases "grep_evidence id one_note 7 [98] True 5") auto
  show ?thesis using grep_offset_is_first [OF m(1)] m o by auto
qed

end
