(* ===== verification/Store_Ledger_Steps.thy ===== *)
theory Store_Ledger_Steps
  imports Store_Files_Sound
begin

section \<open>Renaming\<close>

definition renamed_ledger :: "instant \<Rightarrow> project_id \<Rightarrow> topic_id \<Rightarrow> ustr \<times> ustr \<Rightarrow> ustr \<times> ustr \<Rightarrow> queue \<Rightarrow> ledger \<Rightarrow> ledger" where
  "renamed_ledger now project topic names locators jobs db =
     db\<lparr>l_topics := map (retitled topic (snd names)) (l_topics db),
        l_sources := map (refiled project (fst locators) (snd locators)) (l_sources db),
        l_aliases := put_alias now project (fst names) (snd names) topic (l_aliases db), l_jobs := jobs\<rparr>"

lemma renamed_ledger_fields [simp]:
  "l_topics (renamed_ledger now project topic names locators jobs db) = map (retitled topic (snd names)) (l_topics db)"
  "l_sources (renamed_ledger now project topic names locators jobs db) = map (refiled project (fst locators) (snd locators)) (l_sources db)"
  "l_aliases (renamed_ledger now project topic names locators jobs db) = put_alias now project (fst names) (snd names) topic (l_aliases db)"
  "l_jobs (renamed_ledger now project topic names locators jobs db) = jobs"
  "l_evidence (renamed_ledger now project topic names locators jobs db) = l_evidence db"
  "l_spans (renamed_ledger now project topic names locators jobs db) = l_spans db"
  "l_states (renamed_ledger now project topic names locators jobs db) = l_states db"
  by (simp_all add: renamed_ledger_def)

lemma newest_renamed [simp]: "newest_state (renamed_ledger now project topic names locators jobs db) x = newest_state db x"
  by (rule newest_state_cong) (simp add: live_states_def)

lemma rename_topicD:
  assumes "rename_topic now fresh project topic names locators db = Some (b, db')"
  obtains (taken) "\<not> b" "db' = db"
    "topic_named db project (snd names) \<noteq> None \<or> source_here db project (snd locators) \<noteq> None"
  | (moved) jobs where b "topic_named db project (snd names) = None" "source_here db project (snd locators) = None"
      "enqueue_all now fresh project [SyncTopicIndex] (Some (uuid_of topic)) (l_jobs db) = Some jobs"
      "db' = renamed_ledger now project topic names locators jobs db"
proof (cases "topic_named db project (snd names) \<noteq> None \<or> source_here db project (snd locators) \<noteq> None")
  case True
  then show thesis using assms taken by (simp add: rename_topic_def)
next
  case False
  then have "map_option (\<lambda>jobs. (True, renamed_ledger now project topic names locators jobs db))
      (enqueue_all now fresh project [SyncTopicIndex] (Some (uuid_of topic)) (l_jobs db)) = Some (b, db')"
    using assms by (simp add: rename_topic_def renamed_ledger_def Let_def)
  then show thesis using False moved by (auto simp del: not_None_eq)
qed

lemma refiled_fields [simp]: "so_id (refiled project f t s) = so_id s" "so_project (refiled project f t s) = so_project s"
  by (simp_all add: refiled_def)

lemma retitled_fields [simp]: "tp_id (retitled topic n t) = tp_id t" "tp_project (retitled topic n t) = tp_project t"
    "tp_current (retitled topic n t) = tp_current t" "tp_current_version (retitled topic n t) = tp_current_version t"
    "tp_name (retitled topic n t) = (if tp_id t = topic then n else tp_name t)"
  by (simp_all add: retitled_def)

lemma evidence_ok_sources: "so_id ` set ss = so_id ` set ss' \<Longrightarrow> evidence_ok ss vs sps = evidence_ok ss' vs sps"
  by (simp add: evidence_ok_def)

lemma renamed_sources_ok:
  assumes ok: "sources_ok ss" and free: "\<And>s. s \<in> set ss \<Longrightarrow> \<not> (so_project s = project \<and> so_locator s = t)"
  shows "sources_ok (map (refiled project f t) ss)"
proof -
  let ?k = "\<lambda>s. (so_project s, so_locator s)"
  have "inj_on ?k (set ss)" using ok by (simp add: sources_ok_def distinct_map)
  moreover have "so_locator (refiled project f t s) = (if so_project s = project \<and> so_locator s = f then t else so_locator s)" for s
    by (simp add: refiled_def)
  ultimately have "inj_on (?k \<circ> refiled project f t) (set ss)" using free by (fastforce simp: inj_on_def split: if_splits)
  moreover have "distinct ss" using ok by (simp add: sources_ok_def distinct_map)
  ultimately have "distinct (map ?k (map (refiled project f t) ss))" by (simp only: distinct_map map_map simp_thms)
  moreover have "map so_id (map (refiled project f t) ss) = map so_id ss" by simp
  ultimately show ?thesis using ok by (simp only: sources_ok_def)
qed

lemma renamed_topics_ok:
  assumes ok: "topics_ok ts" and u: "u \<in> set ts" "tp_id u = topic" "tp_project u = project"
    and free: "\<And>t. t \<in> set ts \<Longrightarrow> \<not> (tp_project t = project \<and> tp_name t = name)"
  shows "topics_ok (map (retitled topic name) ts)"
proof -
  let ?k = "\<lambda>t. (tp_project t, tp_name t)"
  have i: "inj_on ?k (set ts)" using ok by (simp add: topics_ok_def distinct_map)
  have p: "tp_project t = project" if "t \<in> set ts" "tp_id t = topic" for t using topic_by_id [OF ok that(1) u(1)] that u by simp
  have "inj_on (?k \<circ> retitled topic name) (set ts)"
  proof (rule inj_onI)
    fix a b assume ab: "a \<in> set ts" "b \<in> set ts" "(?k \<circ> retitled topic name) a = (?k \<circ> retitled topic name) b"
    have k: "tp_project a = tp_project b" "tp_name (retitled topic name a) = tp_name (retitled topic name b)" using ab(3) by simp_all
    consider "tp_id a = topic" "tp_id b = topic" | "tp_id a = topic" "tp_id b \<noteq> topic" | "tp_id a \<noteq> topic" "tp_id b = topic"
      | "tp_id a \<noteq> topic" "tp_id b \<noteq> topic" by blast
    then show "a = b"
    proof cases
      case 1
      then show ?thesis using topic_by_id [OF ok ab(1,2)] by simp
    next
      case 2
      then show ?thesis using k free [OF ab(2)] p [OF ab(1)] by simp
    next
      case 3
      then show ?thesis using k free [OF ab(1)] p [OF ab(2)] by simp
    next
      case 4
      then show ?thesis using k inj_onD [OF i _ ab(1,2)] by simp
    qed
  qed
  moreover have "distinct ts" using ok by (simp add: topics_ok_def distinct_map)
  ultimately have "distinct (map ?k (map (retitled topic name) ts))" by (simp only: distinct_map map_map simp_thms)
  moreover have "map tp_id (map (retitled topic name) ts) = map tp_id ts" by simp
  ultimately show ?thesis using ok by (simp only: topics_ok_def)
qed

lemma topic_named_None: "topic_named db project name = None \<Longrightarrow> t \<in> set (l_topics db) \<Longrightarrow> \<not> (tp_project t = project \<and> tp_name t = name)"
  by (auto simp: topic_named_def find_None_iff)

lemma source_here_None: "source_here db project locator = None \<Longrightarrow> s \<in> set (l_sources db) \<Longrightarrow> \<not> (so_project s = project \<and> so_locator s = locator)"
  by (auto simp: source_here_def find_None_iff)

lemma rename_topic_ok:
  assumes ok: "ledger_ok db" and lock: "lock_topic db project f = Some lt"
    and r: "rename_topic now fresh project (to_id (lt_topic lt)) (f, t) locators db = Some (b, db')"
  shows "ledger_ok db'"
  using r
proof (cases rule: rename_topicD)
  case (moved jobs)
  obtain u where u: "u \<in> set (l_topics db)" "tp_id u = to_id (lt_topic lt)" "tp_project u = project"
    using lock_topicD [OF lock] by metis
  have "topics_ok (map (retitled (to_id (lt_topic lt)) t) (l_topics db))"
    by (rule renamed_topics_ok [OF ledger_okD(3) [OF ok] u]) (use topic_named_None moved(2) in auto)
  moreover have "sources_ok (map (refiled project (fst locators) (snd locators)) (l_sources db))"
    by (rule renamed_sources_ok [OF ledger_okD(1) [OF ok]]) (use source_here_None moved(3) in auto)
  moreover have "evidence_ok (map (refiled project (fst locators) (snd locators)) (l_sources db)) (l_evidence db) (l_spans db)"
  proof -
    have "so_id ` set (map (refiled project (fst locators) (snd locators)) (l_sources db)) = so_id ` set (l_sources db)"
      by (simp add: image_image)
    then show ?thesis using ledger_okD(2) [OF ok] evidence_ok_sources by blast
  qed
  moreover have "states_ok (map (retitled (to_id (lt_topic lt)) t) (l_topics db)) (l_spans db) (l_states db)"
    using ledger_okD(4) [OF ok] by (subst states_ok_topics) simp_all
  moreover have "pointers_ok db'"
    using ledger_okD(5) [OF ok] by (auto simp: pointers_ok_def moved(5) pointer_row_def)
  ultimately show ?thesis
    using enqueue_all_ok [OF ledger_okD(6) [OF ok] moved(4)] by (intro ledger_okI) (simp_all add: moved(5))
qed (use ok in simp)

lemma put_alias_finds:
  assumes "f \<noteq> t"
  shows "\<exists>a. find (\<lambda>a. al_project a = project \<and> al_name a = f) (put_alias now project f t topic aliases) = Some a \<and> al_topic a = topic"
proof -
  let ?new = "put_alias now project f t topic aliases"
  have "\<exists>a\<in>set ?new. al_project a = project \<and> al_name a = f"
  proof (cases "\<exists>a\<in>set aliases. \<not> (al_project a = project \<and> al_name a = t) \<and> al_project a = project \<and> al_name a = f")
    case True
    then obtain a where "a \<in> set aliases" "al_project a = project" "al_name a = f" by blast
    then have "a\<lparr>al_topic := topic, al_renamed_at := now\<rparr> \<in> set ?new"
      using assms by (auto simp: put_alias_def Let_def intro!: rev_image_eqI [of a])
    then show ?thesis using \<open>al_project a = project\<close> \<open>al_name a = f\<close> by (intro bexI [of _ "a\<lparr>al_topic := topic, al_renamed_at := now\<rparr>"]) simp_all
  next
    case False
    then show ?thesis using assms by (auto simp: put_alias_def Let_def)
  qed
  then obtain a where a: "find (\<lambda>a. al_project a = project \<and> al_name a = f) ?new = Some a"
    by (cases "find (\<lambda>a. al_project a = project \<and> al_name a = f) ?new") (auto simp: find_None_iff)
  moreover have "al_topic a = topic"
    using find_SomeD [OF a] by (auto simp: put_alias_def Let_def split: if_splits) (drule arg_cong [of _ _ al_topic], simp)+
  ultimately show ?thesis by blast
qed

lemma find_topic_named: "topic_named db project name = Some t \<Longrightarrow> find_topic db project name = Some (row_to_topic t)"
  by (simp add: find_topic_def)

lemma topic_namedI:
  assumes "topics_ok (l_topics db)" "t \<in> set (l_topics db)"
  shows "topic_named db (tp_project t) (tp_name t) = Some t"
proof -
  have "topic_named db (tp_project t) (tp_name t) \<noteq> None" using assms(2) by (auto simp: topic_named_def find_None_iff)
  then obtain u where u: "topic_named db (tp_project t) (tp_name t) = Some u" by blast
  then have "u \<in> set (l_topics db)" "tp_project u = tp_project t" "tp_name u = tp_name t"
    using find_SomeD [OF u [unfolded topic_named_def]] by auto
  then have "u = t" using assms by (auto simp: topics_ok_def distinct_map dest: inj_onD)
  then show ?thesis using u by simp
qed

lemma find_topic_id:
  assumes "topics_ok (l_topics db)" "t \<in> set (l_topics db)"
  shows "find (\<lambda>u. tp_id u = tp_id t) (l_topics db) = Some t"
proof -
  obtain u where u: "find (\<lambda>u. tp_id u = tp_id t) (l_topics db) = Some u"
    using assms(2) by (cases "find (\<lambda>u. tp_id u = tp_id t) (l_topics db)") (auto simp: find_None_iff)
  then show ?thesis using find_SomeD [OF u] topic_by_id [OF assms(1) _ assms(2)] by simp
qed

text \<open>Both names find the topic afterwards, under its new name.\<close>

lemma rename_finds:
  assumes ok: "ledger_ok db" and lock: "lock_topic db project f = Some lt"
    and r: "rename_topic now fresh project (to_id (lt_topic lt)) (f, t) locators db = Some (True, db')"
  shows "find_topic db' project t = Some ((lt_topic lt)\<lparr>to_name := t\<rparr>) \<and> find_topic db' project f = find_topic db' project t"
  using r
proof (cases rule: rename_topicD)
  case (moved jobs)
  obtain u where u: "u \<in> set (l_topics db)" "topic_named db project f = Some u" "tp_project u = project" "tp_name u = f"
    "to_id (lt_topic lt) = tp_id u" by (rule lock_topicD [OF lock]) blast
  have ft: "f \<noteq> t" using u(2) moved(2) by auto
  have lt: "lt_topic lt = row_to_topic u" using lock u(2) by (auto simp: lock_topic_def row_to_locked_def)
  let ?u = "retitled (tp_id u) t u"
  have db': "l_topics db' = map (retitled (tp_id u) t) (l_topics db)" "l_aliases db' = put_alias now project f t (tp_id u) (l_aliases db)"
    using moved(5) u(5) by simp_all
  have ok': "topics_ok (l_topics db')" using ledger_okD(3) [OF rename_topic_ok [OF ok lock r]] .
  have u': "?u \<in> set (l_topics db')" using u(1) by (simp add: db')
  have new: "find_topic db' project t = Some (row_to_topic ?u)"
    using topic_namedI [OF ok' u'] u(3) find_topic_named by simp
  have "topic_named db' project f = None"
  proof (rule ccontr)
    assume "topic_named db' project f \<noteq> None"
    then obtain v where "topic_named db' project f = Some v" by blast
    from find_SomeD [OF this [unfolded topic_named_def]] obtain w where w: "w \<in> set (l_topics db)" "v = retitled (tp_id u) t w"
      "tp_project v = project" "tp_name v = f" by (auto simp: db')
    then have n: "tp_id w \<noteq> tp_id u" "tp_name w = f" "tp_project w = project" using ft by (auto split: if_splits)
    then have "Some w = Some u" using topic_namedI [OF ledger_okD(3) [OF ok] w(1)] u(2) by simp
    then show False using n(1) by simp
  qed
  moreover obtain a where "find (\<lambda>a. al_project a = project \<and> al_name a = f) (l_aliases db') = Some a" "al_topic a = tp_id u"
    unfolding db'(2) using put_alias_finds [OF ft] by blast
  moreover have "find (\<lambda>w. tp_id w = tp_id u) (l_topics db') = Some ?u"
    using find_topic_id [OF ok' u'] by simp
  ultimately have "find_topic db' project f = Some (row_to_topic ?u)" by (simp add: find_topic_def)
  with new show ?thesis by (simp add: lt row_to_topic_def retitled_def)
qed simp

section \<open>The ledger as a state machine\<close>

text \<open>
  Each step is a statement or a run of statements under the topic's lock, of any project, in any
  order; a refused one changes nothing and is no step.
\<close>

inductive ledger_step :: "ledger \<Rightarrow> ledger \<Rightarrow> bool" where
  sourced: "ensure_source_created now fresh project kind locator db = Some (x, db') \<Longrightarrow> ledger_step db db'"
| rooted: "ledger_step db (set_source_root source tree db)"
| roots: "ledger_step db (set_roots_at project locators tree db)"
| evidenced: "append_evidence now vid sid project source ev db = Some (x, db') \<Longrightarrow> ledger_step db db'"
| promoted: "lock_topic db project name = Some (pr_topic pr) \<Longrightarrow>
    append_promoted now vid sid state_id fresh_job project source ev pr db = Some (y, db') \<Longrightarrow> ledger_step db db'"
| created: "create_topic now topic project name named db = Some (lt, db') \<Longrightarrow> ledger_step db db'"
| named: "ledger_step db (snd (name_topic project name key tokens db))"
| renamed_keys: "record_topic_names project names db = Some db' \<Longrightarrow> ledger_step db db'"
| deleted: "ledger_step db (snd (soft_delete_topic_state now topic version db))"
| retired: "retire_topic now fresh_job project topic db = Some (b, db') \<Longrightarrow> ledger_step db db'"
| repaired: "ledger_step db (snd (repair_current_state_pointers project db))"
| renamed: "lock_topic db project f = Some lt \<Longrightarrow>
    rename_topic now fresh_job project (to_id (lt_topic lt)) (f, t) locators db = Some (b, db') \<Longrightarrow> ledger_step db db'"
| forgotten: "ledger_step db (forget_file_record_of project name db)"
| project: "ensure_project now fresh name db = Some (p, db') \<Longrightarrow> ledger_step db db'"
| purged: "purge_project collate name db = Some (gone, db') \<Longrightarrow> ledger_step db db'"
| filed: "put_file_records project records db = Some db' \<Longrightarrow> ledger_step db db'"
| unfiled: "ledger_step db (forget_file_records project files db)"
| unfiled_all: "ledger_step db (forget_records_of_files project names db)"
| unfiled_since: "ledger_step db (forget_file_records_written_since project sections since db)"
| synced: "sync_paths now project paths vector_index db = Some db' \<Longrightarrow> ledger_step db db'"
| unsynced: "ledger_step db (snd (unsync_paths project paths db))"
| outbox: "queue_step (l_jobs db) q \<Longrightarrow> ledger_step db (db\<lparr>l_jobs := q\<rparr>)"

inductive reachable_ledger :: "ledger \<Rightarrow> bool" where
  empty: "reachable_ledger empty_ledger"
| step: "reachable_ledger db \<Longrightarrow> ledger_step db db' \<Longrightarrow> reachable_ledger db'"

inductive_cases ledger_stepE: "ledger_step db db'"

lemma ledger_step_ok: "ledger_step db db' \<Longrightarrow> ledger_ok db \<Longrightarrow> ledger_ok db'"
proof (induction rule: ledger_step.induct)
  case (sourced now fresh project kind locator db x db')
  then show ?case using ensure_source_ok(1) by (cases x) blast
next
  case (evidenced now vid sid project source ev db x db')
  then show ?case using insert_version_ok by (cases x) (auto simp: append_evidence_def)
next
  case (promoted db project name pr now vid sid state_id fresh_job source ev y db')
  then show ?case using append_promoted_ok by blast
next
  case (created now topic project name named db lt db')
  then show ?case using create_topic_ok by blast
next
  case (named db project name key tokens)
  show ?case by (rule ledger_ok_cong [OF named]) (simp_all add: name_topic_fields ledger_okD(6) [OF named])
next
  case (renamed_keys project names db db')
  then have "db' = fold (record_topic_name project) names db" by (simp add: record_topic_names_def split: if_splits)
  then show ?case using ledger_okD(6) [OF renamed_keys(2)]
    by (intro ledger_ok_cong [OF renamed_keys(2)]) (simp_all add: record_names_fields)
next
  case (forgotten db project name)
  show ?case by (rule ledger_ok_cong [OF forgotten]) (simp_all add: forget_file_record_of_def ledger_okD(6) [OF forgotten])
next
  case (project now fresh name db p db')
  then show ?case using ensure_project_ok by blast
next
  case (purged collate name db gone db')
  then show ?case using purge_project_ok by blast
next
  case (filed project records db db')
  then show ?case using ledger_okD(6) [OF filed(2)]
    by (intro ledger_ok_cong [OF filed(2)]) (auto simp: put_file_records_def split: if_splits)
next
  case (unfiled db project files)
  show ?case by (rule ledger_ok_cong [OF unfiled]) (simp_all add: forget_file_records_def ledger_okD(6) [OF unfiled])
next
  case (unfiled_all db project names)
  show ?case by (rule ledger_ok_cong [OF unfiled_all]) (simp_all add: forget_records_of_files_def ledger_okD(6) [OF unfiled_all])
next
  case (unfiled_since db project sections since)
  show ?case by (rule ledger_ok_cong [OF unfiled_since]) (simp_all add: forget_file_records_written_since_def ledger_okD(6) [OF unfiled_since])
next
  case (synced now project paths vector_index db db')
  then show ?case using ledger_okD(6) [OF synced(2)]
    by (intro ledger_ok_cong [OF synced(2)]) (auto simp: sync_paths_def split: if_splits)
next
  case (unsynced db project paths)
  show ?case by (rule ledger_ok_cong [OF unsynced]) (simp_all add: unsync_paths_def Let_def ledger_okD(6) [OF unsynced])
next
  case (outbox db q)
  then show ?case using queue_step_ok ledger_okD(6) by (intro ledger_ok_cong [OF outbox(2)]) simp_all
next
  case (renamed db project f lt now fresh_job t locators b db')
  then show ?case using rename_topic_ok by blast
next
  case (retired now fresh_job project topic db b db')
  then show ?case using retire_topic_ok by blast
qed (simp_all add: set_source_root_ok set_roots_at_ok soft_delete_ok repair_noop)

lemma empty_ledger_ok: "ledger_ok empty_ledger"
  by (simp add: ledger_ok_def empty_ledger_def sources_ok_def evidence_ok_def topics_ok_def states_ok_def pointers_ok_def
      states_of_def queue_ok_def)

lemma reachable_okI: "reachable_ledger db \<Longrightarrow> ledger_ok db"
  by (induction rule: reachable_ledger.induct) (auto simp: empty_ledger_ok intro: ledger_step_ok)

end
