(* ===== verification/Index_Segmentation.thy ===== *)
theory Index_Segmentation
  imports RText
begin

text \<open>
  Names in text (\<open>crates/index/src/segmentation.rs\<close>). The word breaker is ICU's and lower casing a table
  of the standard library: both are arguments. What the program adds is which characters separate
  words, how token sequences are compared, and the runs of tokens a text is asked about
  (\<open>runs_of_tokens\<close> of \<open>crates/engine/src/engine.rs\<close>).
\<close>

definition SEPARATORS :: ustr where
  "SEPARATORS = lit ''_-./:''"

definition name_tokens :: "(ustr \<Rightarrow> ustr list) \<Rightarrow> (ustr \<Rightarrow> ustr) \<Rightarrow> ustr \<Rightarrow> ustr list" where
  "name_tokens tokens to_lowercase text =
     map to_lowercase (tokens (map (\<lambda>c. if c \<in> set SEPARATORS then 32 else c) text))"

definition segment_for_index :: "(ustr \<Rightarrow> ustr list) \<Rightarrow> ustr \<Rightarrow> ustr" where
  "segment_for_index tokens text = join_str [32] (tokens text)"

text \<open>\<open>slice::windows\<close>, for a width that is not 0.\<close>

definition windows :: "nat \<Rightarrow> 'a list \<Rightarrow> 'a list list" where
  "windows k xs = map (\<lambda>i. take k (drop i xs)) [0..<Suc (length xs) - k]"

definition seg_names :: "'a list \<Rightarrow> 'a list \<Rightarrow> bool" where
  "seg_names text needle \<longleftrightarrow> needle \<noteq> [] \<and> needle \<in> set (windows (length needle) text)"

definition names_in :: "(ustr \<Rightarrow> ustr list) \<Rightarrow> ustr \<Rightarrow> ustr \<Rightarrow> bool" where
  "names_in sequence text needle \<longleftrightarrow> seg_names (sequence text) (sequence needle)"

definition joined :: "ustr list \<Rightarrow> ustr" where
  "joined tokens = join_str [32] tokens"

text \<open>Every run of at most \<open>widest\<close> tokens, each once, in the byte order of the joined runs.\<close>

definition text_le :: "ustr \<Rightarrow> ustr \<Rightarrow> bool" where
  "text_le a b \<longleftrightarrow> a = b \<or> (a, b) \<in> lexord {(x, y). x < y}"

definition runs_of_tokens :: "ustr list \<Rightarrow> nat \<Rightarrow> ustr list" where
  "runs_of_tokens tokens widest =
     remdups_adj (sort_by text_le
       (concat (map (\<lambda>width. map joined (windows width tokens)) [1..<Suc (min widest (length tokens))])))"

section \<open>What a run is\<close>

lemma windows_iff: "w \<in> set (windows k xs) \<longleftrightarrow> length w = k \<and> k \<le> length xs \<and> (\<exists>a b. xs = a @ w @ b)"
proof
  assume "w \<in> set (windows k xs)"
  then obtain i where i: "i < Suc (length xs) - k" "w = take k (drop i xs)" by (auto simp: windows_def)
  then have "xs = take i xs @ w @ drop (i + k) xs"
    by (metis append_take_drop_id drop_drop add.commute)
  moreover have "length w = k" "k \<le> length xs" using i by simp_all
  ultimately show "length w = k \<and> k \<le> length xs \<and> (\<exists>a b. xs = a @ w @ b)" by blast
next
  assume w: "length w = k \<and> k \<le> length xs \<and> (\<exists>a b. xs = a @ w @ b)"
  then obtain a b where "xs = a @ w @ b" by blast
  then show "w \<in> set (windows k xs)" using w by (auto simp: windows_def image_iff intro!: bexI [of _ "length a"])
qed

lemma seg_names_iff: "seg_names text needle \<longleftrightarrow> needle \<noteq> [] \<and> (\<exists>a b. text = a @ needle @ b)"
  by (auto simp: seg_names_def windows_iff)

lemma set_runs_of_tokens:
  "run \<in> set (runs_of_tokens tokens widest) \<longleftrightarrow> (\<exists>w. run = joined w \<and> length w \<le> widest \<and> seg_names tokens w)"
proof -
  have "run \<in> set (runs_of_tokens tokens widest) \<longleftrightarrow>
      (\<exists>k\<in>{1..<Suc (min widest (length tokens))}. \<exists>w. run = joined w \<and> w \<in> set (windows k tokens))"
    unfolding runs_of_tokens_def remdups_adj_set set_sort_by set_concat set_map set_upt image_image UN_iff image_iff
    by (rule bex_cong [OF refl]) auto
  also have "\<dots> \<longleftrightarrow> (\<exists>w. run = joined w \<and> length w \<le> widest \<and> seg_names tokens w)"
    by (fastforce simp: windows_iff seg_names_iff Suc_le_eq)
  finally show ?thesis .
qed

text \<open>Words hold no space, so joining them loses nothing.\<close>

lemma joined_inj:
  assumes "\<forall>w\<in>set ws. is_word w" and "\<forall>w\<in>set vs. is_word w" and "joined ws = joined vs"
  shows "ws = vs"
proof -
  have "is_whitespace 32" by (simp add: is_whitespace_def)
  note split = split_whitespace_join [OF _ this]
  have "ws = split_whitespace (joined ws)" unfolding joined_def by (rule split [OF assms(1), symmetric])
  also have "\<dots> = vs" unfolding assms(3) unfolding joined_def by (rule split [OF assms(2)])
  finally show ?thesis .
qed

end
