(* ===== verification/Engine_Write.thy ===== *)
theory Engine_Write
  imports Store_Ledger_Steps Core_Filter Index_Segmentation
begin

text \<open>
  Recording memories (\<open>crates/engine/src/engine.rs\<close>): the write transaction, the two ways into it, and
  taking a section of a file off the surface or renaming it.

  The hash, the language detector and the segmenter's tokens of a name are code of other crates and are
  arguments (\<open>surroundings\<close>), as are the clocks and the identifiers a call mints (\<open>minted\<close>). A call that
  fails rolls its transaction back: the ledger is the one it started from. What it remembered of the
  widest name, in the process and outside the transaction, stays.
\<close>

record surroundings =
  en_hash :: "ustr \<Rightarrow> string"
  en_detect :: "ustr \<Rightarrow> (string \<times> rat) option"
  en_tokens :: "ustr \<Rightarrow> ustr list"

record minted =
  mn_source :: source_id
  mn_topic :: topic_id
  mn_version :: source_version_id
  mn_span :: span_id
  mn_state :: topic_state_id
  mn_jobs :: "nat \<Rightarrow> job_id"
  mn_backfill :: "nat \<Rightarrow> job_id"
  mn_observed_at :: instant
  mn_source_at :: instant
  mn_topic_at :: instant
  mn_recorded_at :: instant
  mn_queued_at :: instant

record write_request =
  wr_topic :: ustr
  wr_content :: ustr
  wr_hash :: string
  wr_verdict :: filter_decision
  wr_reason :: string
  wr_promoted :: bool
  wr_language :: "string option"
  wr_confidence :: "rat option"
  wr_observed_at :: instant
  wr_validity :: validity

record recorded =
  re_source_version :: nat
  re_state :: "topic_state option"

record engine =
  eg_ledger :: ledger
  eg_widest :: nat

fun locator :: "source_kind \<Rightarrow> ustr \<Rightarrow> ustr" where
  "locator Manual topic = lit ''manual:'' @ topic"
| "locator SourceFile topic = lit ''file:'' @ topic"

definition file_locator :: "ustr \<Rightarrow> ustr" where
  "file_locator topic = locator SourceFile topic"

section \<open>The transaction\<close>

definition evidence_of :: "write_request \<Rightarrow> evidence" where
  "evidence_of w = \<lparr>ev_content = wr_content w, ev_hash = wr_hash w, ev_decision = wr_verdict w, ev_reason = wr_reason w,
     ev_language = wr_language w, ev_confidence = wr_confidence w\<rparr>"

text \<open>The topic a promoted write goes to, whether it was there, and whether this write created and named it.\<close>

definition engine_create_topic :: "surroundings \<Rightarrow> minted \<Rightarrow> project_id \<Rightarrow> ustr \<Rightarrow> ledger \<Rightarrow> (locked_topic \<times> ledger) option" where
  "engine_create_topic en mn project name db =
     (let tokens = en_tokens en name in
      create_topic_named (mn_topic_at mn) (mn_topic mn) project name (joined tokens) (length tokens) db)"

definition topic_for :: "surroundings \<Rightarrow> minted \<Rightarrow> project_id \<Rightarrow> source_kind \<Rightarrow> ustr \<Rightarrow> ledger
    \<Rightarrow> ((locked_topic \<times> bool \<times> bool) \<times> ledger) option" where
  "topic_for en mn project kind name db =
     (case lock_topic db project name of
        Some lt \<Rightarrow> Some ((lt, True, False), db)
      | None \<Rightarrow>
          if kind = SourceFile
          then map_option (\<lambda>(lt, db'). ((lt, False, False), db')) (create_topic_unnamed (mn_topic_at mn) (mn_topic mn) project name db)
          else map_option (\<lambda>(lt, db'). ((lt, False, True), db')) (engine_create_topic en mn project name db))"

definition owed_by_write :: "source_kind \<Rightarrow> bool \<Rightarrow> job_kind list" where
  "owed_by_write kind found = [SyncTopicIndex, DeriveMentions] @ (if \<not> found \<and> kind \<noteq> SourceFile then [BackfillMentions] else [])"

text \<open>The part both verdicts share: a name left out by an ingest goes in with the first write by hand.\<close>

definition name_by_hand :: "surroundings \<Rightarrow> minted \<Rightarrow> project_id \<Rightarrow> ustr \<Rightarrow> ledger \<Rightarrow> ledger option \<times> nat" where
  "name_by_hand en mn project topic db =
     (let tokens = en_tokens en topic in
      case name_topic project topic (joined tokens) (length tokens) db of
        (None, db') \<Rightarrow> (Some db', 0)
      | (Some t, db') \<Rightarrow>
          (case enqueue (mn_queued_at mn) (mn_backfill mn) project BackfillMentions (Some (uuid_of t)) (l_jobs db') of
             None \<Rightarrow> (None, 0)
           | Some jobs \<Rightarrow> (Some (db'\<lparr>l_jobs := jobs\<rparr>), length tokens)))"

definition settle_write :: "surroundings \<Rightarrow> minted \<Rightarrow> project_id \<Rightarrow> ustr \<Rightarrow> bool \<Rightarrow> recorded \<Rightarrow> nat \<Rightarrow> ledger
    \<Rightarrow> (recorded \<times> ledger) option \<times> nat" where
  "settle_write en mn project topic names recorded known db =
     (if names
      then (case name_by_hand en mn project topic db of
              (r, tokens) \<Rightarrow> (map_option (Pair recorded) r, max known tokens))
      else (Some (recorded, db), known))"

text \<open>The transaction's outcome, and the width of a name it learned of.\<close>

definition write_body :: "surroundings \<Rightarrow> minted \<Rightarrow> project_id \<Rightarrow> write_request \<Rightarrow> source_kind \<Rightarrow> ustr option \<Rightarrow> ledger
    \<Rightarrow> (recorded \<times> ledger) option \<times> nat" where
  "write_body en mn project w kind tree db =
     (case ensure_source_created (mn_source_at mn) (mn_source mn) project kind (locator kind (wr_topic w)) db of
        None \<Rightarrow> (None, 0)
      | Some ((source, first), db1) \<Rightarrow>
          let db2 = (case tree of None \<Rightarrow> db1 | Some t \<Rightarrow> set_source_root source t db1) in
          if wr_promoted w
          then
            (case topic_for en mn project kind (wr_topic w) db2 of
               None \<Rightarrow> (None, 0)
             | Some ((lt, found, created), db3) \<Rightarrow>
                 let known = (if created then length (en_tokens en (wr_topic w)) else 0);
                     pr = \<lparr>pr_topic = lt, pr_observed_at = wr_observed_at w, pr_validity = wr_validity w, pr_owed = owed_by_write kind found\<rparr>
                 in case append_promoted (mn_recorded_at mn) (mn_version mn) (mn_span mn) (mn_state mn) (mn_jobs mn)
                           project source (evidence_of w) pr db3 of
                      None \<Rightarrow> (None, known)
                    | Some ((v, _, st), db4) \<Rightarrow>
                        let db5 = (if kind = Manual \<and> found then forget_file_record_of project (wr_topic w) db4 else db4)
                        in settle_write en mn project (wr_topic w) (kind = Manual \<and> first \<and> \<not> created)
                             \<lparr>re_source_version = sv_number v, re_state = Some st\<rparr> known db5)
          else
            (case append_evidence (mn_recorded_at mn) (mn_version mn) (mn_span mn) project source (evidence_of w) db2 of
               None \<Rightarrow> (None, 0)
             | Some ((v, _), db3) \<Rightarrow>
                 settle_write en mn project (wr_topic w) (kind = Manual \<and> first)
                   \<lparr>re_source_version = sv_number v, re_state = None\<rparr> 0 db3))"

definition remember_widest_name :: "nat \<Rightarrow> engine \<Rightarrow> engine" where
  "remember_widest_name tokens e = e\<lparr>eg_widest := max (eg_widest e) tokens\<rparr>"

definition widest_name :: "project_id \<Rightarrow> engine \<Rightarrow> nat \<times> engine" where
  "widest_name project e =
     (if 0 < eg_widest e then (eg_widest e, e)
      else let widest = widest_topic_name (eg_ledger e) project in (widest, remember_widest_name widest e))"

definition write_from :: "surroundings \<Rightarrow> minted \<Rightarrow> project_id \<Rightarrow> write_request \<Rightarrow> source_kind \<Rightarrow> ustr option \<Rightarrow> engine
    \<Rightarrow> recorded option \<times> engine" where
  "write_from en mn project w kind tree e =
     (case write_body en mn project w kind tree (eg_ledger e) of
        (None, known) \<Rightarrow> (None, remember_widest_name known e)
      | (Some (r, db), known) \<Rightarrow> (Some r, remember_widest_name known (e\<lparr>eg_ledger := db\<rparr>)))"

definition write_by_hand :: "surroundings \<Rightarrow> minted \<Rightarrow> project_id \<Rightarrow> write_request \<Rightarrow> engine \<Rightarrow> recorded option \<times> engine" where
  "write_by_hand en mn project w e = write_from en mn project w Manual None e"

definition record_memory :: "surroundings \<Rightarrow> minted \<Rightarrow> project_id \<Rightarrow> ustr \<Rightarrow> ustr \<Rightarrow> validity \<Rightarrow> verdict \<Rightarrow> source_kind
    \<Rightarrow> ustr option \<Rightarrow> engine \<Rightarrow> recorded option \<times> engine" where
  "record_memory en mn project topic content validity verdict kind tree e =
     write_from en mn project
       \<lparr>wr_topic = topic, wr_content = content, wr_hash = en_hash en content, wr_verdict = v_decision verdict,
        wr_reason = verdict_reason verdict, wr_promoted = is_promoted verdict,
        wr_language = map_option fst (en_detect en content), wr_confidence = map_option snd (en_detect en content),
        wr_observed_at = mn_observed_at mn, wr_validity = validity\<rparr> kind tree e"

section \<open>The ways in\<close>

text \<open>
  What the topic says now is read before the transaction, from \<open>seen\<close>: the ledger as it was then, which
  other calls may have changed since. A read the code panics on is \<open>None\<close>.
\<close>

definition judged :: "ledger \<Rightarrow> project_id \<Rightarrow> ustr \<Rightarrow> ustr \<Rightarrow> (verdict \<times> ustr option) option" where
  "judged seen project topic content =
     map_option (\<lambda>current. (judge default_filter content current, current)) (current_content seen project topic)"

definition remember :: "surroundings \<Rightarrow> minted \<Rightarrow> project_id \<Rightarrow> ustr \<Rightarrow> ustr \<Rightarrow> validity \<Rightarrow> ledger \<Rightarrow> engine
    \<Rightarrow> (verdict \<times> recorded) option \<times> engine" where
  "remember en mn project topic content validity seen e =
     (case judged seen project topic content of
        None \<Rightarrow> (None, e)
      | Some (verdict, _) \<Rightarrow>
          (case record_memory en mn project topic content validity verdict Manual None e of
             (r, e') \<Rightarrow> (map_option (Pair verdict) r, e')))"

definition unchanged_section :: "surroundings \<Rightarrow> project_id \<Rightarrow> ustr \<Rightarrow> ustr \<Rightarrow> verdict \<Rightarrow> ustr option \<Rightarrow> ledger \<Rightarrow> bool" where
  "unchanged_section en project topic content verdict current seen \<longleftrightarrow>
     v_rejection verdict = Some Restatement \<or>
     \<not> is_promoted verdict \<and> current = None \<and>
       latest_hash_at seen project (locator SourceFile topic) = Some (en_hash en content)"

text \<open>An error is \<open>None\<close>; a section that says what it said is \<open>Some None\<close>.\<close>

definition remember_section :: "surroundings \<Rightarrow> minted \<Rightarrow> project_id \<Rightarrow> ustr \<Rightarrow> ustr \<Rightarrow> validity \<Rightarrow> ustr \<Rightarrow> ledger \<Rightarrow> engine
    \<Rightarrow> (verdict \<times> recorded) option option \<times> engine" where
  "remember_section en mn project topic content validity tree seen e =
     (case judged seen project topic content of
        None \<Rightarrow> (None, e)
      | Some (verdict, current) \<Rightarrow>
          if unchanged_section en project topic content verdict current seen then (Some None, e)
          else
            (case record_memory en mn project topic content validity verdict SourceFile (Some tree) e of
               (r, e') \<Rightarrow> (map_option (\<lambda>r. Some (verdict, r)) r, e')))"

datatype retired = Retired | Kept | Changed | Absent

definition retire_section :: "minted \<Rightarrow> project_id \<Rightarrow> ustr \<Rightarrow> topic_state_id \<Rightarrow> engine \<Rightarrow> retired option \<times> engine" where
  "retire_section mn project topic seen e =
     (case lock_topic (eg_ledger e) project topic of
        None \<Rightarrow> (Some Absent, e)
      | Some locked \<Rightarrow>
          (case lt_current locked of
             None \<Rightarrow> (Some Absent, e)
           | Some current \<Rightarrow>
               if current \<noteq> seen then (Some Changed, e)
               else if source_at (eg_ledger e) project (locator Manual topic) then (Some Kept, e)
               else
                 (case retire_topic (mn_recorded_at mn) (mn_jobs mn) project (to_id (lt_topic locked)) (eg_ledger e) of
                    None \<Rightarrow> (None, e)
                  | Some (gone, db) \<Rightarrow> (Some (if gone then Retired else Absent), e\<lparr>eg_ledger := db\<rparr>))))"

definition rename_section :: "minted \<Rightarrow> project_id \<Rightarrow> ustr \<Rightarrow> ustr \<Rightarrow> topic_state_id \<Rightarrow> engine \<Rightarrow> bool option \<times> engine" where
  "rename_section mn project f t seen e =
     (case lock_topic (eg_ledger e) project f of
        None \<Rightarrow> (Some False, e)
      | Some locked \<Rightarrow>
          if lt_current locked \<noteq> Some seen \<or> source_at (eg_ledger e) project (locator Manual f) then (Some False, e)
          else
            (case rename_topic (mn_recorded_at mn) (mn_jobs mn) project (to_id (lt_topic locked)) (f, t)
                    (locator SourceFile f, locator SourceFile t) (eg_ledger e) of
               None \<Rightarrow> (None, e)
             | Some (True, db) \<Rightarrow> (Some True, e\<lparr>eg_ledger := db\<rparr>)
             | Some (False, _) \<Rightarrow> (Some False, e)))"

end
