(* ===== verification/Store_Ledger_Sound.thy ===== *)
theory Store_Ledger_Sound
  imports Store_Ledger_Steps
begin

text \<open>
  What the ledger promises over any run of its statements: its invariant, that a promotion reads back
  and nothing recorded is lost, that a pointer is the latest version whatever is deleted, and that a
  renamed topic is found under both names.
\<close>

section \<open>Reading back what was written\<close>

lemma find_key: "distinct (map f xs) \<Longrightarrow> x \<in> set xs \<Longrightarrow> find (\<lambda>y. f y = f x) xs = Some x"
  by (induction xs) (auto simp: rev_image_eqI)

lemma find_snoc: "find P (xs @ [y]) = (case find P xs of None \<Rightarrow> if P y then Some y else None | Some x \<Rightarrow> Some x)"
  by (induction xs) auto

lemma find_kept: "find P xs \<noteq> None \<Longrightarrow> find P (xs @ [y]) = find P xs"
  by (auto simp: find_snoc)

lemma states_of_span:
  assumes ok: "ledger_ok db" and r: "r \<in> set (l_states db)"
  obtains sp v where "span_joins db r = Some (r, sp, v)" "sp \<in> set (l_spans db)" "v \<in> set (l_evidence db)" "sp_id sp = ts_span r"
    "sv_id v = sp_version sp" "content_of_span sp v = Some (sv_content v)"
proof -
  obtain sp where sp: "sp \<in> set (l_spans db)" "sp_id sp = ts_span r"
    using ledger_okD(4) [OF ok] r unfolding states_ok_def by (metis imageE)
  obtain v where v: "v \<in> set (l_evidence db)" "sv_id v = sp_version sp" "sp_start sp = 0" "sp_end sp = byte_len (sv_content v)"
    using ledger_okD(2) [OF ok] sp(1) unfolding evidence_ok_def by blast
  have d: "distinct (map sp_id (l_spans db))" "distinct (map sv_id (l_evidence db))"
    using ledger_okD(2) [OF ok] unfolding evidence_ok_def by blast+
  have "span_joins db r = Some (r, sp, v)"
    using find_key [OF d(1) sp(1)] find_key [OF d(2) v(1)] sp(2) v(2) by (simp add: span_joins_def)
  then show thesis using that sp v by (simp add: content_of_span_def)
qed

lemma map_filter_all: "(\<And>x. x \<in> set xs \<Longrightarrow> f x = Some (g x)) \<Longrightarrow> List.map_filter f xs = map g xs"
  by (induction xs) (simp_all add: map_filter_simps)

text \<open>Every read of the ledger is of text a span can give: none panics.\<close>

lemma row_reads:
  assumes "ledger_ok db" "r \<in> set (l_states db)"
  obtains x s where "span_joins db r = Some x" "fst x = r" "row_to_topic_state x = Some s" "st_version s = ts_number r" "st_of s = ts_topic r"
    "st_id s = ts_id r"
proof -
  obtain sp v where "span_joins db r = Some (r, sp, v)" "content_of_span sp v = Some (sv_content v)"
    using states_of_span [OF assms] by metis
  then show thesis using that [of "(r, sp, v)"] by (simp add: row_to_topic_state_def)
qed

definition row_numbered :: "ledger \<Rightarrow> project_id \<Rightarrow> topic_id \<Rightarrow> nat \<Rightarrow> state_row list" where
  "row_numbered db project topic version =
     filter (\<lambda>r. ts_project r = project \<and> ts_topic r = topic \<and> ts_number r = version) (l_states db)"

lemma all_same_le1:
  assumes "distinct xs" "\<And>x y. x \<in> set xs \<Longrightarrow> y \<in> set xs \<Longrightarrow> x = y"
  shows "xs = [] \<or> (\<exists>r. xs = [r])"
proof (cases xs)
  case (Cons a ys)
  have "ys = []"
  proof (cases ys)
    case (Cons b zs)
    then have "a = b" using \<open>xs = a # ys\<close> by (intro assms(2)) simp_all
    then show ?thesis using assms(1) Cons \<open>xs = a # ys\<close> by simp
  qed simp
  with Cons show ?thesis by simp
qed simp

lemma row_numbered_le1:
  assumes ok: "ledger_ok db"
  shows "row_numbered db project topic version = [] \<or> (\<exists>r. row_numbered db project topic version = [r])"
proof -
  have "distinct (map ts_id (l_states db))" using ledger_okD(4) [OF ok] unfolding states_ok_def by blast
  then have "distinct (l_states db)" by (simp only: distinct_map)
  then have d: "distinct (row_numbered db project topic version)" by (simp add: row_numbered_def)
  show ?thesis
  proof (rule all_same_le1 [OF d])
    fix x y assume "x \<in> set (row_numbered db project topic version)" "y \<in> set (row_numbered db project topic version)"
    then show "x = y" unfolding row_numbered_def
      by (intro state_by_number [OF ledger_okD(4) [OF ok]]) simp_all
  qed
qed

lemma topic_state_at_eq:
  assumes ok: "ledger_ok db"
  shows "topic_state_at db project topic version =
    (case row_numbered db project topic version of [] \<Rightarrow> Some None | r # _ \<Rightarrow> map_option Some (row_to_topic_state (the (span_joins db r))))"
proof (cases "row_numbered db project topic version")
  case Nil
  then show ?thesis by (simp add: topic_state_at_def row_numbered_def map_filter_simps)
next
  case (Cons r rs)
  then have "r \<in> set (row_numbered db project topic version)" by simp
  then have "r \<in> set (l_states db)" by (simp add: row_numbered_def)
  then obtain x where "span_joins db r = Some x" using row_reads [OF ok] by metis
  then show ?thesis using Cons by (simp add: topic_state_at_def row_numbered_def map_filter_simps)
qed

lemma spans_kept:
  assumes ok: "ledger_ok db" and r: "r \<in> set (l_states db)"
    and db': "l_spans db' = l_spans db @ [sp']" "l_evidence db' = l_evidence db @ [v']"
  shows "span_joins db' r = span_joins db r"
proof -
  obtain sp v where s: "span_joins db r = Some (r, sp, v)" using states_of_span [OF ok r] by metis
  then have "find (\<lambda>sp. sp_id sp = ts_span r) (l_spans db) = Some sp" "find (\<lambda>v. sv_id v = sp_version sp) (l_evidence db) = Some v"
    by (auto simp: span_joins_def split: option.splits)
  then show ?thesis by (simp add: span_joins_def db' find_snoc)
qed

lemma append_promotedD:
  assumes ok: "ledger_ok db" and lock: "lock_topic db project name = Some (pr_topic pr)"
    and a: "append_promoted now vid sid state_id fresh_job project source ev pr db = Some ((v, sp, s), db')"
  obtains r t where "ledger_ok db'" "newest_state db' (st_of s) = Some r" "span_joins db' r = Some (r, sp, v)"
    "row_to_topic_state (r, sp, v) = Some s" "l_states db' = l_states db @ [r]" "l_evidence db' = l_evidence db @ [v]"
    "l_spans db' = l_spans db @ [sp]" "sv_content v = ev_content ev" "st_content s = ev_content ev" "ts_number r = st_version s" "ts_topic r = st_of s"
    "ts_project r = project" "t \<in> set (l_topics db)" "tp_id t = st_of s" "topic_named db project name = Some t"
    "st_supersedes s = tp_current t" "st_version s = length (states_of (l_states db) (tp_id t)) + 1"
    "l_topics db' = l_topics (point_at (tp_id t) (Some (st_id s, st_version s)) db)" "ts_id r = st_id s"
proof -
  obtain db1 r where i: "insert_version now vid sid project source ev db = Some ((v, sp), db1)"
    and st: "append_state now state_id fresh_job project sid pr db1 = Some (r, db')"
    and s: "s = \<lparr>st_id = state_id, st_project = project, st_of = to_id (lt_topic (pr_topic pr)),
                  st_version = ts_number r, st_content = ev_content ev, st_span = sid, st_language = ev_language ev,
                  st_observed_at = pr_observed_at pr, st_recorded_at = now, st_validity = pr_validity pr,
                  st_supersedes = lt_current (pr_topic pr), st_deleted_at = None\<rparr>"
    using a by (auto simp: append_promoted_def split: option.splits prod.splits)
  note d = insert_versionD [OF i]
  have sv: "sv_id v = vid" "sv_content v = ev_content ev"
    using arg_cong [OF d(2), of sv_id] arg_cong [OF d(2), of sv_content] by simp_all
  have db1: "l_spans db1 = l_spans db @ [sp]" "l_evidence db1 = l_evidence db @ [v]" "l_states db1 = l_states db" "l_topics db1 = l_topics db"
    using d(7) by simp_all
  have ok1: "ledger_ok db1" by (rule insert_version_ok [OF ok i])
  have lock1: "lock_topic db1 project name = Some (pr_topic pr)" using lock lock_after_insert [OF i] by simp
  have sid: "sid \<in> sp_id ` set (l_spans db1)" using d(3) db1(1) by simp
  note r = append_state_ok [OF ok1 sid lock1 st]
  obtain t where t: "t \<in> set (l_topics db)" "topic_named db project name = Some t" "tp_project t = project"
    "to_id (lt_topic (pr_topic pr)) = tp_id t" "lt_current (pr_topic pr) = tp_current t" by (rule lock_topicD [OF lock]) blast
  obtain jobs where j: "following_number (state_numbers db1 project (tp_id t)) = Some (ts_number r)"
    "r = \<lparr>ts_id = state_id, ts_project = project, ts_topic = tp_id t, ts_number = ts_number r,
       ts_span = sid, ts_observed_at = pr_observed_at pr, ts_recorded_at = now, ts_validity = pr_validity pr,
       ts_supersedes = tp_current t, ts_deleted_at = None\<rparr>"
    "db' = point_at (tp_id t) (Some (state_id, ts_number r)) (db1\<lparr>l_states := l_states db1 @ [r], l_jobs := jobs\<rparr>)"
    by (rule append_stateD [OF st]) (simp only: t)
  have f: "ts_id r = state_id" "ts_project r = project" "ts_topic r = tp_id t" "ts_span r = sid" "ts_observed_at r = pr_observed_at pr"
    "ts_recorded_at r = now" "ts_validity r = pr_validity pr" "ts_supersedes r = tp_current t" "ts_deleted_at r = None"
    using arg_cong [OF j(2), of ts_id] arg_cong [OF j(2), of ts_project] arg_cong [OF j(2), of ts_topic] arg_cong [OF j(2), of ts_span]
      arg_cong [OF j(2), of ts_supersedes] arg_cong [OF j(2), of ts_deleted_at] arg_cong [OF j(2), of ts_observed_at]
      arg_cong [OF j(2), of ts_recorded_at] arg_cong [OF j(2), of ts_validity] by simp_all
  have "numbers_dense (map ts_number (states_of (l_states db) (tp_id t)))" using ledger_okD(4) [OF ok] unfolding states_ok_def by blast
  moreover have "state_numbers db1 project (tp_id t) = map ts_number (states_of (l_states db) (tp_id t))"
    using state_numbers_topic [OF ledger_okD(4,3) [OF ok] t(1)] t(3) by (simp add: state_numbers_def db1)
  ultimately have num: "ts_number r = length (states_of (l_states db) (tp_id t)) + 1" using j(1) by (auto simp: following_dense split: if_splits)
  have e: "find (\<lambda>x. sp_id x = sid) (l_spans db') = Some sp" "find (\<lambda>x. sv_id x = vid) (l_evidence db') = Some v"
    using find_key [of sp_id "l_spans db'" sp] find_key [of sv_id "l_evidence db'" v] ledger_okD(2) [OF r(1)] d(3) sv(1)
    by (simp_all add: evidence_ok_def j(3) db1)
  have sj: "span_joins db' r = Some (r, sp, v)" using e d(3) f(4) by (simp add: span_joins_def)
  have "content_of_span sp v = Some (ev_content ev)" using d(3) sv(2) by (simp add: content_of_span_def)
  then have row: "row_to_topic_state (r, sp, v) = Some s"
    unfolding row_to_topic_state_def by (simp add: f s d(3) t)
  show thesis
    by (rule that [OF r(1) _ sj row _ _ _ _ _ _ _ _ t(1) _ t(2)])
      (use r(2) num f sv in \<open>simp_all add: s t j(3) db1 point_at_topics\<close>)
qed

lemma repair_again:
  "repair_current_state_pointers project (snd (repair_current_state_pointers project db))
     = (0, snd (repair_current_state_pointers project db))"
proof -
  let ?db = "snd (repair_current_state_pointers project db)"
  have *: "tp_project t = project \<Longrightarrow> pointer_row t (pointer_of (newest_state ?db (tp_id t)))" if "t \<in> set (l_topics ?db)" for t
    by (rule repair_points [OF that])
  have "map (\<lambda>t. if tp_project t = project \<and> \<not> pointer_row t (pointer_of (newest_state ?db (tp_id t)))
             then t\<lparr>tp_current := map_option ts_id (newest_state ?db (tp_id t)),
                    tp_current_version := map_option ts_number (newest_state ?db (tp_id t))\<rparr> else t) (l_topics ?db) = l_topics ?db"
    using * by (intro map_idI) (simp only: if_cancel simp_thms split: if_split, blast)
  moreover have "filter (\<lambda>t. tp_project t = project \<and> \<not> pointer_row t (pointer_of (newest_state ?db (tp_id t)))) (l_topics ?db) = []"
    using * by (simp only: filter_empty_conv) blast
  ultimately show ?thesis by (subst repair_current_state_pointers_def) (simp only: Let_def list.size ledger.surjective [symmetric], simp)
qed

section \<open>What the ledger promises\<close>

text \<open>
  C6: whatever order the statements run in, a ledger grown from nothing keeps its identities and names
  unique, its versions numbered from 1 without gap or repeat, its spans over their evidence, every
  state after the one it supersedes, and every topic pointing at its newest undeleted state.
\<close>

theorem reachable_ledger_ok:
  "reachable_ledger db \<Longrightarrow> ledger_ok db"
  by (rule reachable_okI)

text \<open>A sample: a topic with a source, written twice.\<close>

definition sample_evidence :: "string \<Rightarrow> evidence" where
  "sample_evidence s = \<lparr>ev_content = lit s, ev_hash = s, ev_decision = Promoted, ev_reason = ''ok'', ev_language = None, ev_confidence = None\<rparr>"

definition sample_promotion :: "ledger \<Rightarrow> promotion" where
  "sample_promotion db = \<lparr>pr_topic = the (lock_topic db 7 (lit ''a'')), pr_observed_at = 12, pr_validity = ALWAYS,
     pr_owed = [SyncTopicIndex]\<rparr>"

definition sample_created :: ledger where
  "sample_created = (case create_topic 10 (TopicId 1) 7 (lit ''a'') None empty_ledger of Some (_, db) \<Rightarrow> db)"

definition sample_sourced :: ledger where
  "sample_sourced = (case ensure_source_created 11 2 7 Manual (lit ''a'') sample_created of Some (_, db) \<Rightarrow> db)"

definition sample_write :: "uuid \<Rightarrow> string \<Rightarrow> ledger \<Rightarrow> ((source_version \<times> source_span \<times> topic_state) \<times> ledger) option" where
  "sample_write n content db =
     append_promoted 12 n n n (\<lambda>k. word_of_nat k) 7 2 (sample_evidence content) (sample_promotion db) db"

definition sample_first :: ledger where
  "sample_first =
     \<lparr>l_sources = [\<lparr>so_id = 2, so_project = 7, so_kind = Manual, so_locator = lit ''a'', so_created_at = 11, so_root = None\<rparr>],
      l_evidence = [\<lparr>sv_id = 3, sv_project = 7, sv_source = 2, sv_number = 1, sv_content = lit ''zero'', sv_hash = ''zero'',
        sv_decision = Promoted, sv_reason = ''ok'', sv_recorded_at = 12\<rparr>],
      l_spans = [\<lparr>sp_id = 3, sp_project = 7, sp_version = 3, sp_start = 0, sp_end = 4, sp_language = None, sp_confidence = None\<rparr>],
      l_topics = [\<lparr>tp_id = TopicId 1, tp_project = 7, tp_name = lit ''a'', tp_path = None, tp_created_at = 10,
        tp_current = Some 3, tp_current_version = Some 1\<rparr>],
      l_states = [\<lparr>ts_id = 3, ts_project = 7, ts_topic = TopicId 1, ts_number = 1, ts_span = 3, ts_observed_at = 12,
        ts_recorded_at = 12, ts_validity = ALWAYS, ts_supersedes = None, ts_deleted_at = None\<rparr>],
      l_aliases = [], l_names = [], l_files = [], l_synced = [], l_projects = [],
      l_jobs = [\<lparr>jr_id = 0, jr_project = 7, jr_kind = SyncTopicIndex, jr_subject = Some 1, jr_priority = 10,
        jr_available_at = 12, jr_created_at = 12, jr_attempts = 0, jr_claimed_at = None, jr_claimed_by = None,
        jr_last_error = None\<rparr>]\<rparr>"

definition sample_ledger :: ledger where
  "sample_ledger = snd (the (sample_write 4 ''one'' sample_first))"

lemma sample_create: "create_topic 10 (TopicId 1) 7 (lit ''a'') None empty_ledger
     = Some (fst (the (create_topic 10 (TopicId 1) 7 (lit ''a'') None empty_ledger)), sample_created)"
  by code_simp

lemma sample_source: "ensure_source_created 11 2 7 Manual (lit ''a'') sample_created = Some ((2, True), sample_sourced)"
  by code_simp

lemma sample_write_1: "lock_topic sample_sourced 7 (lit ''a'') \<noteq> None"
    "map_option snd (sample_write 3 ''zero'' sample_sourced) = Some sample_first"
  by code_simp+

lemma sample_write_2: "lock_topic sample_first 7 (lit ''a'') \<noteq> None" "sample_write 4 ''one'' sample_first \<noteq> None"
  by code_simp+

lemma sample_write_step:
  assumes r: "reachable_ledger db" and l: "lock_topic db 7 (lit ''a'') \<noteq> None" and w: "sample_write n content db \<noteq> None"
  shows "reachable_ledger (snd (the (sample_write n content db)))"
proof -
  have k: "lock_topic db 7 (lit ''a'') = Some (pr_topic (sample_promotion db))"
    unfolding sample_promotion_def promotion.select_convs using l by (rule option.collapse [symmetric])
  obtain y db' where y: "sample_write n content db = Some (y, db')" using w by (metis not_None_eq prod.exhaust)
  have "ledger_step db db'" by (rule ledger_step.promoted [OF k y [unfolded sample_write_def]])
  then have "reachable_ledger db'" by (rule reachable_ledger.step [OF r])
  then show ?thesis by (simp only: y option.sel snd_conv)
qed

lemma sample_sourced_reachable: "reachable_ledger sample_sourced"
  by (rule reachable_ledger.step [OF _ ledger_step.sourced [OF sample_source]])
    (rule reachable_ledger.step [OF reachable_ledger.empty ledger_step.created [OF sample_create]])

lemma sample_first_write: obtains x where "sample_write 3 ''zero'' sample_sourced = Some (x, sample_first)"
proof -
  obtain y where y: "sample_write 3 ''zero'' sample_sourced = Some y" "snd y = sample_first"
    using sample_write_1(2) unfolding map_option_eq_Some by blast
  show thesis by (rule that [of "fst y"]) (simp only: y(1) y(2) [symmetric] prod.collapse)
qed

lemma sample_first_reachable: "reachable_ledger sample_first"
proof -
  obtain x where x: "sample_write 3 ''zero'' sample_sourced = Some (x, sample_first)" by (rule sample_first_write)
  have "reachable_ledger (snd (the (sample_write 3 ''zero'' sample_sourced)))"
    by (rule sample_write_step [OF sample_sourced_reachable sample_write_1(1)]) (simp only: x option.distinct not_False_eq_True)
  then show ?thesis by (simp only: x option.sel snd_conv)
qed

lemma sample_reachable: "reachable_ledger sample_ledger"
  unfolding sample_ledger_def by (rule sample_write_step [OF sample_first_reachable sample_write_2])

theorem reachable_ledger_ok_witness: "reachable_ledger sample_ledger \<and> ledger_ok sample_ledger"
  using reachable_ledger_ok [OF sample_reachable] sample_reachable by simp

text \<open>Versions as the resolver reads them.\<close>

definition offered :: "ledger \<Rightarrow> topic_id \<Rightarrow> 32 word list" where
  "offered db topic = map word_of_nat (topic_versions db topic)"

lemma last_sorted_max:
  assumes "x \<in> set xs" "\<And>y. y \<in> set xs \<Longrightarrow> y \<le> (x :: nat)"
  shows "last (sort xs) = x"
proof -
  have ne: "sort xs \<noteq> []" using assms(1) by (cases xs) auto
  have "last (sort xs) \<in> set xs" using last_in_set [OF ne] by simp
  then have "last (sort xs) \<le> x" by (rule assms(2))
  moreover have "x \<in> set (sort xs)" using assms(1) by simp
  then obtain i where i: "i < length (sort xs)" "sort xs ! i = x" by (metis in_set_conv_nth)
  then have "sort xs ! i \<le> sort xs ! (length (sort xs) - 1)" by (intro sorted_nth_mono) auto
  then have "x \<le> last (sort xs)" using i ne by (simp add: last_conv_nth)
  ultimately show ?thesis by simp
qed

lemma last_topic_versions: "newest_state db topic = Some r \<Longrightarrow> last (topic_versions db topic) = ts_number r"
  unfolding topic_versions_def
  by (rule last_sorted_max) (use newest_stateD in \<open>auto\<close>)

lemma topic_versions_Nil: "topic_versions db topic = [] \<longleftrightarrow> newest_state db topic = None"
  by (simp add: topic_versions_def newest_state_None flip: set_empty)

text \<open>
  C30: the pointer a topic carries is what resolving its latest version would find: nothing when no
  state survives, otherwise the version at offset 0 and that very state.
\<close>

theorem pointer_is_latest:
  assumes "reachable_ledger db" and "t \<in> set (l_topics db)"
  shows "map_option word_of_nat (tp_current_version t) = map_option rv_version (resolve (offered db (tp_id t)) LATEST) \<and>
    (tp_current t = None \<longleftrightarrow> topic_versions db (tp_id t) = []) \<and>
    (\<forall>s. tp_current t = Some s \<longrightarrow> (\<exists>r\<in>set (l_states db). ts_id r = s \<and> ts_topic r = tp_id t \<and> ts_deleted_at r = None \<and>
       tp_current_version t = Some (ts_number r)))"
proof -
  have p: "pointer_row t (pointer_of (newest_state db (tp_id t)))"
    using ledger_okD(5) [OF reachable_okI [OF assms(1)]] assms(2) by (simp add: pointers_ok_def)
  show ?thesis
  proof (cases "newest_state db (tp_id t)")
    case None
    then have "offered db (tp_id t) = []" by (simp add: offered_def topic_versions_Nil)
    then show ?thesis using p None by (simp add: pointer_row_def pointer_of_def resolve_def topic_versions_Nil)
  next
    case (Some r)
    have ne: "topic_versions db (tp_id t) \<noteq> []" using Some by (simp add: topic_versions_Nil)
    then have "map_option rv_version (resolve (offered db (tp_id t)) LATEST) = Some (last (offered db (tp_id t)))"
      by (simp add: resolve_Some LATEST_def offered_def last_conv_nth)
    also have "last (offered db (tp_id t)) = word_of_nat (ts_number r)"
      using ne last_topic_versions [OF Some] by (simp add: offered_def last_map)
    finally show ?thesis
      using p Some ne newest_stateD(1) [OF Some] by (auto simp: pointer_row_def pointer_of_def in_live)
  qed
qed

theorem pointer_is_latest_witness:
  "map tp_current_version (l_topics sample_ledger) = [Some 2] \<and>
   (\<exists>t\<in>set (l_topics sample_ledger). map_option word_of_nat (tp_current_version t)
     = map_option rv_version (resolve (offered sample_ledger (tp_id t)) LATEST))"
proof -
  have v: "map tp_current_version (l_topics sample_ledger) = [Some 2]" by code_simp
  then obtain t where "t \<in> set (l_topics sample_ledger)" by (cases "l_topics sample_ledger") auto
  then show ?thesis using pointer_is_latest [OF sample_reachable] v by blast
qed

text \<open>Deleting.\<close>

lemma topic_versions_delete:
  "topic_versions (delete_where now (\<lambda>r. ts_topic r = topic \<and> ts_number r = version) db) topic
     = filter (\<lambda>n. n \<noteq> version) (topic_versions db topic)"
proof -
  have "sort (filter P xs) = filter P (sort xs)" for P and xs :: "nat list" by (simp add: filter_sort)
  moreover have "map ts_number (filter (\<lambda>r. \<not> (ts_topic r = topic \<and> ts_number r = version)) (live_states db topic))
      = filter (\<lambda>n. n \<noteq> version) (map ts_number (live_states db topic))"
    by (auto simp: filter_map comp_def live_states_def intro!: arg_cong [of _ _ "map ts_number"] filter_cong)
  ultimately show ?thesis by (simp add: topic_versions_def live_delete_where)
qed

text \<open>
  C31: soft deleting a version answers whether it was there to delete, takes exactly that number from
  the versions the topic offers, touches no other topic's, and leaves the topic pointing at the
  version the resolver now calls the latest: when the newest goes, the one before it.
\<close>

theorem soft_delete_promotes:
  assumes "reachable_ledger db" and "soft_delete_topic_state now topic version db = (gone, db')"
    and "t \<in> set (l_topics db')" and "tp_id t = topic"
  shows "(gone \<longleftrightarrow> version \<in> set (topic_versions db topic)) \<and>
    topic_versions db' topic = filter (\<lambda>n. n \<noteq> version) (topic_versions db topic) \<and>
    (\<forall>other. other \<noteq> topic \<longrightarrow> topic_versions db' other = topic_versions db other) \<and>
    tp_current_version t = (if topic_versions db' topic = [] then None else Some (last (topic_versions db' topic)))"
proof -
  have ok: "ledger_ok db'" using soft_delete_ok [OF reachable_okI [OF assms(1)]] assms(2) by (metis snd_conv)
  have g: "gone \<longleftrightarrow> version \<in> set (topic_versions db topic)"
    using assms(2) by (auto simp: soft_delete_topic_state_def Let_def topic_versions_def live_states_def split: if_splits)
  have live: "live_states db' x = live_states (if gone then delete_where now (\<lambda>r. ts_topic r = topic \<and> ts_number r = version) db else db) x" for x
    using assms(2) by (auto simp: soft_delete_topic_state_def Let_def live_states_def split: if_splits)
  have v: "topic_versions db' x = topic_versions (if gone then delete_where now (\<lambda>r. ts_topic r = topic \<and> ts_number r = version) db else db) x" for x
    by (simp only: topic_versions_def live)
  have a: "topic_versions db' topic = filter (\<lambda>n. n \<noteq> version) (topic_versions db topic)"
    using g by (auto simp: v topic_versions_delete filter_id_conv intro!: sym [OF filter_True])
  have b: "topic_versions db' other = topic_versions db other" if "other \<noteq> topic" for other
  proof -
    have "filter (\<lambda>r. \<not> (ts_topic r = topic \<and> ts_number r = version)) (live_states db other) = live_states db other"
      using that by (auto simp: filter_id_conv in_live)
    then have "live_states db' other = live_states db other" by (simp add: live live_delete_where)
    then show ?thesis by (simp add: topic_versions_def)
  qed
  have p: "pointer_row t (pointer_of (newest_state db' topic))" using ledger_okD(5) [OF ok] assms(3,4) by (auto simp: pointers_ok_def)
  have c: "tp_current_version t = (if topic_versions db' topic = [] then None else Some (last (topic_versions db' topic)))"
    using p by (cases "newest_state db' topic") (auto simp: pointer_row_def pointer_of_def topic_versions_Nil last_topic_versions)
  show ?thesis using g a b c by blast
qed

theorem soft_delete_promotes_witness:
  "\<exists>t\<in>set (l_topics (snd (soft_delete_topic_state 20 (TopicId 1) 2 sample_ledger))). tp_current_version t = Some 1"
proof -
  have t: "map tp_id (l_topics (snd (soft_delete_topic_state 20 (TopicId 1) 2 sample_ledger))) = [TopicId 1]"
    and v: "topic_versions sample_ledger (TopicId 1) = [1, 2]" by code_simp+
  from t obtain t where "t \<in> set (l_topics (snd (soft_delete_topic_state 20 (TopicId 1) 2 sample_ledger)))" "tp_id t = TopicId 1"
    by (cases "l_topics (snd (soft_delete_topic_state 20 (TopicId 1) 2 sample_ledger))") auto
  from soft_delete_promotes [OF sample_reachable surjective_pairing this] this(1) show ?thesis by (auto simp: v)
qed

lemma promoted_reads_back:
  assumes ok: "ledger_ok db" and "lock_topic db project name = Some (pr_topic pr)"
    and "append_promoted now vid sid state_id fresh_job project source ev pr db = Some ((v, sp, s), db')"
  shows "topic_state_at db' project (st_of s) (st_version s) = Some (Some s) \<and> st_content s = ev_content ev \<and>
    current_content db' project name = Some (Some (ev_content ev)) \<and>
    st_version s = length (states_of (l_states db) (st_of s)) + 1 \<and>
    (\<forall>p topic version. (p, topic, version) \<noteq> (project, st_of s, st_version s) \<longrightarrow>
       topic_state_at db' p topic version = topic_state_at db p topic version)"
proof -
  obtain r t where d: "ledger_ok db'" "newest_state db' (st_of s) = Some r" "span_joins db' r = Some (r, sp, v)"
    "row_to_topic_state (r, sp, v) = Some s" "l_states db' = l_states db @ [r]" "l_evidence db' = l_evidence db @ [v]"
    "l_spans db' = l_spans db @ [sp]" "st_content s = ev_content ev" "ts_number r = st_version s" "ts_topic r = st_of s"
    "ts_project r = project" "t \<in> set (l_topics db)" "tp_id t = st_of s" "topic_named db project name = Some t"
    "st_version s = length (states_of (l_states db) (tp_id t)) + 1"
    "l_topics db' = l_topics (point_at (tp_id t) (Some (st_id s, st_version s)) db)" "ts_id r = st_id s"
    by (rule append_promotedD [OF ok assms(2,3)]) blast
  have one: "row_numbered db' project (st_of s) (st_version s) = [r]"
  proof -
    have "r \<in> set (row_numbered db' project (st_of s) (st_version s))" using d by (simp add: row_numbered_def)
    then show ?thesis using row_numbered_le1 [OF d(1), of project "st_of s" "st_version s"] by auto
  qed
  have reads: "topic_state_at db' project (st_of s) (st_version s) = Some (Some s)"
    using d(3,4) by (simp add: topic_state_at_eq [OF d(1)] one)
  have old: "topic_state_at db' p topic version = topic_state_at db p topic version"
    if "(p, topic, version) \<noteq> (project, st_of s, st_version s)" for p topic version
  proof -
    have "row_numbered db' p topic version = row_numbered db p topic version"
      using that d(9-11) by (auto simp: row_numbered_def d(5))
    moreover have "span_joins db' x = span_joins db x" if "x \<in> set (row_numbered db p topic version)" for x
      by (rule spans_kept [OF ok _ d(7,6)]) (use that in \<open>simp add: row_numbered_def\<close>)
    ultimately show ?thesis by (auto simp: topic_state_at_eq [OF ok] topic_state_at_eq [OF d(1)] split: list.split)
  qed
  have cur: "current_content db' project name = Some (Some (ev_content ev))"
  proof -
    let ?f = "\<lambda>u. if tp_id u = tp_id t then u\<lparr>tp_current := Some (st_id s), tp_current_version := Some (st_version s)\<rparr> else u"
    have "topic_named db' project name = Some (?f t)"
    proof -
      have "find P (map f xs) = map_option f (find (P \<circ> f) xs)" for P and f :: "topic_row \<Rightarrow> topic_row" and xs by (induction xs) auto
      then show ?thesis using d(14) by (simp add: topic_named_def d(16) point_at_topics comp_def if_distrib cong: if_cong)
    qed
    moreover have "find (\<lambda>x. ts_id x = st_id s) (l_states db') = Some r"
      using find_key [of ts_id "l_states db'" r] ledger_okD(4) [OF d(1)] d(5,17) by (simp add: states_ok_def)
    ultimately have "Option.bind (topic_named db' project name) (\<lambda>t. Option.bind (current_row db' t) (span_joins db')) = Some (r, sp, v)"
      by (simp add: current_row_def d(3))
    moreover have "content_of_span sp v = Some (ev_content ev)"
      using d(4,8) by (auto simp: row_to_topic_state_def)
    ultimately show ?thesis by (simp add: current_content_def)
  qed
  show ?thesis using reads old cur d(8,13,15) by simp
qed

lemma promoted_content:
  assumes "ledger_ok db" and "lock_topic db project name = Some (pr_topic pr)"
    and "append_promoted now vid sid state_id fresh_job project source ev pr db = Some ((v, sp, s), db')"
  shows "current_content db' project name = Some (Some (ev_content ev))"
  using promoted_reads_back [OF assms] by blast

text \<open>
  C7: what a promotion records is what the ledger reads back, as that version and as the topic's
  current content, under the next version number and after the state it supersedes; and it is only
  ever added: every version recorded before reads as it did, its text included.
\<close>

theorem promotion_reads_back:
  assumes "reachable_ledger db" and "lock_topic db project name = Some (pr_topic pr)"
    and "append_promoted now vid sid state_id fresh_job project source ev pr db = Some ((v, sp, s), db')"
  shows "topic_state_at db' project (st_of s) (st_version s) = Some (Some s) \<and> st_content s = ev_content ev \<and>
    current_content db' project name = Some (Some (ev_content ev)) \<and>
    st_version s = length (states_of (l_states db) (st_of s)) + 1 \<and>
    (\<forall>p topic version. (p, topic, version) \<noteq> (project, st_of s, st_version s) \<longrightarrow>
       topic_state_at db' p topic version = topic_state_at db p topic version)"
  by (rule promoted_reads_back [OF reachable_okI [OF assms(1)] assms(2,3)])

lemma sample_promotion_topic: "lock_topic sample_first 7 (lit ''a'') = Some (pr_topic (sample_promotion sample_first))"
  unfolding sample_promotion_def promotion.select_convs using sample_write_2(1) by (rule option.collapse [symmetric])

theorem promotion_reads_back_witness:
  "current_content sample_ledger 7 (lit ''a'') = Some (Some (lit ''one'')) \<and>
   topic_state_at sample_ledger 7 (TopicId 1) 1 = topic_state_at sample_first 7 (TopicId 1) 1"
proof -
  obtain v sp s db' where w: "sample_write 4 ''one'' sample_first = Some ((v, sp, s), db')"
    using sample_write_2(2) by (metis not_None_eq prod.exhaust)
  have l: "sample_ledger = db'" by (simp only: sample_ledger_def w option.sel snd_conv)
  note r = promotion_reads_back [OF sample_first_reachable sample_promotion_topic w [unfolded sample_write_def]]
  have "length (states_of (l_states sample_first) (st_of s)) + 1 \<noteq> 1 \<or> st_of s \<noteq> TopicId 1"
    by (simp add: states_of_def sample_first_def)
  then show ?thesis using r by (auto simp: l sample_evidence_def)
qed

text \<open>
  Repairing the pointers finds nothing to repair in a ledger grown by its own statements; and
  whatever the pointers are, afterwards every topic of the project points at its newest undeleted
  state, and a second repair changes nothing.
\<close>

theorem repair_correct:
  "(reachable_ledger db \<longrightarrow> repair_current_state_pointers project db = (0, db)) \<and>
   (\<forall>t\<in>set (l_topics (snd (repair_current_state_pointers project db))). tp_project t = project \<longrightarrow>
      pointer_row t (pointer_of (newest_state (snd (repair_current_state_pointers project db)) (tp_id t)))) \<and>
   repair_current_state_pointers project (snd (repair_current_state_pointers project db))
     = (0, snd (repair_current_state_pointers project db))"
  using repair_noop [OF reachable_okI] repair_points repair_again by blast

theorem repair_correct_witness: "repair_current_state_pointers 7 sample_ledger = (0, sample_ledger)"
  using repair_correct sample_reachable by blast

text \<open>
  C32: renaming a topic answers yes only to a name and a place nothing holds; then the topic is found
  under its new name and, through the alias, under its old one, as the same topic, and every state of
  it stays; refused, nothing changes.
\<close>

theorem rename_found_under_both:
  assumes "reachable_ledger db" and "lock_topic db project f = Some lt"
    and "rename_topic now fresh_job project (to_id (lt_topic lt)) (f, t) locators db = Some (moved, db')"
  shows "(moved \<longleftrightarrow> topic_named db project t = None \<and> source_here db project (snd locators) = None) \<and>
    (if moved then find_topic db' project t = Some ((lt_topic lt)\<lparr>to_name := t\<rparr>) \<and>
        find_topic db' project f = find_topic db' project t \<and> l_states db' = l_states db
     else db' = db)"
  using assms(3)
proof (cases rule: rename_topicD)
  case taken
  then show ?thesis by auto
next
  case (moved jobs)
  then have m: "moved = True" by simp
  show ?thesis using rename_finds [OF reachable_okI [OF assms(1)] assms(2) assms(3) [unfolded m]] moved by (simp add: m)
qed

theorem rename_found_under_both_witness:
  "map_option (\<lambda>x. find_topic (snd x) 7 (lit ''a''))
     (rename_topic 30 (\<lambda>k. 9) 7 (TopicId 1) (lit ''a'', lit ''b'') (lit ''a'', lit ''b'') sample_first)
   = map_option (\<lambda>x. find_topic (snd x) 7 (lit ''b''))
     (rename_topic 30 (\<lambda>k. 9) 7 (TopicId 1) (lit ''a'', lit ''b'') (lit ''a'', lit ''b'') sample_first)"
proof -
  obtain m db' where r: "rename_topic 30 (\<lambda>k. 9) 7 (TopicId 1) (lit ''a'', lit ''b'') (lit ''a'', lit ''b'') sample_first = Some (m, db')"
  proof -
    have "rename_topic 30 (\<lambda>k. 9) 7 (TopicId 1) (lit ''a'', lit ''b'') (lit ''a'', lit ''b'') sample_first \<noteq> None" by code_simp
    then show thesis using that by (metis not_None_eq prod.exhaust)
  qed
  have free: "topic_named sample_first 7 (lit ''b'') = None" "source_here sample_first 7 (lit ''b'') = None"
    and id: "to_id (lt_topic (pr_topic (sample_promotion sample_first))) = TopicId 1" by code_simp+
  show ?thesis
    using rename_found_under_both [OF sample_first_reachable sample_promotion_topic r [folded id]] free by (simp add: r)
qed

text \<open>The width of a name is kept with two conversions, which part above the column's range.\<close>

lemma created_width_wraps: "to_i16 40000 = 32767" "as_i16 40000 = - 25536"
  by (simp_all add: to_i16_def as_i16_def)

end
