(* ===== verification/Engine_Write_Sound.thy ===== *)
theory Engine_Write_Sound
  imports Engine_Write Store_Ledger_Sound
begin

text \<open>
  What recording promises: every call is a run of the ledger's statements, a held write changes nothing
  anybody reads, a remembered one is what its topic says, the same words twice are one version, an
  unchanged section is written once, and a section leaves the surface only as the ingest saw it.
\<close>

section \<open>Every call is a run of the ledger's statements\<close>

abbreviation ledger_steps :: "ledger \<Rightarrow> ledger \<Rightarrow> bool" where
  "ledger_steps \<equiv> ledger_step\<^sup>*\<^sup>*"

lemma ledger_steps_ok: "ledger_steps db db' \<Longrightarrow> ledger_ok db \<Longrightarrow> ledger_ok db'"
  by (induction rule: rtranclp_induct) (auto intro: ledger_step_ok)

lemma ledger_steps_reachable: "ledger_steps db db' \<Longrightarrow> reachable_ledger db \<Longrightarrow> reachable_ledger db'"
  by (induction rule: rtranclp_induct) (auto intro: reachable_ledger.step)

lemma enqueued_step:
  "enqueue_all now fresh project kinds subject (l_jobs db) = Some jobs \<Longrightarrow> ledger_step db (db\<lparr>l_jobs := jobs\<rparr>)"
  by (intro ledger_step.outbox queue_step.op [of _ "Enqueue now fresh project kinds subject"]) simp

lemma name_by_handD:
  assumes "name_by_hand en mn project topic db = (Some db', k)"
  shows "ledger_steps db db'" and "l_topics db' = l_topics db" "l_states db' = l_states db" "l_spans db' = l_spans db"
    "l_evidence db' = l_evidence db" "l_sources db' = l_sources db" "l_aliases db' = l_aliases db"
proof -
  obtain t db1 where n: "name_topic project topic (joined (en_tokens en topic)) (length (en_tokens en topic)) db = (t, db1)"
    by (cases "name_topic project topic (joined (en_tokens en topic)) (length (en_tokens en topic)) db")
  have s: "ledger_step db db1" using ledger_step.named [of db project topic] n by (metis snd_conv)
  have f: "l_topics db1 = l_topics db" "l_states db1 = l_states db" "l_spans db1 = l_spans db" "l_evidence db1 = l_evidence db"
    "l_sources db1 = l_sources db" "l_aliases db1 = l_aliases db"
    using n by (auto simp: name_topic_def split: option.splits if_splits)
  have "db' = db1 \<or> (\<exists>jobs u. enqueue_all (mn_queued_at mn) (mn_backfill mn) project [BackfillMentions] (Some u) (l_jobs db1) = Some jobs
      \<and> db' = db1\<lparr>l_jobs := jobs\<rparr>)"
    using assms n by (auto simp: name_by_hand_def Let_def enqueue_def split: option.splits)
  then show "ledger_steps db db'" "l_topics db' = l_topics db" "l_states db' = l_states db" "l_spans db' = l_spans db"
    "l_evidence db' = l_evidence db" "l_sources db' = l_sources db" "l_aliases db' = l_aliases db"
    using s f enqueued_step by (auto intro: rtranclp.rtrancl_into_rtrancl)
qed

lemma settle_writeD:
  assumes "settle_write en mn project topic names r known db = (Some (r', db'), k)"
  shows "r' = r" "ledger_steps db db'" "l_topics db' = l_topics db" "l_states db' = l_states db" "l_spans db' = l_spans db"
    "l_evidence db' = l_evidence db" "l_sources db' = l_sources db" "l_aliases db' = l_aliases db"
    "\<not> names \<Longrightarrow> db' = db"
proof -
  have "r' = r \<and> ledger_steps db db' \<and> l_topics db' = l_topics db \<and> l_states db' = l_states db \<and> l_spans db' = l_spans db \<and>
    l_evidence db' = l_evidence db \<and> l_sources db' = l_sources db \<and> l_aliases db' = l_aliases db"
  proof (cases names)
    case True
    then obtain j where j: "name_by_hand en mn project topic db = (Some db', j)" "r' = r"
      using assms by (auto simp: settle_write_def split: prod.splits)
    show ?thesis using name_by_handD [OF j(1)] j(2) by simp
  next
    case False
    then show ?thesis using assms by (simp add: settle_write_def)
  qed
  then show "r' = r" "ledger_steps db db'" "l_topics db' = l_topics db" "l_states db' = l_states db" "l_spans db' = l_spans db"
    "l_evidence db' = l_evidence db" "l_sources db' = l_sources db" "l_aliases db' = l_aliases db"
    by simp_all
  show "db' = db" if "\<not> names" using assms that by (simp add: settle_write_def)
qed

text \<open>Up to the topic: the source is there, and its tree set.\<close>

definition rooted_source :: "source_id \<Rightarrow> ustr option \<Rightarrow> ledger \<Rightarrow> ledger" where
  "rooted_source source tree db = (case tree of None \<Rightarrow> db | Some t \<Rightarrow> set_source_root source t db)"

lemma rooted_source_fields [simp]:
  "l_topics (rooted_source source tree db) = l_topics db" "l_states (rooted_source source tree db) = l_states db"
  "l_spans (rooted_source source tree db) = l_spans db" "l_evidence (rooted_source source tree db) = l_evidence db"
  "l_aliases (rooted_source source tree db) = l_aliases db" "l_names (rooted_source source tree db) = l_names db"
  "l_jobs (rooted_source source tree db) = l_jobs db" "l_files (rooted_source source tree db) = l_files db"
  by (simp_all add: rooted_source_def set_source_root_def split: option.split)

lemma rooted_source_step: "ledger_steps db (rooted_source source tree db)"
  by (auto simp: rooted_source_def intro: ledger_step.rooted split: option.split)

lemma topic_forD:
  assumes ok: "ledger_ok db" and t: "topic_for en mn project kind name db = Some ((lt, found, created), db')"
  shows "ledger_steps db db'" "lock_topic db' project name = Some lt" "found \<longleftrightarrow> lock_topic db project name \<noteq> None"
    "l_states db' = l_states db" "l_spans db' = l_spans db" "l_evidence db' = l_evidence db" "l_aliases db' = l_aliases db"
    "l_topics db' = l_topics db \<or> (\<exists>t. l_topics db' = l_topics db @ [t] \<and> tp_project t = project \<and> tp_name t = name \<and> tp_current t = None)"
proof -
  have "ledger_steps db db' \<and> lock_topic db' project name = Some lt \<and> (found \<longleftrightarrow> lock_topic db project name \<noteq> None) \<and>
    l_states db' = l_states db \<and> l_spans db' = l_spans db \<and> l_evidence db' = l_evidence db \<and> l_aliases db' = l_aliases db \<and>
    (l_topics db' = l_topics db \<or> (\<exists>t. l_topics db' = l_topics db @ [t] \<and> tp_project t = project \<and> tp_name t = name \<and> tp_current t = None))"
  proof (cases "lock_topic db project name")
    case None
    obtain named where c: "\<not> found" "create_topic (mn_topic_at mn) (mn_topic mn) project name named db = Some (lt, db')"
      using t by (auto simp: None topic_for_def create_topic_unnamed_def create_topic_named_def engine_create_topic_def Let_def split: if_splits)
    have "ledger_steps db db'" using ledger_step.created [OF c(2)] by (rule r_into_rtranclp)
    moreover have "l_states db' = l_states db \<and> l_spans db' = l_spans db \<and> l_evidence db' = l_evidence db \<and> l_aliases db' = l_aliases db \<and>
      (l_topics db' = l_topics db \<or> (\<exists>t. l_topics db' = l_topics db @ [t] \<and> tp_project t = project \<and> tp_name t = name \<and> tp_current t = None))"
      using c(2) by (rule create_topicD) simp_all
    ultimately show ?thesis using create_topic_ok [OF ok c(2)] c(1) None by blast
  next
    case (Some x)
    then show ?thesis using t by (simp add: topic_for_def)
  qed
  then show "ledger_steps db db'" "lock_topic db' project name = Some lt" "found \<longleftrightarrow> lock_topic db project name \<noteq> None"
    "l_states db' = l_states db" "l_spans db' = l_spans db" "l_evidence db' = l_evidence db" "l_aliases db' = l_aliases db"
    "l_topics db' = l_topics db \<or> (\<exists>t. l_topics db' = l_topics db @ [t] \<and> tp_project t = project \<and> tp_name t = name \<and> tp_current t = None)"
    by blast+
qed

lemma write_bodyD:
  assumes ok: "ledger_ok db" and w: "write_body en mn project w kind tree db = (Some (r, db'), k)"
  obtains (promoted) source lt found created db2 db3 v sp st db4 where
      "wr_promoted w" "ledger_steps db db2" "l_topics db2 = l_topics db" "l_states db2 = l_states db" "l_spans db2 = l_spans db"
      "l_evidence db2 = l_evidence db"
      "topic_for en mn project kind (wr_topic w) db2 = Some ((lt, found, created), db3)"
      "append_promoted (mn_recorded_at mn) (mn_version mn) (mn_span mn) (mn_state mn) (mn_jobs mn) project source (evidence_of w)
         \<lparr>pr_topic = lt, pr_observed_at = wr_observed_at w, pr_validity = wr_validity w, pr_owed = owed_by_write kind found\<rparr> db3 = Some ((v, sp, st), db4)"
      "ledger_steps db4 db'" "l_topics db' = l_topics db4" "l_states db' = l_states db4" "l_spans db' = l_spans db4"
      "l_evidence db' = l_evidence db4" "r = \<lparr>re_source_version = sv_number v, re_state = Some st\<rparr>"
  | (held) source db2 v sp db3 where
      "\<not> wr_promoted w" "ledger_steps db db2" "l_topics db2 = l_topics db" "l_states db2 = l_states db" "l_spans db2 = l_spans db"
      "l_evidence db2 = l_evidence db" "l_aliases db2 = l_aliases db"
      "append_evidence (mn_recorded_at mn) (mn_version mn) (mn_span mn) project source (evidence_of w) db2 = Some ((v, sp), db3)"
      "ledger_steps db3 db'" "l_topics db' = l_topics db3" "l_states db' = l_states db3" "l_spans db' = l_spans db3"
      "l_evidence db' = l_evidence db3" "l_aliases db' = l_aliases db3" "l_sources db' = l_sources db3"
      "\<exists>x\<in>set (l_sources db2). so_id x = source \<and> so_project x = project \<and> so_locator x = locator kind (wr_topic w)"
      "r = \<lparr>re_source_version = sv_number v, re_state = None\<rparr>"
proof -
  obtain source first db1 where e: "ensure_source_created (mn_source_at mn) (mn_source mn) project kind (locator kind (wr_topic w)) db = Some ((source, first), db1)"
    using w by (auto simp: write_body_def split: option.splits)
  let ?db2 = "rooted_source source tree db1"
  note ens = ensure_source_ok [OF ok e]
  have s2: "ledger_steps db ?db2" using ledger_step.sourced [OF e] rooted_source_step [of db1 source tree] by (meson converse_rtranclp_into_rtranclp)
  have f2: "l_topics ?db2 = l_topics db" "l_states ?db2 = l_states db" "l_spans ?db2 = l_spans db" "l_evidence ?db2 = l_evidence db"
    "l_aliases ?db2 = l_aliases db" using ens by simp_all
  obtain x0 where x0: "x0 \<in> set (l_sources db1)" "so_id x0 = source" "so_project x0 = project" "so_locator x0 = locator kind (wr_topic w)"
    using ens(2) by blast
  have src: "\<exists>x\<in>set (l_sources ?db2). so_id x = source \<and> so_project x = project \<and> so_locator x = locator kind (wr_topic w)"
  proof (cases tree)
    case None
    then show ?thesis using x0 by (auto simp: rooted_source_def)
  next
    case (Some t)
    have "(if so_id x0 = source \<and> so_root x0 \<noteq> Some t then x0\<lparr>so_root := Some t\<rparr> else x0) \<in> set (l_sources ?db2)"
      using x0(1) by (simp add: rooted_source_def Some set_source_root_def)
    moreover have "so_id (if so_id x0 = source \<and> so_root x0 \<noteq> Some t then x0\<lparr>so_root := Some t\<rparr> else x0) = source"
      "so_project (if so_id x0 = source \<and> so_root x0 \<noteq> Some t then x0\<lparr>so_root := Some t\<rparr> else x0) = project"
      "so_locator (if so_id x0 = source \<and> so_root x0 \<noteq> Some t then x0\<lparr>so_root := Some t\<rparr> else x0) = locator kind (wr_topic w)"
      using x0 by simp_all
    ultimately show ?thesis by blast
  qed
  show thesis
  proof (cases "wr_promoted w")
    case True
    obtain lt found created db3 v sp st db4 where p:
      "topic_for en mn project kind (wr_topic w) ?db2 = Some ((lt, found, created), db3)"
      "append_promoted (mn_recorded_at mn) (mn_version mn) (mn_span mn) (mn_state mn) (mn_jobs mn) project source (evidence_of w)
         \<lparr>pr_topic = lt, pr_observed_at = wr_observed_at w, pr_validity = wr_validity w, pr_owed = owed_by_write kind found\<rparr> db3 = Some ((v, sp, st), db4)"
      "settle_write en mn project (wr_topic w) (kind = Manual \<and> first \<and> \<not> created) \<lparr>re_source_version = sv_number v, re_state = Some st\<rparr>
         (if created then length (en_tokens en (wr_topic w)) else 0)
         (if kind = Manual \<and> found then forget_file_record_of project (wr_topic w) db4 else db4) = (Some (r, db'), k)"
      using w True e by (auto simp: write_body_def Let_def rooted_source_def split: option.splits prod.splits)
    let ?db5 = "if kind = Manual \<and> found then forget_file_record_of project (wr_topic w) db4 else db4"
    have "ledger_steps db4 ?db5" by (simp add: ledger_step.forgotten r_into_rtranclp)
    moreover have "l_topics ?db5 = l_topics db4" "l_states ?db5 = l_states db4" "l_spans ?db5 = l_spans db4" "l_evidence ?db5 = l_evidence db4"
      by (simp_all add: forget_file_record_of_def)
    ultimately show thesis using settle_writeD [OF p(3)] f2 s2 p(1,2)
      by (intro promoted [OF True s2 f2(1-4) p(1,2)]) (auto intro: rtranclp_trans)
  next
    case False
    obtain v sp db3 where h:
      "append_evidence (mn_recorded_at mn) (mn_version mn) (mn_span mn) project source (evidence_of w) ?db2 = Some ((v, sp), db3)"
      "settle_write en mn project (wr_topic w) (kind = Manual \<and> first) \<lparr>re_source_version = sv_number v, re_state = None\<rparr> 0 db3 = (Some (r, db'), k)"
      using w False e by (auto simp: write_body_def Let_def rooted_source_def split: option.splits prod.splits)
    show thesis using settle_writeD [OF h(2)] by (intro held [OF False s2 f2 h(1) _ _ _ _ _ _ _ src]) simp_all
  qed
qed

lemma append_promoted_step:
  assumes "lock_topic db project name = Some (pr_topic pr)"
    and "append_promoted now vid sid state_id fresh_job project source ev pr db = Some (y, db')"
  shows "ledger_steps db db'"
  using ledger_step.promoted [OF assms] by blast

lemma write_body_steps:
  assumes ok: "ledger_ok db" and w: "write_body en mn project w kind tree db = (Some (r, db'), k)"
  shows "ledger_steps db db'"
  using ok w
proof (cases rule: write_bodyD)
  case (promoted source lt found created db2 db3 v sp st db4)
  note t = topic_forD [OF ledger_steps_ok [OF promoted(2) ok] promoted(7)]
  have "ledger_steps db3 db4" by (rule append_promoted_step [OF _ promoted(8), of "wr_topic w"]) (simp add: t(2))
  then show ?thesis using promoted(2,9) t(1) by (meson rtranclp_trans)
next
  case (held source db2 v sp db3)
  have "ledger_step db2 db3" by (rule ledger_step.evidenced [OF held(8)])
  then show ?thesis using held(2,9) by (meson rtranclp_trans converse_rtranclp_into_rtranclp)
qed


section \<open>What a topic says, before and after\<close>

lemma find_kept_row:
  "distinct (map ts_id (rs @ [r])) \<Longrightarrow> find (\<lambda>x. ts_id x = s) rs \<noteq> None \<Longrightarrow> find (\<lambda>x. ts_id x = s) (rs @ [r]) = find (\<lambda>x. ts_id x = s) rs"
  by (auto simp: find_snoc)

lemma current_row_here:
  assumes ok: "ledger_ok db" and t: "t \<in> set (l_topics db)"
  shows "(current_row db t = None \<longleftrightarrow> tp_current t = None) \<and> (\<forall>r. current_row db t = Some r \<longrightarrow> r \<in> set (l_states db))"
proof (cases "tp_current t")
  case None
  then show ?thesis by (simp add: current_row_def)
next
  case (Some s)
  obtain r where r: "r \<in> set (l_states db)" "ts_id r = s" using pointer_state [OF ok t Some] by metis
  have "distinct (map ts_id (l_states db))" using ledger_okD(4) [OF ok] unfolding states_ok_def by blast
  from find_key [OF this r(1)] show ?thesis using r Some by (simp add: current_row_def)
qed

definition content_row :: "ledger \<Rightarrow> topic_row \<Rightarrow> (state_row \<times> source_span \<times> source_version) option" where
  "content_row db t = Option.bind (current_row db t) (span_joins db)"

lemma current_content_row: "current_content db project name =
    (case Option.bind (topic_named db project name) (content_row db) of None \<Rightarrow> Some None | Some (_, sp, v) \<Rightarrow> map_option Some (content_of_span sp v))"
  by (simp add: current_content_def content_row_def [abs_def])

lemma content_row_kept:
  assumes ok: "ledger_ok db" and t: "t \<in> set (l_topics db)"
    and states: "l_states db' = l_states db \<or> (\<exists>r. l_states db' = l_states db @ [r])"
    and spans: "l_spans db' = l_spans db @ [sp]" "l_evidence db' = l_evidence db @ [v]"
  shows "content_row db' t = content_row db t"
proof -
  have "current_row db' t = current_row db t"
  proof (cases "current_row db t")
    case None
    then show ?thesis using current_row_here [OF ok t] by (simp add: current_row_def)
  next
    case (Some r)
    then show ?thesis using states by (auto simp: current_row_def find_snoc split: option.splits)
  qed
  moreover have "span_joins db' r = span_joins db r" if "current_row db t = Some r" for r
    using spans_kept [OF ok _ spans] current_row_here [OF ok t] that by blast
  ultimately show ?thesis by (cases "current_row db t") (simp_all add: content_row_def)
qed

lemma current_row_cong: "l_states db' = l_states db \<Longrightarrow> current_row db' t = current_row db t"
  by (simp add: current_row_def cong: option.case_cong)

lemma span_joins_cong: "l_spans db' = l_spans db \<Longrightarrow> l_evidence db' = l_evidence db \<Longrightarrow> span_joins db' r = span_joins db r"
  by (simp add: span_joins_def cong: option.case_cong)

lemma current_content_cong:
  assumes "l_topics db' = l_topics db" "l_states db' = l_states db" "l_spans db' = l_spans db" "l_evidence db' = l_evidence db"
  shows "current_content db' p name = current_content db p name"
proof -
  have "current_row db' = current_row db" "span_joins db' = span_joins db" by (intro ext current_row_cong span_joins_cong assms)+
  then show ?thesis by (simp add: current_content_def topic_named_def assms(1))
qed

lemma current_content_kept:
  assumes ok: "ledger_ok db" and t: "l_topics db' = l_topics db"
    and states: "l_states db' = l_states db" and spans: "l_spans db' = l_spans db @ [sp]" "l_evidence db' = l_evidence db @ [v]"
  shows "current_content db' p name = current_content db p name"
proof -
  have n: "topic_named db' p name = topic_named db p name" by (simp add: topic_named_def t)
  show ?thesis
  proof (cases "topic_named db p name")
    case (Some u)
    then have "u \<in> set (l_topics db)" using find_SomeD [OF Some [unfolded topic_named_def]] by simp
    then have "content_row db' u = content_row db u" using content_row_kept [OF ok _ _ spans] states by blast
    then show ?thesis by (simp add: current_content_row n Some)
  qed (simp add: current_content_row n)
qed

lemma current_content_total: "ledger_ok db \<Longrightarrow> current_content db p name \<noteq> None"
proof -
  assume ok: "ledger_ok db"
  show ?thesis
  proof (cases "topic_named db p name")
    case (Some t)
    then have t: "t \<in> set (l_topics db)" using find_SomeD [OF Some [unfolded topic_named_def]] by simp
    show ?thesis
    proof (cases "current_row db t")
      case (Some r)
      then have "r \<in> set (l_states db)" using current_row_here [OF ok t] by blast
      then obtain sp v where "span_joins db r = Some (r, sp, v)" "content_of_span sp v = Some (sv_content v)"
        using states_of_span [OF ok] by metis
      then show ?thesis using Some \<open>topic_named db p name = Some t\<close> by (simp add: current_content_def)
    qed (simp add: current_content_def Some)
  qed (simp add: current_content_def)
qed

text \<open>A topic the write did not name is found as it was.\<close>

lemma topic_named_point_other:
  assumes ok: "topics_ok ts" and u: "u \<in> set ts" "tp_id u = topic" "(tp_project u, tp_name u) \<noteq> (p, name)"
  shows "find (\<lambda>t. tp_project t = p \<and> tp_name t = name)
      (map (\<lambda>t. if tp_id t = topic then t\<lparr>tp_current := c, tp_current_version := n\<rparr> else t) ts) = find (\<lambda>t. tp_project t = p \<and> tp_name t = name) ts"
proof -
  have "tp_id t \<noteq> topic" if "t \<in> set ts" "tp_project t = p" "tp_name t = name" for t
    using topic_by_id [OF ok that(1) u(1)] u that by auto
  then show ?thesis by (induction ts) auto
qed

lemma promoted_other_content:
  assumes ok: "ledger_ok db" and lock: "lock_topic db project topic = Some (pr_topic pr)"
    and a: "append_promoted now vid sid state_id fresh_job project source ev pr db = Some ((v, sp, s), db')"
    and other: "(project, topic) \<noteq> (p, name)"
  shows "current_content db' p name = current_content db p name"
proof -
  obtain r t where d: "l_states db' = l_states db @ [r]" "l_evidence db' = l_evidence db @ [v]"
    "l_spans db' = l_spans db @ [sp]" "t \<in> set (l_topics db)" "topic_named db project topic = Some t"
    "l_topics db' = l_topics (point_at (tp_id t) (Some (st_id s, st_version s)) db)"
    by (rule append_promotedD [OF ok lock a]) blast
  have t: "tp_project t = project" "tp_name t = topic" using find_SomeD [OF d(5) [unfolded topic_named_def]] by simp_all
  have n: "topic_named db' p name = topic_named db p name"
    unfolding topic_named_def d(6) point_at_topics
    by (rule topic_named_point_other [OF ledger_okD(3) [OF ok] d(4) refl]) (use other t in simp)
  show ?thesis
  proof (cases "topic_named db p name")
    case (Some u)
    then have "u \<in> set (l_topics db)" using find_SomeD [OF Some [unfolded topic_named_def]] by simp
    then have "content_row db' u = content_row db u" using content_row_kept [OF ok _ _ d(3,2)] d(1) by blast
    then show ?thesis by (simp add: current_content_row n Some)
  qed (simp add: current_content_row n)
qed

lemma topic_for_content:
  assumes ok: "ledger_ok db" and t: "topic_for en mn project kind topic db = Some ((lt, found, created), db')"
  shows "current_content db' p name = current_content db p name"
proof -
  note f = topic_forD [OF ok t]
  have "current_row db' = current_row db" "span_joins db' = span_joins db" by (intro ext current_row_cong span_joins_cong f(4-6))+
  then have rows: "content_row db' = content_row db" by (simp add: content_row_def [abs_def])
  consider "l_topics db' = l_topics db" | u where "l_topics db' = l_topics db @ [u]" "tp_current u = None" using f(8) by blast
  then show ?thesis
  proof cases
    case 1
    then show ?thesis by (intro current_content_cong) (simp_all add: f)
  next
    case 2
    have "content_row db u = None" using 2(2) by (simp add: content_row_def current_row_def)
    then show ?thesis
      by (simp add: current_content_row rows topic_named_def 2(1) find_snoc split: option.split)
  qed
qed

text \<open>What a write leaves every topic saying.\<close>

lemma write_content:
  assumes ok: "ledger_ok db" and w: "write_body en mn project w kind tree db = (Some (r, db'), k)"
  shows "current_content db' p name = (if wr_promoted w \<and> (p, name) = (project, wr_topic w) then Some (Some (wr_content w))
    else current_content db p name)"
  using ok w
proof (cases rule: write_bodyD)
  case (promoted source lt found created db2 db3 v sp st db4)
  have ok2: "ledger_ok db2" by (rule ledger_steps_ok [OF promoted(2) ok])
  note t = topic_forD [OF ok2 promoted(7)]
  have ok3: "ledger_ok db3" by (rule ledger_steps_ok [OF t(1) ok2])
  have l: "lock_topic db3 project (wr_topic w) = Some (pr_topic \<lparr>pr_topic = lt, pr_observed_at = wr_observed_at w,
      pr_validity = wr_validity w, pr_owed = owed_by_write kind found\<rparr>)" using t(2) by simp
  have eq: "current_content db' p name = current_content db4 p name" by (rule current_content_cong [OF promoted(10-13)])
  show ?thesis
  proof (cases "(p, name) = (project, wr_topic w)")
    case True
    then show ?thesis
      using promoted_content [OF ok3 l promoted(8)] promoted(1) eq by (simp add: evidence_of_def)
  next
    case False
    have "current_content db4 p name = current_content db3 p name" by (rule promoted_other_content [OF ok3 l promoted(8)]) (use False in auto)
    also have "\<dots> = current_content db2 p name" by (rule topic_for_content [OF ok2 promoted(7)])
    also have "\<dots> = current_content db p name" by (rule current_content_cong [OF promoted(3-6)])
    finally show ?thesis using False eq by auto
  qed
next
  case (held source db2 v sp db3)
  have ok2: "ledger_ok db2" by (rule ledger_steps_ok [OF held(2) ok])
  have d: "l_topics db3 = l_topics db2" "l_states db3 = l_states db2" "l_spans db3 = l_spans db2 @ [sp]" "l_evidence db3 = l_evidence db2 @ [v]"
    using insert_versionD(7) [OF held(8) [unfolded append_evidence_def]] by simp_all
  have "current_content db' p name = current_content db3 p name" by (rule current_content_cong [OF held(10-13)])
  also have "\<dots> = current_content db2 p name" by (rule current_content_kept [OF ok2 d])
  also have "\<dots> = current_content db p name" by (rule current_content_cong [OF held(3-6)])
  finally show ?thesis using held(1) by simp
qed


section \<open>The calls\<close>

lemma write_fromD:
  assumes "write_from en mn project w kind tree e = (Some r, e')"
  obtains k where "write_body en mn project w kind tree (eg_ledger e) = (Some (r, eg_ledger e'), k)" "eg_widest e' = max (eg_widest e) k"
  using assms by (auto simp: write_from_def remember_widest_name_def split: prod.splits option.splits)

lemma write_from_failed:
  "write_from en mn project w kind tree e = (None, e') \<Longrightarrow> eg_ledger e' = eg_ledger e \<and> eg_widest e \<le> eg_widest e'"
  by (auto simp: write_from_def remember_widest_name_def split: prod.splits option.splits)

lemma write_from_steps:
  assumes "ledger_ok (eg_ledger e)" and "write_from en mn project w kind tree e = (x, e')"
  shows "ledger_steps (eg_ledger e) (eg_ledger e') \<and> eg_widest e \<le> eg_widest e'"
proof (cases x)
  case None
  then show ?thesis using write_from_failed assms(2) by fastforce
next
  case (Some r)
  then obtain k where k: "write_body en mn project w kind tree (eg_ledger e) = (Some (r, eg_ledger e'), k)" "eg_widest e' = max (eg_widest e) k"
    using write_fromD assms(2) by metis
  show ?thesis using write_body_steps [OF assms(1) k(1)] k(2) by simp
qed

lemma retire_sectionD:
  assumes "retire_section mn project topic seen e = (x, e')"
  obtains (same) "x \<noteq> Some Retired" "e' = e"
    "\<not> (\<exists>lt. lock_topic (eg_ledger e) project topic = Some lt \<and> lt_current lt = Some seen \<and>
        \<not> source_at (eg_ledger e) project (locator Manual topic)) \<or> x = None"
  | (gone) lt b db where "lock_topic (eg_ledger e) project topic = Some lt" "lt_current lt = Some seen"
      "\<not> source_at (eg_ledger e) project (locator Manual topic)"
      "retire_topic (mn_recorded_at mn) (mn_jobs mn) project (to_id (lt_topic lt)) (eg_ledger e) = Some (b, db)"
      "e' = e\<lparr>eg_ledger := db\<rparr>" "x = Some (if b then Retired else Absent)"
proof (cases "\<exists>lt. lock_topic (eg_ledger e) project topic = Some lt \<and> lt_current lt = Some seen \<and>
        \<not> source_at (eg_ledger e) project (locator Manual topic)")
  case True
  then obtain lt where lt: "lock_topic (eg_ledger e) project topic = Some lt" "lt_current lt = Some seen"
    "\<not> source_at (eg_ledger e) project (locator Manual topic)" by blast
  have r: "(case retire_topic (mn_recorded_at mn) (mn_jobs mn) project (to_id (lt_topic lt)) (eg_ledger e) of
       None \<Rightarrow> (None, e) | Some (gone, db) \<Rightarrow> (Some (if gone then Retired else Absent), e\<lparr>eg_ledger := db\<rparr>)) = (x, e')"
    using assms lt by (simp add: retire_section_def)
  show thesis
  proof (cases "retire_topic (mn_recorded_at mn) (mn_jobs mn) project (to_id (lt_topic lt)) (eg_ledger e)")
    case None
    then show thesis using r same by auto
  next
    case (Some y)
    then show thesis using r gone [OF lt] by (cases y) auto
  qed
next
  case False
  have "x \<noteq> Some Retired \<and> e' = e"
  proof (cases "lock_topic (eg_ledger e) project topic")
    case None
    then show ?thesis using assms by (auto simp: retire_section_def)
  next
    case (Some lt)
    then show ?thesis using assms False by (cases "lt_current lt") (auto simp: retire_section_def split: if_splits)
  qed
  then show thesis using same False by blast
qed

lemma rename_sectionD:
  assumes "rename_section mn project f t seen e = (x, e')"
  obtains (same) "x \<noteq> Some True" "e' = e"
  | (moved) lt db where "lock_topic (eg_ledger e) project f = Some lt" "x = Some True" "e' = e\<lparr>eg_ledger := db\<rparr>"
      "rename_topic (mn_recorded_at mn) (mn_jobs mn) project (to_id (lt_topic lt)) (f, t)
         (locator SourceFile f, locator SourceFile t) (eg_ledger e) = Some (True, db)"
proof (cases "lock_topic (eg_ledger e) project f")
  case None
  then show thesis using assms same by (auto simp: rename_section_def)
next
  case (Some lt)
  show thesis
  proof (cases "lt_current lt \<noteq> Some seen \<or> source_at (eg_ledger e) project (locator Manual f)")
    case True
    then show thesis using assms same Some by (auto simp: rename_section_def)
  next
    case False
    then have r: "(case rename_topic (mn_recorded_at mn) (mn_jobs mn) project (to_id (lt_topic lt)) (f, t)
         (locator SourceFile f, locator SourceFile t) (eg_ledger e) of
       None \<Rightarrow> (None, e) | Some (True, db) \<Rightarrow> (Some True, e\<lparr>eg_ledger := db\<rparr>) | Some (False, _) \<Rightarrow> (Some False, e)) = (x, e')"
      using assms Some by (simp add: rename_section_def)
    show thesis
    proof (cases "rename_topic (mn_recorded_at mn) (mn_jobs mn) project (to_id (lt_topic lt)) (f, t)
         (locator SourceFile f, locator SourceFile t) (eg_ledger e)")
      case None
      then show thesis using r same by auto
    next
      case (Some y)
      then show thesis using r same moved \<open>lock_topic (eg_ledger e) project f = Some lt\<close>
        by (cases y) (auto split: bool.splits)
    qed
  qed
qed

text \<open>
  Calls of a process, each a transaction of its own; what a call read beforehand may be of any earlier
  ledger, and another process's steps come in between.
\<close>

inductive engine_step :: "surroundings \<Rightarrow> project_id \<Rightarrow> engine \<Rightarrow> engine \<Rightarrow> bool" for en project where
  by_hand: "write_by_hand en mn project w e = (x, e') \<Longrightarrow> engine_step en project e e'"
| remembered: "remember en mn project topic content validity seen e = (y, e') \<Longrightarrow> engine_step en project e e'"
| sectioned: "remember_section en mn project topic content validity tree seen e = (z, e') \<Longrightarrow> engine_step en project e e'"
| retired: "retire_section mn project topic seen_state e = (o1, e') \<Longrightarrow> engine_step en project e e'"
| renamed: "rename_section mn project f t seen_state e = (o2, e') \<Longrightarrow> engine_step en project e e'"
| asked: "widest_name project e = (n, e') \<Longrightarrow> engine_step en project e e'"
| elsewhere: "ledger_step (eg_ledger e) db \<Longrightarrow> engine_step en project e (e\<lparr>eg_ledger := db\<rparr>)"

inductive_cases engine_stepE: "engine_step en project e e'"

lemma engine_step_refines:
  assumes "engine_step en project e e'" and ok: "ledger_ok (eg_ledger e)"
  shows "ledger_steps (eg_ledger e) (eg_ledger e') \<and> eg_widest e \<le> eg_widest e'"
  using assms(1)
proof (cases rule: engine_step.cases)
  case (by_hand mn w x)
  then show ?thesis using write_from_steps [OF ok] by (simp add: write_by_hand_def)
next
  case (remembered mn topic content validity seen y)
  then show ?thesis
    using write_from_steps [OF ok] by (auto simp: remember_def record_memory_def split: option.splits prod.splits)
next
  case (sectioned mn topic content validity tree seen z)
  then show ?thesis
    using write_from_steps [OF ok] by (auto simp: remember_section_def record_memory_def split: option.splits prod.splits if_splits)
next
  case (retired mn topic seen_state o1)
  from retired show ?thesis
  proof (cases rule: retire_sectionD)
    case (gone lt b db)
    then show ?thesis using ledger_step.retired [OF gone(4)] by auto
  qed auto
next
  case (renamed mn f t seen_state o2)
  from renamed show ?thesis
  proof (cases rule: rename_sectionD)
    case (moved lt db)
    then show ?thesis using ledger_step.renamed [OF moved(1,4)] by auto
  qed auto
next
  case (asked n)
  then show ?thesis by (auto simp: widest_name_def remember_widest_name_def Let_def split: if_splits)
next
  case (elsewhere db)
  then show ?thesis by auto
qed


section \<open>A run of the engine\<close>

definition sample_surroundings :: surroundings where
  "sample_surroundings = \<lparr>en_hash = (\<lambda>_. ''h''), en_detect = (\<lambda>_. None), en_tokens = (\<lambda>s. [s])\<rparr>"

definition sample_minted :: "uuid \<Rightarrow> minted" where
  "sample_minted n = \<lparr>mn_source = n, mn_topic = TopicId n, mn_version = n, mn_span = n, mn_state = n, mn_jobs = (\<lambda>k. 10 * n + word_of_nat k),
     mn_backfill = (\<lambda>_. 10 * n + 9), mn_observed_at = 1, mn_source_at = 1, mn_topic_at = 1, mn_recorded_at = 2, mn_queued_at = 2\<rparr>"

definition sample_text :: ustr where
  "sample_text = lit ''water boils at 100''"

definition new_engine :: engine where
  "new_engine = \<lparr>eg_ledger = empty_ledger, eg_widest = 0\<rparr>"

lemma new_engine_reachable: "reachable_ledger (eg_ledger new_engine)"
  by (simp add: new_engine_def reachable_ledger.empty)

definition sample_remembered :: "(verdict \<times> recorded) option \<times> engine" where
  "sample_remembered = remember sample_surroundings (sample_minted 1) 7 (lit ''w'') sample_text ALWAYS (eg_ledger new_engine) new_engine"

lemma sample_remembered_some: "map_option (\<lambda>x. is_promoted (fst x)) (fst sample_remembered) = Some True"
  by code_simp

definition sample_section :: "(verdict \<times> recorded) option option \<times> engine" where
  "sample_section = remember_section sample_surroundings (sample_minted 1) 7 (lit ''f'') sample_text ALWAYS (lit ''/r'') (eg_ledger new_engine) new_engine"

lemma sample_section_some: "map_option (map_option (\<lambda>x. is_promoted (fst x))) (fst sample_section) = Some (Some True)"
  by code_simp

lemma sample_remembered_result: obtains verdict r where "sample_remembered = (Some (verdict, r), snd sample_remembered)" "is_promoted verdict"
proof -
  obtain x where "fst sample_remembered = Some x" "is_promoted (fst x)"
    using sample_remembered_some by (cases "fst sample_remembered") (simp_all only: option.map option.inject option.distinct)
  then show thesis using that [of "fst x" "snd x"] by (metis prod.collapse)
qed

lemma sample_section_result: obtains verdict r where "sample_section = (Some (Some (verdict, r)), snd sample_section)" "is_promoted verdict"
proof -
  obtain x where x: "fst sample_section = Some x" "map_option (\<lambda>x. is_promoted (fst x)) x = Some True"
    using sample_section_some unfolding map_option_eq_Some by blast
  then obtain y where "x = Some y" "is_promoted (fst y)" unfolding map_option_eq_Some by blast
  then show thesis using that [of "fst y" "snd y"] x(1) by (metis prod.collapse)
qed

lemma sample_remembered_reachable: "reachable_ledger (eg_ledger (snd sample_remembered))"
proof -
  obtain verdict r where "sample_remembered = (Some (verdict, r), snd sample_remembered)" by (rule sample_remembered_result)
  then have "engine_step sample_surroundings 7 new_engine (snd sample_remembered)"
    unfolding sample_remembered_def by (rule engine_step.remembered)
  then show ?thesis
    using engine_step_refines [OF _ reachable_okI [OF new_engine_reachable]] ledger_steps_reachable new_engine_reachable by blast
qed

section \<open>What the calls promise\<close>



text \<open>
  A write the filter holds leaves no topic and no state behind and changes what no topic says; its
  content goes in the evidence, verbatim, under the version number reported.
\<close>

theorem held_write_stays_off:
  assumes "reachable_ledger (eg_ledger e)" and "\<not> wr_promoted w"
    and "write_from en mn project w kind tree e = (Some r, e')"
  shows "re_state r = None \<and> l_topics (eg_ledger e') = l_topics (eg_ledger e) \<and> l_states (eg_ledger e') = l_states (eg_ledger e) \<and>
    (\<forall>p name. current_content (eg_ledger e') p name = current_content (eg_ledger e) p name) \<and>
    (\<exists>v. l_evidence (eg_ledger e') = l_evidence (eg_ledger e) @ [v] \<and> sv_content v = wr_content w \<and>
       sv_decision v = wr_verdict w \<and> sv_number v = re_source_version r)"
proof -
  have ok: "ledger_ok (eg_ledger e)" by (rule reachable_okI [OF assms(1)])
  obtain k where k: "write_body en mn project w kind tree (eg_ledger e) = (Some (r, eg_ledger e'), k)"
    using write_fromD [OF assms(3)] by metis
  note content = write_content [OF ok k]
  from ok k show ?thesis
  proof (cases rule: write_bodyD)
    case (promoted source lt found created db2 db3 v sp st db4)
    then show ?thesis using assms(2) by simp
  next
    case (held source db2 v sp db3)
    note d = insert_versionD [OF held(8) [unfolded append_evidence_def]]
    have v: "sv_content v = wr_content w" "sv_decision v = wr_verdict w"
      using arg_cong [OF d(2), of sv_content] arg_cong [OF d(2), of sv_decision] by (simp_all add: evidence_of_def)
    have "l_topics db3 = l_topics db2" "l_states db3 = l_states db2" "l_evidence db3 = l_evidence db2 @ [v]" using d(7) by simp_all
    then show ?thesis using held v content assms(2) by simp
  qed
qed

definition sample_held :: write_request where
  "sample_held = \<lparr>wr_topic = lit ''w'', wr_content = lit ''hm'', wr_hash = ''h'', wr_verdict = Filtered, wr_reason = ''short'',
     wr_promoted = False, wr_language = None, wr_confidence = None, wr_observed_at = 1, wr_validity = ALWAYS\<rparr>"

theorem held_write_stays_off_witness:
  "l_topics (eg_ledger (snd (write_from sample_surroundings (sample_minted 1) 7 sample_held Manual None new_engine))) = [] \<and>
   map sv_content (l_evidence (eg_ledger (snd (write_from sample_surroundings (sample_minted 1) 7 sample_held Manual None new_engine)))) = [lit ''hm'']"
proof -
  let ?x = "write_from sample_surroundings (sample_minted 1) 7 sample_held Manual None new_engine"
  have "fst ?x \<noteq> None" by code_simp
  then obtain r where r: "?x = (Some r, snd ?x)" by (metis not_None_eq prod.collapse)
  have "\<not> wr_promoted sample_held" by (simp add: sample_held_def)
  from held_write_stays_off [OF new_engine_reachable this r] show ?thesis
    by (auto simp: new_engine_def empty_ledger_def sample_held_def)
qed

text \<open>
  C28: remembering judges the content against what the topic says and then makes the topic say it
  exactly when the filter promotes it; every other topic says what it said.
\<close>

theorem remember_correct:
  assumes "reachable_ledger (eg_ledger e)"
    and "remember en mn project topic content validity (eg_ledger e) e = (Some (verdict, r), e')"
  shows "current_content (eg_ledger e) project topic \<noteq> None \<and>
    verdict = judge default_filter content (the (current_content (eg_ledger e) project topic)) \<and>
    (re_state r \<noteq> None \<longleftrightarrow> is_promoted verdict) \<and>
    current_content (eg_ledger e') project topic
      = (if is_promoted verdict then Some (Some content) else current_content (eg_ledger e) project topic) \<and>
    (\<forall>p name. (p, name) \<noteq> (project, topic) \<longrightarrow> current_content (eg_ledger e') p name = current_content (eg_ledger e) p name)"
proof -
  have ok: "ledger_ok (eg_ledger e)" by (rule reachable_okI [OF assms(1)])
  obtain current where c: "current_content (eg_ledger e) project topic = Some current" "verdict = judge default_filter content current"
    and w: "record_memory en mn project topic content validity verdict Manual None e = (Some r, e')"
    using assms(2) by (auto simp: remember_def judged_def split: option.splits prod.splits)
  obtain w' where w': "write_from en mn project w' Manual None e = (Some r, e')" "wr_promoted w' = is_promoted verdict"
    "wr_topic w' = topic" "wr_content w' = content"
    using w by (simp add: record_memory_def)
  obtain k where k: "write_body en mn project w' Manual None (eg_ledger e) = (Some (r, eg_ledger e'), k)"
    using write_fromD [OF w'(1)] by metis
  have "re_state r \<noteq> None \<longleftrightarrow> is_promoted verdict"
    using ok k
  proof (cases rule: write_bodyD)
    case (promoted source lt found created db2 db3 v sp st db4)
    then show ?thesis using w'(2) by simp
  next
    case (held source db2 v sp db3)
    then show ?thesis using w'(2) by simp
  qed
  then show ?thesis using write_content [OF ok k] w' c by auto
qed

theorem remember_correct_witness:
  "current_content (eg_ledger (snd sample_remembered)) 7 (lit ''w'') = Some (Some sample_text)"
proof -
  obtain verdict r where v: "sample_remembered = (Some (verdict, r), snd sample_remembered)" "is_promoted verdict" by (rule sample_remembered_result)
  from remember_correct [OF new_engine_reachable trans [OF sample_remembered_def [symmetric] v(1)]] v(2) show ?thesis by simp
qed

lemma judge_same_words:
  assumes "is_promoted (judge f content current)" and "split_whitespace content' = split_whitespace content"
  shows "judge f content' (Some content) = reject Restatement"
proof -
  have n: "normalize content' = normalize content" using assms(2) by (simp add: normalize_eq_iff)
  show ?thesis using assms(1) by (auto simp: judge_def Let_def n is_promoted_def reject_def promote_def split: if_splits)
qed

text \<open>
  C29: remembering again what was just remembered, in whatever layout, is held as a restatement: the
  topics and states stay as they are, and so does what every topic says.
\<close>

theorem remember_again_held:
  assumes "reachable_ledger (eg_ledger e)"
    and "remember en mn project topic content validity (eg_ledger e) e = (Some (verdict, r), e1)"
    and "is_promoted verdict" and "split_whitespace content' = split_whitespace content"
    and "remember en mn' project topic content' validity' (eg_ledger e1) e1 = (Some (verdict', r'), e2)"
  shows "verdict' = reject Restatement \<and> re_state r' = None \<and> l_states (eg_ledger e2) = l_states (eg_ledger e1) \<and>
    l_topics (eg_ledger e2) = l_topics (eg_ledger e1) \<and> current_content (eg_ledger e2) project topic = Some (Some content)"
proof -
  have ok: "ledger_ok (eg_ledger e)" by (rule reachable_okI [OF assms(1)])
  obtain current where c: "verdict = judge default_filter content current"
    and w: "record_memory en mn project topic content validity verdict Manual None e = (Some r, e1)"
    using assms(2) by (auto simp: remember_def judged_def split: option.splits prod.splits)
  obtain k where k: "write_body en mn project \<lparr>wr_topic = topic, wr_content = content, wr_hash = en_hash en content,
      wr_verdict = v_decision verdict, wr_reason = verdict_reason verdict, wr_promoted = is_promoted verdict,
      wr_language = map_option fst (en_detect en content), wr_confidence = map_option snd (en_detect en content),
      wr_observed_at = mn_observed_at mn, wr_validity = validity\<rparr> Manual None (eg_ledger e) = (Some (r, eg_ledger e1), k)"
    using write_fromD [OF w [unfolded record_memory_def]] by metis
  have ok1: "ledger_ok (eg_ledger e1)" using ledger_steps_ok [OF write_body_steps [OF ok k] ok] .
  have cur: "current_content (eg_ledger e1) project topic = Some (Some content)"
    using write_content [OF ok k, of project topic] assms(3) by simp
  have "verdict' = judge default_filter content' (Some content)"
    using assms(5) cur by (auto simp: remember_def judged_def split: prod.splits)
  then have v': "verdict' = reject Restatement" using judge_same_words [OF assms(3) [unfolded c] assms(4)] by simp
  then have np: "\<not> is_promoted verdict'" by (simp add: is_promoted_def reject_def)
  have w': "record_memory en mn' project topic content' validity' verdict' Manual None e1 = (Some r', e2)"
    using assms(5) cur by (auto simp: remember_def judged_def split: prod.splits)
  obtain k' where k': "write_body en mn' project \<lparr>wr_topic = topic, wr_content = content', wr_hash = en_hash en content',
      wr_verdict = v_decision verdict', wr_reason = verdict_reason verdict', wr_promoted = is_promoted verdict',
      wr_language = map_option fst (en_detect en content'), wr_confidence = map_option snd (en_detect en content'),
      wr_observed_at = mn_observed_at mn', wr_validity = validity'\<rparr> Manual None (eg_ledger e1) = (Some (r', eg_ledger e2), k')"
    using write_fromD [OF w' [unfolded record_memory_def]] by metis
  have cur2: "current_content (eg_ledger e2) project topic = Some (Some content)"
    using write_content [OF ok1 k', of project topic] np cur by simp
  from ok1 k' show ?thesis
  proof (cases rule: write_bodyD)
    case (promoted source lt found created db2 db3 v sp st db4)
    then show ?thesis using np by simp
  next
    case (held source db2 v sp db3)
    have "l_topics db3 = l_topics db2" "l_states db3 = l_states db2"
      using insert_versionD(7) [OF held(8) [unfolded append_evidence_def]] by simp_all
    then show ?thesis using held v' cur2 by simp
  qed
qed

theorem remember_again_held_witness:
  "\<exists>r' e2. remember sample_surroundings (sample_minted 2) 7 (lit ''w'') (lit ''  '' @ sample_text) ALWAYS
     (eg_ledger (snd sample_remembered)) (snd sample_remembered) = (Some (reject Restatement, r'), e2) \<and> re_state r' = None"
proof -
  obtain verdict r where v: "sample_remembered = (Some (verdict, r), snd sample_remembered)" "is_promoted verdict" by (rule sample_remembered_result)
  let ?again = "remember sample_surroundings (sample_minted 2) 7 (lit ''w'') (lit ''  '' @ sample_text) ALWAYS
     (eg_ledger (snd sample_remembered)) (snd sample_remembered)"
  have "fst ?again \<noteq> None" by code_simp
  then obtain v' r' where a: "?again = (Some (v', r'), snd ?again)" by (metis not_None_eq prod.collapse)
  have same: "split_whitespace (lit ''  '' @ sample_text) = split_whitespace sample_text" by code_simp
  from remember_again_held [OF new_engine_reachable trans [OF sample_remembered_def [symmetric] v(1)] v(2) same a]
  show ?thesis using a by blast
qed

lemma latest_after_append:
  assumes ok: "ledger_ok db" and a: "append_evidence now vid sid project source ev db = Some ((v, sp), db')"
  shows "latest_source_version db' project source = Some v"
proof -
  note d = insert_versionD [OF a [unfolded append_evidence_def]]
  have f: "sv_project v = project" "sv_source v = source" using arg_cong [OF d(2), of sv_project] arg_cong [OF d(2), of sv_source] by simp_all
  let ?xs = "filter (\<lambda>v. sv_project v = project \<and> sv_source v = source) (l_evidence db)"
  have dense: "numbers_dense (map sv_number ?xs)" using ledger_okD(2) [OF ok] unfolding evidence_ok_def by blast
  have num: "sv_number v = length ?xs + 1" using d(1) dense by (auto simp: source_numbers_def following_dense split: if_splits)
  have eq: "filter (\<lambda>v. sv_project v = project \<and> sv_source v = source) (l_evidence db') = ?xs @ [v]" by (simp add: d(7) f)
  have less: "sv_number x < sv_number v" if "x \<in> set ?xs" for x
  proof -
    have "sv_number x \<in> set (map sv_number ?xs)" using that by simp
    then show ?thesis using dense num by (simp add: numbers_dense_def)
  qed
  obtain y ys where y: "sort_by newest_first (?xs @ [v]) = y # ys" by (cases "sort_by newest_first (?xs @ [v])") auto
  have "newest_first y v" by (rule preorder_by.sort_by_Cons_least [OF _ y]) (simp_all add: newest_first_def preorder_desc_by)
  then have "sv_number v \<le> sv_number y" by (simp add: newest_first_def desc_by_def)
  moreover have "y \<in> set (sort_by newest_first (?xs @ [v]))" by (simp only: y list.set_intros)
  then have "y \<in> set ?xs \<or> y = v" by auto
  ultimately have "y = v" using less [of y] by auto
  then show ?thesis by (simp only: latest_source_version_def eq y list.case)
qed

lemma source_here_is:
  assumes "sources_ok (l_sources db)" "x \<in> set (l_sources db)"
  shows "source_here db (so_project x) (so_locator x) = Some x"
proof -
  have "find (\<lambda>y. (\<lambda>s. (so_project s, so_locator s)) y = (\<lambda>s. (so_project s, so_locator s)) x) (l_sources db) = Some x"
    by (rule find_key) (use assms in \<open>simp_all add: sources_ok_def\<close>)
  then show ?thesis by (simp add: source_here_def)
qed

lemma latest_version_cong: "l_evidence db' = l_evidence db \<Longrightarrow> latest_source_version db' p s = latest_source_version db p s"
  by (simp add: latest_source_version_def)

text \<open>
  A section an ingest has just recorded is left alone by the next ingest that finds it unchanged:
  nothing is written when it was promoted, or when it was held and its topic says nothing.
\<close>

theorem section_recorded_once:
  assumes "reachable_ledger (eg_ledger e)"
    and "remember_section en mn project topic content validity tree (eg_ledger e) e = (Some (Some (verdict, r)), e1)"
    and "is_promoted verdict \<or> current_content (eg_ledger e) project topic = Some None"
  shows "remember_section en mn' project topic content validity' tree' (eg_ledger e1) e1 = (Some None, e1)"
proof -
  have ok: "ledger_ok (eg_ledger e)" by (rule reachable_okI [OF assms(1)])
  obtain current where c: "current_content (eg_ledger e) project topic = Some current" "verdict = judge default_filter content current"
    and w: "record_memory en mn project topic content validity verdict SourceFile (Some tree) e = (Some r, e1)"
    using assms(2) by (auto simp: remember_section_def judged_def split: option.splits prod.splits if_splits)
  obtain k where k: "write_body en mn project \<lparr>wr_topic = topic, wr_content = content, wr_hash = en_hash en content,
      wr_verdict = v_decision verdict, wr_reason = verdict_reason verdict, wr_promoted = is_promoted verdict,
      wr_language = map_option fst (en_detect en content), wr_confidence = map_option snd (en_detect en content),
      wr_observed_at = mn_observed_at mn, wr_validity = validity\<rparr> SourceFile (Some tree) (eg_ledger e) = (Some (r, eg_ledger e1), k)"
    using write_fromD [OF w [unfolded record_memory_def]] by metis
  note content = write_content [OF ok k, of project topic]
  show ?thesis
  proof (cases "is_promoted verdict")
    case True
    then have "current_content (eg_ledger e1) project topic = Some (Some content)" using content by simp
    moreover have "judge default_filter content (Some content) = reject Restatement"
      by (rule judge_same_words [OF _ refl]) (use True c(2) in simp)
    ultimately show ?thesis by (simp add: remember_section_def judged_def unchanged_section_def reject_def)
  next
    case False
    then have none: "current = None" "current_content (eg_ledger e1) project topic = Some None" using assms(3) content c(1) by simp_all
    have "latest_hash_at (eg_ledger e1) project (locator SourceFile topic) = Some (en_hash en content)"
      using ok k
    proof (cases rule: write_bodyD)
      case (promoted source lt found created db2 db3 v sp st db4)
      then show ?thesis using False by simp
    next
      case (held source db2 v sp db3)
      have ok2: "ledger_ok db2" by (rule ledger_steps_ok [OF held(2) ok])
      have ok3: "ledger_ok db3" by (rule ledger_step_ok [OF ledger_step.evidenced [OF held(8)] ok2])
      note d = insert_versionD [OF held(8) [unfolded append_evidence_def]]
      have h: "sv_hash v = en_hash en content" using arg_cong [OF d(2), of sv_hash] by (simp add: evidence_of_def)
      obtain x where x: "x \<in> set (l_sources db2)" "so_id x = source" "so_project x = project" "so_locator x = locator SourceFile topic"
        using held(16) by auto
      have src: "l_sources (eg_ledger e1) = l_sources db2" using held(15) d(7) by simp
      have "source_here (eg_ledger e1) project (locator SourceFile topic) = Some x"
        using source_here_is [of "eg_ledger e1" x] ledger_okD(1) [OF ok2] x by (simp add: src)
      moreover have "latest_source_version (eg_ledger e1) project source = Some v"
        using latest_after_append [OF ok2 held(8)] latest_version_cong [OF held(13)] by simp
      ultimately show ?thesis using x(2) h by (simp add: latest_hash_at_def)
    qed
    then show ?thesis using False c(2) none by (simp add: remember_section_def judged_def unchanged_section_def)
  qed
qed

theorem section_recorded_once_witness:
  "remember_section sample_surroundings (sample_minted 2) 7 (lit ''f'') sample_text ALWAYS (lit ''/r'')
     (eg_ledger (snd sample_section)) (snd sample_section) = (Some None, snd sample_section)"
proof -
  obtain verdict r where v: "sample_section = (Some (Some (verdict, r)), snd sample_section)" "is_promoted verdict" by (rule sample_section_result)
  from section_recorded_once [OF new_engine_reachable trans [OF sample_section_def [symmetric] v(1)]] v(2) show ?thesis by blast
qed

lemma retired_content:
  assumes ok: "ledger_ok db" and lock: "lock_topic db project topic = Some lt" and c: "lt_current lt = Some seen"
    and r: "retire_topic now fresh project (to_id (lt_topic lt)) db = Some (b, db')"
  shows "b \<and> l_evidence db' = l_evidence db \<and> current_content db' project topic = Some None \<and>
    (\<forall>p name. (p, name) \<noteq> (project, topic) \<longrightarrow> current_content db' p name = current_content db p name)"
proof -
  obtain t where t: "t \<in> set (l_topics db)" "topic_named db project topic = Some t" "tp_project t = project" "tp_name t = topic"
    "to_id (lt_topic lt) = tp_id t" "lt_current lt = tp_current t" by (rule lock_topicD [OF lock]) blast
  have "tp_current t = Some seen" using c t(6) by simp
  then obtain s where "newest_state db (tp_id t) = Some s" by (rule pointer_state [OF ok t(1)])
  then have live: "live_states db (tp_id t) \<noteq> []" using newest_state_None by force
  obtain jobs where j: "b" "db' = (point_at (tp_id t) None (delete_where now (\<lambda>r. ts_topic r = tp_id t) db))\<lparr>l_jobs := jobs\<rparr>"
    using r [unfolded t(5)]
  proof (cases rule: retire_topicD)
    case gone
    then show thesis using live by (simp only: not_False_eq_True)
  next
    case (retired jobs)
    then show thesis by (intro that)
  qed
  have tables: "l_topics db' = l_topics (point_at (tp_id t) None db)" "l_evidence db' = l_evidence db" "l_spans db' = l_spans db"
    "l_states db' = map (closed_off now (\<lambda>r. ts_topic r = tp_id t)) (l_states db)"
    by (simp_all add: j(2) point_at_topics delete_where_states)
  have named: "topic_named db' p name = (if (p, name) = (project, topic) then
      Some (t\<lparr>tp_current := None, tp_current_version := None\<rparr>) else topic_named db p name)" for p name
  proof (cases "(p, name) = (project, topic)")
    case True
    have "find P (map f xs) = map_option f (find (P \<circ> f) xs)" for P and f :: "topic_row \<Rightarrow> topic_row" and xs by (induction xs) auto
    then show ?thesis using t(2) True by (simp add: topic_named_def tables(1) point_at_topics comp_def if_distrib cong: if_cong)
  next
    case False
    then show ?thesis unfolding topic_named_def tables(1) point_at_topics
      by (subst topic_named_point_other [OF ledger_okD(3) [OF ok] t(1) refl]) (use t(3,4) False in auto)
  qed
  have other: "current_content db' p name = current_content db p name" if ne: "(p, name) \<noteq> (project, topic)" for p name
  proof (cases "topic_named db p name")
    case None
    then have "topic_named db' p name = None" using named ne by (simp only: if_False)
    then show ?thesis using None by (simp add: current_content_def)
  next
    case (Some u)
    have u: "u \<in> set (l_topics db)" using find_SomeD [OF Some [unfolded topic_named_def]] by simp
    have uid: "tp_id u \<noteq> tp_id t"
    proof
      assume "tp_id u = tp_id t"
      then have "u = t" by (rule topic_by_id [OF ledger_okD(3) [OF ok] u t(1)])
      then show False using find_SomeD [OF Some [unfolded topic_named_def]] t(3,4) ne by simp
    qed
    have row: "current_row db' u = current_row db u"
    proof (cases "tp_current u")
      case None
      then show ?thesis by (simp add: current_row_def)
    next
      case (Some s)
      obtain q where q: "q \<in> set (l_states db)" "ts_id q = s" "ts_topic q = tp_id u" by (rule pointer_state [OF ok u Some])
      have d: "distinct (map ts_id (l_states db))" using ledger_okD(4) [OF ok] unfolding states_ok_def by blast
      then have d': "distinct (map ts_id (l_states db'))" by (simp add: tables(4) comp_def)
      have "closed_off now (\<lambda>r. ts_topic r = tp_id t) q = q" using q(3) uid by (simp add: closed_off_def)
      then have "q \<in> set (l_states db')" unfolding tables(4) set_map using q(1) by (intro image_eqI [of q _ q]) simp_all
      from find_key [OF d q(1)] find_key [OF d' this] show ?thesis using q(2) Some by (simp add: current_row_def)
    qed
    have "span_joins db' = span_joins db" by (intro ext span_joins_cong tables)
    moreover have "topic_named db' p name = Some u" using named ne Some by (simp only: if_False)
    ultimately show ?thesis using Some row by (simp add: current_content_def)
  qed
  have "current_content db' project topic = Some None" by (simp add: current_content_def named current_row_def)
  with j(1) tables(2) show ?thesis using other by (intro conjI allI impI)
qed

text \<open>
  Retiring a section takes it off exactly when it still says what the ingest saw and nobody wrote
  it by hand; then it says nothing, everything else says what it said and its evidence stays, and
  otherwise nothing changes.
\<close>

theorem retire_section_correct:
  assumes "reachable_ledger (eg_ledger e)" and "retire_section mn project topic seen e = (Some x, e')"
  shows "(x = Retired \<longleftrightarrow> (\<exists>lt. lock_topic (eg_ledger e) project topic = Some lt \<and> lt_current lt = Some seen \<and>
       \<not> source_at (eg_ledger e) project (locator Manual topic))) \<and>
    (x \<noteq> Retired \<longrightarrow> e' = e) \<and>
    (x = Retired \<longrightarrow> l_evidence (eg_ledger e') = l_evidence (eg_ledger e) \<and> current_content (eg_ledger e') project topic = Some None \<and>
       (\<forall>p name. (p, name) \<noteq> (project, topic) \<longrightarrow> current_content (eg_ledger e') p name = current_content (eg_ledger e) p name))"
  using assms(2)
proof (cases rule: retire_sectionD)
  case same
  then have "x \<noteq> Retired" "e' = e" "\<not> (\<exists>lt. lock_topic (eg_ledger e) project topic = Some lt \<and> lt_current lt = Some seen \<and>
       \<not> source_at (eg_ledger e) project (locator Manual topic))" by (simp_all only: option.inject option.distinct simp_thms)
  then show ?thesis by (simp only: simp_thms)
next
  case (gone lt b db)
  note r = retired_content [OF reachable_okI [OF assms(1)] gone(1,2,4)]
  then have x: "x = Retired" using gone(6) by simp
  have db: "eg_ledger e' = db" by (simp add: gone(5))
  have "\<exists>lt. lock_topic (eg_ledger e) project topic = Some lt \<and> lt_current lt = Some seen \<and>
       \<not> source_at (eg_ledger e) project (locator Manual topic)" by (rule exI [of _ lt]) (intro conjI gone(1-3))
  moreover have "l_evidence (eg_ledger e') = l_evidence (eg_ledger e) \<and> current_content (eg_ledger e') project topic = Some None \<and>
       (\<forall>p name. (p, name) \<noteq> (project, topic) \<longrightarrow> current_content (eg_ledger e') p name = current_content (eg_ledger e) p name)"
    unfolding db by (rule conjunct2 [OF r])
  ultimately show ?thesis unfolding x by blast
qed

theorem retire_section_correct_witness:
  "fst (retire_section (sample_minted 3) 7 (lit ''w'') 1 (snd sample_remembered)) = Some Kept \<and>
   snd (retire_section (sample_minted 3) 7 (lit ''w'') 1 (snd sample_remembered)) = snd sample_remembered"
proof -
  have k: "fst (retire_section (sample_minted 3) 7 (lit ''w'') 1 (snd sample_remembered)) = Some Kept" by code_simp
  then have "retire_section (sample_minted 3) 7 (lit ''w'') 1 (snd sample_remembered)
      = (Some Kept, snd (retire_section (sample_minted 3) 7 (lit ''w'') 1 (snd sample_remembered)))" by (metis prod.collapse)
  from retire_section_correct [OF sample_remembered_reachable this] k show ?thesis by simp
qed

text \<open>
  What the comment on \<open>remember\<close> rules out: a write the filter holds, on a topic an ingest made, files the
  topic's name and owes its backfill.
\<close>

definition section_engine :: engine where
  "section_engine = \<lparr>eg_ledger = empty_ledger\<lparr>
     l_sources := [\<lparr>so_id = 1, so_project = 7, so_kind = SourceFile, so_locator = lit ''file:f'', so_created_at = 1, so_root = Some (lit ''/r'')\<rparr>],
     l_topics := [\<lparr>tp_id = TopicId 1, tp_project = 7, tp_name = lit ''f'', tp_path = None, tp_created_at = 1, tp_current = None,
       tp_current_version = None\<rparr>]\<rparr>, eg_widest = 0\<rparr>"

lemma held_write_names_section:
  "case remember sample_surroundings (sample_minted 2) 7 (lit ''f'') (lit ''ok'') ALWAYS (eg_ledger section_engine) section_engine of
     (Some (verdict, r), e') \<Rightarrow> \<not> is_promoted verdict \<and> re_state r = None \<and> length (l_names (eg_ledger e')) = 1 \<and>
       map jr_kind (l_jobs (eg_ledger e')) = [BackfillMentions]
   | _ \<Rightarrow> False"
  by code_simp

end
