(* ===== verification/Engine_Cascade.thy ===== *)
theory Engine_Cascade
  imports Store_Jobs Store_Ledger Core_Graph "HOL-Library.While_Combinator"
begin

text \<open>
  Running what the outbox owes (\<open>crates/engine/src/cascade.rs\<close>): the two halves of a round, the drain
  loop, the flush that makes applied writes durable, and maintenance.

  The queue is the model of \<open>Store_Jobs\<close>. Everything else a job reads or writes - the ledger, the edges,
  the index - is a world \<open>'w\<close>, and the calls the handlers make into it are arguments (\<open>works\<close>): a call
  gives the message it failed with, or none, and the world it left. What happens around a drain is an
  argument too (\<open>around\<close>): the clock, what other processes did to the queue before each round, the rows
  they have locked, the identifiers minted, and whether the caller wants another round.
\<close>

record 'w works =
  wk_states :: "'w \<Rightarrow> topic_id list \<Rightarrow> string + topic_state list"
  wk_names :: "'w \<Rightarrow> topic_id list \<Rightarrow> string + (topic_id \<times> ustr) list"
  wk_index :: "topic_state list \<Rightarrow> 'w \<Rightarrow> string option \<times> 'w"
  wk_index_one :: "topic_state \<Rightarrow> 'w \<Rightarrow> string option \<times> 'w"
  wk_delete :: "topic_id list \<Rightarrow> 'w \<Rightarrow> string option \<times> 'w"
  wk_restate :: "topic_state list \<Rightarrow> 'w \<Rightarrow> string option \<times> 'w"
  wk_retract :: "edge_kind \<Rightarrow> topic_id list \<Rightarrow> 'w \<Rightarrow> string option \<times> 'w"
  wk_backfill :: "(topic_id \<times> ustr) list \<Rightarrow> 'w \<Rightarrow> string option \<times> 'w"
  wk_optimize :: "'w \<Rightarrow> string option \<times> 'w"
  wk_flush :: "'w \<Rightarrow> string option \<times> 'w"
  wk_fragmented :: "'w \<Rightarrow> string + bool"
  wk_lags :: "'w \<Rightarrow> string + bool"
  wk_wasteful :: "'w \<Rightarrow> string + bool"

definition DERIVED :: "edge_kind list" where
  "DERIVED = [Mentions, PartOf]"

definition BATCH :: int where
  "BATCH = 64"

definition AWAITING_DURABILITY :: nat where
  "AWAITING_DURABILITY = 128"

text \<open>The \<open>?\<close> of a call: go on where it worked, stop with its message where it did not.\<close>

definition andthen :: "string option \<times> 'w \<Rightarrow> ('w \<Rightarrow> string option \<times> 'w) \<Rightarrow> string option \<times> 'w" where
  "andthen x f = (case x of (None, w) \<Rightarrow> f w | (Some e, w) \<Rightarrow> (Some e, w))"

type_synonym outcomes = "(job \<times> string option) list"

definition no_subject :: "job \<Rightarrow> string" where
  "no_subject j = ''a '' @ job_kind_as_str (j_kind j) @ '' job was queued without a subject''"

definition with_subject :: "job list \<Rightarrow> (job \<times> topic_id) list" where
  "with_subject jobs = List.map_filter (\<lambda>j. map_option (\<lambda>u. (j, TopicId u)) (j_subject j)) jobs"

definition without_subject :: "job list \<Rightarrow> outcomes" where
  "without_subject jobs = map (\<lambda>j. (j, Some (no_subject j))) (filter (\<lambda>j. j_subject j = None) jobs)"

fun each :: "('a \<Rightarrow> 'w \<Rightarrow> string option \<times> 'w) \<Rightarrow> (job \<times> 'a) list \<Rightarrow> 'w \<Rightarrow> outcomes \<times> 'w" where
  "each f [] w = ([], w)"
| "each f ((j, x) # xs) w =
     (case f x w of (r, w1) \<Rightarrow> (case each f xs w1 of (rs, w2) \<Rightarrow> ((j, r) # rs, w2)))"

section \<open>One job\<close>

fun retract_each :: "'w works \<Rightarrow> edge_kind list \<Rightarrow> topic_id list \<Rightarrow> 'w \<Rightarrow> string option \<times> 'w" where
  "retract_each wk [] gone w = (None, w)"
| "retract_each wk (kind # kinds) gone w = andthen (wk_retract wk kind gone w) (retract_each wk kinds gone)"

definition sync_topic_index :: "'w works \<Rightarrow> topic_id \<Rightarrow> 'w \<Rightarrow> string option \<times> 'w" where
  "sync_topic_index wk topic w =
     (case wk_states wk w [topic] of
        Inl e \<Rightarrow> (Some e, w)
      | Inr [] \<Rightarrow> wk_delete wk [topic] w
      | Inr (state # _) \<Rightarrow> wk_index_one wk state w)"

definition derive_topic_mentions :: "'w works \<Rightarrow> topic_id \<Rightarrow> 'w \<Rightarrow> string option \<times> 'w" where
  "derive_topic_mentions wk topic w =
     (case wk_states wk w [topic] of
        Inl e \<Rightarrow> (Some e, w)
      | Inr [] \<Rightarrow> retract_each wk DERIVED [topic] w
      | Inr (state # _) \<Rightarrow> wk_restate wk [state] w)"

definition backfill_topic :: "'w works \<Rightarrow> topic_id \<Rightarrow> 'w \<Rightarrow> string option \<times> 'w" where
  "backfill_topic wk topic w =
     (case wk_names wk w [topic] of
        Inl e \<Rightarrow> (Some e, w)
      | Inr [] \<Rightarrow> (None, w)
      | Inr ((_, name) # _) \<Rightarrow> wk_backfill wk [(topic, name)] w)"

definition optimize_projection :: "'w works \<Rightarrow> 'w \<Rightarrow> string option \<times> 'w" where
  "optimize_projection wk w = wk_optimize wk w"

definition on_subject :: "job \<Rightarrow> (topic_id \<Rightarrow> 'w \<Rightarrow> string option \<times> 'w) \<Rightarrow> 'w \<Rightarrow> string option \<times> 'w" where
  "on_subject j f w = (case j_subject j of None \<Rightarrow> (Some (no_subject j), w) | Some u \<Rightarrow> f (TopicId u) w)"

definition run_job :: "'w works \<Rightarrow> job \<Rightarrow> 'w \<Rightarrow> string option \<times> 'w" where
  "run_job wk j w =
     (case j_kind j of
        SyncTopicIndex \<Rightarrow> on_subject j (sync_topic_index wk) w
      | DeriveMentions \<Rightarrow> on_subject j (derive_topic_mentions wk) w
      | BackfillMentions \<Rightarrow> on_subject j (backfill_topic wk) w
      | OptimizeIndex \<Rightarrow> optimize_projection wk w)"

section \<open>The two halves of a round\<close>

text \<open>The writes, in one pass; one at a time where the pass fails. A later state of a topic wins.\<close>

definition found_states :: "topic_state list \<Rightarrow> topic_id \<Rightarrow> topic_state option" where
  "found_states states = map_of (rev (map (\<lambda>s. (st_of s, s)) states))"

definition sync_batch :: "'w works \<Rightarrow> (topic_id \<Rightarrow> topic_state option) \<Rightarrow> topic_id list \<Rightarrow> 'w \<Rightarrow> string option \<times> 'w" where
  "sync_batch wk found wanted w =
     (let absent = filter (\<lambda>t. found t = None) wanted in
      andthen (wk_index wk (List.map_filter found wanted) w)
        (\<lambda>w. if absent = [] then (None, w) else wk_delete wk absent w))"

definition sync_one :: "'w works \<Rightarrow> (topic_id \<Rightarrow> topic_state option) \<Rightarrow> topic_id \<Rightarrow> 'w \<Rightarrow> string option \<times> 'w" where
  "sync_one wk found topic w =
     (case found topic of Some state \<Rightarrow> wk_index_one wk state w | None \<Rightarrow> wk_delete wk [topic] w)"

definition sync_indexes :: "'w works \<Rightarrow> job list \<Rightarrow> 'w \<Rightarrow> outcomes \<times> 'w" where
  "sync_indexes wk jobs w =
     (let topics = with_subject jobs in
      if topics = [] then (without_subject jobs, w)
      else
        (case wk_states wk w (map snd topics) of
           Inl e \<Rightarrow> (without_subject jobs @
             map (\<lambda>(j, _). (j, Some (''reading the states this round owes: '' @ e))) topics, w)
         | Inr states \<Rightarrow>
             (case sync_batch wk (found_states states) (map snd topics) w of
                (None, w1) \<Rightarrow> (without_subject jobs @ map (\<lambda>(j, _). (j, None)) topics, w1)
              | (Some _, w1) \<Rightarrow>
                  (case each (sync_one wk (found_states states)) topics w1 of
                     (rs, w2) \<Rightarrow> (without_subject jobs @ rs, w2)))))"

definition batched_kind :: "job \<Rightarrow> bool" where
  "batched_kind j \<longleftrightarrow> j_kind j = DeriveMentions \<or> j_kind j = BackfillMentions"

text \<open>The first pass over the reads: upkeep runs as it is met, the rest is gathered.\<close>

fun gather :: "'w works \<Rightarrow> job list \<Rightarrow> 'w \<Rightarrow> outcomes \<times> (job \<times> topic_id) list \<times> 'w" where
  "gather wk [] w = ([], [], w)"
| "gather wk (j # js) w =
     (if batched_kind j
      then (case gather wk js w of (rs, batch, w') \<Rightarrow>
              (case j_subject j of None \<Rightarrow> ((j, Some (no_subject j)) # rs, batch, w')
               | Some u \<Rightarrow> (rs, (j, TopicId u) # batch, w')))
      else (case run_job wk j w of (r, w1) \<Rightarrow>
              (case gather wk js w1 of (rs, batch, w') \<Rightarrow> ((j, r) # rs, batch, w'))))"

definition of_kind :: "job_kind \<Rightarrow> (job \<times> topic_id) list \<Rightarrow> topic_id list" where
  "of_kind kind batch = map snd (filter (\<lambda>(j, _). j_kind j = kind) batch)"

definition read_batch :: "'w works \<Rightarrow> (job \<times> topic_id) list \<Rightarrow> 'w \<Rightarrow> string option \<times> 'w" where
  "read_batch wk batch w =
     (let deriving = of_kind DeriveMentions batch in
      case wk_states wk w deriving of
        Inl e \<Rightarrow> (Some e, w)
      | Inr states \<Rightarrow>
          andthen (wk_restate wk states w) (\<lambda>w.
          andthen (retract_each wk DERIVED (filter (\<lambda>t. t \<notin> st_of ` set states) deriving) w) (\<lambda>w.
            case wk_names wk w (of_kind BackfillMentions batch) of
              Inl e \<Rightarrow> (Some e, w)
            | Inr names \<Rightarrow> wk_backfill wk names w)))"

definition run_reads :: "'w works \<Rightarrow> job list \<Rightarrow> 'w \<Rightarrow> outcomes \<times> 'w" where
  "run_reads wk jobs w =
     (case gather wk jobs w of (rs, batch, w1) \<Rightarrow>
        if batch = [] then (rs, w1)
        else
          (case read_batch wk batch w1 of
             (None, w2) \<Rightarrow> (rs @ map (\<lambda>(j, _). (j, None)) batch, w2)
           | (Some _, w2) \<Rightarrow>
               (case each (run_job wk) (map (\<lambda>(j, _). (j, j)) batch) w2 of (rs', w3) \<Rightarrow> (rs @ rs', w3))))"

section \<open>Draining\<close>

datatype owed = Everything | WhatAMemoryNeeds

fun owed_kinds :: "owed \<Rightarrow> job_kind list" where
  "owed_kinds Everything = job_kinds"
| "owed_kinds WhatAMemoryNeeds = URGENT"

record around =
  ar_project :: project_id
  ar_worker :: worker
  ar_batch :: int
  ar_claim_at :: "nat \<Rightarrow> instant"
  ar_settle_at :: "nat \<Rightarrow> instant"
  ar_others :: "nat \<Rightarrow> queue \<Rightarrow> queue"
  ar_locked :: "nat \<Rightarrow> job_id set"
  ar_another :: "nat \<Rightarrow> bool"
  ar_ids :: "nat \<Rightarrow> nat \<Rightarrow> job_id"

datatype status = Running | Ended | Errored

record 'w drain =
  dr_queue :: queue
  dr_unflushed :: "job list"
  dr_world :: 'w
  dr_completed :: nat
  dr_failed :: nat
  dr_tidied :: bool
  dr_round :: nat
  dr_status :: status

definition tidy_up :: "around \<Rightarrow> nat \<Rightarrow> nat \<Rightarrow> queue \<Rightarrow> queue option" where
  "tidy_up ar k n q = enqueue (ar_settle_at ar k) (\<lambda>i. ar_ids ar k (n + i)) (ar_project ar) OptimizeIndex None q"

text \<open>How many it recorded done; none where the flush failed. A failure to ask about waste is only logged.\<close>

definition flush_what_is_applied :: "'w works \<Rightarrow> around \<Rightarrow> 'w drain \<Rightarrow> nat option \<times> 'w drain" where
  "flush_what_is_applied wk ar d =
     (let waiting = dr_unflushed d; d0 = d\<lparr>dr_unflushed := []\<rparr> in
      if waiting = [] then (Some 0, d0)
      else
        (case wk_flush wk (dr_world d0) of
           (Some _, w) \<Rightarrow> (None, d0\<lparr>dr_world := w\<rparr>)
         | (None, w) \<Rightarrow>
             (case Store_Jobs.complete waiting (ar_worker ar) (dr_queue d0) of (q, completed) \<Rightarrow>
                let q' = (if wk_wasteful wk w = Inr True
                          then (case tidy_up ar (dr_round d) 0 q of None \<Rightarrow> q | Some q' \<Rightarrow> q') else q)
                in (Some (length completed), d0\<lparr>dr_queue := q', dr_world := w\<rparr>))))"

definition awaiting_durability :: "'w drain \<Rightarrow> nat" where
  "awaiting_durability d = length (dr_unflushed d)"

text \<open>Whether the index should be tidied, asked only of a drain that wrote something.\<close>

definition wants_tidying :: "'w works \<Rightarrow> 'w drain \<Rightarrow> string + bool" where
  "wants_tidying wk d =
     (if 0 < dr_completed d \<and> \<not> dr_tidied d
      then (case wk_fragmented wk (dr_world d) of
              Inl e \<Rightarrow> Inl e
            | Inr True \<Rightarrow> Inr True
            | Inr False \<Rightarrow> wk_lags wk (dr_world d))
      else Inr False)"

definition still_in_flight :: "around \<Rightarrow> owed \<Rightarrow> 'w drain \<Rightarrow> bool" where
  "still_in_flight ar owed d \<longleftrightarrow>
     owed = Everything \<and> any_in_flight (ar_settle_at ar (dr_round d)) (ar_project ar) (dr_queue d)"

text \<open>A round that found nothing due: it flushes, tidies, waits for the others, or ends the drain.\<close>

definition flush_the_rest :: "'w works \<Rightarrow> around \<Rightarrow> owed \<Rightarrow> 'w drain \<Rightarrow> 'w drain option" where
  "flush_the_rest wk ar owed d =
     (if owed = Everything
      then (case flush_what_is_applied wk ar d of
              (None, _) \<Rightarrow> None
            | (Some flushed, d1) \<Rightarrow>
                Some (d1\<lparr>dr_completed := dr_completed d1 + flushed, dr_tidied := (dr_tidied d1 \<and> flushed = 0)\<rparr>))
      else Some d)"

definition nothing_due :: "'w works \<Rightarrow> around \<Rightarrow> owed \<Rightarrow> 'w drain \<Rightarrow> 'w drain" where
  "nothing_due wk ar owed d =
     (case flush_the_rest wk ar owed d of
        None \<Rightarrow> (snd (flush_what_is_applied wk ar d))\<lparr>dr_status := Errored\<rparr>
      | Some d1 \<Rightarrow>
          (case wants_tidying wk d1 of
             Inl _ \<Rightarrow> d1\<lparr>dr_status := Errored\<rparr>
           | Inr False \<Rightarrow> if still_in_flight ar owed d1 then d1 else d1\<lparr>dr_status := Ended\<rparr>
           | Inr True \<Rightarrow>
               let d2 = d1\<lparr>dr_tidied := True\<rparr> in
               (case tidy_up ar (dr_round d) 1 (dr_queue d2) of
                  None \<Rightarrow> d2\<lparr>dr_status := Errored\<rparr>
                | Some q \<Rightarrow>
                    let d3 = d2\<lparr>dr_queue := q\<rparr> in
                    if owed = Everything then d3 else d3\<lparr>dr_status := Ended\<rparr>)))"

definition record_failures :: "around \<Rightarrow> nat \<Rightarrow> outcomes \<Rightarrow> queue \<Rightarrow> queue" where
  "record_failures ar k outcomes q =
     fold (\<lambda>(j, r) q. case r of None \<Rightarrow> q | Some e \<Rightarrow> Store_Jobs.fail (ar_settle_at ar k) j (ar_worker ar) e q) outcomes q"

definition done_jobs :: "outcomes \<Rightarrow> job list" where
  "done_jobs outcomes = map fst (filter (\<lambda>(_, r). r = None) outcomes)"

definition failed_outcomes :: "outcomes \<Rightarrow> outcomes" where
  "failed_outcomes outcomes = filter (\<lambda>(_, r). r \<noteq> None) outcomes"

text \<open>The failures, then the completions, then the flush once too many writes wait for one.\<close>

definition settle_round :: "'w works \<Rightarrow> around \<Rightarrow> outcomes \<Rightarrow> 'w drain \<Rightarrow> 'w drain" where
  "settle_round wk ar outcomes d =
     (case Store_Jobs.complete (done_jobs outcomes) (ar_worker ar) (record_failures ar (dr_round d) outcomes (dr_queue d)) of
        (q, completed) \<Rightarrow>
          let failed = dr_failed d + length (failed_outcomes outcomes);
              d1 = d\<lparr>dr_queue := q, dr_completed := dr_completed d + length completed, dr_failed := failed\<rparr>;
              left = length (done_jobs outcomes) - length completed
          in if AWAITING_DURABILITY \<le> awaiting_durability d1
             then (case flush_what_is_applied wk ar d1 of
                     (None, d2) \<Rightarrow> d2\<lparr>dr_status := Errored\<rparr>
                   | (Some n, d2) \<Rightarrow> d2\<lparr>dr_completed := dr_completed d2 + n, dr_failed := failed + left\<rparr>)
             else d1\<lparr>dr_failed := failed + left\<rparr>)"

definition work_round :: "'w works \<Rightarrow> around \<Rightarrow> owed \<Rightarrow> job list \<Rightarrow> 'w drain \<Rightarrow> 'w drain" where
  "work_round wk ar owed claimed d =
     (case sync_indexes wk (filter (\<lambda>j. j_kind j = SyncTopicIndex) claimed) (dr_world d) of
        (written, w1) \<Rightarrow>
          let reads = filter (\<lambda>j. j_kind j \<noteq> SyncTopicIndex) claimed in
          (case owed of
             Everything \<Rightarrow>
               (case (if done_jobs written \<noteq> [] then wk_flush wk w1 else (None, w1)) of
                  (Some _, w2) \<Rightarrow> d\<lparr>dr_world := w2, dr_status := Errored\<rparr>
                | (None, w2) \<Rightarrow>
                    (case run_reads wk reads w2 of (rs, w3) \<Rightarrow> settle_round wk ar (written @ rs) (d\<lparr>dr_world := w3\<rparr>)))
           | WhatAMemoryNeeds \<Rightarrow>
               (case run_reads wk reads w1 of
                  (rs, w3) \<Rightarrow> settle_round wk ar (failed_outcomes written @ rs)
                    (d\<lparr>dr_world := w3, dr_unflushed := dr_unflushed d @ done_jobs written\<rparr>))))"

text \<open>One turn of the loop. \<open>dr_round\<close> is the turn's number until the turn is over.\<close>

definition turn_body :: "'w works \<Rightarrow> around \<Rightarrow> owed \<Rightarrow> 'w drain \<Rightarrow> 'w drain" where
  "turn_body wk ar owed d =
     (if \<not> ar_another ar (dr_round d) then d\<lparr>dr_status := Ended\<rparr>
      else
        (case claim (ar_claim_at ar (dr_round d)) (ar_project ar) (ar_worker ar) (ar_batch ar) (owed_kinds owed)
                (ar_locked ar (dr_round d)) (dr_queue d) of
           None \<Rightarrow> d\<lparr>dr_status := Errored\<rparr>
         | Some (q, claimed) \<Rightarrow>
             if claimed = [] then nothing_due wk ar owed (d\<lparr>dr_queue := q\<rparr>)
             else work_round wk ar owed claimed (d\<lparr>dr_queue := q\<rparr>)))"

definition turn :: "'w works \<Rightarrow> around \<Rightarrow> owed \<Rightarrow> 'w drain \<Rightarrow> 'w drain" where
  "turn wk ar owed d =
     (let d' = turn_body wk ar owed (d\<lparr>dr_queue := ar_others ar (dr_round d) (dr_queue d)\<rparr>)
      in d'\<lparr>dr_round := dr_round d + 1\<rparr>)"

definition start_drain :: "queue \<Rightarrow> job list \<Rightarrow> 'w \<Rightarrow> 'w drain" where
  "start_drain q unflushed w = \<lparr>dr_queue = q, dr_unflushed = unflushed, dr_world = w, dr_completed = 0, dr_failed = 0,
     dr_tidied = False, dr_round = 0, dr_status = Running\<rparr>"

definition drain_cascade_while :: "'w works \<Rightarrow> around \<Rightarrow> owed \<Rightarrow> 'w drain \<Rightarrow> 'w drain option" where
  "drain_cascade_while wk ar owed d = while_option (\<lambda>d. dr_status d = Running) (turn wk ar owed) d"

definition drain_cascade :: "'w works \<Rightarrow> around \<Rightarrow> owed \<Rightarrow> 'w drain \<Rightarrow> 'w drain option" where
  "drain_cascade wk ar owed d = drain_cascade_while wk (ar\<lparr>ar_batch := BATCH, ar_another := (\<lambda>_. True)\<rparr>) owed d"

record drained =
  dn_completed :: nat
  dn_pending :: int
  dn_failed :: nat
  dn_applied :: nat

definition drained_of :: "around \<Rightarrow> 'w drain \<Rightarrow> drained" where
  "drained_of ar d = \<lparr>dn_completed = dr_completed d,
     dn_pending = pending_up_to (ar_project ar) (LAGGING_AT + int (awaiting_durability d)) (dr_queue d),
     dn_failed = dr_failed d, dn_applied = awaiting_durability d\<rparr>"

section \<open>Maintenance\<close>

definition maintain :: "'w works \<Rightarrow> around \<Rightarrow> nat \<Rightarrow> queue \<Rightarrow> 'w \<Rightarrow> (bool \<times> queue \<times> 'w) option" where
  "maintain wk ar k q w =
     (case claim (ar_claim_at ar k) (ar_project ar) (ar_worker ar) BATCH MAINTENANCE (ar_locked ar k) q of
        None \<Rightarrow> None
      | Some (q1, claimed) \<Rightarrow>
          if claimed = [] then Some (False, q1, w)
          else
            (case each (run_job wk) (map (\<lambda>j. (j, j)) claimed) w of (outcomes, w') \<Rightarrow>
               Some (True, fst (Store_Jobs.complete (done_jobs outcomes) (ar_worker ar) (record_failures ar k outcomes q1)), w')))"

end
