(* ===== verification/Engine_Cascade_Sound.thy ===== *)
theory Engine_Cascade_Sound
  imports Engine_Cascade
begin

text \<open>
  What the drain of \<open>Engine_Cascade\<close> promises. The attempts a queue's rows have left (\<open>owed_work\<close>) pay for
  every round that finds work, which ends a drain for one memory; with the two times it may tidy up and
  the wait until every claim has lapsed they end a drain of everything. Each job of a batched round gets
  the outcome it would have had alone. Nothing is recorded done before a flush covers it.
\<close>

section \<open>Queues\<close>

text \<open>The attempts the rows of some kinds have left.\<close>

definition tries_left :: "project_id \<Rightarrow> job_kind list \<Rightarrow> job_row \<Rightarrow> nat" where
  "tries_left p kinds r = (if jr_project r = p \<and> jr_kind r \<in> set kinds then nat (MAX_ATTEMPTS - jr_attempts r) else 0)"

definition owed_work :: "project_id \<Rightarrow> job_kind list \<Rightarrow> queue \<Rightarrow> nat" where
  "owed_work p kinds q = sum_list (map (tries_left p kinds) q)"

lemma owed_work_mset: "owed_work p kinds q = \<Sum>\<^sub># (image_mset (tries_left p kinds) (mset q))"
  by (simp add: owed_work_def sum_mset_sum_list [symmetric])

lemma owed_work_simps [simp]:
  "owed_work p kinds [] = 0"
  "owed_work p kinds (r # q) = tries_left p kinds r + owed_work p kinds q"
  "owed_work p kinds (q @ q') = owed_work p kinds q + owed_work p kinds q'"
  by (simp_all add: owed_work_def)

lemma held_row_tries: "due t p kinds r \<Longrightarrow> Suc (tries_left p kinds (held_row t' w r)) = tries_left p kinds r"
  by (auto simp: tries_left_def due_def held_row_def MAX_ATTEMPTS_def)

lemma sum_held_tries:
  "(\<forall>r\<in>set rs. due t p kinds r) \<Longrightarrow>
   \<Sum>\<^sub># (image_mset (tries_left p kinds) (mset (map (held_row t' w) rs))) + length rs
     = \<Sum>\<^sub># (image_mset (tries_left p kinds) (mset rs))"
proof (induction rs)
  case (Cons r rs)
  have "Suc (tries_left p kinds (held_row t' w r)) = tries_left p kinds r"
    using Cons.prems held_row_tries by auto
  with Cons show ?case by simp
qed simp

lemma claim_pays:
  assumes "queue_ok q" and "claim now p worker batch kinds locked q = Some (q', jobs)"
  shows "owed_work p kinds q' + length jobs = owed_work p kinds q"
proof -
  obtain taken left rest where t: "mset q = mset taken + mset left + mset rest"
    "mset taken + mset left = mset (filter (\<lambda>r. due now p kinds r \<and> jr_id r \<notin> locked) q)"
    "mset q' = mset (map (held_row now worker) taken) + mset left + mset rest"
    "mset jobs = mset (map (row_to_job \<circ> held_row now worker) taken)"
    using claim_spec [OF assms] by blast
  have "\<forall>r\<in>set taken. due now p kinds r"
    using arg_cong [OF t(2), of set_mset] by auto
  note s = sum_held_tries [OF this, of now worker]
  have "length jobs = length taken" using arg_cong [OF t(4), of size] by simp
  then show ?thesis unfolding owed_work_mset t(1,3) using s by simp
qed

lemma claim_nothing:
  assumes "queue_ok q" and "claim now p worker batch kinds locked q = Some (q', [])"
  shows "q' = q"
proof -
  note c = claim_SomeD [OF assms(2)]
  then have "filter (\<lambda>r. jr_id r \<in> set (claim_ids now p (nat batch) kinds locked q)) q = []" by simp
  then have "r \<in> set q \<Longrightarrow> jr_id r \<notin> set (claim_ids now p (nat batch) kinds locked q)" for r
    by (simp add: filter_empty_conv)
  then show ?thesis using c by (simp add: map_idI)
qed

lemma claim_nothing_due:
  assumes "queue_ok q" and "claim now p worker batch kinds locked q = Some (q', [])" and "0 < batch" and "r \<in> set q"
    and "jr_id r \<notin> locked"
  shows "\<not> due now p kinds r"
proof -
  obtain taken left rest where t: "mset taken + mset left = mset (filter (\<lambda>r. due now p kinds r \<and> jr_id r \<notin> locked) q)"
    "length taken = min (nat batch) (length taken + length left)"
    "mset [] = mset (map (row_to_job \<circ> held_row now worker) taken)"
    using claim_spec [OF assms(1,2)] by auto
  have "taken = []" using t(3) by simp
  then have "left = []" using t(2) assms(3) by (auto simp: min_def split: if_splits)
  then have "filter (\<lambda>r. due now p kinds r \<and> jr_id r \<notin> locked) q = []" using t(1) \<open>taken = []\<close> by simp
  then show ?thesis using assms(4,5) by (auto simp: filter_empty_conv)
qed

lemma owed_work_filter: "owed_work p kinds (filter P q) \<le> owed_work p kinds q"
  by (induction q) auto

lemma complete_owed: "owed_work p kinds (fst (Store_Jobs.complete jobs w q)) \<le> owed_work p kinds q"
  by (simp add: Store_Jobs.complete_def owed_work_filter)

lemma owed_work_map: "(\<And>r. tries_left p kinds (f r) = tries_left p kinds r) \<Longrightarrow> owed_work p kinds (map f q) = owed_work p kinds q"
  by (simp add: owed_work_def comp_def)

lemma fail_owed [simp]: "owed_work p kinds (Store_Jobs.fail now j w e q) = owed_work p kinds q"
  unfolding Store_Jobs.fail_def Let_def by (rule owed_work_map) (auto simp: tries_left_def)

lemma enqueue_one:
  "enqueue now fresh p kind subj q = upsert_job now (queued_row now p subj (fresh 0, kind)) q"
  by (simp add: enqueue_def enqueue_all_def split: option.splits)

lemma owed_work_again:
  "distinct (map work_of q) \<Longrightarrow> (\<forall>r\<in>set q. 0 \<le> jr_attempts r) \<Longrightarrow>
   owed_work p kinds (map (\<lambda>r. if work_of r = x then requested_again now r else r) q) \<le> owed_work p kinds q + 8"
proof (induction q)
  case (Cons r q)
  show ?case
  proof (cases "work_of r = x")
    case True
    have "work_of y \<noteq> x" if "y \<in> set q" for y
      using Cons.prems(1) True that by (metis distinct.simps(2) image_eqI list.set_map list.simps(9))
    then have "map (\<lambda>r. if work_of r = x then requested_again now r else r) q = q"
      by (simp add: map_idI)
    moreover have "tries_left p kinds (requested_again now r) \<le> 8"
      by (simp add: tries_left_def requested_again_def MAX_ATTEMPTS_def)
    ultimately show ?thesis using True by simp
  qed (use Cons in auto)
qed simp

lemma enqueue_owed:
  assumes "queue_ok q" and "enqueue now fresh p kind subj q = Some q'"
  shows "owed_work p kinds q' \<le> owed_work p kinds q + 8"
proof -
  let ?new = "queued_row now p subj (fresh 0, kind)"
  have "tries_left p kinds ?new \<le> 8" by (simp add: tries_left_def queued_row_def MAX_ATTEMPTS_def)
  moreover have "distinct (map work_of q)" "\<forall>r\<in>set q. 0 \<le> jr_attempts r"
    using assms(1) by (auto simp: queue_ok_def row_ok_def)
  ultimately show ?thesis using assms(2) owed_work_again [of q p kinds]
    by (auto simp: enqueue_one upsert_job_def split: if_splits)
qed

lemma enqueue_one_cases:
  assumes "enqueue now fresh p kind subj q = Some q'"
  obtains "q' = map (\<lambda>r. if work_of r = (p, kind, subj) then requested_again now r else r) q"
    | "q' = q @ [queued_row now p subj (fresh 0, kind)]"
  using assms by (auto simp: enqueue_one upsert_job_def split: if_splits)

lemma enqueue_other_owed:
  assumes "kind \<notin> set kinds" and "enqueue now fresh p kind subj q = Some q'"
  shows "owed_work p kinds q' = owed_work p kinds q"
proof -
  have "tries_left p kinds (if work_of r = (p, kind, subj) then requested_again now r else r) = tries_left p kinds r" for r
    using assms(1) by (auto simp: tries_left_def work_of_def requested_again_def)
  note again = owed_work_map [of p kinds "\<lambda>r. if work_of r = (p, kind, subj) then requested_again now r else r", OF this]
  have new: "tries_left p kinds (queued_row now p subj (fresh 0, kind)) = 0"
    using assms(1) by (simp add: tries_left_def queued_row_def)
  from assms(2) show ?thesis by (cases rule: enqueue_one_cases) (simp_all only: again owed_work_simps new add_0_right)
qed

lemma enqueue_ok: "queue_ok q \<Longrightarrow> enqueue now fresh p kind subj q = Some q' \<Longrightarrow> queue_ok q'"
  unfolding enqueue_def by (rule enqueue_all_ok)

lemma enqueue_rows:
  assumes "enqueue now fresh p kind subj q = Some q'" and "r \<in> set q'"
  shows "r \<in> set q \<or> jr_kind r = kind \<and> jr_project r = p"
  using assms(1)
proof (cases rule: enqueue_one_cases)
  case 1
  then obtain y where "y \<in> set q" "r = (if work_of y = (p, kind, subj) then requested_again now y else y)"
    using assms(2) by auto
  then show ?thesis by (auto simp: work_of_def requested_again_def split: if_splits)
next
  case 2
  then show ?thesis using assms(2) by (auto simp: queued_row_def)
qed

lemma enqueue_ids: 
  assumes "enqueue now fresh p kind subj q = Some q'"
  shows "jr_id ` set q \<subseteq> jr_id ` set q'"
  using assms
proof (cases rule: enqueue_one_cases)
  case 1
  have "jr_id (if work_of r = (p, kind, subj) then requested_again now r else r) = jr_id r" for r by simp
  then show ?thesis unfolding 1 by (simp only: set_map image_image order_refl)
qed auto

section \<open>A round's parts\<close>

lemma tidy_up_facts:
  assumes "tidy_up ar k n q = Some q'"
  shows "queue_ok q \<Longrightarrow> queue_ok q'"
    and "queue_ok q \<Longrightarrow> owed_work (ar_project ar) kinds q' \<le> owed_work (ar_project ar) kinds q + 8"
    and "OptimizeIndex \<notin> set kinds \<Longrightarrow> owed_work (ar_project ar) kinds q' = owed_work (ar_project ar) kinds q"
    and "r \<in> set q' \<Longrightarrow> r \<in> set q \<or> jr_kind r = OptimizeIndex"
    and "jr_id ` set q \<subseteq> jr_id ` set q'"
  using assms unfolding tidy_up_def
  by (auto intro: enqueue_ok enqueue_owed enqueue_other_owed enqueue_ids [THEN subsetD] dest: enqueue_rows)

text \<open>Every flush of the durability list is one of these three.\<close>

lemma flush_cases:
  assumes "flush_what_is_applied wk ar d = (n, d')"
  obtains (idle) "dr_unflushed d = []" "n = Some 0" "d' = d"
    | (refused) e w where "dr_unflushed d \<noteq> []" "wk_flush wk (dr_world d) = (Some e, w)" "n = None"
        "d' = d\<lparr>dr_unflushed := [], dr_world := w\<rparr>"
    | (flushed) w q where "dr_unflushed d \<noteq> []" "wk_flush wk (dr_world d) = (None, w)"
        "n = Some (length (snd (Store_Jobs.complete (dr_unflushed d) (ar_worker ar) (dr_queue d))))"
        "d' = d\<lparr>dr_queue := q, dr_unflushed := [], dr_world := w\<rparr>"
        "q = fst (Store_Jobs.complete (dr_unflushed d) (ar_worker ar) (dr_queue d)) \<or>
         tidy_up ar (dr_round d) 0 (fst (Store_Jobs.complete (dr_unflushed d) (ar_worker ar) (dr_queue d))) = Some q"
proof (cases "dr_unflushed d = []")
  case True
  have "d\<lparr>dr_unflushed := []\<rparr> = d" using True by (cases d) simp
  then have "n = Some 0" "d' = d" using assms True by (auto simp: flush_what_is_applied_def)
  then show ?thesis by (rule idle [OF True])
next
  case False
  obtain x w where f: "wk_flush wk (dr_world d) = (x, w)" by fastforce
  obtain q c where c: "Store_Jobs.complete (dr_unflushed d) (ar_worker ar) (dr_queue d) = (q, c)" by fastforce
  show ?thesis
  proof (cases x)
    case None
    define q' where "q' = (if wk_wasteful wk w = Inr True
      then (case tidy_up ar (dr_round d) 0 q of None \<Rightarrow> q | Some q' \<Rightarrow> q') else q)"
    have "q' = q \<or> tidy_up ar (dr_round d) 0 q = Some q'" by (auto simp: q'_def split: option.splits)
    moreover have "n = Some (length c)" "d' = d\<lparr>dr_queue := q', dr_unflushed := [], dr_world := w\<rparr>"
      using assms False f None c unfolding q'_def [symmetric] by (cases d; auto simp: flush_what_is_applied_def Let_def q'_def)+
    ultimately show ?thesis using flushed [of w q'] False f None c by simp
  next
    case (Some e)
    then show ?thesis using refused [of e w] assms False f by (simp add: flush_what_is_applied_def Let_def)
  qed
qed

lemma flush_keeps:
  assumes "flush_what_is_applied wk ar d = (n, d')"
  shows "dr_unflushed d' = []" and "dr_status d' = dr_status d" and "dr_round d' = dr_round d"
    and "dr_tidied d' = dr_tidied d" and "dr_completed d' = dr_completed d" and "dr_failed d' = dr_failed d"
    and "queue_ok (dr_queue d) \<Longrightarrow> queue_ok (dr_queue d')"
    and "dr_unflushed d = [] \<Longrightarrow> d' = d \<and> n = Some 0"
  using assms by (cases rule: flush_cases; auto intro: complete_ok tidy_up_facts(1))+

lemma flush_rows:
  assumes "flush_what_is_applied wk ar d = (n, d')" and "r \<in> set (dr_queue d')"
  shows "r \<in> set (dr_queue d) \<or> jr_kind r = OptimizeIndex"
  using assms(1)
proof (cases rule: flush_cases)
  case (flushed w q)
  then show ?thesis using assms(2) tidy_up_facts(4) complete_rows by fastforce
qed (use assms(2) in auto)

lemma flush_owed:
  assumes "flush_what_is_applied wk ar d = (n, d')" and "queue_ok (dr_queue d)"
  shows "owed_work (ar_project ar) kinds (dr_queue d') \<le> owed_work (ar_project ar) kinds (dr_queue d)
           + (if OptimizeIndex \<in> set kinds \<and> dr_unflushed d \<noteq> [] then 8 else 0)"
  using assms(1)
proof (cases rule: flush_cases)
  case (flushed w q)
  let ?c = "fst (Store_Jobs.complete (dr_unflushed d) (ar_worker ar) (dr_queue d))"
  have c: "owed_work (ar_project ar) kinds ?c \<le> owed_work (ar_project ar) kinds (dr_queue d)" by (rule complete_owed)
  from flushed(5) show ?thesis
  proof
    assume "tidy_up ar (dr_round d) 0 ?c = Some q"
    note t = tidy_up_facts(2,3) [OF this]
    show ?thesis using t(1) [OF complete_ok [OF assms(2)], of kinds] t(2) [of kinds] c flushed(1,4) by auto
  qed (use c flushed(4) in simp)
qed auto

lemma record_failures_simps [simp]:
  "record_failures ar k [] q = q"
  "record_failures ar k ((j, r) # outcomes) q =
     record_failures ar k outcomes (case r of None \<Rightarrow> q | Some e \<Rightarrow> Store_Jobs.fail (ar_settle_at ar k) j (ar_worker ar) e q)"
  by (simp_all add: record_failures_def)

lemma record_failures_ok: "queue_ok q \<Longrightarrow> queue_ok (record_failures ar k outcomes q)"
proof (induction outcomes arbitrary: q)
  case (Cons x outcomes)
  then show ?case by (cases x) (auto split: option.split intro!: Cons.IH fail_ok)
qed simp

lemma record_failures_owed: "owed_work p kinds (record_failures ar k outcomes q) = owed_work p kinds q"
  by (induction outcomes arbitrary: q) (auto split: option.splits)

lemma map_keeps_ids: "(\<And>r. jr_id (f r) = jr_id r) \<Longrightarrow> jr_id ` set (map f q) = jr_id ` set q"
  by (simp add: image_image)

lemma fail_ids [simp]: "jr_id ` set (Store_Jobs.fail now j w e q) = jr_id ` set q"
  unfolding Store_Jobs.fail_def Let_def by (rule map_keeps_ids) simp

lemma record_failures_ids: "jr_id ` set (record_failures ar k outcomes q) = jr_id ` set q"
proof (induction outcomes arbitrary: q)
  case (Cons x outcomes)
  show ?case by (cases x) (simp only: record_failures_simps Cons.IH fail_ids split: option.split, simp)
qed simp

lemma settle_round_cases:
  assumes "settle_round wk ar outcomes d = d'"
  defines "q \<equiv> record_failures ar (dr_round d) outcomes (dr_queue d)"
  obtains (kept) "awaiting_durability d < AWAITING_DURABILITY"
      "d' = d\<lparr>dr_queue := fst (Store_Jobs.complete (done_jobs outcomes) (ar_worker ar) q),
        dr_completed := dr_completed d + length (snd (Store_Jobs.complete (done_jobs outcomes) (ar_worker ar) q)),
        dr_failed := dr_failed d + length (failed_outcomes outcomes) +
          (length (done_jobs outcomes) - length (snd (Store_Jobs.complete (done_jobs outcomes) (ar_worker ar) q)))\<rparr>"
    | (flushed) d1 d2 n where "AWAITING_DURABILITY \<le> awaiting_durability d"
      "dr_queue d1 = fst (Store_Jobs.complete (done_jobs outcomes) (ar_worker ar) q)" "dr_unflushed d1 = dr_unflushed d"
      "dr_world d1 = dr_world d" "dr_round d1 = dr_round d" "dr_tidied d1 = dr_tidied d" "dr_status d1 = dr_status d"
      "flush_what_is_applied wk ar d1 = (n, d2)" "dr_queue d' = dr_queue d2" "dr_unflushed d' = []"
      "dr_world d' = dr_world d2" "dr_round d' = dr_round d" "dr_tidied d' = dr_tidied d"
      "n = None \<and> dr_status d' = Errored \<or> dr_status d' = dr_status d"
proof (cases "AWAITING_DURABILITY \<le> awaiting_durability d")
  case False
  show ?thesis
    by (rule kept) (use False assms(1) in \<open>auto simp: settle_round_def Let_def awaiting_durability_def q_def split: prod.splits\<close>)
next
  case True
  let ?c = "Store_Jobs.complete (done_jobs outcomes) (ar_worker ar) q"
  let ?d1 = "d\<lparr>dr_queue := fst ?c, dr_completed := dr_completed d + length (snd ?c),
    dr_failed := dr_failed d + length (failed_outcomes outcomes)\<rparr>"
  obtain n d2 where f: "flush_what_is_applied wk ar ?d1 = (n, d2)" by fastforce
  note k = flush_keeps(1-4) [OF f]
  have "d' = (case n of None \<Rightarrow> d2\<lparr>dr_status := Errored\<rparr>
      | Some m \<Rightarrow> d2\<lparr>dr_completed := dr_completed d2 + m, dr_failed := dr_failed d + length (failed_outcomes outcomes) +
          (length (done_jobs outcomes) - length (snd ?c))\<rparr>)"
    using assms(1) True f by (cases ?c) (simp add: settle_round_def Let_def awaiting_durability_def q_def [symmetric] cong: option.case_cong)
  then show ?thesis using k by (intro flushed [OF True _ _ _ _ _ _ f]) (auto split: option.splits)
qed

lemma work_round_cases:
  assumes "work_round wk ar owed claimed d = d'"
  obtains (refused) w where "owed = Everything" "d' = d\<lparr>dr_world := w, dr_status := Errored\<rparr>"
    | (settled) outcomes d0 where "d' = settle_round wk ar outcomes d0" "dr_queue d0 = dr_queue d" "dr_round d0 = dr_round d"
        "dr_tidied d0 = dr_tidied d" "dr_status d0 = dr_status d" "dr_completed d0 = dr_completed d"
        "dr_failed d0 = dr_failed d" "owed = Everything \<Longrightarrow> dr_unflushed d0 = dr_unflushed d"
proof -
  obtain written w1 where s: "sync_indexes wk (filter (\<lambda>j. j_kind j = SyncTopicIndex) claimed) (dr_world d) = (written, w1)"
    by fastforce
  show ?thesis
  proof (cases owed)
    case Everything
    obtain x w2 where f: "(if done_jobs written \<noteq> [] then wk_flush wk w1 else (None, w1)) = (x, w2)" by fastforce
    obtain rs w3 where r: "run_reads wk (filter (\<lambda>j. j_kind j \<noteq> SyncTopicIndex) claimed) w2 = (rs, w3)" by fastforce
    show ?thesis
    proof (cases x)
      case None
      have "d' = settle_round wk ar (written @ rs) (d\<lparr>dr_world := w3\<rparr>)"
        using assms s f r None Everything by (simp add: work_round_def Let_def)
      then show ?thesis by (rule settled) simp_all
    next
      case (Some e)
      then have "d' = d\<lparr>dr_world := w2, dr_status := Errored\<rparr>"
        using assms s f Everything by (simp add: work_round_def Let_def)
      then show ?thesis by (rule refused [OF Everything])
    qed
  next
    case WhatAMemoryNeeds
    obtain rs w3 where r: "run_reads wk (filter (\<lambda>j. j_kind j \<noteq> SyncTopicIndex) claimed) w1 = (rs, w3)" by fastforce
    have "d' = settle_round wk ar (failed_outcomes written @ rs)
        (d\<lparr>dr_world := w3, dr_unflushed := dr_unflushed d @ done_jobs written\<rparr>)"
      using assms s r WhatAMemoryNeeds by (simp add: work_round_def Let_def)
    then show ?thesis by (rule settled) (simp_all add: WhatAMemoryNeeds)
  qed
qed

lemma settle_keeps:
  fixes d :: "'w drain"
  assumes "settle_round wk ar outcomes d = d'"
  shows "queue_ok (dr_queue d) \<Longrightarrow> queue_ok (dr_queue d')"
    and "dr_status d' = dr_status d \<or> dr_status d' = Errored"
    and "dr_round d' = dr_round d" and "dr_tidied d' = dr_tidied d"
    and "dr_unflushed d' = [] \<or> dr_unflushed d' = dr_unflushed d"
proof -
  have 1: "(queue_ok (dr_queue d) \<longrightarrow> queue_ok (dr_queue d')) \<and> (dr_status d' = dr_status d \<or> dr_status d' = Errored) \<and>
    dr_round d' = dr_round d \<and> dr_tidied d' = dr_tidied d \<and> (dr_unflushed d' = [] \<or> dr_unflushed d' = dr_unflushed d)"
    using assms
  proof (cases rule: settle_round_cases)
    case kept
    then show ?thesis by (auto intro!: complete_ok record_failures_ok)
  next
    case (flushed d1 d2 n)
    have "queue_ok (dr_queue d) \<longrightarrow> queue_ok (dr_queue d')"
      unfolding flushed(9) using flush_keeps(7) [OF flushed(8)] flushed(2) by (auto intro!: complete_ok record_failures_ok)
    with flushed show ?thesis by auto
  qed
  then show "queue_ok (dr_queue d) \<Longrightarrow> queue_ok (dr_queue d')" "dr_status d' = dr_status d \<or> dr_status d' = Errored"
    "dr_round d' = dr_round d" "dr_tidied d' = dr_tidied d" "dr_unflushed d' = [] \<or> dr_unflushed d' = dr_unflushed d"
    by simp_all
qed

lemma settle_owed:
  fixes d :: "'w drain"
  assumes "settle_round wk ar outcomes d = d'" and "queue_ok (dr_queue d)"
  shows "owed_work (ar_project ar) kinds (dr_queue d') \<le> owed_work (ar_project ar) kinds (dr_queue d)
    + (if OptimizeIndex \<in> set kinds \<and> dr_unflushed d \<noteq> [] \<and> dr_unflushed d' = [] then 8 else 0)"
proof -
  let ?c = "fst (Store_Jobs.complete (done_jobs outcomes) (ar_worker ar) (record_failures ar (dr_round d) outcomes (dr_queue d)))"
  have c: "owed_work (ar_project ar) kinds ?c \<le> owed_work (ar_project ar) kinds (dr_queue d)"
    using complete_owed record_failures_owed by metis
  have ok: "queue_ok ?c" by (intro complete_ok record_failures_ok assms(2))
  from assms(1) show ?thesis
  proof (cases rule: settle_round_cases)
    case (flushed d1 d2 n)
    from flush_owed [OF flushed(8), of kinds] ok c flushed(2,3,9,10) show ?thesis by auto
  qed (use c in simp)
qed

section \<open>A drain for one memory ends\<close>

definition calm :: "around \<Rightarrow> job_kind list \<Rightarrow> bool" where
  "calm ar kinds \<longleftrightarrow> (\<forall>k q. queue_ok q \<longrightarrow> queue_ok (ar_others ar k q) \<and>
     owed_work (ar_project ar) kinds (ar_others ar k q) \<le> owed_work (ar_project ar) kinds q)"

lemma turn_round [simp]: "dr_round (turn wk ar owed d) = dr_round d + 1"
  by (simp add: turn_def Let_def)

lemma work_round_pays:
  fixes d :: "'w drain"
  assumes "work_round wk ar owed claimed d = d'" and "queue_ok (dr_queue d)"
  shows "queue_ok (dr_queue d')" and "dr_status d' = dr_status d \<or> dr_status d' = Errored"
    and "OptimizeIndex \<notin> set kinds \<Longrightarrow> owed_work (ar_project ar) kinds (dr_queue d') \<le> owed_work (ar_project ar) kinds (dr_queue d)"
    and "owed = Everything \<Longrightarrow> owed_work (ar_project ar) kinds (dr_queue d') + (if dr_unflushed d' = [] then 0 else 18)
       \<le> owed_work (ar_project ar) kinds (dr_queue d) + (if dr_unflushed d = [] then 0 else 18)"
    and "dr_tidied d' = dr_tidied d"
proof -
  have 1: "queue_ok (dr_queue d') \<and> (dr_status d' = dr_status d \<or> dr_status d' = Errored) \<and>
    (OptimizeIndex \<notin> set kinds \<longrightarrow> owed_work (ar_project ar) kinds (dr_queue d') \<le> owed_work (ar_project ar) kinds (dr_queue d)) \<and>
    (owed = Everything \<longrightarrow> owed_work (ar_project ar) kinds (dr_queue d') + (if dr_unflushed d' = [] then 0 else 18)
       \<le> owed_work (ar_project ar) kinds (dr_queue d) + (if dr_unflushed d = [] then 0 else 18)) \<and> dr_tidied d' = dr_tidied d"
    using assms(1)
  proof (cases rule: work_round_cases)
    case (refused w)
    then show ?thesis using assms(2) by simp
  next
    case (settled outcomes d0)
    have ok: "queue_ok (dr_queue d0)" using assms(2) settled(2) by simp
    note k = settle_keeps [OF settled(1) [symmetric]] and o = settle_owed [OF settled(1) [symmetric] ok, of kinds]
    show ?thesis
    proof (intro conjI impI)
      show "queue_ok (dr_queue d')" by (rule k(1) [OF ok])
      show "dr_status d' = dr_status d \<or> dr_status d' = Errored" using k(2) settled(5) by simp
      show "dr_tidied d' = dr_tidied d" using k(4) settled(4) by simp
    next
      assume "OptimizeIndex \<notin> set kinds"
      then show "owed_work (ar_project ar) kinds (dr_queue d') \<le> owed_work (ar_project ar) kinds (dr_queue d)"
        using o settled(2) by simp
    next
      assume "owed = Everything"
      then have "dr_unflushed d0 = dr_unflushed d" by (rule settled(8))
      then show "owed_work (ar_project ar) kinds (dr_queue d') + (if dr_unflushed d' = [] then 0 else 18)
       \<le> owed_work (ar_project ar) kinds (dr_queue d) + (if dr_unflushed d = [] then 0 else 18)"
        using o k(5) settled(2) by (auto split: if_splits)
    qed
  qed
  then show "queue_ok (dr_queue d')" "dr_status d' = dr_status d \<or> dr_status d' = Errored" "dr_tidied d' = dr_tidied d"
    by simp_all
  show "OptimizeIndex \<notin> set kinds \<Longrightarrow> owed_work (ar_project ar) kinds (dr_queue d') \<le> owed_work (ar_project ar) kinds (dr_queue d)"
    "owed = Everything \<Longrightarrow> owed_work (ar_project ar) kinds (dr_queue d') + (if dr_unflushed d' = [] then 0 else 18)
       \<le> owed_work (ar_project ar) kinds (dr_queue d) + (if dr_unflushed d = [] then 0 else 18)"
    using 1 by blast+
qed

lemma nothing_due_needs:
  assumes "nothing_due wk ar WhatAMemoryNeeds d = d'"
  shows "dr_status d' \<noteq> Running" and "queue_ok (dr_queue d) \<Longrightarrow> queue_ok (dr_queue d')"
    and "r \<in> set (dr_queue d') \<Longrightarrow> r \<in> set (dr_queue d) \<or> jr_kind r = OptimizeIndex"
    and "owed_work (ar_project ar) URGENT (dr_queue d') = owed_work (ar_project ar) URGENT (dr_queue d)"
proof -
  have "dr_status d' \<noteq> Running \<and> (queue_ok (dr_queue d) \<longrightarrow> queue_ok (dr_queue d')) \<and>
     (\<forall>r\<in>set (dr_queue d'). r \<in> set (dr_queue d) \<or> jr_kind r = OptimizeIndex) \<and>
     owed_work (ar_project ar) URGENT (dr_queue d') = owed_work (ar_project ar) URGENT (dr_queue d)"
    using assms
    by (auto dest: tidy_up_facts(4) intro: tidy_up_facts(1) tidy_up_facts(3) simp: URGENT_def nothing_due_def flush_the_rest_def still_in_flight_def Let_def split: sum.splits bool.splits option.splits)
  then show "dr_status d' \<noteq> Running" "queue_ok (dr_queue d) \<Longrightarrow> queue_ok (dr_queue d')"
    "r \<in> set (dr_queue d') \<Longrightarrow> r \<in> set (dr_queue d) \<or> jr_kind r = OptimizeIndex"
    "owed_work (ar_project ar) URGENT (dr_queue d') = owed_work (ar_project ar) URGENT (dr_queue d)" by blast+
qed


text \<open>One turn of a drain that owes what a memory needs: either it is the last, or urgent work was paid.\<close>

lemma turn_needs:
  assumes "calm ar URGENT" and "queue_ok (dr_queue d)" and "dr_status d = Running"
    and "turn wk ar WhatAMemoryNeeds d = d'"
  shows "queue_ok (dr_queue d')"
    and "owed_work (ar_project ar) URGENT (dr_queue d') \<le> owed_work (ar_project ar) URGENT (dr_queue d)"
    and "dr_status d' = Running \<Longrightarrow>
      owed_work (ar_project ar) URGENT (dr_queue d') < owed_work (ar_project ar) URGENT (dr_queue d)"
    and "dr_status d' = Ended \<Longrightarrow> ar_another ar (dr_round d) \<Longrightarrow> 0 < ar_batch ar \<Longrightarrow> r \<in> set (dr_queue d') \<Longrightarrow>
      jr_id r \<notin> ar_locked ar (dr_round d) \<Longrightarrow> \<not> due (ar_claim_at ar (dr_round d)) (ar_project ar) URGENT r"
proof -
  let ?o = "owed_work (ar_project ar) URGENT"
  let ?q = "ar_others ar (dr_round d) (dr_queue d)"
  have q: "queue_ok ?q" "?o ?q \<le> ?o (dr_queue d)" using assms(1,2) by (auto simp: calm_def)
  define d1 where "d1 = turn_body wk ar WhatAMemoryNeeds (d\<lparr>dr_queue := ?q\<rparr>)"
  have d': "d' = d1\<lparr>dr_round := dr_round d + 1\<rparr>" using assms(4) by (simp add: turn_def d1_def)
  have "queue_ok (dr_queue d1) \<and> ?o (dr_queue d1) \<le> ?o (dr_queue d) \<and>
    (dr_status d1 = Running \<longrightarrow> ?o (dr_queue d1) < ?o (dr_queue d)) \<and>
    (dr_status d1 = Ended \<longrightarrow> ar_another ar (dr_round d) \<longrightarrow> 0 < ar_batch ar \<longrightarrow> (\<forall>r\<in>set (dr_queue d1).
      jr_id r \<notin> ar_locked ar (dr_round d) \<longrightarrow> \<not> due (ar_claim_at ar (dr_round d)) (ar_project ar) URGENT r))"
  proof (cases "ar_another ar (dr_round d)")
    case False
    then show ?thesis using q by (simp add: d1_def turn_body_def)
  next
    case True
    let ?claim = "claim (ar_claim_at ar (dr_round d)) (ar_project ar) (ar_worker ar) (ar_batch ar) URGENT (ar_locked ar (dr_round d)) ?q"
    show ?thesis
    proof (cases ?claim)
      case None
      then show ?thesis using q True by (simp add: d1_def turn_body_def)
    next
      case (Some x)
      then obtain q1 claimed where c: "?claim = Some (q1, claimed)" by (cases x) auto
      note pays = claim_pays [OF q(1) c] and ok = claim_ok [OF q(1) c]
      show ?thesis
      proof (cases "claimed = []")
        case True': True
        have "d1 = nothing_due wk ar WhatAMemoryNeeds (d\<lparr>dr_queue := q1\<rparr>)"
          using c True True' by (simp add: d1_def turn_body_def)
        note n = nothing_due_needs [OF this [symmetric]]
        have "\<not> due (ar_claim_at ar (dr_round d)) (ar_project ar) URGENT r"
          if "0 < ar_batch ar" "r \<in> set (dr_queue d1)" "jr_id r \<notin> ar_locked ar (dr_round d)" for r
          using n(3) [OF that(2)] claim_nothing_due [OF q(1), of _ _ _ _ _ _ q1, OF c [unfolded True'] that(1) _ that(3)]
            claim_nothing [OF q(1) c [unfolded True']]
          by (auto simp: due_def URGENT_def)
        then show ?thesis using n(1,2,4) ok pays q(2) True' by simp
      next
        case False
        have "work_round wk ar WhatAMemoryNeeds claimed (d\<lparr>dr_queue := q1\<rparr>) = d1"
          using c True False by (simp add: d1_def turn_body_def)
        note w = work_round_pays [OF this]
        have "?o (dr_queue d1) \<le> ?o q1" using w(3) ok by (simp add: URGENT_def)
        moreover obtain n where "length claimed = Suc n" using False by (cases claimed) auto
        ultimately show ?thesis using w(1,2) ok pays q(2) assms(3) by auto
      qed
    qed
  qed
  then show "queue_ok (dr_queue d')" "?o (dr_queue d') \<le> ?o (dr_queue d)"
    "dr_status d' = Running \<Longrightarrow> ?o (dr_queue d') < ?o (dr_queue d)"
    "dr_status d' = Ended \<Longrightarrow> ar_another ar (dr_round d) \<Longrightarrow> 0 < ar_batch ar \<Longrightarrow> r \<in> set (dr_queue d') \<Longrightarrow>
      jr_id r \<notin> ar_locked ar (dr_round d) \<Longrightarrow> \<not> due (ar_claim_at ar (dr_round d)) (ar_project ar) URGENT r"
    by (auto simp: d')
qed


lemma drain_needs_ends:
  assumes "calm ar URGENT" and "queue_ok (dr_queue d)"
  shows "\<exists>d'. drain_cascade_while wk ar WhatAMemoryNeeds d = Some d'"
  unfolding drain_cascade_while_def
proof (rule measure_while_option_Some)
  let ?f = "\<lambda>d. owed_work (ar_project ar) URGENT (dr_queue d) + (if dr_status d = Running then 1 else 0)"
  show "queue_ok (dr_queue d)" by (rule assms(2))
  fix d :: "'a drain"
  assume d: "queue_ok (dr_queue d)" "dr_status d = Running"
  note t = turn_needs(1-3) [OF assms(1) d refl, of wk]
  have "?f (turn wk ar WhatAMemoryNeeds d) < ?f d"
    using t(2,3) d(2) by (cases "dr_status (turn wk ar WhatAMemoryNeeds d) = Running") simp_all
  with t(1) show "queue_ok (dr_queue (turn wk ar WhatAMemoryNeeds d)) \<and> ?f (turn wk ar WhatAMemoryNeeds d) < ?f d" by (rule conjI)
qed

definition nothing_left :: "around \<Rightarrow> job_kind list \<Rightarrow> nat \<Rightarrow> queue \<Rightarrow> bool" where
  "nothing_left ar kinds k q \<longleftrightarrow> (\<forall>r\<in>set q. jr_id r \<notin> ar_locked ar k \<longrightarrow> \<not> due (ar_claim_at ar k) (ar_project ar) kinds r)"

lemma drain_needs_left:
  assumes "calm ar URGENT" and "queue_ok q" and "0 < ar_batch ar" and "\<forall>k. ar_another ar k"
    and "drain_cascade_while wk ar WhatAMemoryNeeds (start_drain q unflushed w) = Some d'"
  shows "dr_round d' + owed_work (ar_project ar) URGENT (dr_queue d') \<le> 1 + owed_work (ar_project ar) URGENT q"
    and "dr_status d' \<noteq> Running" and "queue_ok (dr_queue d')"
    and "dr_status d' = Ended \<Longrightarrow> nothing_left ar URGENT (dr_round d' - 1) (dr_queue d')"
proof -
  let ?P = "\<lambda>d. queue_ok (dr_queue d) \<and> (dr_status d = Ended \<longrightarrow> nothing_left ar URGENT (dr_round d - 1) (dr_queue d)) \<and>
     dr_round d + owed_work (ar_project ar) URGENT (dr_queue d) \<le> owed_work (ar_project ar) URGENT q + (if dr_status d = Running then 0 else 1)"
  have step: "?P (turn wk ar WhatAMemoryNeeds d)" if "?P d" "dr_status d = Running" for d :: "'a drain"
    using turn_needs [OF assms(1) _ that(2) refl, of wk] that assms(3,4) by (auto simp: nothing_left_def; linarith)
  have "?P d'"
    by (rule while_option_rule [where P = ?P, OF step assms(5) [unfolded drain_cascade_while_def]])
      (use assms(2) in \<open>auto simp: start_drain_def\<close>)
  moreover show "dr_status d' \<noteq> Running"
    using while_option_stop [OF assms(5) [unfolded drain_cascade_while_def]] by simp
  ultimately show "dr_round d' + owed_work (ar_project ar) URGENT (dr_queue d') \<le> 1 + owed_work (ar_project ar) URGENT q"
    "queue_ok (dr_queue d')" "dr_status d' = Ended \<Longrightarrow> nothing_left ar URGENT (dr_round d' - 1) (dr_queue d')"
    by auto
qed

section \<open>A drain of everything ends\<close>

definition burden :: "around \<Rightarrow> 'w drain \<Rightarrow> nat" where
  "burden ar d = owed_work (ar_project ar) job_kinds (dr_queue d) + (if dr_tidied d then 0 else 9) + (if dr_unflushed d = [] then 0 else 18)"

lemma flush_the_rest_everything:
  assumes "flush_the_rest wk ar Everything d = Some d1" and "queue_ok (dr_queue d)"
  shows "queue_ok (dr_queue d1)" and "dr_unflushed d1 = []" and "dr_status d1 = dr_status d" and "dr_round d1 = dr_round d"
    and "burden ar d1 \<le> burden ar d" and "burden ar d1 = burden ar d \<Longrightarrow> dr_queue d1 = dr_queue d"
proof -
  obtain n df where f: "flush_what_is_applied wk ar d = (n, df)" by fastforce
  then obtain m where m: "n = Some m" "d1 = df\<lparr>dr_completed := dr_completed df + m, dr_tidied := (dr_tidied df \<and> m = 0)\<rparr>"
    using assms(1) by (auto simp: flush_the_rest_def split: option.splits)
  note k = flush_keeps [OF f] and o = flush_owed [OF f assms(2), of job_kinds]
  show "queue_ok (dr_queue d1)" "dr_unflushed d1 = []" "dr_status d1 = dr_status d" "dr_round d1 = dr_round d"
    using m k(1-3) k(7) [OF assms(2)] by simp_all
  have "burden ar d1 < burden ar d" if "dr_unflushed d \<noteq> []"
    using that o k(1,4) m by (auto simp: burden_def split: if_splits)
  moreover have "burden ar d1 = burden ar d \<and> dr_queue d1 = dr_queue d" if "dr_unflushed d = []"
    using k(8) [OF that] m by (simp add: burden_def)
  ultimately show "burden ar d1 \<le> burden ar d" "burden ar d1 = burden ar d \<Longrightarrow> dr_queue d1 = dr_queue d"
    by (cases "dr_unflushed d = []"; fastforce)+
qed

lemma wants_tidying_untidied: "wants_tidying wk d = Inr True \<Longrightarrow> \<not> dr_tidied d"
  by (auto simp: wants_tidying_def split: if_splits)

lemma nothing_due_everything:
  assumes "nothing_due wk ar Everything d = d'" and "queue_ok (dr_queue d)"
  shows "queue_ok (dr_queue d')"
    and "dr_status d' = Running \<Longrightarrow> burden ar d' < burden ar d \<or>
      burden ar d' = burden ar d \<and> dr_queue d' = dr_queue d \<and> any_in_flight (ar_settle_at ar (dr_round d)) (ar_project ar) (dr_queue d)"
    and "dr_status d = Running \<Longrightarrow> dr_status d' = Ended \<Longrightarrow>
      dr_unflushed d' = [] \<and> \<not> any_in_flight (ar_settle_at ar (dr_round d)) (ar_project ar) (dr_queue d')"
proof -
  have "queue_ok (dr_queue d') \<and> (dr_status d' = Running \<longrightarrow> burden ar d' < burden ar d \<or>
      burden ar d' = burden ar d \<and> dr_queue d' = dr_queue d \<and> any_in_flight (ar_settle_at ar (dr_round d)) (ar_project ar) (dr_queue d)) \<and>
    (dr_status d = Running \<longrightarrow> dr_status d' = Ended \<longrightarrow>
      dr_unflushed d' = [] \<and> \<not> any_in_flight (ar_settle_at ar (dr_round d)) (ar_project ar) (dr_queue d'))"
  proof (cases "flush_the_rest wk ar Everything d")
    case None
    obtain n df where f: "flush_what_is_applied wk ar d = (n, df)" by fastforce
    show ?thesis using assms None f flush_keeps(7) [OF f assms(2)] by (simp add: nothing_due_def) auto
  next
    case (Some d1)
    note r = flush_the_rest_everything [OF Some assms(2)]
    show ?thesis
    proof (cases "wants_tidying wk d1")
      case (Inl e)
      then show ?thesis using assms Some r(1) by (simp add: nothing_due_def) auto
    next
      case (Inr tidy)
      show ?thesis
      proof (cases tidy)
        case False
        then have "d' = (if still_in_flight ar Everything d1 then d1 else d1\<lparr>dr_status := Ended\<rparr>)"
          using assms Some Inr by (simp add: nothing_due_def)
        then show ?thesis using r by (auto simp: still_in_flight_def)
      next
        case True
        then have u: "\<not> dr_tidied d1" using Inr wants_tidying_untidied by simp
        show ?thesis
        proof (cases "tidy_up ar (dr_round d) 1 (dr_queue d1)")
          case None
          then show ?thesis using assms Some Inr True r(1) by (simp add: nothing_due_def Let_def) auto
        next
          case (Some q)
          have d': "d' = d1\<lparr>dr_tidied := True, dr_queue := q\<rparr>"
            using assms \<open>flush_the_rest wk ar Everything d = Some d1\<close> Inr True Some by (simp add: nothing_due_def Let_def)
          have "burden ar d' < burden ar d1" using tidy_up_facts(2) [OF Some r(1), of job_kinds] u r(2) d'
            by (simp add: burden_def)
          then show ?thesis using tidy_up_facts(1) [OF Some r(1)] r d' by auto
        qed
      qed
    qed
  qed
  then show "queue_ok (dr_queue d')" "dr_status d' = Running \<Longrightarrow> burden ar d' < burden ar d \<or>
      burden ar d' = burden ar d \<and> dr_queue d' = dr_queue d \<and> any_in_flight (ar_settle_at ar (dr_round d)) (ar_project ar) (dr_queue d)"
    "dr_status d = Running \<Longrightarrow> dr_status d' = Ended \<Longrightarrow>
      dr_unflushed d' = [] \<and> \<not> any_in_flight (ar_settle_at ar (dr_round d)) (ar_project ar) (dr_queue d')"
    by simp_all
qed

definition alone :: "around \<Rightarrow> bool" where
  "alone ar \<longleftrightarrow> (\<forall>k q. ar_others ar k q = q) \<and> (\<forall>k. ar_locked ar k = {}) \<and>
     (\<forall>k. ar_claim_at ar k \<le> ar_settle_at ar k) \<and> (\<forall>t. \<exists>K. \<forall>k\<ge>K. t \<le> ar_claim_at ar k)"

lemma turn_everything:
  assumes "alone ar" and "0 < ar_batch ar" and "\<forall>k. ar_another ar k" and "queue_ok (dr_queue d)" and "dr_status d = Running"
    and "turn wk ar Everything d = d'"
  shows "queue_ok (dr_queue d')"
    and "dr_status d' = Running \<Longrightarrow> burden ar d' < burden ar d \<or>
      burden ar d' = burden ar d \<and> dr_queue d' = dr_queue d \<and> any_in_flight (ar_settle_at ar (dr_round d)) (ar_project ar) (dr_queue d) \<and>
      (\<forall>r\<in>set (dr_queue d). \<not> due (ar_claim_at ar (dr_round d)) (ar_project ar) job_kinds r)"
    and "dr_status d' = Ended \<Longrightarrow>
      dr_unflushed d' = [] \<and> \<not> any_in_flight (ar_settle_at ar (dr_round d' - 1)) (ar_project ar) (dr_queue d')"
proof -
  define d1 where "d1 = turn_body wk ar Everything d"
  have d': "d' = d1\<lparr>dr_round := dr_round d + 1\<rparr>"
    using assms(1,6) by (simp add: turn_def d1_def alone_def)
  let ?claim = "claim (ar_claim_at ar (dr_round d)) (ar_project ar) (ar_worker ar) (ar_batch ar) job_kinds {} (dr_queue d)"
  let ?now = "ar_settle_at ar (dr_round d)"
  have tb: "d1 = (case ?claim of None \<Rightarrow> d\<lparr>dr_status := Errored\<rparr> | Some (q, claimed) \<Rightarrow>
      if claimed = [] then nothing_due wk ar Everything (d\<lparr>dr_queue := q\<rparr>)
      else work_round wk ar Everything claimed (d\<lparr>dr_queue := q\<rparr>))"
    using assms(1,3) by (simp add: d1_def turn_body_def alone_def)
  obtain q1 claimed where c: "?claim = Some (q1, claimed)" using assms(2) by (auto simp: claim_def Let_def)
  note pays = claim_pays [OF assms(4) c] and ok = claim_ok [OF assms(4) c]
  have bd: "burden ar (d1\<lparr>dr_round := k\<rparr>) = burden ar d1" for k by (simp add: burden_def)
  have "queue_ok (dr_queue d1) \<and> (dr_status d1 = Running \<longrightarrow> burden ar d1 < burden ar d \<or>
      burden ar d1 = burden ar d \<and> dr_queue d1 = dr_queue d \<and> any_in_flight ?now (ar_project ar) (dr_queue d) \<and>
      (\<forall>r\<in>set (dr_queue d). \<not> due (ar_claim_at ar (dr_round d)) (ar_project ar) job_kinds r)) \<and>
    (dr_status d1 = Ended \<longrightarrow> dr_unflushed d1 = [] \<and> \<not> any_in_flight ?now (ar_project ar) (dr_queue d1))"
  proof (cases "claimed = []")
    case True
    have q1: "q1 = dr_queue d" by (rule claim_nothing [OF assms(4) c [unfolded True]])
    have due: "\<forall>r\<in>set (dr_queue d). \<not> due (ar_claim_at ar (dr_round d)) (ar_project ar) job_kinds r"
      using claim_nothing_due [OF assms(4) c [unfolded True] assms(2)] by simp
    have "nothing_due wk ar Everything d = d1" unfolding tb c using True q1 by simp
    from nothing_due_everything [OF this assms(4)] due assms(5) show ?thesis by blast
  next
    case False
    have "work_round wk ar Everything claimed (d\<lparr>dr_queue := q1\<rparr>) = d1" unfolding tb c using False by simp
    note w = work_round_pays [OF this]
    obtain n where n: "length claimed = Suc n" using False by (cases claimed) auto
    have st: "dr_status d1 \<noteq> Ended" using w(2) ok assms(5) by auto
    have "burden ar d1 < burden ar d"
      using w(4) [of job_kinds] w(5) ok pays n by (simp add: burden_def)
    then show ?thesis using w(1) ok st by simp
  qed
  then show "queue_ok (dr_queue d')" "dr_status d' = Running \<Longrightarrow> burden ar d' < burden ar d \<or>
      burden ar d' = burden ar d \<and> dr_queue d' = dr_queue d \<and> any_in_flight (ar_settle_at ar (dr_round d)) (ar_project ar) (dr_queue d) \<and>
      (\<forall>r\<in>set (dr_queue d). \<not> due (ar_claim_at ar (dr_round d)) (ar_project ar) job_kinds r)"
    "dr_status d' = Ended \<Longrightarrow>
      dr_unflushed d' = [] \<and> \<not> any_in_flight (ar_settle_at ar (dr_round d' - 1)) (ar_project ar) (dr_queue d')"
    unfolding d' bd by auto
qed

text \<open>From this turn on, the clock is past every time the queue waits for.\<close>

definition clear_at :: "around \<Rightarrow> queue \<Rightarrow> nat \<Rightarrow> bool" where
  "clear_at ar q K \<longleftrightarrow> (\<forall>k\<ge>K. \<forall>r\<in>set q. jr_available_at r \<le> ar_claim_at ar k)"

lemma clear_some: "alone ar \<Longrightarrow> \<exists>K. clear_at ar q K"
proof (induction q)
  case (Cons r q)
  then obtain K where K: "clear_at ar q K" by blast
  obtain K' where "\<forall>k\<ge>K'. jr_available_at r \<le> ar_claim_at ar k" using Cons.prems unfolding alone_def by meson
  with K show ?case by (intro exI [of _ "max K K'"]) (auto simp: clear_at_def)
next
  case Nil
  show ?case by (rule exI [of _ 0]) (simp add: clear_at_def)
qed

lemma not_waiting_when_clear:
  assumes "alone ar" and "queue_ok q" and "clear_at ar q K" and "K \<le> k" and "any_in_flight (ar_settle_at ar k) (ar_project ar) q"
  shows "\<exists>r\<in>set q. due (ar_claim_at ar k) (ar_project ar) job_kinds r"
proof -
  have a: "jr_available_at r \<le> ar_claim_at ar k" "\<not> ar_settle_at ar k < jr_available_at r" if "r \<in> set q" for r
  proof -
    show "jr_available_at r \<le> ar_claim_at ar k" using assms(3,4) that by (simp add: clear_at_def)
    also have "\<dots> \<le> ar_settle_at ar k" using assms(1) by (simp add: alone_def)
    finally show "\<not> ar_settle_at ar k < jr_available_at r" by simp
  qed
  then obtain r where r: "r \<in> set q" "due (ar_settle_at ar k) (ar_project ar) job_kinds r"
    using assms(5) unfolding any_in_flight_iff [OF assms(2)] by blast
  then show ?thesis using a(1) [OF r(1)] by (intro bexI [OF _ r(1)]) (simp add: due_def)
qed


lemma drain_everything_ends:
  fixes d :: "'w drain"
  assumes "alone ar" and "0 < ar_batch ar" and "\<forall>k. ar_another ar k" and "queue_ok (dr_queue d)"
  shows "\<exists>d'. drain_cascade_while wk ar Everything d = Some d'"
  unfolding drain_cascade_while_def
proof (rule wf_rel_while_option_Some [where P = "\<lambda>d. queue_ok (dr_queue d)"])
  let ?wait = "\<lambda>d. (LEAST K. clear_at ar (dr_queue d) K) - dr_round d"
  let ?R = "measures [\<lambda>d. if dr_status d = Running then 1 else 0, burden ar, ?wait]"
  show "wf ?R" by simp
  show "queue_ok (dr_queue d)" by (rule assms(4))
  fix d :: "'w drain"
  assume d: "queue_ok (dr_queue d) \<and> dr_status d = Running"
  note t = turn_everything [OF assms(1-3) conjunct1 [OF d] conjunct2 [OF d] refl, of wk]
  show "queue_ok (dr_queue (turn wk ar Everything d))" by (rule t(1))
  show "(turn wk ar Everything d, d) \<in> ?R"
  proof (cases "dr_status (turn wk ar Everything d) = Running")
    case False
    then show ?thesis using d by simp
  next
    case True
    show ?thesis
    proof (cases "burden ar (turn wk ar Everything d) < burden ar d")
      case True
      then show ?thesis using \<open>dr_status (turn wk ar Everything d) = Running\<close> d by simp
    next
      case False
      with t(2) [OF True] have same: "burden ar (turn wk ar Everything d) = burden ar d"
        "dr_queue (turn wk ar Everything d) = dr_queue d"
        "any_in_flight (ar_settle_at ar (dr_round d)) (ar_project ar) (dr_queue d)"
        "\<forall>r\<in>set (dr_queue d). \<not> due (ar_claim_at ar (dr_round d)) (ar_project ar) job_kinds r" by blast+
      have "clear_at ar (dr_queue d) (LEAST K. clear_at ar (dr_queue d) K)" by (rule LeastI_ex [OF clear_some [OF assms(1)]])
      then have "dr_round d < (LEAST K. clear_at ar (dr_queue d) K)"
        using not_waiting_when_clear [OF assms(1) conjunct1 [OF d] _ _ same(3)] same(4) by (meson not_le)
      then show ?thesis using same(1,2) True d by simp
    qed
  qed
qed


lemma drain_everything_left:
  fixes w :: 'w
  assumes "alone ar" and "0 < ar_batch ar" and "\<forall>k. ar_another ar k" and "queue_ok q"
    and "drain_cascade_while wk ar Everything (start_drain q unflushed w) = Some d'"
  shows "dr_status d' \<noteq> Running" and "queue_ok (dr_queue d')"
    and "dr_status d' = Ended \<Longrightarrow>
      dr_unflushed d' = [] \<and> \<not> any_in_flight (ar_settle_at ar (dr_round d' - 1)) (ar_project ar) (dr_queue d')"
proof -
  let ?P = "\<lambda>d. queue_ok (dr_queue d) \<and> (dr_status d = Ended \<longrightarrow>
     dr_unflushed d = [] \<and> \<not> any_in_flight (ar_settle_at ar (dr_round d - 1)) (ar_project ar) (dr_queue d))"
  have step: "?P (turn wk ar Everything d)" if "?P d" "dr_status d = Running" for d :: "'w drain"
    using turn_everything(1,3) [OF assms(1-3) conjunct1 [OF that(1)] that(2) refl, of wk] by blast
  have "?P d'"
    by (rule while_option_rule [where P = ?P, OF step assms(5) [unfolded drain_cascade_while_def]])
      (use assms(4) in \<open>auto simp: start_drain_def\<close>)
  then show "queue_ok (dr_queue d')" "dr_status d' = Ended \<Longrightarrow>
      dr_unflushed d' = [] \<and> \<not> any_in_flight (ar_settle_at ar (dr_round d' - 1)) (ar_project ar) (dr_queue d')" by simp_all
  show "dr_status d' \<noteq> Running"
    using while_option_stop [OF assms(5) [unfolded drain_cascade_while_def]] by simp
qed

section \<open>Every job of a round gets one outcome, its own\<close>

lemma map_fst_each [simp]: "map fst (fst (each f xs w)) = map fst xs"
  by (induction f xs w rule: each.induct) (auto split: prod.splits)

lemma with_subject_Cons:
  "with_subject (j # js) = (case j_subject j of None \<Rightarrow> with_subject js | Some u \<Rightarrow> (j, TopicId u) # with_subject js)"
  by (simp add: with_subject_def List.map_filter_simps split: option.split)

lemma subjects_split: "mset (map fst (without_subject js)) + mset (map fst (with_subject js)) = mset js"
  by (induction js) (auto simp: with_subject_Cons without_subject_def with_subject_def List.map_filter_simps split: option.splits)

lemma with_subjectD: "(j, t) \<in> set (with_subject js) \<Longrightarrow> j \<in> set js \<and> (\<exists>u. j_subject j = Some u \<and> t = TopicId u)"
  by (induction js) (auto simp: with_subject_def List.map_filter_simps split: option.splits)

lemma without_subjectD: "(j, r) \<in> set (without_subject js) \<Longrightarrow> j \<in> set js \<and> j_subject j = None \<and> r = Some (no_subject j)"
  by (auto simp: without_subject_def)

lemma sync_indexes_cases:
  assumes "sync_indexes wk jobs w = (outcomes, w')"
  obtains (unsubjected) "with_subject jobs = []" "outcomes = without_subject jobs"
    | (unread) e where "wk_states wk w (map snd (with_subject jobs)) = Inl e"
        "outcomes = without_subject jobs @ map (\<lambda>(j, _). (j, Some (''reading the states this round owes: '' @ e))) (with_subject jobs)"
    | (batched) states where "wk_states wk w (map snd (with_subject jobs)) = Inr states"
        "fst (sync_batch wk (found_states states) (map snd (with_subject jobs)) w) = None"
        "outcomes = without_subject jobs @ map (\<lambda>(j, _). (j, None)) (with_subject jobs)"
    | (single) states w1 where "wk_states wk w (map snd (with_subject jobs)) = Inr states"
        "fst (sync_batch wk (found_states states) (map snd (with_subject jobs)) w) \<noteq> None"
        "outcomes = without_subject jobs @ fst (each (sync_one wk (found_states states)) (with_subject jobs) w1)"
proof (cases "with_subject jobs = []")
  case True
  then show ?thesis using assms unsubjected by (simp add: sync_indexes_def)
next
  case False
  show ?thesis
  proof (cases "wk_states wk w (map snd (with_subject jobs))")
    case (Inl e)
    then show ?thesis using assms False unread [OF Inl] by (simp add: sync_indexes_def Let_def)
  next
    case (Inr states)
    obtain x w1 where b: "sync_batch wk (found_states states) (map snd (with_subject jobs)) w = (x, w1)" by fastforce
    show ?thesis
    proof (cases x)
      case None
      then show ?thesis using assms False Inr b batched [OF Inr] by (simp add: sync_indexes_def Let_def)
    next
      case (Some e)
      then have "outcomes = without_subject jobs @ fst (each (sync_one wk (found_states states)) (with_subject jobs) w1)"
        using assms False Inr b by (auto simp: sync_indexes_def Let_def split: prod.splits)
      then show ?thesis using b Some by (intro single [OF Inr]) simp_all
    qed
  qed
qed

lemma fst_comp_Pair [simp]: "fst \<circ> (\<lambda>(j, _). (j, x)) = fst" "fst \<circ> (\<lambda>(j, _). (j, j)) = fst"
  by auto

lemma sync_indexes_jobs: "mset (map fst (fst (sync_indexes wk jobs w))) = mset jobs"
proof -
  obtain outcomes w' where s: "sync_indexes wk jobs w = (outcomes, w')" by fastforce
  have "mset (map fst outcomes) = mset (map fst (without_subject jobs)) + mset (map fst (with_subject jobs))"
    using s by (cases rule: sync_indexes_cases) simp_all
  then show ?thesis using s subjects_split by simp
qed

lemma gather_jobs: "gather wk js w = (rs, batch, w') \<Longrightarrow> mset (map fst rs) + mset (map fst batch) = mset js"
  by (induction wk js w arbitrary: rs batch w' rule: gather.induct) (auto split: if_splits prod.splits option.splits)

lemma run_reads_jobs: "mset (map fst (fst (run_reads wk jobs w))) = mset jobs"
proof -
  obtain rs batch w1 where g: "gather wk jobs w = (rs, batch, w1)" by (cases "gather wk jobs w") auto
  have again: "map fst (fst (each (run_job wk) (map (\<lambda>(j, _). (j, j)) batch) w2)) = map fst batch" for w2
    by simp
  have "map fst (fst (run_reads wk jobs w)) = map fst rs @ map fst batch"
  proof (cases "batch = []")
    case True
    then show ?thesis using g by (simp add: run_reads_def)
  next
    case False
    obtain x w2 where b: "read_batch wk batch w1 = (x, w2)" by fastforce
    obtain rs' w3 where e: "each (run_job wk) (map (\<lambda>(j, _). (j, j)) batch) w2 = (rs', w3)" by fastforce
    show ?thesis using g False b e again [of w2] by (cases x) (simp_all add: run_reads_def)
  qed
  then show ?thesis using gather_jobs [OF g] by simp
qed

text \<open>
  An index and a ledger whose answer about one topic does not hang on the rest of the round: the states
  read are the ones the topics have, a batch goes through exactly when each of its topics would alone.
\<close>

definition steady :: "'w works \<Rightarrow> (topic_id \<Rightarrow> topic_state option) \<Rightarrow> (topic_state \<Rightarrow> string option)
    \<Rightarrow> (topic_id \<Rightarrow> string option) \<Rightarrow> bool" where
  "steady wk found bad stuck \<longleftrightarrow>
     (\<forall>w ts. \<exists>states. wk_states wk w ts = Inr states \<and> (\<forall>t\<in>set ts. found_states states t = found t) \<and>
        distinct (map st_of states) \<and> st_of ` set states \<subseteq> set ts) \<and>
     (\<forall>w state. fst (wk_index_one wk state w) = bad state) \<and> (\<forall>w t. fst (wk_delete wk [t] w) = stuck t) \<and>
     (\<forall>w states. fst (wk_index wk states w) = None \<longleftrightarrow> (\<forall>s\<in>set states. bad s = None)) \<and>
     (\<forall>w ts. fst (wk_delete wk ts w) = None \<longleftrightarrow> (\<forall>t\<in>set ts. stuck t = None))"

definition own_verdict :: "(topic_id \<Rightarrow> topic_state option) \<Rightarrow> (topic_state \<Rightarrow> string option)
    \<Rightarrow> (topic_id \<Rightarrow> string option) \<Rightarrow> topic_id \<Rightarrow> string option" where
  "own_verdict found bad stuck t = (case found t of None \<Rightarrow> stuck t | Some s \<Rightarrow> bad s)"

lemma steadyD:
  assumes "steady wk found bad stuck"
  shows "\<exists>states. wk_states wk w ts = Inr states \<and> (\<forall>t\<in>set ts. found_states states t = found t) \<and>
        distinct (map st_of states) \<and> st_of ` set states \<subseteq> set ts"
    and "fst (wk_index_one wk state w) = bad state" and "fst (wk_delete wk [t] w) = stuck t"
    and "fst (wk_index wk states w) = None \<longleftrightarrow> (\<forall>s\<in>set states. bad s = None)"
    and "fst (wk_delete wk ts w) = None \<longleftrightarrow> (\<forall>t\<in>set ts. stuck t = None)"
  using assms unfolding steady_def by blast+

lemma found_states_None: "found_states states t = None \<longleftrightarrow> t \<notin> st_of ` set states"
  by (auto simp: found_states_def map_of_eq_None_iff image_iff)

lemma sync_topic_index_verdict:
  assumes "steady wk found bad stuck"
  shows "fst (sync_topic_index wk t w) = own_verdict found bad stuck t"
proof -
  obtain states where s: "wk_states wk w [t] = Inr states" "found_states states t = found t" "st_of ` set states \<subseteq> {t}"
    "distinct (map st_of states)"
    using steadyD(1) [OF assms, of w "[t]"] by auto
  show ?thesis
  proof (cases states)
    case Nil
    then have "found t = None" using s(2) by (simp add: found_states_def)
    then show ?thesis using s(1) Nil steadyD(3) [OF assms] by (simp add: sync_topic_index_def own_verdict_def)
  next
    case (Cons x xs)
    with s(3,4) have "st_of x = t" "xs = []" by (cases xs; force)+
    then have "found t = Some x" using s(2) Cons by (simp add: found_states_def)
    then show ?thesis using s(1) Cons steadyD(2) [OF assms] by (simp add: sync_topic_index_def own_verdict_def)
  qed
qed

lemma fst_andthen: "fst (andthen x f) = (case fst x of None \<Rightarrow> fst (f (snd x)) | Some e \<Rightarrow> Some e)"
  by (cases x) (simp add: andthen_def split: option.split)

lemma sync_batch_verdict:
  assumes "steady wk found bad stuck" and "\<forall>t\<in>set ts. found' t = found t"
  shows "fst (sync_batch wk found' ts w) = None \<longleftrightarrow> (\<forall>t\<in>set ts. own_verdict found bad stuck t = None)"
proof -
  note s = steadyD(4,5) [OF assms(1)]
  have m: "set (List.map_filter found' ts) = {x. \<exists>t\<in>set ts. found t = Some x}"
    using assms(2) by (auto simp: List.map_filter_def image_iff) (metis option.distinct(1) option.sel)
  have v: "(\<forall>t\<in>set ts. own_verdict found bad stuck t = None) \<longleftrightarrow>
    (\<forall>x\<in>{x. \<exists>t\<in>set ts. found t = Some x}. bad x = None) \<and> (\<forall>t\<in>set (filter (\<lambda>t. found' t = None) ts). stuck t = None)"
    using assms(2) by (auto simp: own_verdict_def split: option.splits)
  show ?thesis
  proof (cases "filter (\<lambda>t. found' t = None) ts = []")
    case True
    then show ?thesis unfolding v m [symmetric] s(1) [symmetric, of _ w]
      by (simp add: sync_batch_def Let_def fst_andthen split: option.split)
  next
    case False
    then show ?thesis unfolding v m [symmetric] s(1) [symmetric, of _ w]
      using s(2) [of "filter (\<lambda>t. found' t = None) ts"]
      by (simp add: sync_batch_def Let_def fst_andthen split: option.split)
  qed
qed

lemma each_sync_one:
  assumes "steady wk found bad stuck" and "\<forall>(j, t)\<in>set xs. found' t = found t"
  shows "fst (each (sync_one wk found') xs w) = map (\<lambda>(j, t). (j, own_verdict found bad stuck t)) xs"
  using assms(2)
proof (induction xs arbitrary: w)
  case (Cons x xs)
  obtain j t where x: "x = (j, t)" by fastforce
  have "fst (sync_one wk found' t w) = own_verdict found bad stuck t"
    using Cons.prems x steadyD(2,3) [OF assms(1)] by (simp add: sync_one_def own_verdict_def split: option.split)
  with Cons show ?case by (auto simp: x split: prod.splits) (metis fst_conv)
qed simp

lemma sync_indexes_verdicts:
  assumes "steady wk found bad stuck" and "\<forall>j\<in>set jobs. j_kind j = SyncTopicIndex"
  shows "mset (fst (sync_indexes wk jobs w)) = mset (map (\<lambda>j. (j, fst (run_job wk j w0))) jobs)"
proof -
  let ?v = "own_verdict found bad stuck"
  have job: "fst (run_job wk j w0) = (case j_subject j of None \<Rightarrow> Some (no_subject j) | Some u \<Rightarrow> ?v (TopicId u))"
    if "j \<in> set jobs" for j
    using assms(2) that sync_topic_index_verdict [OF assms(1)] by (simp add: run_job_def on_subject_def split: option.split)
  have "mset (map (\<lambda>j. (j, fst (run_job wk j w0))) js) =
      mset (without_subject js) + mset (map (\<lambda>(j, t). (j, ?v t)) (with_subject js))" if "set js \<subseteq> set jobs" for js
    using that
  proof (induction js)
    case (Cons j js)
    then show ?case using job [of j]
      by (cases "j_subject j") (simp_all add: with_subject_Cons without_subject_def)
  qed (simp add: without_subject_def with_subject_def)
  note alone = this [OF order_refl]
  obtain outcomes w' where s: "sync_indexes wk jobs w = (outcomes, w')" by fastforce
  let ?ts = "map snd (with_subject jobs)"
  obtain states where st: "wk_states wk w ?ts = Inr states" "\<forall>t\<in>set ?ts. found_states states t = found t"
    using steadyD(1) [OF assms(1), of w ?ts] by blast
  from s show ?thesis
  proof (cases rule: sync_indexes_cases)
    case (batched states')
    have "\<forall>t\<in>set ?ts. ?v t = None" using batched(1,2) st sync_batch_verdict [OF assms(1) st(2)] by simp
    then have "map (\<lambda>(j, t). (j, ?v t)) (with_subject jobs) = map (\<lambda>(j, _). (j, None)) (with_subject jobs)" by auto
    then have "fst (sync_indexes wk jobs w) = without_subject jobs @ map (\<lambda>(j, t). (j, ?v t)) (with_subject jobs)"
      using s batched(3) by simp
    then show ?thesis unfolding alone by (simp only: mset_append)
  next
    case (single states' w1)
    have "\<forall>(j, t)\<in>set (with_subject jobs). found_states states' t = found t" using single(1) st by force
    from each_sync_one [OF assms(1) this] show ?thesis unfolding alone using s single(3) by simp
  qed (use s st alone in simp_all)
qed


section \<open>Nothing is recorded done before a flush covers it\<close>

definition flushes :: "'w works \<Rightarrow> ('w \<Rightarrow> bool) \<Rightarrow> bool" where
  "flushes wk durable \<longleftrightarrow>
     (\<forall>w. fst (wk_flush wk w) = None \<longrightarrow> durable (snd (wk_flush wk w))) \<and>
     (\<forall>w. durable w \<longrightarrow> durable (snd (wk_flush wk w))) \<and>
     (\<forall>states w. durable w \<longrightarrow> durable (snd (wk_restate wk states w))) \<and>
     (\<forall>kind gone w. durable w \<longrightarrow> durable (snd (wk_retract wk kind gone w))) \<and>
     (\<forall>names w. durable w \<longrightarrow> durable (snd (wk_backfill wk names w))) \<and>
     (\<forall>w. durable w \<longrightarrow> durable (snd (wk_optimize wk w)))"

lemma flushesD:
  assumes "flushes wk durable"
  shows "wk_flush wk w = (None, w') \<Longrightarrow> durable w'" and "durable w \<Longrightarrow> wk_flush wk w = (x, w') \<Longrightarrow> durable w'"
    and "durable w \<Longrightarrow> durable (snd (wk_restate wk states w))" and "durable w \<Longrightarrow> durable (snd (wk_retract wk kind gone w))"
    and "durable w \<Longrightarrow> durable (snd (wk_backfill wk names w))" and "durable w \<Longrightarrow> durable (snd (wk_optimize wk w))"
  using assms unfolding flushes_def by (metis fst_conv snd_conv)+

lemma snd_andthen: "durable (snd x) \<Longrightarrow> (\<And>w. durable w \<Longrightarrow> durable (snd (f w))) \<Longrightarrow> durable (snd (andthen x f))"
  by (cases x) (auto simp: andthen_def split: option.split)

lemma durable_retract_each: "flushes wk durable \<Longrightarrow> durable w \<Longrightarrow> durable (snd (retract_each wk kinds gone w))"
proof (induction kinds arbitrary: w)
  case (Cons kind kinds)
  show ?case unfolding retract_each.simps
    by (rule snd_andthen [of durable, OF flushesD(4) [OF Cons.prems] Cons.IH [OF Cons.prems(1)]])
qed simp

lemma durable_on_subject: "durable w \<Longrightarrow> (\<And>t. durable (snd (f t w))) \<Longrightarrow> durable (snd (on_subject j f w))"
  by (simp add: on_subject_def split: option.split)

lemma durable_derive:
  assumes "flushes wk durable" and "durable w"
  shows "durable (snd (derive_topic_mentions wk t w))"
proof (cases "wk_states wk w [t]")
  case (Inr states)
  then show ?thesis
    using durable_retract_each [OF assms, of DERIVED "[t]"] flushesD(3) [OF assms]
    by (cases states) (simp_all add: derive_topic_mentions_def)
qed (use assms(2) in \<open>simp add: derive_topic_mentions_def\<close>)

lemma durable_backfill:
  assumes "flushes wk durable" and "durable w"
  shows "durable (snd (backfill_topic wk t w))"
proof (cases "wk_names wk w [t]")
  case (Inr names)
  then show ?thesis using flushesD(5) [OF assms] assms(2)
    by (cases names) (auto simp: backfill_topic_def)
qed (use assms(2) in \<open>simp add: backfill_topic_def\<close>)

lemma durable_run_job:
  assumes "flushes wk durable" and "durable w" and "j_kind j \<noteq> SyncTopicIndex"
  shows "durable (snd (run_job wk j w))"
proof (cases "j_kind j")
  case DeriveMentions
  then show ?thesis using durable_on_subject [of durable w "derive_topic_mentions wk", OF assms(2) durable_derive [OF assms(1,2)]] by (simp add: run_job_def)
next
  case BackfillMentions
  then show ?thesis using durable_on_subject [of durable w "backfill_topic wk", OF assms(2) durable_backfill [OF assms(1,2)]] by (simp add: run_job_def)
next
  case OptimizeIndex
  then show ?thesis using flushesD(6) [OF assms(1,2)] by (simp add: run_job_def optimize_projection_def)
qed (use assms(3) in simp)

lemma durable_each:
  assumes "\<And>x w. x \<in> snd ` set xs \<Longrightarrow> durable w \<Longrightarrow> durable (snd (f x w))" and "durable w"
  shows "durable (snd (each f xs w))"
  using assms
proof (induction f xs w rule: each.induct)
  case (2 f j x xs w)
  obtain r w1 where 1: "f x w = (r, w1)" by fastforce
  have "durable w1" using 2(2) [of x w] 2(3) 1 by simp
  have "durable (snd (each f xs w1))"
    by (rule 2(1) [OF 1 [symmetric] _ \<open>durable w1\<close>]) (use 2(2) in auto)
  then show ?case using 1 by (auto split: prod.split)
qed simp

lemma durable_gather:
  assumes "flushes wk durable" and "gather wk js w = (rs, batch, w')" and "durable w"
    and "\<forall>j\<in>set js. j_kind j \<noteq> SyncTopicIndex"
  shows "durable w'" and "\<forall>(j, t)\<in>set batch. j_kind j \<noteq> SyncTopicIndex"
proof -
  have "durable w' \<and> (\<forall>(j, t)\<in>set batch. j_kind j \<noteq> SyncTopicIndex)"
    using assms(2-4)
  proof (induction js arbitrary: rs batch w w')
    case (Cons j js)
    have k: "j_kind j \<noteq> SyncTopicIndex" "\<forall>j\<in>set js. j_kind j \<noteq> SyncTopicIndex" using Cons.prems(3) by simp_all
    show ?case
    proof (cases "batched_kind j")
      case True
      obtain rs1 batch1 w1 where g: "gather wk js w = (rs1, batch1, w1)" by (cases "gather wk js w") auto
      from Cons.IH [OF g Cons.prems(2) k(2)] show ?thesis
        using Cons.prems(1) True g k(1) by (auto split: option.splits)
    next
      case False
      obtain r w2 where r: "run_job wk j w = (r, w2)" by fastforce
      obtain rs1 batch1 w1 where g: "gather wk js w2 = (rs1, batch1, w1)" by (cases "gather wk js w2") auto
      have "durable w2" using durable_run_job [OF assms(1) Cons.prems(2) k(1)] r by simp
      from Cons.IH [OF g this k(2)] show ?thesis using Cons.prems(1) False r g by auto
    qed
  qed simp
  then show "durable w'" "\<forall>(j, t)\<in>set batch. j_kind j \<noteq> SyncTopicIndex" by simp_all
qed


lemma durable_read_batch:
  assumes "flushes wk durable" and "durable w"
  shows "durable (snd (read_batch wk batch w))"
proof (cases "wk_states wk w (of_kind DeriveMentions batch)")
  case (Inr states)
  have b: "durable (snd (case wk_names wk w (of_kind BackfillMentions batch) of Inl e \<Rightarrow> (Some e, w) | Inr names \<Rightarrow> wk_backfill wk names w))"
    if "durable w" for w using that flushesD(5) [OF assms(1) that] by (simp split: sum.split)
  show ?thesis unfolding read_batch_def Let_def Inr sum.case
    by (intro snd_andthen [of durable] flushesD(3) [OF assms(1)] assms(2) durable_retract_each [OF assms(1)] b)
qed (use assms(2) in \<open>simp add: read_batch_def\<close>)

lemma durable_run_reads:
  assumes "flushes wk durable" and "durable w" and "\<forall>j\<in>set js. j_kind j \<noteq> SyncTopicIndex"
  shows "durable (snd (run_reads wk js w))"
proof -
  obtain rs batch w1 where g: "gather wk js w = (rs, batch, w1)" by (cases "gather wk js w") auto
  note d = durable_gather [OF assms(1) g assms(2,3)]
  obtain x w2 where b: "read_batch wk batch w1 = (x, w2)" by fastforce
  have w2: "durable w2" using durable_read_batch [OF assms(1) d(1), of batch] b by simp
  have "durable (snd (each (run_job wk) (map (\<lambda>(j, _). (j, j)) batch) w2))"
    using d(2) by (intro durable_each [of _ durable, OF _ w2] durable_run_job [OF assms(1)]) auto
  then show ?thesis using g b d(1) w2 by (cases x) (auto simp: run_reads_def split: prod.split)
qed

lemma complete_keeps_ids:
  "i \<in> jr_id ` set q \<Longrightarrow> i \<notin> j_id ` set jobs \<Longrightarrow> i \<in> jr_id ` set (fst (Store_Jobs.complete jobs w q))"
  by (auto simp: Store_Jobs.complete_def held_by_claim_def)

text \<open>A row that goes with a flush of the durability list leaves a durable world behind.\<close>

lemma flush_durable:
  assumes "flushes wk durable" and "flush_what_is_applied wk ar d = (n, d')" and "i \<in> jr_id ` set (dr_queue d)"
    and "i \<notin> jr_id ` set (dr_queue d')"
  shows "durable (dr_world d')"
  using assms(2)
proof (cases rule: flush_cases)
  case (flushed w q)
  then show ?thesis using flushesD(1) [OF assms(1)] by simp
qed (use assms(3,4) in auto)

lemma flush_stays_durable:
  assumes "flushes wk durable" and "flush_what_is_applied wk ar d = (n, d')" and "durable (dr_world d)"
  shows "durable (dr_world d')"
  using assms(2)
proof (cases rule: flush_cases)
  case (refused e w)
  then show ?thesis using flushesD(2) [OF assms(1,3)] by simp
next
  case (flushed w q)
  then show ?thesis using flushesD(1) [OF assms(1)] by simp
qed (use assms(3) in auto)

lemma settle_durable:
  fixes d :: "'w drain"
  assumes "flushes wk durable" and "settle_round wk ar outcomes d = d'" and "i \<in> jr_id ` set (dr_queue d)"
    and "i \<notin> jr_id ` set (dr_queue d')" and "i \<notin> j_id ` set (done_jobs outcomes) \<or> durable (dr_world d)"
  shows "durable (dr_world d')"
  using assms(2)
proof (cases rule: settle_round_cases)
  case kept
  let ?q = "record_failures ar (dr_round d) outcomes (dr_queue d)"
  have "i \<in> jr_id ` set ?q" using assms(3) record_failures_ids by blast
  then have "durable (dr_world d)" using complete_keeps_ids assms(4,5) kept(2) by fastforce
  then show ?thesis using kept(2) by simp
next
  case (flushed d1 d2 n)
  show ?thesis
  proof (cases "i \<in> jr_id ` set (dr_queue d1)")
    case True
    then show ?thesis using flush_durable [OF assms(1) flushed(8)] flushed(9,11) assms(4) by simp
  next
    case False
    have "i \<in> jr_id ` set (record_failures ar (dr_round d) outcomes (dr_queue d))" using assms(3) record_failures_ids by blast
    then have "durable (dr_world d1)" using complete_keeps_ids False assms(5) flushed(2,4) by fastforce
    then show ?thesis using flush_stays_durable [OF assms(1) flushed(8)] flushed(11) by simp
  qed
qed

lemma done_jobs_append [simp]: "done_jobs (a @ b) = done_jobs a @ done_jobs b"
  by (simp add: done_jobs_def)

lemma done_jobs_failed [simp]: "done_jobs (failed_outcomes a) = []"
  by (auto simp: done_jobs_def failed_outcomes_def filter_empty_conv)

lemma done_jobs_subset: "set (done_jobs outcomes) \<subseteq> fst ` set outcomes"
  by (auto simp: done_jobs_def)

lemma run_reads_done: "set (done_jobs (fst (run_reads wk js w))) \<subseteq> set js"
  using done_jobs_subset [of "fst (run_reads wk js w)"] arg_cong [OF run_reads_jobs [of wk js w], of set_mset] by auto

lemma work_round_durable:
  fixes d :: "'w drain"
  assumes "flushes wk durable" and "work_round wk ar owed claimed d = d'" and "i \<in> jr_id ` set (dr_queue d)"
    and "i \<notin> jr_id ` set (dr_queue d')" and "\<forall>j\<in>set claimed. j_id j = i \<longrightarrow> j_kind j = SyncTopicIndex"
  shows "durable (dr_world d')"
proof -
  let ?reads = "filter (\<lambda>j. j_kind j \<noteq> SyncTopicIndex) claimed"
  obtain written w1 where s: "sync_indexes wk (filter (\<lambda>j. j_kind j = SyncTopicIndex) claimed) (dr_world d) = (written, w1)"
    by fastforce
  have reads: "i \<notin> j_id ` set (done_jobs (fst (run_reads wk ?reads w)))" for w
    using run_reads_done [of wk ?reads w] assms(5) by auto
  show ?thesis
  proof (cases owed)
    case Everything
    obtain x w2 where f: "(if done_jobs written \<noteq> [] then wk_flush wk w1 else (None, w1)) = (x, w2)" by fastforce
    obtain rs w3 where r: "run_reads wk ?reads w2 = (rs, w3)" by fastforce
    show ?thesis
    proof (cases x)
      case None
      have set: "settle_round wk ar (written @ rs) (d\<lparr>dr_world := w3\<rparr>) = d'"
        using assms(2) s f r None Everything by (simp add: work_round_def Let_def)
      have "i \<notin> j_id ` set (done_jobs (written @ rs)) \<or> durable w3"
      proof (cases "done_jobs written = []")
        case True
        then show ?thesis using reads [of w2] r by simp
      next
        case False
        then have "durable w2" using f None flushesD(1) [OF assms(1)] by simp
        then show ?thesis using durable_run_reads [OF assms(1), of w2 ?reads] r by simp
      qed
      then show ?thesis by (intro settle_durable [OF assms(1) set _ assms(4)]) (simp_all add: assms(3))
    next
      case (Some e)
      then have "dr_queue d' = dr_queue d"
        using assms(2) s f Everything by (auto simp: work_round_def Let_def)
      then show ?thesis using assms(3,4) by simp
    qed
  next
    case WhatAMemoryNeeds
    obtain rs w3 where r: "run_reads wk ?reads w1 = (rs, w3)" by fastforce
    have set: "settle_round wk ar (failed_outcomes written @ rs)
        (d\<lparr>dr_world := w3, dr_unflushed := dr_unflushed d @ done_jobs written\<rparr>) = d'"
      using assms(2) s r WhatAMemoryNeeds by (simp add: work_round_def Let_def)
    show ?thesis using reads [of w1] r
      by (intro settle_durable [OF assms(1) set _ assms(4)]) (simp_all add: assms(3))
  qed
qed

lemma nothing_due_durable:
  fixes d :: "'w drain"
  assumes "flushes wk durable" and "nothing_due wk ar owed d = d'" and "i \<in> jr_id ` set (dr_queue d)"
    and "i \<notin> jr_id ` set (dr_queue d')"
  shows "durable (dr_world d')"
proof -
  obtain n df where f: "flush_what_is_applied wk ar d = (n, df)" by fastforce
  show ?thesis
  proof (cases "flush_the_rest wk ar owed d")
    case None
    then have d': "d' = df\<lparr>dr_status := Errored\<rparr>" using assms(2) f by (simp add: nothing_due_def)
    show ?thesis using flush_durable [OF assms(1) f assms(3)] assms(4) d' by simp
  next
    case (Some d1)
    have 1: "jr_id ` set (dr_queue d1) \<subseteq> jr_id ` set (dr_queue d')" "dr_world d' = dr_world d1"
      using assms(2) Some
      by (auto simp: nothing_due_def Let_def intro: tidy_up_facts(5) [THEN subsetD] split: sum.splits bool.splits if_splits option.splits)
    have "i \<notin> jr_id ` set (dr_queue d1)" using 1(1) assms(4) by blast
    moreover have "dr_queue d1 = dr_queue d \<or> dr_queue d1 = dr_queue df \<and> dr_world d1 = dr_world df"
      using Some f by (auto simp: flush_the_rest_def split: if_splits option.splits)
    ultimately show ?thesis using flush_durable [OF assms(1) f assms(3)] assms(3) 1(2) by auto
  qed
qed

lemma turn_durable:
  fixes d :: "'w drain"
  assumes "flushes wk durable" and "turn wk ar owed d = d'" and "queue_ok q" and "q = ar_others ar (dr_round d) (dr_queue d)"
    and "r \<in> set q" and "jr_kind r = SyncTopicIndex" and "jr_id r \<notin> jr_id ` set (dr_queue d')"
  shows "durable (dr_world d')"
proof -
  let ?d = "d\<lparr>dr_queue := q\<rparr>"
  let ?claim = "claim (ar_claim_at ar (dr_round d)) (ar_project ar) (ar_worker ar) (ar_batch ar) (owed_kinds owed) (ar_locked ar (dr_round d)) q"
  have d': "dr_queue d' = dr_queue (turn_body wk ar owed ?d)" "dr_world d' = dr_world (turn_body wk ar owed ?d)"
    using assms(2,4) by (auto simp: turn_def)
  have i: "jr_id r \<in> jr_id ` set q" using assms(5) by blast
  show ?thesis
  proof (cases "ar_another ar (dr_round d)")
    case False
    then show ?thesis using i assms(7) d' by (simp add: turn_body_def)
  next
    case True
    show ?thesis
    proof (cases ?claim)
      case None
      then show ?thesis using i assms(7) d' True by (simp add: turn_body_def)
    next
      case (Some x)
      then obtain q1 claimed where c: "?claim = Some (q1, claimed)" by (cases x) auto
      have "jr_id ` set q1 = jr_id ` set q"
        unfolding claim_SomeD [OF c, THEN conjunct2, THEN conjunct1] by (rule map_keeps_ids) simp
      then have i1: "jr_id r \<in> jr_id ` set (dr_queue (d\<lparr>dr_queue := q1\<rparr>))" using i by simp
      have kinds: "\<forall>j\<in>set claimed. j_id j = jr_id r \<longrightarrow> j_kind j = SyncTopicIndex"
      proof (intro ballI impI)
        fix j assume "j \<in> set claimed" "j_id j = jr_id r"
        with claim_jobsD [OF assms(3) c] obtain r' where "r' \<in> set q" "j = row_to_job (held_row (ar_claim_at ar (dr_round d)) (ar_worker ar) r')"
          by blast
        moreover then have "r' = r" using queue_ok_id [OF assms(3) _ assms(5)] \<open>j_id j = jr_id r\<close> by (simp add: row_to_job_def)
        ultimately show "j_kind j = SyncTopicIndex" using assms(6) by (simp add: row_to_job_def held_row_def)
      qed
      show ?thesis
      proof (cases "claimed = []")
        case True': True
        have "nothing_due wk ar owed (d\<lparr>dr_queue := q1\<rparr>) = turn_body wk ar owed ?d"
          using c True True' by (simp add: turn_body_def)
        from nothing_due_durable [OF assms(1) this i1] show ?thesis using assms(7) d' by simp
      next
        case False
        have "work_round wk ar owed claimed (d\<lparr>dr_queue := q1\<rparr>) = turn_body wk ar owed ?d"
          using c True False by (simp add: turn_body_def)
        from work_round_durable [OF assms(1) this i1 _ kinds] show ?thesis using assms(7) d' by simp
      qed
    qed
  qed
qed

section \<open>The counts\<close>

lemma completed_fits:
  assumes "queue_ok q"
  shows "length (snd (Store_Jobs.complete jobs w q)) \<le> length jobs"
proof -
  let ?held = "filter (held_by_claim jobs w) q"
  have "distinct (map jr_id ?held)" using assms by (simp add: queue_ok_def distinct_map_filter)
  then have "length ?held = card (set (map jr_id ?held))" using distinct_card by fastforce
  also have "\<dots> \<le> card (set (map j_id jobs))" by (rule card_mono) (auto simp: held_by_claim_def)
  also have "\<dots> \<le> length jobs" using card_length [of "map j_id jobs"] by simp
  finally show ?thesis by (simp add: Store_Jobs.complete_def)
qed

lemma outcomes_split: "length (done_jobs outcomes) + length (failed_outcomes outcomes) = length outcomes"
  using sum_length_filter_compl [of "\<lambda>(_, r). r = None" outcomes]
  by (simp add: done_jobs_def failed_outcomes_def split_def)

lemma settle_counts:
  fixes d :: "'w drain"
  assumes "queue_ok (dr_queue d)" and "settle_round wk ar outcomes d = d'" and "awaiting_durability d < AWAITING_DURABILITY"
  shows "dr_completed d' + dr_failed d' = dr_completed d + dr_failed d + length outcomes"
  using assms(2)
proof (cases rule: settle_round_cases)
  case kept
  have "length (snd (Store_Jobs.complete (done_jobs outcomes) (ar_worker ar) (record_failures ar (dr_round d) outcomes (dr_queue d))))
      \<le> length (done_jobs outcomes)"
    by (intro completed_fits record_failures_ok assms(1))
  then show ?thesis using kept(2) outcomes_split [of outcomes] by simp
qed (use assms(3) in simp)

section \<open>Properties\<close>

definition sample_around :: around where
  "sample_around = \<lparr>ar_project = 1, ar_worker = ''w'', ar_batch = 64, ar_claim_at = (\<lambda>k. int k * 1000000),
     ar_settle_at = (\<lambda>k. int k * 1000000 + 1), ar_others = (\<lambda>_ q. q), ar_locked = (\<lambda>_. {}), ar_another = (\<lambda>_. True),
     ar_ids = (\<lambda>k n. word_of_nat (1000 + 10 * k + n))\<rparr>"

lemma sample_calm: "calm sample_around kinds"
  by (simp add: calm_def sample_around_def)

lemma sample_alone: "alone sample_around"
proof -
  have "\<exists>K. \<forall>k\<ge>K. t \<le> int k * 1000000" for t :: int
    by (rule exI [of _ "nat t"]) auto
  then show ?thesis by (simp add: alone_def sample_around_def)
qed

definition sample_state :: "uuid \<Rightarrow> topic_state" where
  "sample_state t = \<lparr>st_id = t, st_project = 1, st_of = TopicId t, st_version = 1, st_content = [], st_span = t,
     st_language = None, st_observed_at = 0, st_recorded_at = 0, st_validity = ALWAYS, st_supersedes = None, st_deleted_at = None\<rparr>"

definition sample_found :: "topic_id \<Rightarrow> topic_state option" where
  "sample_found t = (if t = TopicId 5 then Some (sample_state 5) else if t = TopicId 6 then Some (sample_state 6) else None)"

definition sample_bad :: "topic_state \<Rightarrow> string option" where
  "sample_bad s = (if st_of s = TopicId 6 then Some ''too long'' else None)"

text \<open>A world that only knows whether what the index holds is on disk; one topic cannot be indexed.\<close>

definition sample_works :: "bool works" where
  "sample_works = \<lparr>wk_states = (\<lambda>_ ts. Inr (List.map_filter sample_found (remdups ts))), wk_names = (\<lambda>_ ts. Inr []),
     wk_index = (\<lambda>states _. (if \<forall>s\<in>set states. sample_bad s = None then None else Some ''batch'', False)),
     wk_index_one = (\<lambda>s _. (sample_bad s, False)), wk_delete = (\<lambda>_ _. (None, False)),
     wk_restate = (\<lambda>_ w. (None, w)), wk_retract = (\<lambda>_ _ w. (None, w)), wk_backfill = (\<lambda>_ w. (None, w)),
     wk_optimize = (\<lambda>w. (None, w)), wk_flush = (\<lambda>_. (None, True)), wk_fragmented = (\<lambda>_. Inr False),
     wk_lags = (\<lambda>_. Inr False), wk_wasteful = (\<lambda>_. Inr False)\<rparr>"

lemma sample_found_of: "sample_found t = Some s \<Longrightarrow> st_of s = t"
  by (auto simp: sample_found_def sample_state_def split: if_splits)

lemma sample_reads:
  "distinct ts \<Longrightarrow> distinct (map st_of (List.map_filter sample_found ts)) \<and>
    st_of ` set (List.map_filter sample_found ts) \<subseteq> set ts \<and>
    (\<forall>t\<in>set ts. found_states (List.map_filter sample_found ts) t = sample_found t)"
proof (induction ts)
  case (Cons t ts)
  then have IH: "distinct (map st_of (List.map_filter sample_found ts))" "st_of ` set (List.map_filter sample_found ts) \<subseteq> set ts"
    "\<forall>t\<in>set ts. found_states (List.map_filter sample_found ts) t = sample_found t" by simp_all
  have none: "found_states (List.map_filter sample_found ts) t = None"
    using IH(2) Cons.prems unfolding found_states_None by auto
  show ?case
  proof (cases "sample_found t")
    case None
    then show ?thesis using IH none by (auto simp: List.map_filter_simps)
  next
    case (Some s)
    note of = sample_found_of [OF Some]
    have "found_states (s # List.map_filter sample_found ts) u =
        (case found_states (List.map_filter sample_found ts) u of None \<Rightarrow> if u = st_of s then Some s else None | Some x \<Rightarrow> Some x)" for u
      by (simp add: found_states_def map_add_def split: option.split)
    then show ?thesis using IH none Some of Cons.prems by (auto simp: List.map_filter_simps split: option.splits)
  qed
qed (simp add: List.map_filter_simps)

lemma sample_steady: "steady sample_works sample_found sample_bad (\<lambda>_. None)"
proof -
  have "\<exists>states. wk_states sample_works w ts = Inr states \<and> (\<forall>t\<in>set ts. found_states states t = sample_found t) \<and>
        distinct (map st_of states) \<and> st_of ` set states \<subseteq> set ts" for w ts
    using sample_reads [of "remdups ts"] by (auto simp: sample_works_def)
  then show ?thesis unfolding steady_def by (simp add: sample_works_def)
qed

lemma sample_flushes: "flushes sample_works (\<lambda>w. w)"
  by (simp add: flushes_def sample_works_def)

text \<open>
  C9: a drain for one memory always returns, whatever its handlers and the index do, as long as the
  others leave the outbox well formed and ask for no further urgent work of the project: at most one
  round per attempt its urgent rows have left, and one more. When it ends by itself no urgent row is due
  that the last claim could take.
\<close>

theorem drain_needs_terminates:
  assumes "calm ar URGENT" and "queue_ok q"
  shows "\<exists>d'. drain_cascade wk ar WhatAMemoryNeeds (start_drain q unflushed w) = Some d' \<and>
    dr_round d' \<le> 1 + owed_work (ar_project ar) URGENT q \<and>
    (dr_status d' = Errored \<or> dr_status d' = Ended \<and> nothing_left ar URGENT (dr_round d' - 1) (dr_queue d'))"
proof -
  let ?ar = "ar\<lparr>ar_batch := BATCH, ar_another := \<lambda>_. True\<rparr>"
  have calm: "calm ?ar URGENT" using assms(1) by (simp add: calm_def)
  obtain d' where d': "drain_cascade_while wk ?ar WhatAMemoryNeeds (start_drain q unflushed w) = Some d'"
    using drain_needs_ends [OF calm, of "start_drain q unflushed w" wk] assms(2) by (auto simp: start_drain_def)
  have "0 < ar_batch ?ar" "\<forall>k. ar_another ?ar k" by (simp_all add: BATCH_def)
  note l = drain_needs_left [OF calm assms(2) this d']
  show ?thesis
    using d' l by (cases "dr_status d'") (simp_all add: drain_cascade_def nothing_left_def)
qed

theorem drain_needs_terminates_witness:
  "queue_ok sample_queue \<and> owed_work 1 URGENT sample_queue = 8 \<and>
   (\<exists>d'. drain_cascade sample_works sample_around WhatAMemoryNeeds (start_drain sample_queue [] True) = Some d' \<and> dr_round d' \<le> 9 \<and>
     (dr_status d' = Errored \<or> dr_status d' = Ended \<and> nothing_left sample_around URGENT (dr_round d' - 1) (dr_queue d')))"
proof -
  have o: "owed_work 1 URGENT sample_queue = 8"
    by (simp add: sample_queue_def tries_left_def URGENT_def queued_row_def MAX_ATTEMPTS_def)
  show ?thesis
    using drain_needs_terminates [OF sample_calm sample_ok, of sample_works "[]" True] sample_ok o
    by (simp add: sample_around_def)
qed

text \<open>
  C10: a drain of everything returns too when nobody else works the outbox and the clock goes on: it
  waits out the claims others left behind, and no longer. When it ends by itself nothing the project
  owes is due or held, and no applied write waits for a flush.
\<close>

theorem drain_everything_terminates:
  assumes "alone ar" and "queue_ok q"
  shows "\<exists>d'. drain_cascade wk ar Everything (start_drain q unflushed w) = Some d' \<and>
    (dr_status d' = Errored \<or> dr_status d' = Ended \<and> dr_unflushed d' = [] \<and>
       \<not> any_in_flight (ar_settle_at ar (dr_round d' - 1)) (ar_project ar) (dr_queue d'))"
proof -
  let ?ar = "ar\<lparr>ar_batch := BATCH, ar_another := \<lambda>_. True\<rparr>"
  have b: "alone ?ar" "0 < ar_batch ?ar" "\<forall>k. ar_another ?ar k" using assms(1) by (simp_all add: alone_def BATCH_def)
  obtain d' where d': "drain_cascade_while wk ?ar Everything (start_drain q unflushed w) = Some d'"
    using drain_everything_ends [OF b, of "start_drain q unflushed w" wk] assms(2) by (auto simp: start_drain_def)
  note l = drain_everything_left [OF b assms(2) d']
  show ?thesis
    using d' l by (cases "dr_status d'") (simp_all add: drain_cascade_def)
qed

theorem drain_everything_terminates_witness:
  "\<exists>d'. drain_cascade sample_works sample_around Everything (start_drain sample_held [] True) = Some d' \<and>
    (dr_status d' = Errored \<or> dr_status d' = Ended \<and> dr_unflushed d' = [] \<and>
       \<not> any_in_flight (int (dr_round d' - 1) * 1000000 + 1) 1 (dr_queue d'))"
  using drain_everything_terminates [OF sample_alone sample_held_ok, of sample_works "[]" True]
  by (simp add: sample_around_def)

text \<open>
  C12: indexing a round's writes in one pass gives every job the outcome it would have had alone, in any
  world, where one topic's verdict does not hang on the others: a document that cannot be indexed fails
  its own job and no other, a job without a subject fails alone, and no job is lost or settled twice.
\<close>

theorem sync_outcomes_are_own:
  assumes "steady wk found bad stuck" and "\<forall>j\<in>set jobs. j_kind j = SyncTopicIndex"
  shows "mset (fst (sync_indexes wk jobs w)) = mset (map (\<lambda>j. (j, fst (run_job wk j w0))) jobs)"
  using assms by (rule sync_indexes_verdicts)

definition sync_job :: "job_id \<Rightarrow> uuid option \<Rightarrow> job" where
  "sync_job i s = \<lparr>j_id = i, j_project = 1, j_kind = SyncTopicIndex, j_subject = s, j_attempts = 1, j_claimed_at = Some 0\<rparr>"

theorem sync_outcomes_are_own_witness:
  "mset (fst (sync_indexes sample_works [sync_job 1 (Some 5), sync_job 2 (Some 6), sync_job 3 None] True)) =
     {#(sync_job 1 (Some 5), None), (sync_job 2 (Some 6), Some ''too long''), (sync_job 3 None, Some (no_subject (sync_job 3 None)))#}"
proof -
  have j: "run_job sample_works (sync_job 1 (Some 5)) True = (None, False)"
    "run_job sample_works (sync_job 2 (Some 6)) True = (Some ''too long'', False)"
    "run_job sample_works (sync_job 3 None) True = (Some (no_subject (sync_job 3 None)), True)"
    by (simp_all add: run_job_def on_subject_def sync_job_def sync_topic_index_def sample_works_def List.map_filter_simps
        sample_found_def sample_bad_def sample_state_def)
  have k: "\<forall>j\<in>set [sync_job 1 (Some 5), sync_job 2 (Some 6), sync_job 3 None]. j_kind j = SyncTopicIndex"
    by (simp add: sync_job_def)
  show ?thesis using sync_outcomes_are_own [OF sample_steady k, of True True] unfolding list.map j by simp
qed

text \<open>
  C11: no turn of a drain, of either kind, lets go of a write to the index before a flush covers it: when
  a turn removes a row that owed the index a topic, every write applied by then is on disk - the flush
  that came first succeeded, and nothing was written after it.
\<close>

theorem settled_after_flush:
  assumes "flushes wk durable" and "queue_ok q" and "q = ar_others ar (dr_round d) (dr_queue d)"
    and "r \<in> set q" and "jr_kind r = SyncTopicIndex" and "jr_id r \<notin> jr_id ` set (dr_queue (turn wk ar owed d))"
  shows "durable (dr_world (turn wk ar owed d))"
  by (rule turn_durable [OF assms(1) refl assms(2-6)])

definition sample_turn :: "bool drain" where
  "sample_turn = turn sample_works sample_around Everything (start_drain sample_queue [] True)"

lemma sample_turn_queue: "map jr_id (dr_queue sample_turn) = [8]"
  by code_simp

theorem settled_after_flush_witness: "7 \<notin> jr_id ` set (dr_queue sample_turn) \<and> dr_world sample_turn"
proof -
  have r: "queued_row 0 1 (Some 5) (7, SyncTopicIndex) \<in> set sample_queue" by (simp add: sample_queue_def)
  have q: "sample_queue = ar_others sample_around (dr_round (start_drain sample_queue [] True)) (dr_queue (start_drain sample_queue [] True))"
    by (simp add: sample_around_def start_drain_def)
  show ?thesis
    using settled_after_flush [OF sample_flushes sample_ok q r, of Everything] arg_cong [OF sample_turn_queue, of set]
    by (simp add: sample_turn_def queued_row_def)
qed

end
