(* ===== verification/Engine_Derive.thy ===== *)
theory Engine_Derive
  imports Engine_Write Store_Edges Store_Files RMap
begin

text \<open>
  The edges content implies (\<open>crates/engine/src/engine.rs\<close>): what memories name, the section each section
  of a file sits under, and the memories that named a topic before it existed. They read the ledger of
  \<open>Store_Ledger\<close> and write the edges of \<open>Store_Edges\<close>, one statement after another; what other writers do
  in between is the interleaving those theories allow.

  The segmenter's \<open>name_sequence\<close> and the index's \<open>recall_naming\<close> are arguments, as are the clock and the
  identifiers minted.
\<close>

definition MENTION_CONFIDENCE :: rat where
  "MENTION_CONFIDENCE = 1 / 2"

definition PARENT_CONFIDENCE :: rat where
  "PARENT_CONFIDENCE = MENTION_CONFIDENCE"

definition BACKFILL_CANDIDATES :: nat where
  "BACKFILL_CANDIDATES = 500"

record deriving =
  dg_asserted_at :: instant
  dg_relationship :: "nat \<Rightarrow> relationship_id"
  dg_version :: "nat \<Rightarrow> version_id"
  dg_closed_at :: instant

definition asserted_edges :: "deriving \<Rightarrow> project_id \<Rightarrow> asserting list \<Rightarrow> graph_db \<Rightarrow> (graph_db \<times> assertion list) option" where
  "asserted_edges dg project edges g = assert_edges (dg_asserted_at dg) (dg_relationship dg) (dg_version dg) project edges g g"

definition added :: "assertion list \<Rightarrow> nat" where
  "added asserted = length (filter is_new asserted)"

section \<open>What memories name\<close>

definition naming_of :: "(ustr \<times> topic_id) list \<Rightarrow> ustr \<Rightarrow> topic_id list" where
  "naming_of matching run = map snd (filter (\<lambda>(key, _). key = run) matching)"

definition named_topics :: "(ustr \<times> topic_id) list \<Rightarrow> topic_state \<Rightarrow> ustr list \<Rightarrow> topic_id list" where
  "named_topics matching state runs =
     remdups_adj (sort (filter (\<lambda>t. t \<noteq> st_of state) (concat (map (naming_of matching) runs))))"

definition mention_edges :: "topic_state \<times> topic_id list \<Rightarrow> asserting list" where
  "mention_edges x = (case x of (state, named) \<Rightarrow>
     map (\<lambda>target. (st_of state, target, derived_claim Mentions (st_id state) MENTION_CONFIDENCE)) named)"

definition named_now :: "(ustr \<Rightarrow> ustr list) \<Rightarrow> project_id \<Rightarrow> topic_state list \<Rightarrow> ledger \<Rightarrow> (topic_state \<times> topic_id list) list" where
  "named_now sequence project states db =
     (let widest = widest_topic_name db project;
          runs = map (\<lambda>s. runs_of_tokens (sequence (st_content s)) widest) states;
          matching = names_matching db project (remdups_adj (sort_by text_le (concat runs)))
      in map (\<lambda>(s, rs). (s, named_topics matching s rs)) (zip states runs))"

definition restate_mentions :: "(ustr \<Rightarrow> ustr list) \<Rightarrow> deriving \<Rightarrow> project_id \<Rightarrow> topic_state list \<Rightarrow> ledger \<Rightarrow> graph_db
    \<Rightarrow> (nat \<times> graph_db) option" where
  "restate_mentions sequence dg project states db g =
     (if states = [] then Some (0, g)
      else
        let named = named_now sequence project states db in
        case asserted_edges dg project (concat (map mention_edges named)) g of
          None \<Rightarrow> None
        | Some (g1, asserted) \<Rightarrow>
            Some (added asserted,
              fst (retract_derived_all (dg_closed_at dg) project Mentions (map (\<lambda>(s, ts). (st_of s, ts)) named) g1)))"

definition derive_mentions :: "(ustr \<Rightarrow> ustr list) \<Rightarrow> deriving \<Rightarrow> project_id \<Rightarrow> topic_state \<Rightarrow> ledger \<Rightarrow> graph_db
    \<Rightarrow> (nat \<times> graph_db) option" where
  "derive_mentions sequence dg project state db g = restate_mentions sequence dg project [state] db g"

text \<open>Topics whose own name is in a text; the names are cut at \<open>limit\<close> before they are ordered.\<close>

definition topics_named_like :: "(ustr \<Rightarrow> ustr list) \<Rightarrow> project_id \<Rightarrow> ustr \<Rightarrow> nat \<Rightarrow> ledger \<Rightarrow> ustr list" where
  "topics_named_like sequence project text limit db =
     (let runs = runs_of_tokens (sequence text) (widest_topic_name db project);
          candidates = topics_named_by db project runs
      in remdups_adj (sort_by text_le (take limit (map (\<lambda>(_, name, _). name) (topics_by_id db project candidates)))))"

section \<open>What sections sit under\<close>

definition parent_claim :: "(ustr \<rightharpoonup> named) \<Rightarrow> ustr \<times> ustr \<Rightarrow> asserting option" where
  "parent_claim found x =
     (case (found (fst x), found (snd x)) of
        (Some from, Some to) \<Rightarrow> Some (nm_topic from, nm_topic to, derived_claim PartOf (nm_current from) PARENT_CONFIDENCE)
      | _ \<Rightarrow> None)"

definition parent_claims :: "(ustr \<rightharpoonup> named) \<Rightarrow> (ustr \<times> ustr) list \<Rightarrow> asserting list" where
  "parent_claims found parents = List.map_filter (parent_claim found) parents"

definition keep_parent :: "asserting \<Rightarrow> (topic_id, topic_id list) btree_map \<Rightarrow> (topic_id, topic_id list) btree_map" where
  "keep_parent claimed kept =
     (case claimed of (from, to, _) \<Rightarrow> bt_alter from (\<lambda>held. (case held of None \<Rightarrow> [] | Some ts \<Rightarrow> ts) @ [to]) kept)"

definition kept_parents :: "(ustr \<rightharpoonup> named) \<Rightarrow> ustr list \<Rightarrow> (ustr \<times> ustr) list \<Rightarrow> (topic_id, topic_id list) btree_map" where
  "kept_parents found sections parents =
     fold keep_parent (parent_claims found parents)
       (bt_from (List.map_filter (\<lambda>section. map_option (\<lambda>n. (nm_topic n, [])) (found section)) sections))"

definition found_names :: "named list \<Rightarrow> ustr \<rightharpoonup> named" where
  "found_names rows = map_of (rev (map (\<lambda>n. (nm_name n, n)) rows))"

definition restate_parents :: "deriving \<Rightarrow> project_id \<Rightarrow> ustr list \<Rightarrow> (ustr \<times> ustr) list \<Rightarrow> ledger \<Rightarrow> graph_db
    \<Rightarrow> (nat \<times> graph_db) option" where
  "restate_parents dg project sections parents db g =
     (let asked = remdups_adj (sort_by text_le (sections @ map snd parents)) in
      case current_named db project asked of
        None \<Rightarrow> None
      | Some rows \<Rightarrow>
          let found = found_names rows in
          (case asserted_edges dg project (parent_claims found parents) g of
             None \<Rightarrow> None
           | Some (g1, asserted) \<Rightarrow>
               Some (added asserted,
                 fst (retract_derived_all (dg_closed_at dg) project PartOf (kept_parents found sections parents) g1))))"

section \<open>What named a topic before it existed\<close>

text \<open>One topic's candidates, each memory once, in the order the probe gave them.\<close>

fun naming_candidates :: "(ustr \<Rightarrow> ustr list) \<Rightarrow> (topic_id \<rightharpoonup> topic_state) \<Rightarrow> topic_id \<Rightarrow> ustr list \<Rightarrow> topic_id list \<Rightarrow> topic_id set
    \<Rightarrow> asserting list" where
  "naming_candidates sequence found topic name [] seen = []"
| "naming_candidates sequence found topic name (candidate # rest) seen =
     (case found candidate of
        None \<Rightarrow> naming_candidates sequence found topic name rest seen
      | Some state \<Rightarrow>
          if st_of state = topic \<or> st_of state \<in> seen then naming_candidates sequence found topic name rest seen
          else (if seg_names (sequence (st_content state)) name
                then [(st_of state, topic, derived_claim Mentions (st_id state) MENTION_CONFIDENCE)] else [])
               @ naming_candidates sequence found topic name rest (insert (st_of state) seen))"

definition backfill_edges :: "(ustr \<Rightarrow> ustr list) \<Rightarrow> (topic_id \<rightharpoonup> topic_state) \<Rightarrow> ((topic_id \<times> ustr) \<times> topic_id list) list \<Rightarrow> asserting list" where
  "backfill_edges sequence found probes =
     concat (map (\<lambda>((topic, name), candidates). naming_candidates sequence found topic (sequence name) candidates {}) probes)"

definition backfill_all :: "(ustr \<Rightarrow> ustr list) \<Rightarrow> (ustr \<Rightarrow> nat \<Rightarrow> topic_id list option) \<Rightarrow> deriving \<Rightarrow> project_id
    \<Rightarrow> (topic_id \<times> ustr) list \<Rightarrow> ledger \<Rightarrow> graph_db \<Rightarrow> (nat \<times> graph_db) option" where
  "backfill_all sequence recall_naming dg project topics db g =
     (if topics = [] then Some (0, g)
      else
        (case those (map (\<lambda>(_, name). recall_naming name BACKFILL_CANDIDATES) topics) of
           None \<Rightarrow> None
         | Some candidates \<Rightarrow>
             (case current_states_of db project (remdups_adj (sort (concat candidates))) of
                None \<Rightarrow> None
              | Some states \<Rightarrow>
                  let found = map_of (rev (map (\<lambda>s. (st_of s, s)) states)) in
                  map_option (\<lambda>(g1, asserted). (added asserted, g1))
                    (asserted_edges dg project (backfill_edges sequence found (zip topics candidates)) g))))"

definition backfill_mentions where
  "backfill_mentions sequence recall_naming dg project topic name db g =
     backfill_all sequence recall_naming dg project [(topic, name)] db g"

section \<open>What is named\<close>

text \<open>What the pairing of runs and names decides: some name of the topic is a run of the text's words.\<close>

definition says :: "(ustr \<Rightarrow> ustr list) \<Rightarrow> ledger \<Rightarrow> project_id \<Rightarrow> ustr \<Rightarrow> topic_id \<Rightarrow> bool" where
  "says sequence db project content topic \<longleftrightarrow>
     (\<exists>n\<in>set (l_names db). nt_project n = project \<and> nt_topic n = topic \<and>
        (\<exists>tokens. nt_key n = joined tokens \<and> seg_names (sequence content) tokens))"

text \<open>The segmenter gives words, and the names on file were filed under theirs at their width.\<close>

definition gives_words :: "(ustr \<Rightarrow> ustr list) \<Rightarrow> bool" where
  "gives_words sequence \<longleftrightarrow> (\<forall>text. \<forall>w\<in>set (sequence text). is_word w)"

definition names_filed :: "ledger \<Rightarrow> project_id \<Rightarrow> bool" where
  "names_filed db project \<longleftrightarrow> (\<forall>n\<in>set (l_names db). nt_project n = project \<longrightarrow>
     (\<exists>tokens. (\<forall>w\<in>set tokens. is_word w) \<and> nt_key n = joined tokens \<and> nt_tokens n = int (length tokens)))"

lemma foldl_max_start: "x \<le> foldl max x xs" for x :: int
  by (induction xs arbitrary: x) (auto intro: order_trans [OF max.cobounded1])

lemma foldl_max_ge: "y \<in> set xs \<Longrightarrow> y \<le> foldl max x xs" for x y :: int
proof (induction xs arbitrary: x)
  case (Cons z xs)
  have "z \<le> foldl max (max x z) xs" using foldl_max_start [of "max x z" xs] by simp
  with Cons show ?case by auto
qed simp

lemma widest_ge:
  assumes "n \<in> set (l_names db)" and "nt_project n = project"
  shows "nt_tokens n \<le> int (widest_topic_name db project)"
proof -
  have "nt_tokens n \<in> set (map nt_tokens (filter (\<lambda>n. nt_project n = project) (l_names db)))" using assms by simp
  then show ?thesis using foldl_max_ge foldl_max_start unfolding widest_topic_name_def
    by (cases "map nt_tokens (filter (\<lambda>n. nt_project n = project) (l_names db))") (auto simp: le_max_iff_disj)
qed

lemma seg_names_words: "seg_names text tokens \<Longrightarrow> \<forall>w\<in>set text. is_word w \<Longrightarrow> \<forall>w\<in>set tokens. is_word w"
  by (auto simp: seg_names_iff)

lemma set_naming_of: "t \<in> set (naming_of matching run) \<longleftrightarrow> (run, t) \<in> set matching"
  by (force simp: naming_of_def)

lemma set_named_topics:
  "t \<in> set (named_topics matching state runs) \<longleftrightarrow> t \<noteq> st_of state \<and> (\<exists>run\<in>set runs. (run, t) \<in> set matching)"
  by (auto simp: named_topics_def set_naming_of)

lemma distinct_remdups_adj: "sorted xs \<Longrightarrow> distinct (remdups_adj xs)" for xs :: "'a::linorder list"
  by (induction xs rule: remdups_adj.induct) auto

lemma distinct_named_topics [simp]: "distinct (named_topics matching state runs)"
  by (simp add: named_topics_def distinct_remdups_adj)

lemma named_now_states [simp]: "map fst (named_now sequence project states db) = states"
  by (auto simp: named_now_def Let_def comp_def case_prod_beta)

lemma named_now_iff:
  assumes "gives_words sequence" and "names_filed db project" and "(state, ts) \<in> set (named_now sequence project states db)"
  shows "state \<in> set states" and "distinct ts"
    and "t \<in> set ts \<longleftrightarrow> t \<noteq> st_of state \<and> says sequence db project (st_content state) t"
proof -
  let ?widest = "widest_topic_name db project"
  let ?runs = "\<lambda>s. runs_of_tokens (sequence (st_content s)) ?widest"
  let ?asked = "remdups_adj (sort_by text_le (concat (map ?runs states)))"
  have "(state, ts) \<in> (\<lambda>(s, rs). (s, named_topics (names_matching db project ?asked) s rs)) ` set (zip states (map ?runs states))"
    using assms(3) by (simp add: named_now_def Let_def)
  then obtain s where s: "s \<in> set states" "state = s" "ts = named_topics (names_matching db project ?asked) s (?runs s)"
    by (auto simp: zip_map2 zip_same_conv_map)
  then show "state \<in> set states" "distinct ts" by simp_all
  have asked: "set (?runs state) \<subseteq> set ?asked" using s by auto
  have "(\<exists>run\<in>set (?runs state). (run, t) \<in> set (names_matching db project ?asked)) \<longleftrightarrow> says sequence db project (st_content state) t"
  proof
    assume "\<exists>run\<in>set (?runs state). (run, t) \<in> set (names_matching db project ?asked)"
    then obtain run n where "run \<in> set (?runs state)" "n \<in> set (l_names db)" "nt_project n = project" "nt_topic n = t" "nt_key n = run"
      by (auto simp: names_matching_def)
    then show "says sequence db project (st_content state) t"
      unfolding says_def set_runs_of_tokens by (intro bexI [of _ n] conjI) auto
  next
    assume "says sequence db project (st_content state) t"
    then obtain n tokens where n: "n \<in> set (l_names db)" "nt_project n = project" "nt_topic n = t"
      "nt_key n = joined tokens" "seg_names (sequence (st_content state)) tokens" by (auto simp: says_def)
    obtain filed where f: "\<forall>w\<in>set filed. is_word w" "nt_key n = joined filed" "nt_tokens n = int (length filed)"
      using assms(2) n(1,2) by (auto simp: names_filed_def)
    have "\<forall>w\<in>set tokens. is_word w"
      using seg_names_words [OF n(5)] assms(1) by (simp add: gives_words_def)
    then have "tokens = filed" using joined_inj f(1,2) n(4) by metis
    then have "length tokens \<le> ?widest" using widest_ge [OF n(1,2)] f(3) by simp
    then have k: "nt_key n \<in> set (?runs state)" using n(4,5) set_runs_of_tokens by blast
    then have "nt_key n \<in> set ?asked" using asked by blast
    then have "(nt_key n, t) \<in> set (names_matching db project ?asked)"
      unfolding names_matching_def set_map set_filter using n(1-3) by (intro image_eqI [of _ _ n]) simp_all
    with k show "\<exists>run\<in>set (?runs state). (run, t) \<in> set (names_matching db project ?asked)" by blast
  qed
  then show "t \<in> set ts \<longleftrightarrow> t \<noteq> st_of state \<and> says sequence db project (st_content state) t"
    using s by (simp add: set_named_topics)
qed


section \<open>What a restatement leaves standing\<close>

definition derived_content :: "rat \<Rightarrow> edge_content" where
  "derived_content confidence = (Deterministic, confidence, ALWAYS)"

lemma mention_claim [simp]: "claim_content (derived_claim kind cause confidence) = derived_content confidence"
  by (simp add: claim_content_def derived_claim_def derived_content_def)

text \<open>
  The edge of one kind out of some topics: it stands where its content says so, as derived; where it does
  not, a derived edge is gone and an asserted one stays. Every other edge is left alone.
\<close>

definition restated :: "edge_kind \<Rightarrow> rat \<Rightarrow> topic_id set \<Rightarrow> (topic_id \<Rightarrow> topic_id \<Rightarrow> bool) \<Rightarrow> edge_key \<Rightarrow> edge_content option
    \<Rightarrow> edge_content option" where
  "restated kind confidence froms claims key held =
     (case key of (f, t, k) \<Rightarrow>
        if k = kind \<and> f \<in> froms
        then (if claims f t then Some (derived_content confidence)
              else (case held of None \<Rightarrow> None | Some c \<Rightarrow> if fst c = Deterministic then None else Some c))
        else held)"

text \<open>What stands once a batch of derived edges is asserted.\<close>

lemma stands_assert:
  assumes ok: "graph_ok g" and a: "asserted_edges dg project edges g = Some (g1, asserted)" and d: "distinct (map key_of edges)"
    and e: "\<forall>(f, t, c)\<in>set edges. ec_kind c = kind \<and> claim_content c = derived_content confidence"
  shows "graph_ok g1"
    and "stands g1 p (f, t, k) = (if p = project \<and> k = kind \<and> (\<exists>c. (f, t, c) \<in> set edges) then Some (derived_content confidence)
           else stands g p (f, t, k))"
proof -
  note a' = a [unfolded asserted_edges_def]
  show "graph_ok g1" by (rule assert_edges_stands(1) [OF ok a'])
  have s: "stands g1 = (stands g)(project := fold assert_claim edges (stands g project))"
    by (rule assert_edges_refines [OF ok d a'])
  show "stands g1 p (f, t, k) = (if p = project \<and> k = kind \<and> (\<exists>c. (f, t, c) \<in> set edges) then Some (derived_content confidence)
           else stands g p (f, t, k))"
  proof (cases "find (\<lambda>x. key_of x = (f, t, k)) edges")
    case None
    have "\<not> (k = kind \<and> (\<exists>c. (f, t, c) \<in> set edges))"
    proof
      assume "k = kind \<and> (\<exists>c. (f, t, c) \<in> set edges)"
      then obtain c where c: "(f, t, c) \<in> set edges" "k = kind" by blast
      then have "key_of (f, t, c) = (f, t, k)" using e by auto
      then show False using None c by (auto simp: find_None_iff)
    qed
    then show ?thesis using None fold_assert_claim [OF d, of "stands g project" "(f, t, k)"] by (auto simp: s)
  next
    case (Some x)
    obtain f' t' c where x: "x = (f', t', c)" by (cases x)
    have m: "x \<in> set edges" "key_of x = (f, t, k)" using find_SomeD [OF Some] by simp_all
    then have "k = kind" "\<exists>c. (f, t, c) \<in> set edges" "claim_content (claim_of x) = derived_content confidence"
      using e x by auto
    then show ?thesis using Some fold_assert_claim [OF d, of "stands g project" "(f, t, k)"] by (simp add: s)
  qed
qed

text \<open>Asserting a batch of derived edges and retracting the rest, whatever the edges come from.\<close>

lemma assert_then_retract:
  assumes ok: "graph_ok g" and a: "asserted_edges dg project edges g = Some (g1, asserted)"
    and r: "retract_derived_all now project kind keep g1 = (g2, n)"
    and d: "distinct (map key_of edges)"
    and edges: "\<forall>(f, t, c)\<in>set edges. ec_kind c = kind \<and> claim_content c = derived_content confidence \<and> f \<in> froms"
    and keep: "fst ` set keep = froms" "\<And>f t. (\<exists>(h, ts)\<in>set keep. h = f \<and> t \<in> set ts) \<longleftrightarrow> claims f t"
    and said: "\<And>f t. claims f t \<longleftrightarrow> (\<exists>c. (f, t, c) \<in> set edges)"
  shows "graph_ok g2" and "stands g2 project key = restated kind confidence froms claims key (stands g project key)"
    and "p \<noteq> project \<Longrightarrow> stands g2 p = stands g p"
proof -
  have e: "ec_kind c = kind \<and> claim_content c = derived_content confidence \<and> f \<in> froms" if "(f, t, c) \<in> set edges" for f t c
    using edges that by blast
  obtain f t k where key: "key = (f, t, k)" by (cases key)
  have e0: "\<forall>(f, t, c)\<in>set edges. ec_kind c = kind \<and> claim_content c = derived_content confidence" using edges by blast
  note asserted = stands_assert [OF ok a d e0]
  note r1 = retract_spec [OF asserted(1) r]
  show "graph_ok g2" by (rule r1(1))
  show "stands g2 p = stands g p" if "p \<noteq> project"
  proof (rule ext)
    fix x :: edge_key
    obtain a b c where x: "x = (a, b, c)" by (cases x)
    show "stands g2 p x = stands g p x" using that asserted(2) [of p a b c] by (simp add: r1(2) x split: option.split)
  qed
  have "stands g1 project key = (if k = kind \<and> claims f t then Some (derived_content confidence) else stands g project key)"
    using asserted(2) [of project f t k] unfolding key said by (simp only: simp_thms)
  note s1 = this
  have said1: "no_longer_said kind keep key c \<longleftrightarrow> k = kind \<and> f \<in> froms \<and> \<not> claims f t \<and> fst c = Deterministic" for c
    by (simp only: no_longer_said_def key prod.case keep)
  have froms: "claims f t \<Longrightarrow> f \<in> froms" using said e by blast
  obtain held where held: "stands g project key = held" by simp
  have "stands g2 project key = (case stands g1 project key of None \<Rightarrow> None
      | Some c \<Rightarrow> if no_longer_said kind keep key c then None else Some c)" unfolding r1(2) by (simp only: simp_thms)
  also have "\<dots> = restated kind confidence froms claims key held"
    unfolding s1 said1 held unfolding restated_def key prod.case
    using froms by (cases "k = kind"; cases "claims f t"; cases "f \<in> froms"; cases held) (simp_all add: derived_content_def)
  finally show "stands g2 project key = restated kind confidence froms claims key (stands g project key)"
    unfolding held .
qed

lemma added_none: "list_all (\<lambda>a. \<not> is_new a) asserted \<Longrightarrow> added asserted = 0"
  by (simp add: added_def list_all_iff filter_empty_conv)

text \<open>Doing it again, with the claims still what the content says, writes nothing.\<close>

lemma again_then_retract:
  assumes ok: "graph_ok g" and d: "distinct (map key_of edges)"
    and edges: "\<forall>(f, t, c)\<in>set edges. ec_kind c = kind \<and> claim_content c = derived_content confidence \<and> f \<in> froms"
    and keep: "fst ` set keep = froms" "\<And>f t. (\<exists>(h, ts)\<in>set keep. h = f \<and> t \<in> set ts) \<longleftrightarrow> claims f t"
    and said: "\<And>f t. claims f t \<longleftrightarrow> (\<exists>c. (f, t, c) \<in> set edges)"
    and settled: "\<And>key. stands g project key = restated kind confidence froms claims key (stands g0 project key)"
  shows "\<exists>asserted. asserted_edges dg project edges g = Some (g, asserted) \<and> added asserted = 0 \<and>
    retract_derived_all now project kind keep g = (g, 0)"
proof -
  have e: "ec_kind c = kind \<and> claim_content c = derived_content confidence \<and> f \<in> froms" if "(f, t, c) \<in> set edges" for f t c
    using edges that by blast
  have "stands g project (edge_at edges i) = Some (content_at edges i)" if i: "i < length edges" for i
  proof -
    obtain f t c where x: "edges ! i = (f, t, c)" by (cases "edges ! i")
    then have m: "(f, t, c) \<in> set edges" using i nth_mem by metis
    then have "claims f t" using said by blast
    then show ?thesis using settled [of "key_of (f, t, c)"] e [OF m] by (simp add: edge_at_def content_at_def x restated_def)
  qed
  then obtain written where w: "asserted_edges dg project edges g = Some (g, written)" "list_all (\<lambda>a. \<not> is_new a) written"
    using assert_edges_idle [OF ok] unfolding asserted_edges_def by metis
  have "retract_derived_all now project kind keep g = (g, 0)"
  proof (rule retract_idle [OF ok])
    fix key content assume k: "stands g project key = Some content"
    obtain f t l where key: "key = (f, t, l)" by (cases key)
    show "\<not> no_longer_said kind keep key content"
      using k settled [of key] keep(2) [of f t] by (auto simp: no_longer_said_def key keep(1) restated_def split: if_splits option.splits)
  qed
  with w added_none show ?thesis by blast
qed


lemma mention_edges_keys: "key_of ` set (mention_edges (s, ts)) = (\<lambda>t. (st_of s, t, Mentions)) ` set ts"
  by (simp add: mention_edges_def image_image derived_claim_def)

lemma in_mention_edges:
  "(f, t, c) \<in> set (mention_edges (s, ts)) \<longleftrightarrow> f = st_of s \<and> t \<in> set ts \<and> c = derived_claim Mentions (st_id s) MENTION_CONFIDENCE"
  by (auto simp: mention_edges_def)

lemma in_all_mention_edges:
  "(f, t, c) \<in> set (concat (map mention_edges named)) \<longleftrightarrow>
    (\<exists>(s, ts)\<in>set named. f = st_of s \<and> t \<in> set ts \<and> c = derived_claim Mentions (st_id s) MENTION_CONFIDENCE)"
proof -
  have "(f, t, c) \<in> set (concat (map mention_edges named)) \<longleftrightarrow> (\<exists>x\<in>set named. (f, t, c) \<in> set (mention_edges x))" by auto
  also have "\<dots> \<longleftrightarrow> (\<exists>x\<in>set named. (f, t, c) \<in> set (mention_edges (fst x, snd x)))" by simp
  finally show ?thesis unfolding in_mention_edges by (simp add: case_prod_beta)
qed

lemma mention_edges_distinct: "distinct ts \<Longrightarrow> distinct (map key_of (mention_edges (s, ts)))"
  by (simp add: mention_edges_def comp_def derived_claim_def distinct_map inj_on_def)

lemma concat_distinct_keys:
  assumes "distinct (map (st_of \<circ> fst) named)" and "\<forall>(s, ts)\<in>set named. distinct ts"
  shows "distinct (map key_of (concat (map mention_edges named)))"
  using assms
proof (induction named)
  case (Cons x named)
  obtain s ts where x: "x = (s, ts)" by fastforce
  have "key_of ` set (mention_edges x) \<inter> key_of ` set (mention_edges y) = {}" if "y \<in> set named" for y
  proof -
    obtain r us where y: "y = (r, us)" by fastforce
    have "st_of r \<noteq> st_of s" using Cons.prems(1) that x y by force
    then show ?thesis unfolding x y mention_edges_keys by auto
  qed
  then have "key_of ` set (mention_edges x) \<inter> key_of ` set (concat (map mention_edges named)) = {}"
    unfolding set_concat set_map image_UN by blast
  moreover have "distinct (map key_of (concat (map mention_edges named)))" using Cons by simp
  moreover have "distinct (map key_of (mention_edges x))" unfolding x using Cons.prems(2) x by (intro mention_edges_distinct) simp
  ultimately show ?case by simp
qed simp

text \<open>What the memories of a round name, as the spec of what it restates.\<close>

definition state_says :: "(ustr \<Rightarrow> ustr list) \<Rightarrow> ledger \<Rightarrow> project_id \<Rightarrow> topic_state list \<Rightarrow> topic_id \<Rightarrow> topic_id \<Rightarrow> bool" where
  "state_says sequence db project states f t \<longleftrightarrow>
     t \<noteq> f \<and> (\<exists>s\<in>set states. st_of s = f \<and> says sequence db project (st_content s) t)"

lemma named_now_spec:
  fixes sequence db project states
  defines "named \<equiv> named_now sequence project states db"
  defines "edges \<equiv> concat (map mention_edges named)" and "keep \<equiv> map (\<lambda>(s, ts). (st_of s, ts)) named"
  assumes "gives_words sequence" and "names_filed db project" and "distinct (map st_of states)"
  shows "distinct (map key_of edges)"
    and "\<forall>(f, t, c)\<in>set edges. ec_kind c = Mentions \<and> claim_content c = derived_content MENTION_CONFIDENCE \<and> f \<in> st_of ` set states"
    and "fst ` set keep = st_of ` set states"
    and "(\<exists>(h, ts)\<in>set keep. h = f \<and> t \<in> set ts) \<longleftrightarrow> state_says sequence db project states f t"
    and "state_says sequence db project states f t \<longleftrightarrow> (\<exists>c. (f, t, c) \<in> set edges)"
proof -
  note n = named_now_iff [OF assms(4,5), of _ _ states, folded named_def]
  have "map (st_of \<circ> fst) named = map st_of states"
    unfolding named_def using named_now_states by (metis map_map)
  then show "distinct (map key_of edges)"
    unfolding edges_def using assms(6) n(2) by (intro concat_distinct_keys) auto
  show "\<forall>(f, t, c)\<in>set edges. ec_kind c = Mentions \<and> claim_content c = derived_content MENTION_CONFIDENCE \<and> f \<in> st_of ` set states"
  proof (clarify, intro conjI)
    fix f t c assume "(f, t, c) \<in> set edges"
    then obtain s ts where s: "(s, ts) \<in> set named" "f = st_of s" "c = derived_claim Mentions (st_id s) MENTION_CONFIDENCE"
      unfolding edges_def in_all_mention_edges by blast
    then show "ec_kind c = Mentions" "claim_content c = derived_content MENTION_CONFIDENCE" "f \<in> st_of ` set states"
      using n(1) [OF s(1)] by (simp_all add: derived_claim_def [of Mentions] claim_content_def derived_content_def)
  qed
  have st: "fst ` set named = set states" unfolding named_def by (metis list.set_map named_now_states)
  show "fst ` set keep = st_of ` set states"
    unfolding keep_def st [symmetric] by (force simp: image_iff)
  have k: "(\<exists>(h, ts)\<in>set keep. h = f \<and> t \<in> set ts) \<longleftrightarrow> (\<exists>(s, ts)\<in>set named. st_of s = f \<and> t \<in> set ts)"
    unfolding keep_def set_map bex_simps(7) by (rule bex_cong [OF refl]) (simp add: case_prod_beta)
  have m: "(\<exists>(s, ts)\<in>set named. st_of s = f \<and> t \<in> set ts) \<longleftrightarrow> state_says sequence db project states f t"
  proof
    assume "\<exists>(s, ts)\<in>set named. st_of s = f \<and> t \<in> set ts"
    then obtain s ts where s: "(s, ts) \<in> set named" "st_of s = f" "t \<in> set ts" by blast
    then show "state_says sequence db project states f t" using n(1,3) [OF s(1)] by (auto simp: state_says_def)
  next
    assume "state_says sequence db project states f t"
    then obtain s where s: "s \<in> set states" "st_of s = f" "t \<noteq> f" "says sequence db project (st_content s) t"
      by (auto simp: state_says_def)
    then obtain ts where "(s, ts) \<in> set named" using st by (metis imageE prod.collapse)
    then show "\<exists>(s, ts)\<in>set named. st_of s = f \<and> t \<in> set ts" using n(3) s by blast
  qed
  show "(\<exists>(h, ts)\<in>set keep. h = f \<and> t \<in> set ts) \<longleftrightarrow> state_says sequence db project states f t" using k m by simp
  have "(\<exists>c. (f, t, c) \<in> set edges) \<longleftrightarrow> (\<exists>(s, ts)\<in>set named. st_of s = f \<and> t \<in> set ts)"
    unfolding edges_def in_all_mention_edges by blast
  then show "state_says sequence db project states f t \<longleftrightarrow> (\<exists>c. (f, t, c) \<in> set edges)" using m by simp
qed

lemma restate_mentions_spec:
  assumes ok: "graph_ok g" and w: "gives_words sequence" and f: "names_filed db project" and d: "distinct (map st_of states)"
    and r: "restate_mentions sequence dg project states db g = Some (n, g')"
  shows "graph_ok g'"
    and "stands g' project key = restated Mentions MENTION_CONFIDENCE (st_of ` set states) (state_says sequence db project states) key (stands g project key)"
    and "p \<noteq> project \<Longrightarrow> stands g' p = stands g p"
    and "restate_mentions sequence dg' project states db g' = Some (0, g')"
proof -
  let ?named = "named_now sequence project states db"
  let ?edges = "concat (map mention_edges ?named)" and ?keep = "map (\<lambda>(s, ts). (st_of s, ts)) ?named"
  note spec = named_now_spec [OF w f d]
  have "graph_ok g' \<and> (\<forall>key. stands g' project key = restated Mentions MENTION_CONFIDENCE (st_of ` set states)
      (state_says sequence db project states) key (stands g project key)) \<and> (\<forall>p. p \<noteq> project \<longrightarrow> stands g' p = stands g p) \<and>
      restate_mentions sequence dg' project states db g' = Some (0, g')"
  proof (cases "states = []")
    case True
    then have "g' = g" using r by (simp add: restate_mentions_def)
    then show ?thesis using True ok by (auto simp: restate_mentions_def restated_def split: prod.split)
  next
    case False
    obtain g1 asserted where a: "asserted_edges dg project ?edges g = Some (g1, asserted)"
      using r False by (auto simp: restate_mentions_def Let_def split: option.splits)
    obtain g2 m where t: "retract_derived_all (dg_closed_at dg) project Mentions ?keep g1 = (g2, m)" by fastforce
    have g': "g' = g2" using r False a t by (simp add: restate_mentions_def Let_def)
    note s = assert_then_retract [OF ok a t spec(1-5)]
    obtain again where "asserted_edges dg' project ?edges g2 = Some (g2, again)" "added again = 0"
      "retract_derived_all (dg_closed_at dg') project Mentions ?keep g2 = (g2, 0)"
      using again_then_retract [OF s(1) spec(1-5) s(2)] by blast
    then show ?thesis unfolding g' using s False by (simp add: restate_mentions_def Let_def)
  qed
  then show "graph_ok g'" "stands g' project key = restated Mentions MENTION_CONFIDENCE (st_of ` set states)
      (state_says sequence db project states) key (stands g project key)" "p \<noteq> project \<Longrightarrow> stands g' p = stands g p"
    "restate_mentions sequence dg' project states db g' = Some (0, g')" by blast+
qed


section \<open>What sections sit under\<close>

definition sits_under :: "(ustr \<rightharpoonup> named) \<Rightarrow> (ustr \<times> ustr) list \<Rightarrow> topic_id \<Rightarrow> topic_id \<Rightarrow> bool" where
  "sits_under found parents f t \<longleftrightarrow>
     (\<exists>(section, parent)\<in>set parents. \<exists>from to. found section = Some from \<and> found parent = Some to \<and> nm_topic from = f \<and> nm_topic to = t)"

definition section_topics :: "(ustr \<rightharpoonup> named) \<Rightarrow> ustr list \<Rightarrow> topic_id set" where
  "section_topics found sections = {nm_topic n | n section. section \<in> set sections \<and> found section = Some n}"

lemma parent_claim_Some:
  "parent_claim found (section, parent) = Some (f, t, c) \<longleftrightarrow>
    (\<exists>fr to. found section = Some fr \<and> found parent = Some to \<and> f = nm_topic fr \<and> t = nm_topic to \<and>
       c = derived_claim PartOf (nm_current fr) PARENT_CONFIDENCE)"
  by (auto simp: parent_claim_def split: option.split)

lemma in_map_filter: "y \<in> set (List.map_filter h xs) \<longleftrightarrow> (\<exists>x\<in>set xs. h x = Some y)"
  by (induction xs) (auto simp: List.map_filter_simps split: option.splits)

lemma in_parent_claims:
  "(f, t, c) \<in> set (parent_claims found parents) \<longleftrightarrow>
    (\<exists>section parent. (section, parent) \<in> set parents \<and> parent_claim found (section, parent) = Some (f, t, c))"
  unfolding parent_claims_def in_map_filter by auto

lemma sits_under_claims: "sits_under found parents f t \<longleftrightarrow> (\<exists>c. (f, t, c) \<in> set (parent_claims found parents))"
  unfolding sits_under_def in_parent_claims parent_claim_Some by blast

lemma parent_claims_distinct:
  assumes "distinct parents" and inj: "\<forall>a b m n. found a = Some m \<longrightarrow> found b = Some n \<longrightarrow> nm_topic m = nm_topic n \<longrightarrow> a = b"
  shows "distinct (map key_of (parent_claims found parents))"
  using assms(1)
proof (induction parents)
  case (Cons x parents)
  obtain sec parent where x: "x = (sec, parent)" by fastforce
  have IH: "distinct (map key_of (parent_claims found parents))" using Cons by simp
  show ?case
  proof (cases "parent_claim found x")
    case None
    then show ?thesis using IH by (simp add: parent_claims_def List.map_filter_simps)
  next
    case (Some e)
    obtain f t c where e: "e = (f, t, c)" by (cases e)
    note ft = Some [unfolded x e parent_claim_Some]
    have "key_of e \<notin> key_of ` set (parent_claims found parents)"
    proof
      assume "key_of e \<in> key_of ` set (parent_claims found parents)"
      then obtain c' where "(f, t, c') \<in> set (parent_claims found parents)" unfolding e by auto
      then obtain sec' parent' where p: "(sec', parent') \<in> set parents" "parent_claim found (sec', parent') = Some (f, t, c')"
        unfolding in_parent_claims by blast
      then have "sec' = sec" "parent' = parent" using ft inj unfolding parent_claim_Some by metis+
      then show False using p(1) Cons.prems x by simp
    qed
    then show ?thesis using IH Some by (simp add: parent_claims_def List.map_filter_simps)
  qed
qed (simp add: parent_claims_def List.map_filter_simps)

text \<open>The tree the retraction is told to keep holds the sections and what each sits under.\<close>

definition held_in :: "(topic_id, topic_id list) btree_map \<Rightarrow> topic_id \<Rightarrow> topic_id \<Rightarrow> bool" where
  "held_in m f t \<longleftrightarrow> (\<exists>ts. map_of m f = Some ts \<and> t \<in> set ts)"

lemma fold_bt_insert:
  fixes m :: "('k::linorder, 'v list) btree_map"
  assumes "bt_ok m"
  shows "bt_ok (fold (\<lambda>(k, v). bt_insert k v) (map (\<lambda>k. (k, [])) ks) m)"
    and "map_of (fold (\<lambda>(k, v). bt_insert k v) (map (\<lambda>k. (k, [])) ks) m) = (\<lambda>k. if k \<in> set ks then Some [] else map_of m k)"
proof -
  have "bt_ok (fold (\<lambda>(k, v). bt_insert k v) (map (\<lambda>k. (k, [])) ks) m) \<and>
    map_of (fold (\<lambda>(k, v). bt_insert k v) (map (\<lambda>k. (k, [])) ks) m) = (\<lambda>k. if k \<in> set ks then Some [] else map_of m k)"
    using assms
  proof (induction ks arbitrary: m)
    case (Cons k ks)
    from Cons.IH [OF bt_ok_insert [OF Cons.prems]] map_of_bt_insert [OF Cons.prems] show ?case by (auto simp: fun_eq_iff)
  qed simp
  then show "bt_ok (fold (\<lambda>(k, v). bt_insert k v) (map (\<lambda>k. (k, [])) ks) m)"
    "map_of (fold (\<lambda>(k, v). bt_insert k v) (map (\<lambda>k. (k, [])) ks) m) = (\<lambda>k. if k \<in> set ks then Some [] else map_of m k)" by blast+
qed

lemma keep_parent_spec:
  assumes "bt_ok m"
  shows "bt_ok (keep_parent (a, b, c) m)" and "dom (map_of (keep_parent (a, b, c) m)) = insert a (dom (map_of m))"
    and "held_in (keep_parent (a, b, c) m) f t \<longleftrightarrow> held_in m f t \<or> f = a \<and> t = b"
proof -
  show "bt_ok (keep_parent (a, b, c) m)" using assms by (simp add: keep_parent_def)
  have m: "map_of (keep_parent (a, b, c) m) = (map_of m)(a \<mapsto> (case map_of m a of None \<Rightarrow> [] | Some ts \<Rightarrow> ts) @ [b])"
    using map_of_bt_alter [OF assms] by (simp add: keep_parent_def)
  show "dom (map_of (keep_parent (a, b, c) m)) = insert a (dom (map_of m))" unfolding m by simp
  show "held_in (keep_parent (a, b, c) m) f t \<longleftrightarrow> held_in m f t \<or> f = a \<and> t = b"
    unfolding held_in_def m by (cases "map_of m a") auto
qed

lemma keep_claims:
  assumes "bt_ok m"
  shows "bt_ok (fold keep_parent claims m)"
    and "dom (map_of (fold keep_parent claims m)) = fst ` set claims \<union> dom (map_of m)"
    and "held_in (fold keep_parent claims m) f t \<longleftrightarrow> held_in m f t \<or> (\<exists>c. (f, t, c) \<in> set claims)"
proof -
  have "bt_ok (fold keep_parent claims m) \<and> dom (map_of (fold keep_parent claims m)) = fst ` set claims \<union> dom (map_of m) \<and>
    (held_in (fold keep_parent claims m) f t \<longleftrightarrow> held_in m f t \<or> (\<exists>c. (f, t, c) \<in> set claims))"
    using assms
  proof (induction claims arbitrary: m)
    case (Cons x claims)
    obtain a b c where x: "x = (a, b, c)" by (cases x)
    note k = keep_parent_spec [OF Cons.prems, of a b c]
    have f: "fold keep_parent (x # claims) m = fold keep_parent claims (keep_parent (a, b, c) m)" by (simp add: x)
    have "dom (map_of (fold keep_parent (x # claims) m)) = fst ` set (x # claims) \<union> dom (map_of m)"
      using Cons.IH [OF k(1)] unfolding f k(2) by (simp add: x)
    moreover have "held_in (fold keep_parent (x # claims) m) f t \<longleftrightarrow> held_in m f t \<or> (\<exists>c. (f, t, c) \<in> set (x # claims))"
      using Cons.IH [OF k(1)] k(3) [of f t] unfolding f by (simp add: x) blast
    ultimately show ?case using Cons.IH [OF k(1)] unfolding f by blast
  qed simp
  then show "bt_ok (fold keep_parent claims m)" "dom (map_of (fold keep_parent claims m)) = fst ` set claims \<union> dom (map_of m)"
    "held_in (fold keep_parent claims m) f t \<longleftrightarrow> held_in m f t \<or> (\<exists>c. (f, t, c) \<in> set claims)" by blast+
qed

lemma kept_parents_spec:
  assumes "\<forall>(section, parent)\<in>set parents. section \<in> set sections"
  shows "fst ` set (kept_parents found sections parents) = section_topics found sections"
    and "(\<exists>(h, ts)\<in>set (kept_parents found sections parents). h = f \<and> t \<in> set ts) \<longleftrightarrow> sits_under found parents f t"
proof -
  let ?ks = "List.map_filter (\<lambda>section. map_option nm_topic (found section)) sections"
  have m: "List.map_filter (\<lambda>section. map_option (\<lambda>n. (nm_topic n, [])) (found section)) sections = map (\<lambda>k. (k, [])) ?ks"
    by (induction sections) (auto simp: List.map_filter_simps split: option.splits)
  have ks: "set ?ks = section_topics found sections"
  proof (induction sections)
    case (Cons sec sections)
    then show ?case by (cases "found sec") (auto simp: List.map_filter_simps section_topics_def)
  qed (simp add: List.map_filter_simps section_topics_def)
  let ?m = "fold (\<lambda>(k, v). bt_insert k v) (map (\<lambda>k. (k, [])) ?ks) []"
  have kept: "kept_parents found sections parents = fold keep_parent (parent_claims found parents) ?m"
    by (simp add: kept_parents_def bt_from_def m)
  note b = fold_bt_insert [OF bt_ok_Nil, of ?ks]
  note k = keep_claims [OF b(1), of "parent_claims found parents", folded kept]
  have "\<not> held_in ?m f t" unfolding held_in_def b(2) by simp
  then have h: "held_in (kept_parents found sections parents) f t \<longleftrightarrow> sits_under found parents f t"
    using k(3) [of f t] by (simp add: sits_under_claims)
  have "(f, ts) \<in> set (kept_parents found sections parents) \<longleftrightarrow> map_of (kept_parents found sections parents) f = Some ts" for ts
    by (rule bt.entries_lookup [OF k(1)])
  then have "(\<exists>(h, ts)\<in>set (kept_parents found sections parents). h = f \<and> t \<in> set ts) \<longleftrightarrow> held_in (kept_parents found sections parents) f t"
    unfolding held_in_def by blast
  with h show "(\<exists>(h, ts)\<in>set (kept_parents found sections parents). h = f \<and> t \<in> set ts) \<longleftrightarrow> sits_under found parents f t" by simp
  have "fst ` set (kept_parents found sections parents) = dom (map_of (kept_parents found sections parents))"
    by (simp add: dom_map_of_conv_image_fst)
  also have "\<dots> = fst ` set (parent_claims found parents) \<union> section_topics found sections"
    unfolding k(2) b(2) ks [symmetric] by (auto simp: dom_def)
  also have "fst ` set (parent_claims found parents) \<subseteq> section_topics found sections"
  proof
    fix f assume "f \<in> fst ` set (parent_claims found parents)"
    then obtain t c where "(f, t, c) \<in> set (parent_claims found parents)" by force
    then show "f \<in> section_topics found sections"
      using assms unfolding in_parent_claims parent_claim_Some section_topics_def by blast
  qed
  then have "fst ` set (parent_claims found parents) \<union> section_topics found sections = section_topics found sections" by blast
  finally show "fst ` set (kept_parents found sections parents) = section_topics found sections" .
qed


lemma found_names_Some: "found_names rows name = Some n \<Longrightarrow> n \<in> set rows \<and> nm_name n = name"
  by (auto simp: found_names_def dest!: map_of_SomeD)

lemma restate_parents_spec:
  assumes ok: "graph_ok g" and d: "distinct parents" and sub: "\<forall>(sec, parent)\<in>set parents. sec \<in> set sections"
    and rows: "current_named db project (remdups_adj (sort_by text_le (sections @ map snd parents))) = Some rows"
      "inj_on nm_topic (set rows)"
    and r: "restate_parents dg project sections parents db g = Some (n, g')"
  shows "graph_ok g'"
    and "stands g' project key = restated PartOf PARENT_CONFIDENCE (section_topics (found_names rows) sections)
           (sits_under (found_names rows) parents) key (stands g project key)"
    and "p \<noteq> project \<Longrightarrow> stands g' p = stands g p"
    and "restate_parents dg' project sections parents db g' = Some (0, g')"
proof -
  let ?found = "found_names rows"
  let ?edges = "parent_claims ?found parents" and ?keep = "kept_parents ?found sections parents"
  have inj: "\<forall>a b m n. ?found a = Some m \<longrightarrow> ?found b = Some n \<longrightarrow> nm_topic m = nm_topic n \<longrightarrow> a = b"
    using found_names_Some inj_onD [OF rows(2)] by metis
  note spec = parent_claims_distinct [OF d inj] kept_parents_spec [OF sub, of ?found] sits_under_claims [of ?found parents]
  have e: "\<forall>(f, t, c)\<in>set ?edges. ec_kind c = PartOf \<and> claim_content c = derived_content PARENT_CONFIDENCE \<and> f \<in> section_topics ?found sections"
  proof (clarify, intro conjI)
    fix f t c assume m: "(f, t, c) \<in> set ?edges"
    then have c: "\<exists>cause. c = derived_claim PartOf cause PARENT_CONFIDENCE" unfolding in_parent_claims parent_claim_Some by blast
    then show "ec_kind c = PartOf" "claim_content c = derived_content PARENT_CONFIDENCE"
      by (auto simp: derived_claim_def claim_content_def derived_content_def)
    show "f \<in> section_topics ?found sections"
      using m sub unfolding in_parent_claims parent_claim_Some section_topics_def by blast
  qed
  obtain g1 asserted where a: "asserted_edges dg project ?edges g = Some (g1, asserted)"
    using r rows(1) by (auto simp: restate_parents_def Let_def split: option.splits)
  obtain g2 m where t: "retract_derived_all (dg_closed_at dg) project PartOf ?keep g1 = (g2, m)" by fastforce
  have g': "g' = g2" using r rows(1) a t by (simp add: restate_parents_def Let_def)
  note s = assert_then_retract [OF ok a t spec(1) e spec(2-4)]
  obtain again where "asserted_edges dg' project ?edges g2 = Some (g2, again)" "added again = 0"
    "retract_derived_all (dg_closed_at dg') project PartOf ?keep g2 = (g2, 0)"
    using again_then_retract [OF s(1) spec(1) e spec(2-4) s(2)] by blast
  then have again: "restate_parents dg' project sections parents db g2 = Some (0, g2)"
    using rows(1) by (simp add: restate_parents_def Let_def)
  show "graph_ok g'" "p \<noteq> project \<Longrightarrow> stands g' p = stands g p" "restate_parents dg' project sections parents db g' = Some (0, g')"
    "stands g' project key = restated PartOf PARENT_CONFIDENCE (section_topics ?found sections)
           (sits_under ?found parents) key (stands g project key)"
    unfolding g' by (rule s(1), rule s(3), assumption, rule again, rule s(2))
qed

section \<open>What named a topic before it existed\<close>

lemma in_naming_candidates:
  "(f, t, c) \<in> set (naming_candidates sequence found topic name candidates seen) \<Longrightarrow>
    t = topic \<and> f \<noteq> topic \<and> f \<notin> seen \<and> (\<exists>candidate\<in>set candidates. \<exists>s. found candidate = Some s \<and> st_of s = f \<and>
      seg_names (sequence (st_content s)) name \<and> c = derived_claim Mentions (st_id s) MENTION_CONFIDENCE)"
  by (induction candidates arbitrary: seen) (auto split: option.splits if_splits)

lemma naming_candidates_in:
  assumes "\<And>k s. found k = Some s \<Longrightarrow> st_of s = k" and "candidate \<in> set candidates" and "found candidate = Some s"
    and "candidate \<noteq> topic" and "candidate \<notin> seen" and "seg_names (sequence (st_content s)) name"
  shows "\<exists>c. (candidate, topic, c) \<in> set (naming_candidates sequence found topic name candidates seen)"
  using assms(2,5)
proof (induction candidates arbitrary: seen)
  case (Cons k candidates)
  show ?case
  proof (cases "k = candidate")
    case True
    then show ?thesis using assms(1) [OF assms(3)] assms(3,4,6) Cons.prems(2) by auto
  next
    case False
    then have "candidate \<in> set candidates" using Cons.prems by simp
    moreover have "candidate \<noteq> st_of s'" if "found k = Some s'" for s' using assms(1) [OF that] False by simp
    ultimately show ?thesis using Cons.IH Cons.prems(2) by (fastforce split: option.split)
  qed
qed simp

lemma naming_candidates_distinct: "distinct (map key_of (naming_candidates sequence found topic name candidates seen))"
proof (induction candidates arbitrary: seen)
  case (Cons k candidates)
  have "(st_of s, topic, Mentions) \<notin> key_of ` set (naming_candidates sequence found topic name candidates (insert (st_of s) seen))" for s
    using in_naming_candidates [of _ _ _ sequence found topic name candidates "insert (st_of s) seen"] by fastforce
  then show ?case using Cons.IH by (auto simp: derived_claim_def [of Mentions] split: option.split)
qed simp


text \<open>Which memories a backfill links to which topic: the ones its probe returned that name it.\<close>

definition backfilled :: "(ustr \<Rightarrow> ustr list) \<Rightarrow> (topic_id \<rightharpoonup> topic_state) \<Rightarrow> ((topic_id \<times> ustr) \<times> topic_id list) list \<Rightarrow> topic_id \<Rightarrow> topic_id
    \<Rightarrow> bool" where
  "backfilled sequence found probes f t \<longleftrightarrow>
     f \<noteq> t \<and> (\<exists>name candidates s. ((t, name), candidates) \<in> set probes \<and> f \<in> set candidates \<and> found f = Some s \<and>
       seg_names (sequence (st_content s)) (sequence name))"

lemma backfill_edges_spec:
  assumes st: "\<And>k s. found k = Some s \<Longrightarrow> st_of s = k" and d: "distinct (map (fst \<circ> fst) probes)"
  shows "distinct (map key_of (backfill_edges sequence found probes))"
    and "\<forall>(f, t, c)\<in>set (backfill_edges sequence found probes). ec_kind c = Mentions \<and> claim_content c = derived_content MENTION_CONFIDENCE"
    and "(\<exists>c. (f, t, c) \<in> set (backfill_edges sequence found probes)) \<longleftrightarrow> backfilled sequence found probes f t"
proof -
  let ?edges = "\<lambda>x. naming_candidates sequence found (fst (fst x)) (sequence (snd (fst x))) (snd x) {}"
  have b: "backfill_edges sequence found probes = concat (map ?edges probes)" for probes
    unfolding backfill_edges_def by (rule arg_cong [of _ _ concat], rule map_cong) (auto split: prod.split)
  have to: "fst (snd e) = fst (fst x)" if "e \<in> set (?edges x)" for e x
    using in_naming_candidates [of "fst e" "fst (snd e)" "snd (snd e)"] that by (cases e) auto
  show "distinct (map key_of (backfill_edges sequence found probes))"
    using d unfolding b
  proof (induction probes)
    case (Cons x probes)
    have "key_of ` set (?edges x) \<inter> key_of ` set (?edges y) = {}" if "y \<in> set probes" for y
    proof -
      have n: "fst (fst x) \<noteq> fst (fst y)" using Cons.prems that by force
      have key: "fst (snd (key_of e)) = fst (snd e)" for e by (cases e) simp
      show ?thesis
      proof (rule ccontr)
        assume "\<not> ?thesis"
        then obtain a b where "a \<in> set (?edges x)" "b \<in> set (?edges y)" "key_of a = key_of b" by blast
        then show False using to [of a x] to [of b y] n key [of a] key [of b] by simp
      qed
    qed
    then have "key_of ` set (?edges x) \<inter> key_of ` set (concat (map ?edges probes)) = {}"
      unfolding set_concat set_map image_UN by blast
    moreover have "distinct (map key_of (?edges x))" by (rule naming_candidates_distinct)
    moreover have "distinct (map key_of (concat (map ?edges probes)))" using Cons by simp
    ultimately show ?case by simp
  qed simp
  have m: "(f, t, c) \<in> set (backfill_edges sequence found probes) \<longleftrightarrow> (\<exists>x\<in>set probes. (f, t, c) \<in> set (?edges x))" for f t c
    unfolding b by auto
  show "\<forall>(f, t, c)\<in>set (backfill_edges sequence found probes). ec_kind c = Mentions \<and> claim_content c = derived_content MENTION_CONFIDENCE"
  proof (clarify)
    fix f t c assume "(f, t, c) \<in> set (backfill_edges sequence found probes)"
    then obtain x where "(f, t, c) \<in> set (?edges x)" unfolding m by blast
    from in_naming_candidates [OF this] obtain s :: topic_state where "c = derived_claim Mentions (st_id s) MENTION_CONFIDENCE" by blast
    then show "ec_kind c = Mentions \<and> claim_content c = derived_content MENTION_CONFIDENCE"
      by (simp add: derived_claim_def claim_content_def derived_content_def)
  qed
  show "(\<exists>c. (f, t, c) \<in> set (backfill_edges sequence found probes)) \<longleftrightarrow> backfilled sequence found probes f t"
  proof
    assume "\<exists>c. (f, t, c) \<in> set (backfill_edges sequence found probes)"
    then obtain c x where x: "x \<in> set probes" "(f, t, c) \<in> set (?edges x)" unfolding m by blast
    obtain u name candidates where xe: "x = ((u, name), candidates)" by (metis prod.collapse)
    note n = in_naming_candidates [OF x(2)]
    then obtain k s where k: "k \<in> set candidates" "found k = Some s" "st_of s = f" "seg_names (sequence (st_content s)) (sequence name)"
      unfolding xe by auto
    moreover have "k = f" using st [OF k(2)] k(3) by simp
    ultimately show "backfilled sequence found probes f t" using n x(1) unfolding backfilled_def xe by auto
  next
    assume "backfilled sequence found probes f t"
    then obtain name candidates s where p: "f \<noteq> t" "((t, name), candidates) \<in> set probes" "f \<in> set candidates" "found f = Some s"
      "seg_names (sequence (st_content s)) (sequence name)" unfolding backfilled_def by blast
    then have "\<exists>c. (f, t, c) \<in> set (?edges ((t, name), candidates))"
      using naming_candidates_in [of found f candidates s t "{}" sequence "sequence name", OF st p(3,4,1) _ p(5)] by simp
    then show "\<exists>c. (f, t, c) \<in> set (backfill_edges sequence found probes)" using p(2) unfolding m by blast
  qed
qed


end
