(* ===== verification/Engine_Derive_Sound.thy ===== *)
theory Engine_Derive_Sound
  imports Engine_Derive Engine_Write_Sound
begin

text \<open>
  What deriving edges promises: a restatement leaves standing exactly what the content says, done twice
  it writes nothing, and a backfill links nothing a restatement of that memory would not.
\<close>

section \<open>One state per topic\<close>

lemma current_row_topic:
  assumes ok: "ledger_ok db" and t: "t \<in> set (l_topics db)" and r: "current_row db t = Some r"
  shows "ts_topic r = tp_id t"
proof -
  obtain s where s: "tp_current t = Some s" "find (\<lambda>r. ts_id r = s) (l_states db) = Some r"
    using r by (auto simp: current_row_def split: option.splits)
  obtain r' where n: "ts_id r' = s" "r' \<in> set (l_states db)" "ts_topic r' = tp_id t" by (rule pointer_state [OF ok t s(1)])
  have f: "r \<in> set (l_states db)" "ts_id r = s" using find_SomeD [OF s(2)] by simp_all
  have "distinct (map ts_id (l_states db))" using ledger_okD(4) [OF ok] by (simp add: states_ok_def)
  then have "r = r'" using n(1,2) f by (metis distinct_map inj_onD)
  then show ?thesis using n(3) by simp
qed

lemma those_map_filter_keys:
  assumes "those (map g (List.map_filter h ts)) = Some ys"
    and "\<And>t x y. t \<in> set ts \<Longrightarrow> h t = Some x \<Longrightarrow> g x = Some y \<Longrightarrow> k y = j t" and "distinct (map j ts)"
  shows "distinct (map k ys) \<and> k ` set ys \<subseteq> j ` set ts"
  using assms
proof (induction ts arbitrary: ys)
  case (Cons t ts)
  show ?case
  proof (cases "h t")
    case None
    then show ?thesis using Cons by (auto simp: List.map_filter_simps)
  next
    case (Some x)
    then obtain y zs where y: "g x = Some y" "those (map g (List.map_filter h ts)) = Some zs" "ys = y # zs"
      using Cons.prems(1) by (auto simp: List.map_filter_simps split: option.splits)
    have "k y = j t" using Cons.prems(2) [of t x y] Some y(1) by simp
    then show ?thesis using Cons.IH [OF y(2)] Cons.prems(2,3) y(3) by auto
  qed
qed (simp add: List.map_filter_simps)

lemma current_states_topics:
  assumes ok: "ledger_ok db" and c: "current_states_of db project topics = Some states"
  shows "distinct (map st_of states)" and "st_of ` set states \<subseteq> set topics"
proof -
  let ?ts = "filter (\<lambda>t. tp_project t = project \<and> tp_id t \<in> set topics) (l_topics db)"
  have "distinct (map st_of states) \<and> st_of ` set states \<subseteq> set topics"
  proof (cases "topics = []")
    case True
    then show ?thesis using c by (simp add: current_states_of_def current_states_named_def)
  next
    case False
    let ?h = "\<lambda>t. case current_row db t of None \<Rightarrow> None | Some r \<Rightarrow> map_option (Pair (tp_name t)) (span_joins db r)"
    let ?g = "\<lambda>(name, x). map_option (Pair name) (row_to_topic_state x)"
    obtain ys where ys: "those (map ?g (List.map_filter ?h ?ts)) = Some ys" "states = map snd ys"
      using c False by (auto simp: current_states_of_def current_states_named_def)
    have key: "st_of (snd y) = tp_id t" if t: "t \<in> set ?ts" and h: "?h t = Some x" and g: "?g x = Some y" for t x y
    proof -
      obtain r z where r: "current_row db t = Some r" "span_joins db r = Some z" "x = (tp_name t, z)"
        using h by (auto split: option.splits)
      then obtain st where st: "row_to_topic_state z = Some st" "y = (tp_name t, st)" using g by auto
      have "fst z = r" using r(2) by (auto simp: span_joins_def split: option.splits)
      then have "st_of st = ts_topic r" using st(1) by (auto simp: row_to_topic_state_def split: prod.splits)
      then show ?thesis using current_row_topic [OF ok _ r(1)] t st(2) by simp
    qed
    have d: "distinct (map tp_id ?ts)" using ledger_okD(3) [OF ok] by (simp add: topics_ok_def distinct_map_filter)
    have "distinct (map (\<lambda>y. st_of (snd y)) ys) \<and> (\<lambda>y. st_of (snd y)) ` set ys \<subseteq> tp_id ` set ?ts"
      by (rule those_map_filter_keys [OF ys(1) key d])
    then show ?thesis unfolding ys(2) by (auto simp: comp_def)
  qed
  then show "distinct (map st_of states)" "st_of ` set states \<subseteq> set topics" by simp_all
qed

lemma map_of_rev: "distinct (map fst ps) \<Longrightarrow> map_of (rev ps) = map_of ps"
proof (induction ps)
  case (Cons p ps)
  then have "map_of ps (fst p) = None" by (simp add: map_of_eq_None_iff)
  then have "map_of [p] ++ map_of ps = map_of (p # ps)" by (cases p) (auto simp: fun_eq_iff map_add_def split: option.split)
  then show ?case using Cons by simp
qed simp

section \<open>Samples\<close>

definition naming_call :: "(verdict \<times> recorded) option \<times> engine" where
  "naming_call = remember sample_surroundings (sample_minted 2) 7 (lit ''water'') (lit ''it freezes at zero degrees'') ALWAYS
     (eg_ledger (snd sample_remembered)) (snd sample_remembered)"

definition naming_ledger :: ledger where
  "naming_ledger = eg_ledger (snd naming_call)"

definition naming_deriving :: "uuid \<Rightarrow> deriving" where
  "naming_deriving n = \<lparr>dg_asserted_at = 5, dg_relationship = (\<lambda>k. n + word_of_nat k), dg_version = (\<lambda>k. n + word_of_nat k), dg_closed_at = 6\<rparr>"

definition naming_graph :: graph_db where
  "naming_graph = \<lparr>g_topics = [TopicId 1, TopicId 2], relationships = [], versions = []\<rparr>"

definition naming_states :: "topic_state list" where
  "naming_states = the (current_states_of naming_ledger 7 [TopicId 1])"

definition naming_restated :: "(nat \<times> graph_db) option" where
  "naming_restated = restate_mentions split_whitespace (naming_deriving 100) 7 naming_states naming_ledger naming_graph"

definition naming_backfilled :: "(nat \<times> graph_db) option" where
  "naming_backfilled = backfill_all split_whitespace (\<lambda>_ _. Some [TopicId 1]) (naming_deriving 100) 7 [(TopicId 2, lit ''water'')]
     naming_ledger naming_graph"

definition naming_facts :: "ledger \<Rightarrow> (project_id \<times> topic_id \<times> ustr \<times> int) list \<times> topic_id list option \<times> nat option \<times> nat option" where
  "naming_facts db = (map (\<lambda>n. (nt_project n, nt_topic n, nt_key n, nt_tokens n)) (l_names db),
     map_option (map st_of) (current_states_of db 7 [TopicId 1]),
     map_option fst (restate_mentions split_whitespace (naming_deriving 100) 7 (the (current_states_of db 7 [TopicId 1])) db naming_graph),
     map_option fst (backfill_all split_whitespace (\<lambda>_ _. Some [TopicId 1]) (naming_deriving 100) 7 [(TopicId 2, lit ''water'')] db naming_graph))"

lemma naming_evaluated:
  "(case naming_call of (r, e) \<Rightarrow> (r \<noteq> None, naming_facts (eg_ledger e))) =
    (True, [(7, TopicId 1, lit ''w'', 1), (7, TopicId 2, lit ''water'', 1)], Some [TopicId 1], Some 1, Some 1)"
  by code_simp

lemma naming_call_some: "fst naming_call \<noteq> None"
  and naming_names: "map (\<lambda>n. (nt_project n, nt_topic n, nt_key n, nt_tokens n)) (l_names naming_ledger) = [(7, TopicId 1, lit ''w'', 1), (7, TopicId 2, lit ''water'', 1)]"
  and naming_states: "map_option (map st_of) (current_states_of naming_ledger 7 [TopicId 1]) = Some [TopicId 1]"
  and naming_restated_one: "map_option fst naming_restated = Some 1"
  and naming_backfilled_one: "map_option fst naming_backfilled = Some 1"
  using naming_evaluated
  by (simp_all only: naming_facts_def case_prod_beta prod.inject eq_True not_False_eq_True naming_ledger_def naming_restated_def naming_backfilled_def naming_states_def)

lemma naming_reachable: "reachable_ledger naming_ledger"
proof -
  obtain v r where "naming_call = (Some (v, r), snd naming_call)" using naming_call_some by (metis not_None_eq prod.collapse)
  then have "engine_step sample_surroundings 7 (snd sample_remembered) (snd naming_call)"
    unfolding naming_call_def by (rule engine_step.remembered)
  then show ?thesis
    using engine_step_refines [OF _ reachable_okI [OF sample_remembered_reachable]] ledger_steps_reachable sample_remembered_reachable
    unfolding naming_ledger_def by blast
qed

lemma naming_filed: "names_filed naming_ledger 7"
proof -
  have w: "is_word (lit ''w'')" "is_word (lit ''water'')" by code_simp+
  have "nt_tokens n = 1 \<and> is_word (nt_key n)" if "n \<in> set (l_names naming_ledger)" for n
  proof -
    have "(nt_project n, nt_topic n, nt_key n, nt_tokens n) \<in> set [(7, TopicId 1, lit ''w'', 1), (7, TopicId 2, lit ''water'', 1)]"
      unfolding naming_names [symmetric] using that by auto
    then have "nt_key n = lit ''w'' \<or> nt_key n = lit ''water''" "nt_tokens n = 1" by auto
    then show ?thesis using w by (elim disjE) simp_all
  qed
  then have "(\<forall>w\<in>set [nt_key n]. is_word w) \<and> nt_key n = joined [nt_key n] \<and> nt_tokens n = int (length [nt_key n])"
    if "n \<in> set (l_names naming_ledger)" for n using that by (simp add: joined_def)
  then show ?thesis unfolding names_filed_def by blast
qed

lemma split_gives_words: "gives_words split_whitespace"
  by (auto simp: gives_words_def split_whitespace_words)

lemma naming_states_some: "current_states_of naming_ledger 7 [TopicId 1] = Some naming_states"
  using naming_states by (cases "current_states_of naming_ledger 7 [TopicId 1]") (simp_all add: naming_states_def)

lemma naming_graph_ok: "graph_ok naming_graph"
  unfolding naming_graph_def by (rule reachable_graph_okI [OF reachable_graph.empty])

lemma naming_restated_result: "restate_mentions split_whitespace (naming_deriving 100) 7 naming_states naming_ledger naming_graph
    = Some (1, snd (the naming_restated))"
  using naming_restated_one unfolding naming_restated_def
  by (cases "restate_mentions split_whitespace (naming_deriving 100) 7 naming_states naming_ledger naming_graph") auto

section \<open>Properties\<close>



text \<open>
  C14: a handler is safe to run twice: restating mentions again, at any later time, with the ledger as it
  was, writes nothing and reports nothing added.
\<close>

theorem restating_twice_writes_nothing:
  assumes "reachable_ledger db" and "graph_ok g" and "gives_words sequence" and "names_filed db project"
    and "current_states_of db project topics = Some states"
    and "restate_mentions sequence dg project states db g = Some (n, g')"
  shows "restate_mentions sequence dg' project states db g' = Some (0, g')"
  by (rule restate_mentions_spec(4) [OF assms(2-4) current_states_topics(1) [OF reachable_okI [OF assms(1)] assms(5)] assms(6)])


theorem restating_twice_writes_nothing_witness:
  "restate_mentions split_whitespace (naming_deriving 200) 7 naming_states naming_ledger (snd (the naming_restated))
     = Some (0, snd (the naming_restated))"
  by (rule restating_twice_writes_nothing [OF naming_reachable naming_graph_ok split_gives_words naming_filed naming_states_some
        naming_restated_result])

text \<open>
  C15: backfilling a new topic links to it exactly the memories its probe returned whose current content
  names it, itself excepted, changes no other edge, and never adds an edge that restating that memory
  would not add: the topic is filed under the name the backfill looks for.
\<close>

theorem backfill_correct:
  assumes "reachable_ledger db" and "graph_ok g" and "distinct (map fst topics)"
    and "those (map (\<lambda>(_, name). recall name BACKFILL_CANDIDATES) topics) = Some candidates"
    and "current_states_of db project (remdups_adj (sort (concat candidates))) = Some states"
    and "backfill_all sequence recall dg project topics db g = Some (n, g')"
    and "\<forall>(t, name)\<in>set topics. \<exists>m\<in>set (l_names db). nt_project m = project \<and> nt_topic m = t \<and> nt_key m = joined (sequence name)"
  shows "graph_ok g' \<and> (\<forall>p f t k. stands g' p (f, t, k) =
      (if p = project \<and> k = Mentions \<and> backfilled sequence (map_of (map (\<lambda>s. (st_of s, s)) states)) (zip topics candidates) f t
       then Some (derived_content MENTION_CONFIDENCE) else stands g p (f, t, k))) \<and>
    (\<forall>f t. backfilled sequence (map_of (map (\<lambda>s. (st_of s, s)) states)) (zip topics candidates) f t
       \<longrightarrow> state_says sequence db project states f t)"
proof -
  let ?found = "map_of (map (\<lambda>s. (st_of s, s)) states)" and ?probes = "zip topics candidates"
  note st = current_states_topics(1) [OF reachable_okI [OF assms(1)] assms(5)]
  have found: "s \<in> set states \<and> st_of s = k" if "?found k = Some s" for k s
    using map_of_SomeD [OF that] by auto
  have rev: "map_of (rev (map (\<lambda>s. (st_of s, s)) states)) = ?found"
    using st by (intro map_of_rev) (simp add: comp_def)
  have len: "length candidates = length topics" using arg_cong [OF conjunct1 [OF those_map_Some [OF assms(4)]], of length] by simp
  have d: "distinct (map (fst \<circ> fst) ?probes)"
    using assms(3) len by (metis map_fst_zip map_map)
  have saysI: "state_says sequence db project states f t" if b: "backfilled sequence ?found ?probes f t" for f t
  proof -
    from b obtain name c s where n: "f \<noteq> t" "((t, name), c) \<in> set ?probes" "?found f = Some s" "seg_names (sequence (st_content s)) (sequence name)"
      by (auto simp: backfilled_def)
    have "(t, name) \<in> set topics" by (rule set_zip_leftD [OF n(2)])
    then have "says sequence db project (st_content s) t" using assms(7) n(4) unfolding says_def by blast
    then show ?thesis using found [OF n(3)] n(1) by (auto simp: state_says_def)
  qed
  show ?thesis
  proof (cases "topics = []")
    case True
    then have "g' = g" using assms(6) by (simp add: backfill_all_def)
    then show ?thesis using assms(2) True by (simp add: backfilled_def)
  next
    case False
    let ?edges = "backfill_edges sequence ?found ?probes"
    obtain asserted where a: "asserted_edges dg project ?edges g = Some (g', asserted)"
      using assms(4-6) False rev by (auto simp: backfill_all_def Let_def)
    have key: "st_of s = k" if "?found k = Some s" for k s using found [OF that] by simp
    note b1 = backfill_edges_spec(1) [where found = ?found and sequence = sequence, OF key d]
    note b2 = backfill_edges_spec(2) [where found = ?found and sequence = sequence, OF key d]
    have b3: "(\<exists>c. (f, t, c) \<in> set ?edges) = backfilled sequence ?found ?probes f t" for f t
      by (rule backfill_edges_spec(3) [OF key d])
    show ?thesis using stands_assert [OF assms(2) a b1 b2] saysI unfolding b3 by blast
  qed
qed

theorem backfill_correct_witness:
  "graph_ok (snd (the naming_backfilled)) \<and>
   stands (snd (the naming_backfilled)) 7 (TopicId 1, TopicId 2, Mentions) =
     (if backfilled split_whitespace (map_of (map (\<lambda>s. (st_of s, s)) naming_states)) [((TopicId 2, lit ''water''), [TopicId 1])] (TopicId 1) (TopicId 2)
      then Some (derived_content MENTION_CONFIDENCE) else None)"
proof -
  let ?recall = "\<lambda>(_ :: ustr) (_ :: nat). Some [TopicId 1]" and ?topics = "[(TopicId 2, lit ''water'')]"
  have b: "backfill_all split_whitespace ?recall (naming_deriving 100) 7 ?topics naming_ledger naming_graph = Some (1, snd (the naming_backfilled))"
    using naming_backfilled_one unfolding naming_backfilled_def
    by (cases "backfill_all split_whitespace ?recall (naming_deriving 100) 7 ?topics naming_ledger naming_graph") auto
  have "(7, TopicId 2, lit ''water'', 1) \<in> set (map (\<lambda>n. (nt_project n, nt_topic n, nt_key n, nt_tokens n)) (l_names naming_ledger))"
    unfolding naming_names by simp
  then obtain m where m: "m \<in> set (l_names naming_ledger)" "nt_project m = 7" "nt_topic m = TopicId 2" "nt_key m = lit ''water''" by auto
  have "joined (split_whitespace (lit ''water'')) = lit ''water''" by code_simp
  with m have n: "\<forall>(t, name)\<in>set ?topics. \<exists>m\<in>set (l_names naming_ledger). nt_project m = 7 \<and> nt_topic m = t \<and> nt_key m = joined (split_whitespace name)"
    by auto
  have c: "those (map (\<lambda>(_, name). ?recall name BACKFILL_CANDIDATES) ?topics) = Some [[TopicId 1]]" by simp
  have "remdups_adj (sort (concat [[TopicId 1]])) = [TopicId 1]" by simp
  with naming_states_some have st: "current_states_of naming_ledger 7 (remdups_adj (sort (concat [[TopicId 1]]))) = Some naming_states" by simp
  have "stands naming_graph 7 key = None" for key by (simp add: naming_graph_def stands_def live_row_def)
  then show ?thesis using backfill_correct [OF naming_reachable naming_graph_ok _ c st b n] by simp
qed

text \<open>
  A mention somebody asserted is not kept apart from what content says: restating a memory that names the
  topic turns the assertion into a derived claim, and the restatement after the content stops naming it
  closes it (\<open>retract_derived_all\<close> spares asserted edges, but this one no longer is).
\<close>

lemma asserted_mention_is_taken_over:
  assumes "graph_ok g" and "gives_words sequence" and "names_filed db project" and "names_filed db' project"
    and "distinct (map st_of states)" and "distinct (map st_of states')"
    and "stands g project (f, t, Mentions) = Some (Explicit, 1, ALWAYS)" and "state_says sequence db project states f t"
    and "restate_mentions sequence dg project states db g = Some (n, g1)"
    and "f \<in> st_of ` set states'" and "\<not> state_says sequence db' project states' f t"
    and "restate_mentions sequence dg' project states' db' g1 = Some (m, g2)"
  shows "stands g1 project (f, t, Mentions) = Some (Deterministic, 1 / 2, ALWAYS)" and "stands g2 project (f, t, Mentions) = None"
proof -
  note r = restate_mentions_spec [OF assms(1-3,5,9)]
  have "f \<in> st_of ` set states" using assms(8) by (auto simp: state_says_def)
  then show 1: "stands g1 project (f, t, Mentions) = Some (Deterministic, 1 / 2, ALWAYS)"
    using r(2) [of "(f, t, Mentions)"] assms(8) by (simp add: restated_def derived_content_def MENTION_CONFIDENCE_def)
  show "stands g2 project (f, t, Mentions) = None"
    using restate_mentions_spec(2) [OF r(1) assms(2,4,6,12), of "(f, t, Mentions)"] 1 assms(10,11) by (simp add: restated_def)
qed

end
