(* ===== verification/F64.thy ===== *)
theory F64
  imports F32
begin

text \<open>
  Rust's \<open>f64\<close> for the numbers the program computes in it, quotients of counts and blends of scores: the
  nearest double of a rational, ties to even, from the same \<open>round_even\<close> and \<open>exponent\<close> as \<open>f32\<close>.
\<close>

definition grain64 :: "rat \<Rightarrow> int" where
  "grain64 x = max (exponent x - 52) (- 1074)"

definition rnd64_pos :: "rat \<Rightarrow> rat" where
  "rnd64_pos x = (let q = pow2 (grain64 x) in of_int (round_even (x / q)) * q)"

definition rnd64 :: "rat \<Rightarrow> rat" where
  "rnd64 x = (if x = 0 then 0 else if 0 < x then rnd64_pos x else - rnd64_pos (- x))"

lemma rnd64_pos_le: "x \<le> of_int n * pow2 (grain64 x) \<Longrightarrow> rnd64_pos x \<le> of_int n * pow2 (grain64 x)"
  unfolding rnd64_pos_def Let_def
  by (intro mult_right_mono) (simp_all add: round_even_le_of_int pos_divide_le_eq less_imp_le)

lemma le_rnd64_pos: "of_int n * pow2 (grain64 x) \<le> x \<Longrightarrow> of_int n * pow2 (grain64 x) \<le> rnd64_pos x"
  unfolding rnd64_pos_def Let_def
  by (intro mult_right_mono) (simp_all add: of_int_le_round_even pos_le_divide_eq less_imp_le)

lemma rnd64_pos_le_pow2: "grain64 x \<le> e \<Longrightarrow> x \<le> pow2 e \<Longrightarrow> rnd64_pos x \<le> pow2 e"
  using rnd64_pos_le [of x "2 ^ nat (e - grain64 x)"] pow2_multiple [of "grain64 x" e] by simp

lemma pow2_le_rnd64_pos: "grain64 x \<le> e \<Longrightarrow> pow2 e \<le> x \<Longrightarrow> pow2 e \<le> rnd64_pos x"
  using le_rnd64_pos [of "2 ^ nat (e - grain64 x)" x] pow2_multiple [of "grain64 x" e] by simp

lemma rnd64_pos_nonneg: "0 < x \<Longrightarrow> 0 \<le> rnd64_pos x"
  using le_rnd64_pos [of 0 x] by simp

lemma rnd64_pos_mono: "0 < x \<Longrightarrow> x \<le> y \<Longrightarrow> rnd64_pos x \<le> rnd64_pos y"
proof -
  assume x: "0 < x" and xy: "x \<le> y"
  have g: "grain64 x \<le> grain64 y" using exponent_mono [OF x xy] by (auto simp: grain64_def)
  show ?thesis
  proof (cases "grain64 x = grain64 y")
    case True
    then show ?thesis using xy unfolding rnd64_pos_def Let_def
      by (auto intro!: mult_right_mono round_even_mono divide_right_mono simp: less_imp_le)
  next
    case False
    then have gy: "grain64 y = exponent y - 52" and e: "exponent x < exponent y"
      using g exponent_mono [OF x xy] by (auto simp: grain64_def)
    have "x \<le> pow2 (exponent y)"
      using exponent_bounds(2) [OF x] pow2_mono [of "exponent x + 1" "exponent y"] e by linarith
    then have "rnd64_pos x \<le> pow2 (exponent y)"
      by (rule rnd64_pos_le_pow2 [rotated]) (use g gy in linarith)
    also have "\<dots> \<le> rnd64_pos y"
      using exponent_bounds(1) [of y] x xy gy by (intro pow2_le_rnd64_pos) auto
    finally show ?thesis .
  qed
qed

lemma rnd64_mono: "x \<le> y \<Longrightarrow> rnd64 x \<le> rnd64 y"
proof -
  assume "x \<le> y"
  then consider "x = y" | "0 < x" | "x \<le> 0" "0 \<le> y" | "y < 0" by linarith
  then show ?thesis
  proof cases
    case 2
    then show ?thesis using \<open>x \<le> y\<close> by (simp add: rnd64_def rnd64_pos_mono)
  next
    case 3
    then show ?thesis using rnd64_pos_nonneg [of y] rnd64_pos_nonneg [of "- x"] by (auto simp: rnd64_def)
  next
    case 4
    then show ?thesis using \<open>x \<le> y\<close> rnd64_pos_mono [of "- y" "- x"] by (simp add: rnd64_def)
  qed simp
qed

lemma rnd64_zero [simp]: "rnd64 0 = 0"
  by (simp add: rnd64_def)

lemma rnd64_one [simp]: "rnd64 1 = 1"
proof -
  have "exponent 1 = 0" by (rule exponent_unique) (simp_all add: pow2_def)
  then have "grain64 1 \<le> 0" by (simp add: grain64_def)
  then have "rnd64_pos 1 \<le> pow2 0" "pow2 0 \<le> rnd64_pos 1"
    by (rule rnd64_pos_le_pow2, simp add: pow2_def) (rule pow2_le_rnd64_pos, use \<open>grain64 1 \<le> 0\<close> in \<open>simp_all add: pow2_def\<close>)
  then show ?thesis by (simp add: rnd64_def pow2_def)
qed

end
