(* ===== verification/Index_Text.thy ===== *)
theory Index_Text
  imports RText
begin

text \<open>
  Text and the ranges cut out of it, shared by the cuts of \<open>crates/index/src/spans.rs\<close> and
  \<open>crates/index/src/sections.rs\<close>. A position is the number of characters before it: every position
  the code computes is the edge of a character, so it names the same place as the byte offset, which
  \<open>byte_at\<close> gives. \<open>tiles\<close> says a list of ranges lies in order inside a stretch of text and
  leaves nothing out but whitespace; it is what both cuts keep from their first step to their last.
\<close>

type_synonym text_range = "nat \<times> nat"

definition slice :: "ustr \<Rightarrow> text_range \<Rightarrow> ustr" where
  "slice content r = take (snd r - fst r) (drop (fst r) content)"

definition byte_at :: "ustr \<Rightarrow> nat \<Rightarrow> nat" where
  "byte_at content n = byte_len (take n content)"

definition blank :: "ustr \<Rightarrow> bool" where
  "blank line \<longleftrightarrow> trim_str line = []"

definition trim_range :: "ustr \<Rightarrow> text_range \<Rightarrow> text_range" where
  "trim_range content r =
     (let text = slice content r;
          start = fst r + (length text - length (trim_start text))
      in (start, max (fst r + length (trim_end text)) start))"

text \<open>\<open>str::split('\\n')\<close> by where the pieces lie, the first beginning at \<open>start\<close>.\<close>

fun split_lines :: "nat \<Rightarrow> nat \<Rightarrow> ustr \<Rightarrow> text_range list" where
  "split_lines start here [] = [(start, here)]"
| "split_lines start here (c # cs) =
     (if c = 10 then (start, here) # split_lines (here + 1) (here + 1) cs else split_lines start (here + 1) cs)"

text \<open>\<open>str::split_once\<close> on a character.\<close>

definition split_once :: "uchar \<Rightarrow> ustr \<Rightarrow> (ustr \<times> ustr) option" where
  "split_once c s = (if c \<in> set s then Some (takeWhile (\<lambda>x. x \<noteq> c) s, tl (dropWhile (\<lambda>x. x \<noteq> c) s)) else None)"

text \<open>\<open>str::strip_prefix\<close>, \<open>str::strip_suffix\<close> on a character, \<open>str::split\<close> on a character.\<close>

definition strip_prefix :: "ustr \<Rightarrow> ustr \<Rightarrow> ustr option" where
  "strip_prefix prefix s = (if starts_with s prefix then Some (drop (length prefix) s) else None)"

definition without_first :: "uchar \<Rightarrow> ustr \<Rightarrow> ustr" where
  "without_first c s = (if s \<noteq> [] \<and> hd s = c then tl s else s)"

definition without_last :: "uchar \<Rightarrow> ustr \<Rightarrow> ustr" where
  "without_last c s = (if s \<noteq> [] \<and> last s = c then butlast s else s)"

fun split_on :: "uchar \<Rightarrow> ustr \<Rightarrow> ustr list" where
  "split_on c [] = [[]]"
| "split_on c (x # xs) =
     (if x = c then [] # split_on c xs
      else case split_on c xs of [] \<Rightarrow> [[x]] | y # ys \<Rightarrow> (x # y) # ys)"

definition is_ascii_digit :: "uchar \<Rightarrow> bool" where
  "is_ascii_digit c \<longleftrightarrow> 48 \<le> c \<and> c \<le> 57"

definition ascii_lower :: "uchar \<Rightarrow> uchar" where
  "ascii_lower c = (if 65 \<le> c \<and> c \<le> 90 then c + 32 else c)"

section \<open>The characters that are not whitespace\<close>

definition ink :: "ustr \<Rightarrow> ustr" where
  "ink s = filter (\<lambda>c. \<not> is_whitespace c) s"

lemma ink_Nil [simp]: "ink [] = []" and ink_append [simp]: "ink (xs @ ys) = ink xs @ ink ys"
  by (simp_all add: ink_def)

lemma ink_eq_Nil: "ink s = [] \<longleftrightarrow> (\<forall>c\<in>set s. is_whitespace c)"
  by (auto simp: ink_def filter_empty_conv)

lemma ink_dropWhile [simp]: "ink (dropWhile is_whitespace s) = ink s"
  by (induction s) (simp_all add: ink_def)

lemma ink_rev: "ink (rev s) = rev (ink s)"
  by (simp add: ink_def rev_filter)

lemma ink_trim_start [simp]: "ink (trim_start s) = ink s"
  and ink_trim_end [simp]: "ink (trim_end s) = ink s"
  and ink_trim [simp]: "ink (trim_str s) = ink s"
  by (simp_all add: trim_start_def trim_end_def trim_str_def ink_rev)

lemma trim_str_eq_Nil: "trim_str s = [] \<longleftrightarrow> ink s = []"
proof -
  have "trim_start s = [] \<longleftrightarrow> ink s = []" by (simp add: trim_start_def dropWhile_eq_Nil_conv ink_eq_Nil)
  moreover have "trim_end s = [] \<longleftrightarrow> ink s = []" for s by (simp add: trim_end_def dropWhile_eq_Nil_conv ink_eq_Nil)
  ultimately show ?thesis by (simp add: trim_str_def)
qed

lemma blank_iff: "blank s \<longleftrightarrow> ink s = []"
  by (simp add: blank_def trim_str_eq_Nil)

lemma trim_end_append: "\<exists>w. s = trim_end s @ w \<and> ink w = []"
proof (intro exI conjI)
  let ?w = "rev (takeWhile is_whitespace (rev s))"
  have "rev s = takeWhile is_whitespace (rev s) @ dropWhile is_whitespace (rev s)" by simp
  then show "s = trim_end s @ ?w" unfolding trim_end_def by (metis rev_append rev_rev_ident)
  show "ink ?w = []" by (auto simp: ink_eq_Nil dest: set_takeWhileD)
qed

lemma trim_start_append: "\<exists>w. s = w @ trim_start s \<and> ink w = []"
proof (intro exI conjI)
  show "s = takeWhile is_whitespace s @ trim_start s" by (simp add: trim_start_def)
  show "ink (takeWhile is_whitespace s) = []" by (auto simp: ink_eq_Nil dest: set_takeWhileD)
qed

section \<open>Slices\<close>

lemma slice_empty [simp]: "slice content (a, a) = []"
  by (simp add: slice_def)

lemma slice_all [simp]: "slice content (0, length content) = content"
  by (simp add: slice_def)

lemma length_slice: "snd r \<le> length content \<Longrightarrow> length (slice content r) = snd r - fst r"
  by (simp add: slice_def)

lemma length_slice_le: "length (slice content r) \<le> snd r - fst r"
  by (simp add: slice_def)

lemma slice_split: "a \<le> b \<Longrightarrow> b \<le> d \<Longrightarrow> slice content (a, d) = slice content (a, b) @ slice content (b, d)"
  unfolding slice_def fst_conv snd_conv using take_add [of "b - a" "d - b" "drop a content"] by simp

lemma slice_take: "n \<le> snd r - fst r \<Longrightarrow> slice content (fst r, fst r + n) = take n (slice content r)"
  by (simp add: slice_def min_def)

lemma slice_drop: "fst r \<le> snd r \<Longrightarrow> slice content (fst r + n, snd r) = drop n (slice content r)"
  by (simp add: slice_def drop_take add.commute)

lemma slice_of_slice:
  "snd r \<le> length content \<Longrightarrow> b \<le> snd r - fst r \<Longrightarrow> slice (slice content r) (a, b) = slice content (fst r + a, fst r + b)"
  by (simp add: slice_def drop_take add.commute min_def)

section \<open>Ranges that leave out only whitespace\<close>

fun tiles :: "ustr \<Rightarrow> nat \<Rightarrow> nat \<Rightarrow> text_range list \<Rightarrow> bool" where
  "tiles content a b [] \<longleftrightarrow> a \<le> b \<and> ink (slice content (a, b)) = []"
| "tiles content a b (r # rs) \<longleftrightarrow>
     a \<le> fst r \<and> fst r \<le> snd r \<and> ink (slice content (a, fst r)) = [] \<and> tiles content (snd r) b rs"

lemma tiles_le: "tiles content a b rs \<Longrightarrow> a \<le> b"
  by (induction rs arbitrary: a) (auto intro: order_trans)

lemma tiles_extend_left:
  assumes "a \<le> b" and "ink (slice content (a, b)) = []" and "tiles content b d rs"
  shows "tiles content a d rs"
proof (cases rs)
  case Nil
  then show ?thesis using assms slice_split [of a b d content] by simp
next
  case (Cons r rs')
  then show ?thesis using assms slice_split [of a b "fst r" content] by simp
qed

lemma tiles_append: "tiles content a b xs \<Longrightarrow> tiles content b d ys \<Longrightarrow> tiles content a d (xs @ ys)"
  by (induction xs arbitrary: a) (auto intro: tiles_extend_left)

lemma tiles_singleton [simp]: "a \<le> b \<Longrightarrow> tiles content a b [(a, b)]"
  by simp

lemma tiles_ink: "tiles content a b rs \<Longrightarrow> concat (map (\<lambda>r. ink (slice content r)) rs) = ink (slice content (a, b))"
proof (induction rs arbitrary: a)
  case (Cons r rs)
  then have "snd r \<le> b" using tiles_le by auto
  then have "slice content (a, b) = slice content (a, fst r) @ slice content (fst r, snd r) @ slice content (snd r, b)"
    using Cons.prems slice_split [of a "fst r" b content] slice_split [of "fst r" "snd r" b content] by simp
  then show ?case using Cons by simp
qed simp

lemma tiles_refine:
  assumes "tiles content a b rs" and "\<And>r. r \<in> set rs \<Longrightarrow> tiles content (fst r) (snd r) (f r)"
  shows "tiles content a b (concat (map f rs))"
  using assms
proof (induction rs arbitrary: a)
  case (Cons r rs)
  have "tiles content (fst r) (snd r) (f r)" using Cons.prems(2) by simp
  then have "tiles content a (snd r) (f r)" using Cons.prems(1) tiles_extend_left [of a "fst r" content "snd r" "f r"] by simp
  then show ?case using Cons by (auto intro: tiles_append)
qed simp

lemma tiles_concat_Some:
  assumes "tiles content a b (xs @ r # ys)" and "tiles content (fst r) (snd r) zs"
  shows "tiles content a b (xs @ zs @ ys)"
proof -
  have "\<exists>d. tiles content a d xs \<and> tiles content d b ys'" if "tiles content a b (xs @ ys')" for xs ys' a
    using that
  proof (induction xs arbitrary: a)
    case Nil
    then show ?case by (intro exI [of _ a]) auto
  qed auto
  from this [OF assms(1)] obtain d where d: "tiles content a d xs" "tiles content d b (r # ys)" by blast
  then have "tiles content d b (zs @ ys)" using assms(2) by (auto intro: tiles_append tiles_extend_left)
  with d(1) show ?thesis by (rule tiles_append)
qed

lemma tiles_filter:
  assumes "tiles content a b rs" and "\<And>r. r \<in> set rs \<Longrightarrow> \<not> P r \<Longrightarrow> ink (slice content r) = []"
  shows "tiles content a b (filter P rs)"
  using assms
proof (induction rs arbitrary: a)
  case (Cons r rs)
  have t: "tiles content (snd r) b (filter P rs)" using Cons by auto
  show ?case
  proof (cases "P r")
    case False
    have "slice content (a, snd r) = slice content (a, fst r) @ slice content (fst r, snd r)"
      using Cons.prems(1) slice_split [of a "fst r" "snd r" content] by simp
    then have "ink (slice content (a, snd r)) = []" using Cons.prems False by simp
    then show ?thesis using t Cons.prems(1) False tiles_extend_left [of a "snd r" content b] by simp
  qed (use t Cons.prems(1) in simp)
qed simp

lemma tiles_join:
  assumes "tiles content a b (xs @ (p, q) # (r, s) # ys)"
  shows "tiles content a b (xs @ (p, s) # ys)"
  using assms
proof (induction xs arbitrary: a)
  case Nil
  then show ?case by auto
qed auto

lemma tiles_ordered: "tiles content a b rs \<Longrightarrow> sorted_wrt (\<lambda>r s. snd r \<le> fst s) rs \<and> (\<forall>r\<in>set rs. a \<le> fst r \<and> fst r \<le> snd r \<and> snd r \<le> b)"
proof (induction rs arbitrary: a)
  case (Cons r rs)
  then have "snd r \<le> b" using tiles_le by auto
  then show ?case using Cons.IH [of "snd r"] Cons.prems by auto
qed simp

lemma tiles_lengths: "tiles content a b rs \<Longrightarrow> sum_list (map (\<lambda>r. snd r - fst r) rs) \<le> b - a"
proof (induction rs arbitrary: a)
  case (Cons r rs)
  then have "snd r \<le> b" using tiles_le by auto
  then show ?case using Cons.IH [of "snd r"] Cons.prems by auto
qed simp

section \<open>Trimming a range\<close>

lemma trim_range_tiles:
  assumes "fst r \<le> snd r" and "snd r \<le> length content"
  shows "tiles content (fst r) (snd r) [trim_range content r]"
proof -
  let ?t = "slice content r" and ?s = "fst (trim_range content r)" and ?e = "snd (trim_range content r)"
  obtain w where w: "?t = w @ trim_start ?t" "ink w = []" using trim_start_append by blast
  obtain v where v: "?t = trim_end ?t @ v" "ink v = []" using trim_end_append by blast
  have len: "length ?t = snd r - fst r" using assms(2) by (rule length_slice)
  have lw: "length ?t - length (trim_start ?t) = length w" by (subst (1) w(1)) simp
  have s: "?s = fst r + length w" unfolding trim_range_def Let_def fst_conv lw ..
  have e: "?e = max (fst r + length (trim_end ?t)) ?s" by (simp add: trim_range_def Let_def)
  have le: "length w \<le> snd r - fst r" "length (trim_end ?t) \<le> snd r - fst r"
    using w(1) v(1) len by (metis le_add1 length_append)+
  have "slice content (fst r, ?s) = w"
    unfolding s using slice_take [OF le(1), of content] w(1) by (metis append_eq_conv_conj)
  moreover have "ink (slice content (?e, snd r)) = []"
  proof (cases "length (trim_end ?t) < length w")
    case True
    then have "?e = fst r + length w" by (simp add: e s)
    then have "slice content (?e, snd r) = drop (length w) ?t" using slice_drop [OF assms(1)] by simp
    also have "... = trim_start ?t" using w(1) by (metis append_eq_conv_conj)
    finally have a: "slice content (?e, snd r) = trim_start ?t" .
    obtain u where "w = trim_end ?t @ u" using w(1) v(1) True by (metis append_eq_append_conv_if append_take_drop_id less_imp_le)
    then have "ink ?t = []" using w(2) by (metis append_is_Nil_conv ink_append ink_trim_end)
    then show ?thesis using a by simp
  next
    case False
    then have "?e = fst r + length (trim_end ?t)" by (simp add: e s)
    then have "slice content (?e, snd r) = drop (length (trim_end ?t)) ?t" using slice_drop [OF assms(1)] by simp
    then show ?thesis using v by (metis append_eq_conv_conj)
  qed
  moreover have "fst r \<le> ?s" "?s \<le> ?e" "?e \<le> snd r" using s e le assms(1) by auto
  ultimately show ?thesis using w(2) by simp
qed

lemma trim_range_bounds:
  assumes "fst r \<le> snd r" and "snd r \<le> length content"
  shows "fst r \<le> fst (trim_range content r) \<and> fst (trim_range content r) \<le> snd (trim_range content r) \<and> snd (trim_range content r) \<le> snd r"
  using trim_range_tiles [OF assms] by (simp add: tiles.simps)

lemma tiles_trim:
  assumes "tiles content a b rs" and "b \<le> length content"
  shows "tiles content a b (map (trim_range content) rs)"
proof -
  have "tiles content (fst r) (snd r) [trim_range content r]" if "r \<in> set rs" for r
  proof -
    have "fst r \<le> snd r" "snd r \<le> length content" using tiles_ordered [OF assms(1)] that assms(2) by auto
    then show ?thesis by (rule trim_range_tiles)
  qed
  from tiles_refine [OF assms(1) this] show ?thesis by (simp add: concat_map_singleton)
qed

lemma trim_range_empty:
  assumes "fst r \<le> snd r" and "snd r \<le> length content" and "snd (trim_range content r) \<le> fst (trim_range content r)"
  shows "ink (slice content r) = []"
proof -
  have "ink (slice content (trim_range content r)) = ink (slice content r)"
    using tiles_ink [OF trim_range_tiles [OF assms(1,2)]] by simp
  then show ?thesis using assms(3) by (simp add: slice_def)
qed

lemma trim_range_nonempty:
  assumes "fst r \<le> snd r" and "snd r \<le> length content" and "ink (slice content r) \<noteq> []"
  shows "fst (trim_range content r) < snd (trim_range content r)"
  using trim_range_empty [OF assms(1,2)] assms(3) by (meson not_le)

lemma split_lines_tiles:
  assumes "start \<le> k" and "k + length s \<le> length content" and "slice content (k, k + length s) = s"
  shows "tiles content start (k + length s) (split_lines start k s)"
  using assms
proof (induction start k s rule: split_lines.induct)
  case (2 start k c cs)
  have all: "slice content (k, k + length (c # cs)) = c # cs" and len: "k + 1 + length cs \<le> length content" using 2(4,5) by simp_all
  have s: "slice content (k + 1, k + 1 + length cs) = cs"
    using slice_drop [of "(k, k + length (c # cs))" content 1] all by simp
  show ?case
  proof (cases "c = 10")
    case True
    have "slice content (k, k + 1) = [c]"
      using slice_take [of 1 "(k, k + length (c # cs))" content] all by simp
    then have w: "ink (slice content (k, k + 1)) = []" using True by (simp add: ink_def is_whitespace_def)
    have "tiles content (k + 1) (k + 1 + length cs) (split_lines (k + 1) (k + 1) cs)"
      by (rule 2(1) [OF True _ len s]) simp
    from tiles_extend_left [OF _ w this] have "tiles content k (k + 1 + length cs) (split_lines (k + 1) (k + 1) cs)" by simp
    then show ?thesis using True 2(3) by simp
  next
    case False
    have "tiles content start (k + 1 + length cs) (split_lines start (k + 1) cs)"
      by (rule 2(2) [OF False _ len s]) (use 2(3) in simp)
    then show ?thesis using False by simp
  qed
qed simp

end
