(* ===== verification/Index_Spans.thy ===== *)
theory Index_Spans
  imports Index_Text "HOL-Library.While_Combinator" "HOL-Library.Word"
begin

text \<open>
  Cutting a memory into the spans the index holds a document for (\<open>crates/index/src/spans.rs\<close>). The
  token counter is the trait the code takes, \<open>offsets\<close>; ICU's sentence boundaries are an argument,
  \<open>breaks\<close>. Positions are characters inside the cut and bytes in the spans it returns. The packing loop
  is a \<open>while_option\<close> over its three variables, so that whether it ends is a property and not assumed.
\<close>

section \<open>Lines\<close>

definition HEADER_TOKENS :: nat where
  "HEADER_TOKENS = 32"

type_synonym token_offsets = "ustr \<Rightarrow> text_range list"

definition token_count :: "token_offsets \<Rightarrow> ustr \<Rightarrow> nat" where
  "token_count offsets s = length (offsets s)"

record span =
  sn_ordinal :: "32 word"
  sn_range :: text_range
  sn_header :: ustr
  sn_text :: ustr
  sn_tokens :: nat

definition indented :: "ustr \<Rightarrow> ustr option" where
  "indented line =
     (let rest = dropWhile (\<lambda>c. c = 32) line
      in if length line - length rest \<le> 3 then Some rest else None)"

definition fence :: "ustr \<Rightarrow> (uchar \<times> nat) option" where
  "fence line =
     (case indented line of
        None \<Rightarrow> None
      | Some [] \<Rightarrow> None
      | Some (marker # ms) \<Rightarrow>
          if marker = 96 \<or> marker = 126
          then let run = length (marker # ms) - length (dropWhile (\<lambda>c. c = marker) (marker # ms))
               in if 3 \<le> run then Some (marker, run) else None
          else None)"

definition closes :: "ustr \<Rightarrow> uchar \<times> nat \<Rightarrow> bool" where
  "closes line opening =
     (case indented line of
        None \<Rightarrow> False
      | Some rest \<Rightarrow>
          let after = dropWhile (\<lambda>c. c = fst opening) rest
          in snd opening \<le> length rest - length after \<and> blank after)"

definition heading :: "ustr \<Rightarrow> ustr option" where
  "heading line =
     (case indented line of
        None \<Rightarrow> None
      | Some rest \<Rightarrow>
          let after = dropWhile (\<lambda>c. c = 35) rest; level = length rest - length after
          in if \<not> (1 \<le> level \<and> level \<le> 6) \<or> \<not> (after = [] \<or> is_whitespace (hd after)) then None
             else let title = trim_str after; opened = rev (dropWhile (\<lambda>c. c = 35) (rev title))
                  in Some (if opened = [] \<or> is_whitespace (last opened) then trim_end opened else title))"

text \<open>The first of \<open>str::lines\<close>: a carriage return before the newline goes with it.\<close>

definition first_line :: "ustr \<Rightarrow> ustr" where
  "first_line s =
     (let line = takeWhile (\<lambda>c. c \<noteq> 10) s in if 10 \<in> set s then without_last 13 line else line)"

definition turn :: "ustr \<Rightarrow> ustr option" where
  "turn s =
     (let line = first_line s
      in case strip_prefix (lit ''['') line of
           Some rest \<Rightarrow>
             (case split_once 93 rest of
                None \<Rightarrow> None
              | Some (date, rest) \<Rightarrow>
                  (case split_once 58 rest of
                     None \<Rightarrow> None
                   | Some (speaker, after) \<Rightarrow>
                       if \<not> (1 \<le> length date \<and> length date \<le> 64) \<or> speaker = []
                          \<or> 64 < length (trim_start speaker) \<or> \<not> (after = [] \<or> is_whitespace (hd after))
                       then None
                       else let speaker = trim_str speaker
                            in Some (if speaker = [] then date else date @ lit '', '' @ speaker)))
         | None \<Rightarrow>
             map_option (\<lambda>role. take (length role - 1) line)
               (find (\<lambda>role. map ascii_lower (take (length role) line) = role)
                  [lit ''user:'', lit ''assistant:'', lit ''system:'']))"

definition cells :: "ustr \<Rightarrow> ustr list" where
  "cells row = map trim_str (split_on 124 (without_last 124 (without_first 124 (trim_str row))))"

definition is_delimiter :: "ustr \<Rightarrow> bool" where
  "is_delimiter cell =
     (let cell = without_last 58 (without_first 58 cell) in cell \<noteq> [] \<and> list_all (\<lambda>c. c = 45) cell)"

definition table :: "ustr \<Rightarrow> ustr \<Rightarrow> bool" where
  "table line following \<longleftrightarrow>
     124 \<in> set line \<and> 124 \<in> set following \<and> list_all is_delimiter (cells following)
     \<and> length (cells line) = length (cells following)"

section \<open>Blocks\<close>

datatype block_kind = Fence | Heading | Turn | Table | Paragraph

record block =
  bk_kind :: block_kind
  bk_range :: text_range

definition opens_block :: "ustr \<Rightarrow> bool" where
  "opens_block line \<longleftrightarrow> fence line \<noteq> None \<or> heading line \<noteq> None \<or> turn line \<noteq> None"

text \<open>The lines a block takes after its first, and those left.\<close>

fun until_closed :: "ustr \<Rightarrow> uchar \<times> nat \<Rightarrow> text_range list \<Rightarrow> text_range list \<times> text_range list" where
  "until_closed content opening [] = ([], [])"
| "until_closed content opening (l # ls) =
     (if closes (slice content l) opening then ([l], ls)
      else case until_closed content opening ls of (taken, rest) \<Rightarrow> (l # taken, rest))"

definition while_line :: "ustr \<Rightarrow> (ustr \<Rightarrow> bool) \<Rightarrow> text_range list \<Rightarrow> text_range list \<times> text_range list" where
  "while_line content P ls = (takeWhile (\<lambda>l. P (slice content l)) ls, dropWhile (\<lambda>l. P (slice content l)) ls)"

definition block_lines :: "ustr \<Rightarrow> text_range \<Rightarrow> text_range list \<Rightarrow> block_kind \<times> text_range list \<times> text_range list" where
  "block_lines content l ls =
     (let line = slice content l
      in case fence line of
           Some opening \<Rightarrow> (Fence, until_closed content opening ls)
         | None \<Rightarrow>
             if heading line \<noteq> None then (Heading, [], ls)
             else if turn line \<noteq> None then (Turn, while_line content (\<lambda>line. \<not> opens_block line) ls)
             else (if ls \<noteq> [] \<and> table line (slice content (hd ls)) then Table else Paragraph,
                   while_line content (\<lambda>line. \<not> blank line \<and> \<not> opens_block line) ls))"

definition block_over :: "ustr \<Rightarrow> text_range \<Rightarrow> text_range list \<Rightarrow> text_range" where
  "block_over content first taken =
     (let last_line = (case find (\<lambda>l. \<not> blank (slice content l)) (rev (first # taken)) of None \<Rightarrow> first | Some l \<Rightarrow> l)
      in trim_range content (fst first, snd last_line))"

lemma until_closed_split: "until_closed content opening ls = (taken, rest) \<Longrightarrow> ls = taken @ rest"
  by (induction ls arbitrary: taken) (auto split: if_splits prod.splits)

lemma block_lines_split: "block_lines content l ls = (kind, taken, rest) \<Longrightarrow> ls = taken @ rest"
  by (auto simp: block_lines_def while_line_def Let_def until_closed_split split: option.splits if_splits)

function blocks_of :: "ustr \<Rightarrow> text_range list \<Rightarrow> block list" where
  "blocks_of content [] = []"
| "blocks_of content (l # ls) =
     (if blank (slice content l) then blocks_of content ls
      else case block_lines content l ls of (kind, taken, rest) \<Rightarrow>
        \<lparr>bk_kind = kind, bk_range = block_over content l taken\<rparr> # blocks_of content rest)"
  by pat_completeness auto

termination blocks_of
  by (relation "measure (length \<circ> snd)") (auto dest!: block_lines_split [OF sym])

definition blocks :: "ustr \<Rightarrow> block list" where
  "blocks content = blocks_of content (split_lines 0 0 content)"

section \<open>Pieces\<close>

record piece =
  pc_range :: text_range
  pc_tokens :: nat
  pc_opens :: bool
  pc_heading :: bool
  pc_heading_block :: "nat option"
  pc_continued :: "nat option"

definition is_empty_range :: "text_range \<Rightarrow> bool" where
  "is_empty_range r \<longleftrightarrow> snd r \<le> fst r"

definition lines_in :: "ustr \<Rightarrow> text_range \<Rightarrow> text_range list" where
  "lines_in content r =
     filter (\<lambda>l. \<not> is_empty_range l)
       (map (trim_range content) (split_lines (fst r) (fst r) (slice content r)))"

text \<open>\<open>boundaries.windows(2)\<close>: each boundary with the next, from \<open>from\<close>.\<close>

fun adjacent :: "nat list \<Rightarrow> text_range list" where
  "adjacent (a # b # bs) = (a, b) # adjacent (b # bs)"
| "adjacent bs = []"

definition sentences :: "(ustr \<Rightarrow> nat list) \<Rightarrow> ustr \<Rightarrow> text_range \<Rightarrow> text_range list" where
  "sentences breaks content r =
     filter (\<lambda>l. \<not> is_empty_range l)
       (map (\<lambda>(a, b). trim_range content (fst r + a, fst r + b)) (adjacent (breaks (slice content r))))"

fun bounds_from :: "token_offsets \<Rightarrow> ustr \<Rightarrow> nat \<Rightarrow> nat \<Rightarrow> nat \<Rightarrow> nat list \<Rightarrow> nat list" where
  "bounds_from offsets s parts 0 previous pieces = []"
| "bounds_from offsets s parts (Suc n) previous pieces =
     (case pieces of
        [] \<Rightarrow> []
      | k # ks \<Rightarrow>
          let here = max (fst (offsets s ! (k * length (offsets s) div parts))) previous
          in here # bounds_from offsets s parts n here ks)"

definition cut_bounds :: "token_offsets \<Rightarrow> ustr \<Rightarrow> nat \<Rightarrow> nat list" where
  "cut_bounds offsets s parts = 0 # bounds_from offsets s parts (parts - 1) 0 [1..<parts] @ [length s]"

definition cut_into :: "token_offsets \<Rightarrow> ustr \<Rightarrow> text_range \<Rightarrow> nat \<Rightarrow> (text_range \<times> nat) list" where
  "cut_into offsets content r parts =
     map (\<lambda>l. (l, token_count offsets (slice content l)))
       (filter (\<lambda>l. \<not> is_empty_range l)
          (map (\<lambda>(a, b). trim_range content (fst r + a, fst r + b)) (adjacent (cut_bounds offsets (slice content r) parts))))"

function cut_from :: "token_offsets \<Rightarrow> ustr \<Rightarrow> text_range \<Rightarrow> nat \<Rightarrow> nat \<Rightarrow> (text_range \<times> nat) list" where
  "cut_from offsets content r cap parts =
     (let pieces = cut_into offsets content r parts
      in if length (offsets (slice content r)) \<le> parts \<or> list_all (\<lambda>x. snd x \<le> cap) pieces then pieces
         else cut_from offsets content r cap (parts + 1))"
  by pat_completeness auto

termination cut_from
  by (relation "measure (\<lambda>(offsets, content, r, cap, parts). length (offsets (slice content r)) - parts)") auto

declare cut_from.simps [simp del]

definition div_ceil :: "nat \<Rightarrow> nat \<Rightarrow> nat" where
  "div_ceil a b = a div b + (if a mod b = 0 then 0 else 1)"

definition cut :: "token_offsets \<Rightarrow> ustr \<Rightarrow> text_range \<Rightarrow> nat \<Rightarrow> (text_range \<times> nat) list" where
  "cut offsets content r cap =
     cut_from offsets content r cap (max (div_ceil (length (offsets (slice content r))) (max cap 1)) 1)"

definition whole_or_cut :: "token_offsets \<Rightarrow> ustr \<Rightarrow> nat \<Rightarrow> text_range \<Rightarrow> (text_range \<times> nat) list" where
  "whole_or_cut offsets content cap r =
     (let tokens = token_count offsets (slice content r)
      in if tokens \<le> cap then [(r, tokens)] else cut offsets content r cap)"

definition block_pieces :: "token_offsets \<Rightarrow> (ustr \<Rightarrow> nat list) \<Rightarrow> ustr \<Rightarrow> nat \<Rightarrow> block \<Rightarrow> (text_range \<times> nat) list" where
  "block_pieces offsets breaks content cap b =
     (let tokens = token_count offsets (slice content (bk_range b))
      in if tokens \<le> cap then [(bk_range b, tokens)]
         else concat (map (whole_or_cut offsets content cap)
                (if bk_kind b = Fence \<or> bk_kind b = Table then lines_in content (bk_range b)
                 else sentences breaks content (bk_range b))))"

text \<open>
  A block's pieces as units: the first piece of a block that has fit whole is its first; of a block cut
  apart, the one that finds no unit reaching into the block before it.
\<close>

fun units_of_block :: "bool \<Rightarrow> nat option \<Rightarrow> nat \<Rightarrow> block \<Rightarrow> (text_range \<times> nat) list \<Rightarrow> piece list \<Rightarrow> piece list" where
  "units_of_block whole heading_block index b [] units = units"
| "units_of_block whole heading_block index b ((r, tokens) # ps) units =
     (let opening = whole \<or> units = [] \<or> snd (pc_range (last units)) \<le> fst (bk_range b)
      in units_of_block whole heading_block index b ps
           (units @ [\<lparr>pc_range = r, pc_tokens = tokens, pc_opens = bk_kind b = Heading \<and> opening,
              pc_heading = bk_kind b = Heading, pc_heading_block = heading_block,
              pc_continued = (if bk_kind b = Turn \<or> bk_kind b = Table then Some index else None)\<rparr>]))"

fun units_from :: "token_offsets \<Rightarrow> (ustr \<Rightarrow> nat list) \<Rightarrow> ustr \<Rightarrow> nat \<Rightarrow> nat \<Rightarrow> nat option \<Rightarrow> block list \<Rightarrow> piece list \<Rightarrow> piece list" where
  "units_from offsets breaks content cap index heading_block [] units = units"
| "units_from offsets breaks content cap index heading_block (b # bs) units =
     (let heading_block = (if bk_kind b = Heading then Some index else heading_block)
      in units_from offsets breaks content cap (index + 1) heading_block bs
           (units_of_block (token_count offsets (slice content (bk_range b)) \<le> cap) heading_block index b
              (block_pieces offsets breaks content cap b) units))"

definition units :: "token_offsets \<Rightarrow> (ustr \<Rightarrow> nat list) \<Rightarrow> ustr \<Rightarrow> block list \<Rightarrow> nat \<Rightarrow> piece list" where
  "units offsets breaks content bs cap = units_from offsets breaks content cap 0 None bs []"

section \<open>Headers\<close>

primrec fit_from :: "token_offsets \<Rightarrow> ustr \<Rightarrow> nat \<Rightarrow> nat \<Rightarrow> ustr" where
  "fit_from offsets s budget 0 = []"
| "fit_from offsets s budget (Suc n) =
     (let head = trim_end (take (fst (offsets s ! Suc n)) s)
      in if token_count offsets head \<le> budget then head else fit_from offsets s budget n)"

definition fit :: "token_offsets \<Rightarrow> ustr \<Rightarrow> nat \<Rightarrow> ustr" where
  "fit offsets s budget = (if length (offsets s) \<le> budget then s else fit_from offsets s budget budget)"

primrec with_part :: "token_offsets \<Rightarrow> ustr \<Rightarrow> ustr \<Rightarrow> nat \<Rightarrow> ustr" where
  "with_part offsets part header 0 = header"
| "with_part offsets part header (Suc room) =
     (let fitted = fit offsets part (Suc room); candidate = header @ lit '' > '' @ fitted
      in if fitted = [] then header
         else if token_count offsets candidate \<le> HEADER_TOKENS then candidate
         else with_part offsets part header room)"

definition add_part :: "token_offsets \<Rightarrow> ustr \<Rightarrow> ustr \<Rightarrow> ustr" where
  "add_part offsets part header = with_part offsets part header (HEADER_TOKENS - token_count offsets header)"

definition header_of :: "token_offsets \<Rightarrow> ustr \<Rightarrow> ustr option \<Rightarrow> ustr option \<Rightarrow> ustr" where
  "header_of offsets name title continued =
     fit offsets (fold (add_part offsets) (List.map_filter id [title, continued]) name) HEADER_TOKENS"

definition opening_of :: "ustr \<Rightarrow> block \<Rightarrow> ustr option" where
  "opening_of content b =
     (let s = slice content (bk_range b)
      in case bk_kind b of
           Turn \<Rightarrow> turn s
         | Table \<Rightarrow> if s = [] then None else Some (trim_str (first_line s))
         | _ \<Rightarrow> None)"

section \<open>Packing\<close>

record packed =
  pk_range :: text_range
  pk_tokens :: nat
  pk_headings_only :: bool
  pk_heading_block :: "nat option"
  pk_continued :: "nat option"

definition packed_from :: "piece \<Rightarrow> packed" where
  "packed_from u = \<lparr>pk_range = pc_range u, pk_tokens = pc_tokens u, pk_headings_only = pc_heading u,
     pk_heading_block = pc_heading_block u, pk_continued = pc_continued u\<rparr>"

definition packed_push :: "piece \<Rightarrow> packed \<Rightarrow> packed" where
  "packed_push u s = s\<lparr>pk_range := (fst (pk_range s), snd (pc_range u)), pk_tokens := pk_tokens s + pc_tokens u,
     pk_headings_only := pk_headings_only s \<and> pc_heading u\<rparr>"

record packing =
  pg_packed :: "packed list"
  pg_current :: "packed option"
  pg_pending :: "piece list"

text \<open>The pieces left of a unit whose opening went under the headings before it.\<close>

definition left_over :: "token_offsets \<Rightarrow> ustr \<Rightarrow> nat \<Rightarrow> piece \<Rightarrow> nat \<Rightarrow> piece list" where
  "left_over offsets content cap u from_here =
     (let rest = trim_range content (from_here, snd (pc_range u))
      in if is_empty_range rest then []
         else map (\<lambda>(r, tokens). u\<lparr>pc_range := r, pc_tokens := tokens, pc_opens := False\<rparr>)
                (whole_or_cut offsets content cap rest))"

definition pack_step :: "token_offsets \<Rightarrow> ustr \<Rightarrow> nat \<Rightarrow> packing \<Rightarrow> packing" where
  "pack_step offsets content cap st =
     (let u = hd (pg_pending st); st = st\<lparr>pg_pending := tl (pg_pending st)\<rparr>
      in case pg_current st of
           None \<Rightarrow> st\<lparr>pg_current := Some (packed_from u)\<rparr>
         | Some s \<Rightarrow>
             if pk_tokens s + pc_tokens u \<le> cap \<and> \<not> (pc_opens u \<and> \<not> pk_headings_only s)
             then st\<lparr>pg_current := Some (packed_push u s)\<rparr>
             else
               let head = fit offsets (slice content (pc_range u)) (cap - pk_tokens s);
                   end_here = fst (pc_range u) + length head
               in if pk_headings_only s \<and> \<not> pc_heading u \<and> head \<noteq> []
                  then st\<lparr>pg_packed := pg_packed st @
                           [packed_push (u\<lparr>pc_range := (fst (pc_range u), end_here), pc_tokens := token_count offsets head\<rparr>) s],
                         pg_current := None,
                         pg_pending := left_over offsets content cap u end_here @ pg_pending st\<rparr>
                  else st\<lparr>pg_packed := pg_packed st @ [s], pg_current := Some (packed_from u)\<rparr>)"

definition pack_units :: "token_offsets \<Rightarrow> ustr \<Rightarrow> nat \<Rightarrow> piece list \<Rightarrow> packed list option" where
  "pack_units offsets content cap us =
     map_option (\<lambda>st. pg_packed st @ (case pg_current st of None \<Rightarrow> [] | Some s \<Rightarrow> [s]))
       (while_option (\<lambda>st. pg_pending st \<noteq> []) (pack_step offsets content cap)
          \<lparr>pg_packed = [], pg_current = None, pg_pending = us\<rparr>)"

definition continues :: "block list \<Rightarrow> text_range \<Rightarrow> nat option \<Rightarrow> block option" where
  "continues bs r block =
     (case block of
        None \<Rightarrow> None
      | Some index \<Rightarrow> if fst (bk_range (bs ! index)) < fst r then Some (bs ! index) else None)"

definition span_of :: "token_offsets \<Rightarrow> ustr \<Rightarrow> ustr \<Rightarrow> block list \<Rightarrow> nat \<Rightarrow> packed \<Rightarrow> span" where
  "span_of offsets name content bs ordinal s =
     (let r = pk_range s;
          title = (case continues bs r (pk_heading_block s) of
                     None \<Rightarrow> None
                   | Some b \<Rightarrow> (case heading (slice content (bk_range b)) of
                                  None \<Rightarrow> None | Some h \<Rightarrow> if h = [] then None else Some h));
          continued = (case continues bs r (pk_continued s) of None \<Rightarrow> None | Some b \<Rightarrow> opening_of content b)
      in \<lparr>sn_ordinal = word_of_nat ordinal, sn_range = (byte_at content (fst r), byte_at content (snd r)),
          sn_header = header_of offsets name title continued, sn_text = slice content r, sn_tokens = pk_tokens s\<rparr>)"

definition whole_span :: "ustr \<Rightarrow> ustr \<Rightarrow> nat \<Rightarrow> span" where
  "whole_span name content tokens =
     \<lparr>sn_ordinal = 0, sn_range = (0, byte_len content), sn_header = name, sn_text = content, sn_tokens = tokens\<rparr>"

definition pack :: "token_offsets \<Rightarrow> (ustr \<Rightarrow> nat list) \<Rightarrow> ustr \<Rightarrow> ustr \<Rightarrow> nat \<Rightarrow> span list option" where
  "pack offsets breaks name content cap =
     (let total = token_count offsets content
      in if total \<le> cap then Some [whole_span name content total]
         else let bs = blocks content; us = units offsets breaks content bs cap
              in if us = [] then Some [whole_span name content total]
                 else map_option (\<lambda>spans. map (\<lambda>(ordinal, s). span_of offsets name content bs ordinal s) (List.enumerate 0 spans))
                        (pack_units offsets content cap us))"

end
