(* ===== verification/Engine_Rank.thy ===== *)
theory Engine_Rank
  imports Core_Fusion F64 Index_Spans
begin

text \<open>
  The rules a search ranks and shows by (\<open>crates/engine/src/engine.rs\<close> from \<open>grow\<close> on): how the channels'
  candidates are interleaved, what a seed is worth, how far around a span a view grows, which candidates
  the reranker is shown, how its scores are blended with fusion's and where what it moved is put back.
  \<open>Engine_Search\<close> composes them.
\<close>

definition MAX_SEEDS :: nat where
  "MAX_SEEDS = 64"

definition HOP_DECAY :: rat where
  "HOP_DECAY = 1 / 2"

definition VIEW_TOKENS :: nat where
  "VIEW_TOKENS = 600"

definition GRAPH_SHOWN_FROM :: rat where
  "GRAPH_SHOWN_FROM = 1 / 2"

definition GRAPH_SHOWN_AT_MOST :: nat where
  "GRAPH_SHOWN_AT_MOST = 4"

definition RERANK_FUSION :: rat where
  "RERANK_FUSION = rnd64 (1 / 5)"

section \<open>Candidates\<close>

text \<open>Round-robin by rank: each channel's first pick before any channel's second, each topic once.\<close>

definition at_rank :: "channel_results list \<Rightarrow> nat \<Rightarrow> topic_id list" where
  "at_rank ranked rank =
     List.map_filter (\<lambda>r. if rank < length (cs_candidates r) then Some (sc_topic (cs_candidates r ! rank)) else None) ranked"

fun once :: "'a set \<Rightarrow> 'a list \<Rightarrow> 'a list" where
  "once seen [] = []"
| "once seen (x # xs) = (if x \<in> seen then once seen xs else x # once (insert x seen) xs)"

definition best_first :: "channel_results list \<Rightarrow> topic_id list" where
  "best_first ranked =
     (let deepest = foldl max 0 (map (\<lambda>r. length (cs_candidates r)) ranked)
      in once {} (concat (map (at_rank ranked) [0..<deepest])))"

definition rank_worth :: "rat \<Rightarrow> nat \<Rightarrow> rat" where
  "rank_worth k index = (let rank = fadd (f32_of_nat index) 1 in fdiv (fadd k 1) (fadd k rank))"

definition note_worth :: "rat \<Rightarrow> nat \<times> scored \<Rightarrow> (topic_id \<rightharpoonup> rat) \<Rightarrow> (topic_id \<rightharpoonup> rat)" where
  "note_worth k x relevance =
     (case x of (index, candidate) \<Rightarrow>
       let worth = rank_worth k index
       in relevance(sc_topic candidate \<mapsto> (case relevance (sc_topic candidate) of None \<Rightarrow> worth | Some held \<Rightarrow> max held worth)))"

definition seed_relevance :: "topic_id list \<Rightarrow> channel_results list \<Rightarrow> rat \<Rightarrow> (topic_id \<rightharpoonup> rat)" where
  "seed_relevance named ranked k =
     (let relevance = fold (\<lambda>r. fold (note_worth k) (List.enumerate 0 (cs_candidates r))) ranked (\<lambda>_. None)
      in fold (\<lambda>topic relevance. relevance(topic \<mapsto> 1)) named relevance)"

text \<open>\<open>powi\<close> of one half, exact down to the smallest \<open>f32\<close>.\<close>

definition path_strength :: "rat \<Rightarrow> nat \<Rightarrow> rat" where
  "path_strength confidence hops = fmul confidence (rnd32 (HOP_DECAY ^ (hops - 1)))"

section \<open>Growing a view\<close>

text \<open>The nearer side first; a neighbour that does not fit is skipped for the one on the other side.\<close>

definition grow_order :: "nat \<Rightarrow> nat \<Rightarrow> nat \<Rightarrow> nat \<Rightarrow> (nat \<times> nat) list" where
  "grow_order here len lo hi =
     (let earlier = (if 0 < lo then [(lo - 1, hi)] else []);
          later = (if hi + 1 < len then [(lo, hi + 1)] else [])
      in if here - lo \<le> hi - here then earlier @ later else later @ earlier)"

lemma set_grow_order: "set (grow_order here len lo hi) = (if 0 < lo then {(lo - 1, hi)} else {}) \<union> (if hi + 1 < len then {(lo, hi + 1)} else {})"
  by (auto simp: grow_order_def Let_def)

function grow_from :: "(nat \<Rightarrow> nat \<Rightarrow> bool) \<Rightarrow> nat \<Rightarrow> nat \<Rightarrow> nat \<Rightarrow> nat \<Rightarrow> nat \<times> nat" where
  "grow_from fits here len lo hi =
     (case find (\<lambda>(lo', hi'). fits lo' hi') (grow_order here len lo hi) of
        Some (lo', hi') \<Rightarrow> grow_from fits here len lo' hi'
      | None \<Rightarrow> (lo, hi))"
  by pat_completeness auto

termination
  by (relation "measure (\<lambda>(fits, here, len, lo, hi). lo + (len - hi))")
    (auto simp: set_grow_order split: if_splits dest!: find_SomeD)

declare grow_from.simps [simp del]

definition grow :: "nat \<Rightarrow> nat \<Rightarrow> (nat \<Rightarrow> nat \<Rightarrow> bool) \<Rightarrow> nat \<times> nat" where
  "grow here len fits = grow_from fits here len here here"

record span_view =
  sv_ordinal :: "32 word"
  sv_of :: "32 word"
  sv_header :: ustr
  sv_range :: text_range

definition view_around :: "span list \<Rightarrow> 32 word \<Rightarrow> 32 word \<Rightarrow> span_view option" where
  "view_around spans ordinal around =
     (let here = unat ordinal in
      if length spans \<le> here then None
      else
        let lo = spans ! (here - unat around);
            hi = spans ! min (here + unat around) (length spans - 1)
        in Some \<lparr>sv_ordinal = ordinal, sv_of = word_of_nat (length spans), sv_header = sn_header lo,
                 sv_range = (fst (sn_range lo), snd (sn_range hi))\<rparr>)"

definition run_tokens :: "span list \<Rightarrow> nat \<Rightarrow> nat \<Rightarrow> nat" where
  "run_tokens spans lo hi = sum_list (map sn_tokens (take (Suc hi - lo) (drop lo spans)))"

definition view_within :: "span list \<Rightarrow> 32 word \<Rightarrow> nat \<Rightarrow> span_view option" where
  "view_within spans ordinal tokens =
     (let here = unat ordinal in
      if length spans \<le> here then None
      else
        let (lo, hi) = grow here (length spans) (\<lambda>lo hi. run_tokens spans lo hi \<le> tokens)
        in Some \<lparr>sv_ordinal = ordinal, sv_of = word_of_nat (length spans), sv_header = sn_header (spans ! lo),
                 sv_range = (fst (sn_range (spans ! lo)), snd (sn_range (spans ! hi)))\<rparr>)"

definition shown :: "ustr \<Rightarrow> ustr \<Rightarrow> ustr option \<Rightarrow> ustr" where
  "shown topic content seed =
     topic @ lit '': '' @ content @ (case seed of None \<Rightarrow> [] | Some s \<Rightarrow> lit ''. '' @ s)"

section \<open>What the reranker is shown\<close>

text \<open>
  \<open>f64::sqrt\<close> of a count: the nearest double. At the grain of its exponent the root is an integer or lies
  strictly on one side of the middle between two.
\<close>

function floor_root :: "nat \<Rightarrow> nat" where
  "floor_root n = (if n = 0 then 0 else let r = 2 * floor_root (n div 4) in if (r + 1) * (r + 1) \<le> n then r + 1 else r)"
  by pat_completeness auto
termination by (relation "measure id") auto

declare floor_root.simps [simp del]

definition nearest_root :: "nat \<Rightarrow> nat" where
  "nearest_root n = (let r = floor_root n in if r * r + r < n then r + 1 else r)"

definition sqrt64 :: "nat \<Rightarrow> rat" where
  "sqrt64 n =
     (if n = 0 then 0
      else let e = exponent (of_nat n) div 2 - 52
           in of_nat (nearest_root (n * 4 ^ nat (- e))) * pow2 e)"

text \<open>A find only the graph made: its score, and the topic its walk last came through.\<close>

fun graph_only_from :: "why list \<Rightarrow> rat option \<Rightarrow> ustr option \<Rightarrow> (rat \<times> ustr option) option" where
  "graph_only_from [] graph via = map_option (\<lambda>score. (score, via)) graph"
| "graph_only_from (WhyChannel channel _ score _ _ # why) graph via =
     (if channel \<noteq> Graph then None
      else graph_only_from why (Some (case score of None \<Rightarrow> 0 | Some s \<Rightarrow> s)) via)"
| "graph_only_from (WhyPath _ through _ _ _ _ _ # why) graph via = graph_only_from why graph (Some through)"
| "graph_only_from (WhyReranked _ # why) graph via = graph_only_from why graph via"

definition graph_only :: "why list \<Rightarrow> (rat \<times> ustr option) option" where
  "graph_only why = graph_only_from why None None"

type_synonym find_at = "nat \<times> rat \<times> ustr option"

definition eligible :: "why list list \<Rightarrow> nat \<Rightarrow> find_at list" where
  "eligible traces head =
     filter (\<lambda>(_, score, _). GRAPH_SHOWN_FROM \<le> score)
       (List.map_filter (\<lambda>here. map_option (Pair here) (graph_only (traces ! here))) [head..<length traces])"

definition sharing :: "find_at list \<Rightarrow> ustr option \<Rightarrow> nat" where
  "sharing finds via = length (filter (\<lambda>(_, _, v). v = via) finds)"

definition shared_strength :: "find_at list \<Rightarrow> find_at \<Rightarrow> rat" where
  "shared_strength finds x = (case x of (_, score, via) \<Rightarrow> rnd64 (score / sqrt64 (sharing finds via)))"

definition strength_order :: "nat \<times> rat \<Rightarrow> nat \<times> rat \<Rightarrow> bool" where
  "strength_order = lex_by (desc_by snd) (asc_by fst)"

definition rerankable :: "why list list \<Rightarrow> nat \<Rightarrow> nat list" where
  "rerankable traces depth =
     (let head = min depth (length traces);
          finds = eligible traces head;
          graph = sort_by strength_order (map (\<lambda>x. (fst x, shared_strength finds x)) finds)
      in sort ([0..<head] @ map fst (take GRAPH_SHOWN_AT_MOST graph)))"

section \<open>Blending and placing\<close>

definition scaled_values :: "rat list \<Rightarrow> rat list" where
  "scaled_values values =
     (case values of [] \<Rightarrow> []
      | v # vs \<Rightarrow>
          (let low = foldl min v vs; high = foldl max v vs
           in map (\<lambda>value. if low < high then rnd64 (rnd64 (value - low) / rnd64 (high - low)) else 0) values))"

definition blended :: "rat list \<Rightarrow> rat list \<Rightarrow> rat \<Rightarrow> nat \<Rightarrow> rat" where
  "blended fused model part here =
     rnd64 (rnd64 (part * scaled_values fused ! here) + rnd64 (rnd64 (1 - part) * scaled_values model ! here))"

definition blend_order :: "rat list \<Rightarrow> rat list \<Rightarrow> rat \<Rightarrow> nat \<Rightarrow> nat \<Rightarrow> bool" where
  "blend_order fused model part = lex_by (desc_by (blended fused model part)) (asc_by id)"

text \<open>\<open>None\<close> where \<open>assert_eq!\<close> stops.\<close>

definition score_blend_order :: "rat list \<Rightarrow> rat list \<Rightarrow> rat \<Rightarrow> nat list option" where
  "score_blend_order fused model part =
     (if length fused \<noteq> length model then None
      else Some (sort_by (blend_order fused model part) [0..<length fused]))"

text \<open>\<open>Option::take\<close> at each place of a list, in order; \<open>None\<close> where indexing stops.\<close>

fun take_each :: "'a option list \<Rightarrow> nat list \<Rightarrow> ('a option list \<times> 'a option list) option" where
  "take_each slots [] = Some ([], slots)"
| "take_each slots (here # ats) =
     (if here < length slots
      then map_option (\<lambda>(taken, slots'). (slots ! here # taken, slots')) (take_each (slots[here := None]) ats)
      else None)"

fun refill :: "'a option list \<Rightarrow> 'a option list \<Rightarrow> (nat \<times> nat) list \<Rightarrow> 'a option list option" where
  "refill slots taken [] = Some slots"
| "refill slots taken ((hole, pick) # moves) =
     (if hole < length slots \<and> pick < length taken
      then refill (slots[hole := taken ! pick]) (taken[pick := None]) moves
      else None)"

definition targets_of :: "nat list \<Rightarrow> nat \<Rightarrow> nat list" where
  "targets_of shown_at head =
     filter (\<lambda>here. here < head) shown_at @ [head..<head + length (filter (\<lambda>here. head \<le> here) shown_at)]"

definition replace_shown :: "'a list \<Rightarrow> nat list \<Rightarrow> nat \<Rightarrow> nat list \<Rightarrow> 'a list option" where
  "replace_shown xs shown_at head best =
     (let head = min head (length xs) in
      case take_each (map Some xs) shown_at of
        None \<Rightarrow> None
      | Some (taken, slots) \<Rightarrow>
          let below = length (filter (\<lambda>here. head \<le> here) shown_at);
              slots = take head slots @ replicate below None @ filter (\<lambda>s. s \<noteq> None) (drop head slots)
          in (case refill slots taken (zip (targets_of shown_at head) best) of
                None \<Rightarrow> None
              | Some slots \<Rightarrow> those slots))"

definition can_be_seen :: "nat list \<Rightarrow> nat \<Rightarrow> bool" where
  "can_be_seen unlexical limit \<longleftrightarrow>
     (if length unlexical < 2 then False else case unlexical of [] \<Rightarrow> False | highest # _ \<Rightarrow> highest < limit)"

end
