(* ===== verification/Engine_Cuts.thy ===== *)
theory Engine_Cuts
  imports Index_Spans Core_Ids "HOL-Library.AList"
begin

text \<open>
  The spans memories were cut into, kept by the state that was cut (\<open>crates/engine/src/cuts.rs\<close>): two
  generations bounded by the bytes they hold. A hash map is a list of entries with one entry a key; the
  size of a span's own fields is an argument. What a lookup and an insertion owe each other is the
  contract \<open>memo\<close>, under which a search that keeps what it cutting sees what it would have cutting itself.
\<close>

section \<open>The contract of a memo\<close>

lemma map_le_Some: "m \<subseteq>\<^sub>m m' \<Longrightarrow> m x = Some y \<Longrightarrow> m' x = Some y"
  by (metis domI map_le_def)

locale memo =
  fixes held :: "'s \<Rightarrow> 'k \<Rightarrow> 'v option"
    and look :: "'k \<Rightarrow> 's \<Rightarrow> 'v option \<times> 's"
    and keep :: "'k \<Rightarrow> 'v \<Rightarrow> 's \<Rightarrow> 's"
  assumes look_held: "look k s = (r, s') \<Longrightarrow> r = held s k"
    and look_keeps: "look k s = (r, s') \<Longrightarrow> held s' \<subseteq>\<^sub>m held s"
    and keep_keeps: "held (keep k v s) x = Some y \<Longrightarrow> x = k \<and> y = v \<or> held s x = Some y"
begin

definition right :: "('k \<Rightarrow> 'v) \<Rightarrow> 's \<Rightarrow> bool" where
  "right f s \<longleftrightarrow> held s \<subseteq>\<^sub>m (\<lambda>k. Some (f k))"

lemma right_iff: "right f s \<longleftrightarrow> (\<forall>k v. held s k = Some v \<longrightarrow> v = f k)"
  by (auto simp: right_def map_le_def dom_def)

lemma right_look:
  assumes "right f s" and "look k s = (r, s')"
  shows "right f s' \<and> (r = None \<or> r = Some (f k))"
  using assms(1) look_held [OF assms(2)] map_le_Some [OF look_keeps [OF assms(2)]] unfolding right_iff
  by (metis not_None_eq)

lemma right_keep:
  assumes "right f s"
  shows "right f (keep k (f k) s)"
  unfolding right_iff
proof (intro allI impI)
  fix k' v assume "held (keep k (f k) s) k' = Some v"
  then have "k' = k \<and> v = f k \<or> held s k' = Some v" by (rule keep_keeps)
  then show "v = f k'" using assms by (auto simp: right_iff)
qed

end

section \<open>Generations\<close>

definition GENERATION_BYTES :: nat where
  "GENERATION_BYTES = 32 * 2 ^ 20"

type_synonym cut_key = "topic_state_id \<times> nat \<times> ustr"
type_synonym held_cuts = "(cut_key \<times> span list) list"

record generations =
  gn_current :: held_cuts
  gn_bytes :: nat
  gn_previous :: held_cuts

definition no_cuts :: generations where
  "no_cuts = \<lparr>gn_current = [], gn_bytes = 0, gn_previous = []\<rparr>"

definition span_bytes :: "nat \<Rightarrow> span list \<Rightarrow> nat" where
  "span_bytes span_size spans = sum_list (map (\<lambda>s. span_size + byte_len (sn_text s) + byte_len (sn_header s)) spans)"

definition keep_cut :: "nat \<Rightarrow> nat \<Rightarrow> cut_key \<Rightarrow> span list \<Rightarrow> generations \<Rightarrow> generations" where
  "keep_cut span_size budget key spans g =
     (let size = span_bytes span_size spans
      in if budget < size then g
         else
           let g = (if budget < gn_bytes g + size \<and> gn_current g \<noteq> []
                    then \<lparr>gn_current = [], gn_bytes = 0, gn_previous = gn_current g\<rparr> else g);
               replaced = map_of (gn_current g) key
           in g\<lparr>gn_current := AList.update key spans (gn_current g),
                gn_bytes := gn_bytes g + size - (case replaced of None \<Rightarrow> 0 | Some old \<Rightarrow> span_bytes span_size old)\<rparr>)"

definition look_cut :: "nat \<Rightarrow> nat \<Rightarrow> cut_key \<Rightarrow> generations \<Rightarrow> span list option \<times> generations" where
  "look_cut span_size budget key g =
     (case map_of (gn_current g) key of
        Some spans \<Rightarrow> (Some spans, g)
      | None \<Rightarrow>
          (case map_of (gn_previous g) key of
             None \<Rightarrow> (None, g)
           | Some spans \<Rightarrow> (Some spans, keep_cut span_size budget key spans (g\<lparr>gn_previous := AList.delete key (gn_previous g)\<rparr>))))"

text \<open>\<open>get_or_cut\<close> with nobody else between its two turns at the lock.\<close>

definition get_or_cut :: "nat \<Rightarrow> nat \<Rightarrow> cut_key \<Rightarrow> (cut_key \<Rightarrow> span list) \<Rightarrow> generations \<Rightarrow> span list \<times> generations" where
  "get_or_cut span_size budget key cutting g =
     (case look_cut span_size budget key g of
        (Some spans, g) \<Rightarrow> (spans, g)
      | (None, g) \<Rightarrow> (let spans = cutting key in (spans, keep_cut span_size budget key spans g)))"

text \<open>The turns at the lock, of any number of searches and writes in any order.\<close>

inductive cut_step :: "nat \<Rightarrow> nat \<Rightarrow> (cut_key \<Rightarrow> span list) \<Rightarrow> generations \<Rightarrow> generations \<Rightarrow> bool" for span_size budget cutting where
  looked: "look_cut span_size budget key g = (r, g') \<Longrightarrow> cut_step span_size budget cutting g g'"
| kept: "cut_step span_size budget cutting g (keep_cut span_size budget key (cutting key) g)"

inductive_cases cut_stepE: "cut_step span_size budget cutting g g'"

inductive reachable_cuts :: "nat \<Rightarrow> nat \<Rightarrow> (cut_key \<Rightarrow> span list) \<Rightarrow> generations \<Rightarrow> bool" for span_size budget cutting where
  empty: "reachable_cuts span_size budget cutting no_cuts"
| step: "reachable_cuts span_size budget cutting g \<Longrightarrow> cut_step span_size budget cutting g g' \<Longrightarrow> reachable_cuts span_size budget cutting g'"

section \<open>What is held\<close>

definition held_cut :: "generations \<Rightarrow> cut_key \<Rightarrow> span list option" where
  "held_cut g = map_of (gn_previous g) ++ map_of (gn_current g)"

lemma look_cut_held: "look_cut span_size budget key g = (r, g') \<Longrightarrow> r = held_cut g key"
  by (auto simp: look_cut_def held_cut_def map_add_def split: option.splits)

lemma keep_cut_held: "held_cut (keep_cut span_size budget key spans g) x = Some y \<Longrightarrow> x = key \<and> y = spans \<or> held_cut g x = Some y"
  by (auto simp: keep_cut_def held_cut_def Let_def update_conv' map_add_def split: option.splits if_splits)

lemma look_cut_keeps:
  assumes "look_cut span_size budget key g = (r, g')"
  shows "held_cut g' \<subseteq>\<^sub>m held_cut g"
proof (cases "map_of (gn_current g) key = None \<and> map_of (gn_previous g) key \<noteq> None")
  case True
  then obtain spans where s: "map_of (gn_previous g) key = Some spans" "map_of (gn_current g) key = None" by auto
  let ?g = "g\<lparr>gn_previous := AList.delete key (gn_previous g)\<rparr>"
  have "g' = keep_cut span_size budget key spans ?g" using assms s by (simp add: look_cut_def)
  then have "x = key \<and> y = spans \<or> held_cut ?g x = Some y" if "held_cut g' x = Some y" for x y
    using keep_cut_held that by blast
  moreover have "held_cut ?g x = Some y \<Longrightarrow> held_cut g x = Some y" for x y
    by (auto simp: held_cut_def map_add_def delete_conv' split: option.splits if_splits)
  moreover have "held_cut g key = Some spans" using s by (simp add: held_cut_def map_add_def)
  ultimately show ?thesis unfolding map_le_def by (metis domD)
next
  case False
  then have "g' = g" using assms by (auto simp: look_cut_def split: option.splits)
  then show ?thesis by simp
qed

interpretation cache: memo held_cut "look_cut span_size budget" "keep_cut span_size budget"
  by unfold_locales (rule look_cut_held look_cut_keeps keep_cut_held, assumption?)+

section \<open>What is counted\<close>

definition total_bytes :: "nat \<Rightarrow> held_cuts \<Rightarrow> nat" where
  "total_bytes span_size cuts = sum_list (map (span_bytes span_size \<circ> snd) cuts)"

definition counted_cuts :: "nat \<Rightarrow> nat \<Rightarrow> generations \<Rightarrow> bool" where
  "counted_cuts span_size budget g \<longleftrightarrow>
     distinct (map fst (gn_current g)) \<and> distinct (map fst (gn_previous g))
     \<and> gn_bytes g = total_bytes span_size (gn_current g)
     \<and> gn_bytes g \<le> budget \<and> total_bytes span_size (gn_previous g) \<le> budget"

lemma total_update:
  "distinct (map fst cuts) \<Longrightarrow> total_bytes span_size (AList.update key spans cuts)
     + (case map_of cuts key of None \<Rightarrow> 0 | Some old \<Rightarrow> span_bytes span_size old) = total_bytes span_size cuts + span_bytes span_size spans"
  by (induction cuts) (auto simp: total_bytes_def)

lemma total_delete: "total_bytes span_size (AList.delete key cuts) \<le> total_bytes span_size cuts"
  by (induction cuts) (auto simp: total_bytes_def AList.delete_eq)

lemma held_within: "map_of cuts key = Some old \<Longrightarrow> span_bytes span_size old \<le> total_bytes span_size cuts"
  by (induction cuts) (auto simp: total_bytes_def split: if_splits)

lemma keep_cut_counted:
  assumes "counted_cuts span_size budget g"
  shows "counted_cuts span_size budget (keep_cut span_size budget key spans g)"
proof -
  let ?size = "span_bytes span_size spans"
  define h where "h = (if budget < gn_bytes g + ?size \<and> gn_current g \<noteq> []
      then \<lparr>gn_current = [], gn_bytes = 0, gn_previous = gn_current g\<rparr> else g)"
  show ?thesis
  proof (cases "budget < ?size")
    case False
    have h: "counted_cuts span_size budget h" and fits: "gn_bytes h + ?size \<le> budget"
      using assms False by (auto simp: h_def counted_cuts_def total_bytes_def)
    let ?old = "case map_of (gn_current h) key of None \<Rightarrow> 0 | Some old \<Rightarrow> span_bytes span_size old"
    have k: "keep_cut span_size budget key spans g
        = h\<lparr>gn_current := AList.update key spans (gn_current h), gn_bytes := gn_bytes h + ?size - ?old\<rparr>"
      using False by (simp add: keep_cut_def h_def Let_def)
    have "total_bytes span_size (AList.update key spans (gn_current h)) + ?old = gn_bytes h + ?size"
      using total_update [of "gn_current h" span_size key spans] h by (simp add: counted_cuts_def)
    then have "gn_bytes h + ?size - ?old = total_bytes span_size (AList.update key spans (gn_current h))" by simp
    then show ?thesis using h fits unfolding k by (simp add: counted_cuts_def distinct_update)
  qed (use assms in \<open>simp add: keep_cut_def\<close>)
qed

lemma look_cut_counted:
  assumes "counted_cuts span_size budget g" and "look_cut span_size budget key g = (r, g')"
  shows "counted_cuts span_size budget g'"
proof (cases "map_of (gn_current g) key = None \<and> map_of (gn_previous g) key \<noteq> None")
  case True
  then obtain spans where s: "map_of (gn_previous g) key = Some spans" "map_of (gn_current g) key = None" by auto
  have "counted_cuts span_size budget (g\<lparr>gn_previous := AList.delete key (gn_previous g)\<rparr>)"
    using assms(1) total_delete [of span_size key "gn_previous g"] by (auto simp: counted_cuts_def distinct_delete intro: order_trans)
  from keep_cut_counted [OF this, of key spans] show ?thesis using assms(2) s by (simp add: look_cut_def)
next
  case False
  then have "g' = g" using assms(2) by (auto simp: look_cut_def split: option.splits)
  then show ?thesis using assms(1) by simp
qed

lemma no_cuts_right: "cache.right cutting no_cuts"
  unfolding cache.right_iff by (simp add: held_cut_def no_cuts_def)

lemma reachable_cuts_hold:
  "reachable_cuts span_size budget cutting g \<Longrightarrow> cache.right cutting g \<and> counted_cuts span_size budget g"
proof (induction rule: reachable_cuts.induct)
  case empty
  show ?case using no_cuts_right by (simp add: no_cuts_def counted_cuts_def total_bytes_def)
next
  case (step g g')
  from step.hyps(2) step.IH show ?case
    by (elim cut_stepE) (auto dest: cache.right_look look_cut_counted intro: cache.right_keep keep_cut_counted)
qed

lemma get_or_cut_cut:
  assumes "reachable_cuts span_size budget cutting g"
  shows "fst (get_or_cut span_size budget key cutting g) = cutting key
    \<and> reachable_cuts span_size budget cutting (snd (get_or_cut span_size budget key cutting g))"
proof -
  obtain r g' where l: "look_cut span_size budget key g = (r, g')" by (cases "look_cut span_size budget key g")
  have g': "reachable_cuts span_size budget cutting g'" by (rule reachable_cuts.step [OF assms cut_step.looked [OF l]])
  have r: "r = None \<or> r = Some (cutting key)" using cache.right_look [OF _ l] reachable_cuts_hold [OF assms] by blast
  show ?thesis
  proof (cases r)
    case None
    then show ?thesis using l reachable_cuts.step [OF g' cut_step.kept] by (simp add: get_or_cut_def Let_def)
  qed (use l g' r in \<open>simp add: get_or_cut_def\<close>)
qed

section \<open>Properties\<close>

definition sample_span :: "ustr \<Rightarrow> span" where
  "sample_span s = \<lparr>sn_ordinal = 0, sn_range = (0, byte_len s), sn_header = [], sn_text = s, sn_tokens = 1\<rparr>"

definition sample_cutting :: "cut_key \<Rightarrow> span list" where
  "sample_cutting key = [sample_span (snd (snd key))]"

definition sample_cuts :: generations where
  "sample_cuts = keep_cut 80 200 (2, 8, lit ''two'') (sample_cutting (2, 8, lit ''two''))
     (keep_cut 80 200 (1, 8, lit ''one'') (sample_cutting (1, 8, lit ''one'')) no_cuts)"

lemma sample_cuts_reachable: "reachable_cuts 80 200 sample_cutting sample_cuts"
  unfolding sample_cuts_def
  by (rule reachable_cuts.step [OF reachable_cuts.step [OF reachable_cuts.empty cut_step.kept] cut_step.kept])

text \<open>
  Keeping cuts changes nothing a search sees: whatever searches and writes took their turns at the
  lock and in whatever order, get_or_cut returns what cutting the memory again would return, an
  entry is never stale, and what it leaves behind is again such a state.
\<close>

theorem get_or_cut_is_cut:
  assumes "reachable_cuts span_size budget cutting g"
  shows "fst (get_or_cut span_size budget key cutting g) = cutting key
    \<and> reachable_cuts span_size budget cutting (snd (get_or_cut span_size budget key cutting g))"
  by (rule get_or_cut_cut [OF assms])

theorem get_or_cut_is_cut_witness:
  "fst (get_or_cut 80 200 (1, 8, lit ''one'') sample_cutting sample_cuts) = sample_cutting (1, 8, lit ''one'')
    \<and> reachable_cuts 80 200 sample_cutting (snd (get_or_cut 80 200 (1, 8, lit ''one'') sample_cutting sample_cuts))"
  by (rule get_or_cut_is_cut [OF sample_cuts_reachable])

text \<open>
  C39: what is held is bounded: the bytes a generation is said to hold are those of its entries - the
  subtraction for a replaced entry never goes below zero - and the two generations together hold at most
  twice the budget, whatever was kept.
\<close>

theorem cuts_within_budget:
  assumes "reachable_cuts span_size budget cutting g"
  shows "gn_bytes g = total_bytes span_size (gn_current g) \<and> gn_bytes g \<le> budget
    \<and> total_bytes span_size (gn_current g) + total_bytes span_size (gn_previous g) \<le> 2 * budget"
  using reachable_cuts_hold [OF assms] by (auto simp: counted_cuts_def)

theorem cuts_within_budget_witness:
  "gn_bytes sample_cuts = 166 \<and> gn_bytes sample_cuts = total_bytes 80 (gn_current sample_cuts) \<and> gn_bytes sample_cuts \<le> 200
    \<and> total_bytes 80 (gn_current sample_cuts) + total_bytes 80 (gn_previous sample_cuts) \<le> 2 * 200"
proof -
  have "gn_bytes sample_cuts = 166" by code_simp
  then show ?thesis using cuts_within_budget [OF sample_cuts_reachable] by simp
qed

text \<open>What searches reach is held until the generation after the one they reached it in is full.\<close>

lemma kept_is_held:
  "span_bytes span_size spans \<le> budget \<Longrightarrow> map_of (gn_current (keep_cut span_size budget key spans g)) key = Some spans"
  by (simp add: keep_cut_def Let_def update_conv')

lemma current_survives:
  "map_of (gn_current g) key = Some spans \<Longrightarrow> key \<noteq> other \<Longrightarrow> held_cut (keep_cut span_size budget other new g) key = Some spans"
  by (auto simp: keep_cut_def held_cut_def Let_def update_conv' map_add_def)

end
