(* ===== verification/Engine_Search.thy ===== *)
theory Engine_Search
  imports Engine_Rank Engine_Cuts Engine_Write Index_Segmentation Store_Walk "HOL-Library.State_Monad"
begin

text \<open>
  A search (\<open>crates/engine/src/engine.rs\<close>: \<open>search_reranked_with\<close>, \<open>search_fused\<close> and what they call): the
  index's channels and the graph's are recalled, fused, explained, shown to the reranker, put in its order
  and returned as hits. It composes the ledger, the graph walk, rank fusion, spans and the kept cuts.

  The index's three recalls, the embedder, the reranker, the segmenter's \<open>name_sequence\<close>, the token counter
  and the text of an identifier are arguments (\<open>searching\<close>). The statements of one search read one ledger
  and one graph; loading models ahead of their use is not modelled. \<open>None\<close> is a search that fails, or stops
  at an index or an \<open>expect\<close>. The cuts kept between searches are the state of a \<open>State_Monad\<close> computation.
\<close>

record depths =
  dp_channel :: nat
  dp_graph :: nat
  dp_rerank :: nat
  dp_effort :: nat

definition RERANK_DEPTH :: nat where "RERANK_DEPTH = 30"
definition SEARCH_EFFORT :: nat where "SEARCH_EFFORT = 700"
definition PAIR_TOKENS :: nat where "PAIR_TOKENS = 256"

definition depths_default :: depths where
  "depths_default = \<lparr>dp_channel = 50, dp_graph = 2, dp_rerank = RERANK_DEPTH, dp_effort = SEARCH_EFFORT\<rparr>"

record 'v searching =
  sr_embed :: "ustr \<Rightarrow> 'v option"
  sr_segmented :: "ustr \<Rightarrow> nat \<Rightarrow> scored list option"
  sr_ngram :: "ustr \<Rightarrow> nat \<Rightarrow> scored list option"
  sr_vector :: "'v \<Rightarrow> nat \<Rightarrow> nat \<Rightarrow> scored list option"
  sr_rank :: "ustr \<Rightarrow> ustr list \<Rightarrow> (nat \<times> rat) list option"
  sr_sequence :: "ustr \<Rightarrow> ustr list"
  sr_offsets :: token_offsets
  sr_breaks :: "ustr \<Rightarrow> nat list"
  sr_cap :: "nat option"
  sr_span_size :: nat
  sr_id_text :: "topic_id \<Rightarrow> ustr"

section \<open>What a search resolved\<close>

record working =
  wg_current :: "topic_id \<rightharpoonup> topic_state"
  wg_names :: "topic_id \<rightharpoonup> ustr"

definition no_working :: working where
  "no_working = \<lparr>wg_current = (\<lambda>_. None), wg_names = (\<lambda>_. None)\<rparr>"

definition add_states :: "(ustr \<times> topic_state) list \<Rightarrow> working \<Rightarrow> working" where
  "add_states states w = fold (\<lambda>(name, state) w.
     w\<lparr>wg_names := (wg_names w)(st_of state \<mapsto> name), wg_current := (wg_current w)(st_of state \<mapsto> state)\<rparr>) states w"

definition add_names :: "(topic_id \<times> ustr \<times> topic_state_id option) list \<Rightarrow> working \<Rightarrow> working" where
  "add_names topics w = fold (\<lambda>(topic, name, _) w. w\<lparr>wg_names := (wg_names w)(topic \<mapsto> name)\<rparr>) topics w"

definition topic_name :: "'v searching \<Rightarrow> working \<Rightarrow> topic_id \<Rightarrow> ustr" where
  "topic_name sr w topic = (case wg_names w topic of Some name \<Rightarrow> name | None \<Rightarrow> sr_id_text sr topic)"

section \<open>The graph channel\<close>

definition seeds_of :: "working \<Rightarrow> topic_id list \<Rightarrow> topic_id list \<Rightarrow> topic_id list" where
  "seeds_of w named ranked = take MAX_SEEDS (once {} (filter (\<lambda>t. wg_current w t \<noteq> None) (named @ ranked)))"

definition worth_of :: "(topic_id \<rightharpoonup> rat) \<Rightarrow> scoring" where
  "worth_of relevance confidence hops origin =
     fmul (path_strength confidence hops) (case relevance origin of None \<Rightarrow> 0 | Some r \<Rightarrow> r)"

text \<open>The bounded walk when it settles which arrivals are strongest, the full one when it does not.\<close>

definition arrivals_of :: "graph_db \<Rightarrow> project_id \<Rightarrow> topic_id list \<Rightarrow> depths \<Rightarrow> scoring \<Rightarrow> neighbor list" where
  "arrivals_of g project seeds depths worth =
     (let keep = dp_channel depths; options = keeping keep (to_depth (dp_graph depths))
      in case walk_strongest (expand_reading g project seeds options keep) keep worth of
           Some neighbors \<Rightarrow> neighbors
         | None \<Rightarrow> strongest (expand g project seeds options) keep worth)"

record graph_recall =
  gr_list :: channel_results
  gr_paths :: "(topic_id \<times> neighbor) list"
  gr_working :: working

definition recall_graph :: "'v searching \<Rightarrow> graph_db \<Rightarrow> ledger \<Rightarrow> project_id \<Rightarrow> nat \<Rightarrow> ustr \<Rightarrow> topic_id list
    \<Rightarrow> channel_results list \<Rightarrow> depths \<Rightarrow> rat \<Rightarrow> working \<Rightarrow> graph_recall option" where
  "recall_graph sr g db project widest query ranked recalled depths k w =
     (let named = topics_named_by db project (runs_of_tokens (sr_sequence sr query) widest);
          relevance = seed_relevance named recalled k;
          unresolved = filter (\<lambda>t. wg_current w t = None) named
      in do {
        w1 \<leftarrow> if unresolved = [] then Some w
             else map_option (\<lambda>states. add_states states w) (current_states_named db project unresolved);
        let neighbors = arrivals_of g project (seeds_of w1 named ranked) depths (worth_of relevance);
        states \<leftarrow> current_states_named db project (map nb_topic neighbors);
        let resolves = st_of ` snd ` set states;
        let kept = filter (\<lambda>n. nb_topic n \<in> resolves) neighbors;
        Some \<lparr>gr_list = \<lparr>cs_channel = Graph, cs_candidates = map (\<lambda>n. scored_new (nb_topic n) (rate (worth_of relevance) n)) kept\<rparr>,
              gr_paths = map (\<lambda>n. (nb_topic n, n)) kept, gr_working = add_states states w1\<rparr>
      })"

section \<open>Fusing\<close>

record fused =
  fs_results :: "fused_result list"
  fs_live :: working
  fs_paths :: "(topic_id \<times> neighbor) list"

definition index_lists :: "'v searching \<Rightarrow> ustr \<Rightarrow> depths \<Rightarrow> channel_results list option" where
  "index_lists sr query depths = do {
     embedding \<leftarrow> sr_embed sr query;
     segmented \<leftarrow> sr_segmented sr query (dp_channel depths);
     ngram \<leftarrow> sr_ngram sr query (dp_channel depths);
     vector \<leftarrow> sr_vector sr embedding (dp_channel depths) (dp_effort depths);
     Some [\<lparr>cs_channel = LexicalSegmented, cs_candidates = segmented\<rparr>, \<lparr>cs_channel = LexicalNgram, cs_candidates = ngram\<rparr>,
           \<lparr>cs_channel = Vector, cs_candidates = vector\<rparr>]
   }"

definition path_entry :: "'v searching \<Rightarrow> working \<Rightarrow> neighbor \<Rightarrow> why" where
  "path_entry sr live n =
     (let name = topic_name sr live;
          (from, to) = (if nb_outbound n then (nb_via n, nb_topic n) else (nb_topic n, nb_via n))
      in WhyPath (name (nb_origin n)) (name (nb_via n)) (nb_hops n) (name from) (name to) (nb_kind n) (nb_derivation n))"

definition explained :: "'v searching \<Rightarrow> working \<Rightarrow> (topic_id \<times> neighbor) list \<Rightarrow> fused_result \<Rightarrow> fused_result" where
  "explained sr live paths r =
     (case map_of paths (fr_topic r) of
        None \<Rightarrow> r
      | Some n \<Rightarrow> r\<lparr>fr_why := fr_why r @ [path_entry sr live n]\<rparr>)"

definition named_vias :: "ledger \<Rightarrow> project_id \<Rightarrow> (topic_id \<times> neighbor) list \<Rightarrow> working \<Rightarrow> working" where
  "named_vias db project paths w =
     (let unnamed = sort (remdups (filter (\<lambda>via. wg_names w via = None) (map (nb_via \<circ> snd) paths)))
      in if unnamed = [] then w else add_names (topics_by_id db project unnamed) w)"

definition search_all :: "'v searching \<Rightarrow> graph_db \<Rightarrow> project_id \<Rightarrow> ustr \<Rightarrow> depths \<Rightarrow> fusion \<Rightarrow> engine \<Rightarrow> fused option \<times> engine" where
  "search_all sr g project query depths f e =
     (let db = eg_ledger e in
      case do {
        recalled \<leftarrow> index_lists sr query depths;
        let candidates = best_first recalled;
        states \<leftarrow> current_states_named db project candidates;
        Some (recalled, candidates, add_states states no_working)
      } of
        None \<Rightarrow> (None, e)
      | Some (recalled, candidates, w) \<Rightarrow>
          let (widest, e1) = widest_name project e
          in (map_option (\<lambda>gr.
                let live = named_vias db project (gr_paths gr) (gr_working gr);
                    results = filter (\<lambda>r. wg_current live (fr_topic r) \<noteq> None) (fuse f (recalled @ [gr_list gr]))
                in \<lparr>fs_results = map (explained sr live (gr_paths gr)) results, fs_live = live, fs_paths = gr_paths gr\<rparr>)
                (recall_graph sr g db project widest query candidates recalled depths (fu_k f) w), e1))"

section \<open>Showing\<close>

record window =
  wn_cap :: nat
  wn_room :: nat

definition window_of :: "'v searching \<Rightarrow> ustr \<Rightarrow> window option" where
  "window_of sr query = map_option (\<lambda>cap. \<lparr>wn_cap = cap, wn_room = PAIR_TOKENS - (4 + token_count (sr_offsets sr) query)\<rparr>) (sr_cap sr)"

text \<open>What a memory is cut into; cutting always ends (\<open>Index_Spans_Sound\<close>).\<close>

definition spans_of :: "'v searching \<Rightarrow> nat \<Rightarrow> ustr \<Rightarrow> ustr \<Rightarrow> span list" where
  "spans_of sr cap name content =
     (case pack (sr_offsets sr) (sr_breaks sr) name content cap of Some spans \<Rightarrow> spans | None \<Rightarrow> [])"

definition window_cut :: "'v searching \<Rightarrow> window \<Rightarrow> topic_state \<Rightarrow> ustr \<Rightarrow> (generations, span list) state" where
  "window_cut sr w st name =
     State (get_or_cut (sr_span_size sr) GENERATION_BYTES (st_id st, wn_cap w, name) (\<lambda>_. spans_of sr (wn_cap w) name (st_content st)))"

definition render :: "span list \<Rightarrow> ustr option \<Rightarrow> nat \<Rightarrow> nat \<Rightarrow> ustr" where
  "render spans seed lo hi =
     shown (sn_header (spans ! lo)) (join_str [10] (map sn_text (take (Suc hi - lo) (drop lo spans)))) seed"

definition window_text :: "'v searching \<Rightarrow> window \<Rightarrow> topic_state \<Rightarrow> ustr \<Rightarrow> 32 word \<Rightarrow> ustr option \<Rightarrow> span list \<Rightarrow> ustr" where
  "window_text sr w st name best seed spans =
     (if length spans = 1 \<or> length spans \<le> unat best then shown name (st_content st) seed
      else
        let (lo, hi) = grow (unat best) (length spans)
              (\<lambda>lo hi. token_count (sr_offsets sr) (render spans seed lo hi) \<le> wn_room w)
        in render spans seed lo hi)"

definition window_shown :: "'v searching \<Rightarrow> window \<Rightarrow> topic_state \<Rightarrow> ustr \<Rightarrow> 32 word \<Rightarrow> ustr option \<Rightarrow> (generations, ustr) state" where
  "window_shown sr w st name best seed = do {
     spans \<leftarrow> window_cut sr w st name;
     State_Monad.return (window_text sr w st name best seed spans)
   }"

definition view_of :: "32 word \<Rightarrow> span list \<Rightarrow> span_view option" where
  "view_of best spans = (if length spans = 1 then None else view_within spans best VIEW_TOKENS)"

definition window_view :: "'v searching \<Rightarrow> window \<Rightarrow> topic_state \<Rightarrow> ustr \<Rightarrow> 32 word \<Rightarrow> (generations, span_view option) state" where
  "window_view sr w st name best = do {
     spans \<leftarrow> window_cut sr w st name;
     State_Monad.return (view_of best spans)
   }"

text \<open>Of a seed's memory, the span that names the topic the walk reached, or all of it.\<close>

definition naming_in :: "(ustr \<Rightarrow> ustr list) \<Rightarrow> ustr \<Rightarrow> span list \<Rightarrow> ustr \<Rightarrow> ustr" where
  "naming_in sequence content spans reached =
     (if length spans = 1 then content
      else case find (\<lambda>s. seg_names (sequence (sn_text s)) (sequence reached)) spans of
             None \<Rightarrow> content
           | Some s \<Rightarrow> the (span_text content (fst (sn_range s)) (snd (sn_range s))))"

definition window_naming :: "'v searching \<Rightarrow> window \<Rightarrow> topic_state \<Rightarrow> ustr \<Rightarrow> (generations, ustr) state" where
  "window_naming sr w seed reached = do {
     spans \<leftarrow> window_cut sr w seed [];
     State_Monad.return (naming_in (sr_sequence sr) (st_content seed) spans reached)
   }"

definition seed_of :: "working \<Rightarrow> (topic_id \<times> neighbor) list \<Rightarrow> topic_id \<Rightarrow> topic_state option" where
  "seed_of live paths topic = Option.bind (map_of paths topic) (\<lambda>n. wg_current live (nb_origin n))"

definition live_state :: "fused \<Rightarrow> fused_result \<Rightarrow> topic_state" where
  "live_state fs r = the (wg_current (fs_live fs) (fr_topic r))"

definition fused_shown :: "'v searching \<Rightarrow> window option \<Rightarrow> fused \<Rightarrow> fused_result \<Rightarrow> (generations, ustr) state" where
  "fused_shown sr window fs r =
     (let st = live_state fs r; name = topic_name sr (fs_live fs) (fr_topic r);
          seed = seed_of (fs_live fs) (fs_paths fs) (fr_topic r)
      in case window of
           None \<Rightarrow> State_Monad.return (shown name (st_content st) (map_option st_content seed))
         | Some w \<Rightarrow> do {
             said \<leftarrow> (case seed of
                None \<Rightarrow> State_Monad.return None
              | Some s \<Rightarrow> do { t \<leftarrow> window_naming sr w s name; State_Monad.return (Some t) });
             window_shown sr w st name (fr_span r) said
           })"

record search_hit =
  hit_topic :: ustr
  hit_state :: topic_state
  hit_result :: fused_result
  hit_seed :: "ustr option"
  hit_span :: "span_view option"
  hit_parent :: "ustr option"

definition hit_of :: "'v searching \<Rightarrow> window option \<Rightarrow> fused \<Rightarrow> fused_result \<Rightarrow> (generations, search_hit) state" where
  "hit_of sr window fs r =
     (let st = live_state fs r; name = topic_name sr (fs_live fs) (fr_topic r)
      in do {
        view \<leftarrow> (case window of None \<Rightarrow> State_Monad.return None | Some w \<Rightarrow> window_view sr w st name (fr_span r));
        State_Monad.return \<lparr>hit_topic = name, hit_state = st, hit_result = r,
          hit_seed = map_option st_content (seed_of (fs_live fs) (fs_paths fs) (fr_topic r)),
          hit_span = view, hit_parent = None\<rparr>
      })"

definition hits_of :: "'v searching \<Rightarrow> window option \<Rightarrow> nat \<Rightarrow> fused \<Rightarrow> (generations, search_hit list) state" where
  "hits_of sr window limit fs = State_Monad.traverse_list (hit_of sr window fs) (take limit (fs_results fs))"

section \<open>Reranking\<close>

definition mark_ranked :: "nat list \<Rightarrow> nat \<times> rat \<Rightarrow> fused_result list \<Rightarrow> fused_result list" where
  "mark_ranked unlexical x results =
     (let here = unlexical ! fst x; r = results ! here
      in results[here := r\<lparr>fr_why := fr_why r @ [WhyReranked (snd x)]\<rparr>])"

definition model_scores :: "(nat \<times> rat) list \<Rightarrow> rat list" where
  "model_scores ordered = fold (\<lambda>(position, score) scores. scores[position := score]) ordered (replicate (length ordered) 0)"

text \<open>The reranker's answer put into the list; \<open>None\<close> where an index or an \<open>expect\<close> would stop.\<close>

definition reordered :: "nat list \<Rightarrow> nat \<Rightarrow> (nat \<times> rat) list \<Rightarrow> fused_result list \<Rightarrow> fused_result list option" where
  "reordered unlexical depth ordered results =
     (if list_all (\<lambda>(position, _). position < length unlexical \<and> position < length ordered) ordered
      then
        let marked = fold (mark_ranked unlexical) ordered results in do {
          best \<leftarrow> score_blend_order (map (\<lambda>here. fr_score (marked ! here)) unlexical) (model_scores ordered) RERANK_FUSION;
          replace_shown marked unlexical depth best
        }
      else None)"

definition rerank_fused :: "'v searching \<Rightarrow> window option \<Rightarrow> ustr \<Rightarrow> depths \<Rightarrow> nat list \<Rightarrow> fused \<Rightarrow> (generations, fused option) state" where
  "rerank_fused sr window query depths unlexical fs = do {
     documents \<leftarrow> State_Monad.traverse_list (\<lambda>here. fused_shown sr window fs (fs_results fs ! here)) unlexical;
     State_Monad.return (do {
       ordered \<leftarrow> sr_rank sr query documents;
       results \<leftarrow> reordered unlexical (dp_rerank depths) ordered (fs_results fs);
       Some (fs\<lparr>fs_results := results\<rparr>)
     })
   }"

definition ranked_hits :: "'v searching \<Rightarrow> ustr \<Rightarrow> nat \<Rightarrow> depths \<Rightarrow> fused \<Rightarrow> (generations, search_hit list option) state" where
  "ranked_hits sr query limit depths fs =
     (let window = window_of sr query; unlexical = rerankable (map fr_why (fs_results fs)) (dp_rerank depths)
      in if fs_results fs = [] \<or> \<not> can_be_seen unlexical limit
         then do { hits \<leftarrow> hits_of sr window limit fs; State_Monad.return (Some hits) }
         else do {
           reranked \<leftarrow> rerank_fused sr window query depths unlexical fs;
           (case reranked of
              None \<Rightarrow> State_Monad.return None
            | Some fs \<Rightarrow> do { hits \<leftarrow> hits_of sr window limit fs; State_Monad.return (Some hits) })
         })"

definition with_parents :: "graph_db \<Rightarrow> ledger \<Rightarrow> project_id \<Rightarrow> search_hit list \<Rightarrow> search_hit list" where
  "with_parents g db project hits =
     (let edges = targets g project (map (st_of \<circ> hit_state) hits) PartOf
      in if edges = [] then hits
         else
           let parents = remdups_adj (sort (map snd edges));
               names = map_of (rev (map (\<lambda>(topic, name, _). (topic, name)) (topics_by_id db project parents)));
               parent_of = map_of (rev edges)
           in map (\<lambda>h. h\<lparr>hit_parent := Option.bind (parent_of (st_of (hit_state h))) names\<rparr>) hits)"

definition search_reranked_with :: "'v searching \<Rightarrow> graph_db \<Rightarrow> project_id \<Rightarrow> ustr \<Rightarrow> nat \<Rightarrow> depths \<Rightarrow> fusion \<Rightarrow> engine \<Rightarrow> generations
    \<Rightarrow> search_hit list option \<times> engine \<times> generations" where
  "search_reranked_with sr g project query limit depths f e cuts =
     (case search_all sr g project query depths f e of
        (None, e) \<Rightarrow> (None, e, cuts)
      | (Some fs, e) \<Rightarrow>
          let (hits, cuts) = run_state (ranked_hits sr query limit depths fs) cuts
          in (map_option (with_parents g (eg_ledger e) project) hits, e, cuts))"

definition search_reranked where
  "search_reranked sr g project query limit depths e cuts =
     search_reranked_with sr g project query limit depths fusion_default e cuts"

definition search_fused :: "'v searching \<Rightarrow> graph_db \<Rightarrow> project_id \<Rightarrow> ustr \<Rightarrow> nat \<Rightarrow> depths \<Rightarrow> fusion \<Rightarrow> engine \<Rightarrow> generations
    \<Rightarrow> search_hit list option \<times> engine \<times> generations" where
  "search_fused sr g project query limit depths f e cuts =
     (case search_all sr g project query depths f e of
        (None, e) \<Rightarrow> (None, e, cuts)
      | (Some fs, e) \<Rightarrow>
          let (hits, cuts) = run_state (hits_of sr (window_of sr query) limit fs) cuts
          in (Some hits, e, cuts))"

end
