(* ===== verification/Engine_Rank_Sound.thy ===== *)
theory Engine_Rank_Sound
  imports Engine_Rank
begin

text \<open>What the rules of \<open>Engine_Rank\<close> promise.\<close>

section \<open>Growing a view\<close>

text \<open>A run of spans that holds the one asked about, fits if it holds more, and can grow on neither side.\<close>

definition grown :: "(nat \<Rightarrow> nat \<Rightarrow> bool) \<Rightarrow> nat \<Rightarrow> nat \<Rightarrow> nat \<Rightarrow> nat \<Rightarrow> bool" where
  "grown fits here len lo hi \<longleftrightarrow>
     lo \<le> here \<and> here \<le> hi \<and> hi < len \<and> (lo = hi \<or> fits lo hi)
     \<and> \<not> (0 < lo \<and> fits (lo - 1) hi) \<and> \<not> (hi + 1 < len \<and> fits lo (hi + 1))"

lemma grow_from_grown:
  "lo \<le> here \<Longrightarrow> here \<le> hi \<Longrightarrow> hi < len \<Longrightarrow> lo = hi \<or> fits lo hi \<Longrightarrow>
   case grow_from fits here len lo hi of (lo', hi') \<Rightarrow> grown fits here len lo' hi'"
proof (induction fits here len lo hi rule: grow_from.induct)
  case (1 fits here len lo hi)
  let ?order = "grow_order here len lo hi"
  show ?case
  proof (cases "find (\<lambda>(lo', hi'). fits lo' hi') ?order")
    case None
    then have "\<forall>(lo', hi')\<in>set ?order. \<not> fits lo' hi'" by (auto simp: find_None_iff)
    then have "grown fits here len lo hi" using 1(2-) unfolding set_grow_order by (auto simp: grown_def)
    then show ?thesis using None by (simp add: grow_from.simps [of fits here len lo hi])
  next
    case (Some x)
    obtain lo' hi' where x: "x = (lo', hi')" by (cases x)
    have "(lo', hi') \<in> set ?order" "fits lo' hi'" using find_SomeD [OF Some] x by auto
    then have "case grow_from fits here len lo' hi' of (l, h) \<Rightarrow> grown fits here len l h"
      using 1(2-4) unfolding set_grow_order by (intro 1(1) [OF Some x [symmetric]]) (auto split: if_splits)
    then show ?thesis using Some x by (simp add: grow_from.simps [of fits here len lo hi])
  qed
qed

lemma grow_grown: "here < len \<Longrightarrow> grow here len fits = (lo, hi) \<Longrightarrow> grown fits here len lo hi"
  using grow_from_grown [of here here here len fits] by (simp add: grow_def)

section \<open>Interleaving\<close>

lemma set_once: "set (once seen xs) = set xs - seen"
  by (induction seen xs rule: once.induct) auto

lemma distinct_once: "distinct (once seen xs)"
  by (induction seen xs rule: once.induct) (auto simp: set_once)

lemma once_append: "once seen (xs @ ys) = once seen xs @ once (seen \<union> set xs) ys"
  by (induction seen xs rule: once.induct) (auto simp: insert_absorb)

text \<open>The best place a topic holds in any list.\<close>

definition ranked_at :: "channel_results list \<Rightarrow> topic_id \<Rightarrow> nat \<Rightarrow> bool" where
  "ranked_at ranked t rank \<longleftrightarrow> (\<exists>r\<in>set ranked. rank < length (cs_candidates r) \<and> sc_topic (cs_candidates r ! rank) = t)"

lemma set_at_rank: "t \<in> set (at_rank ranked rank) \<longleftrightarrow> ranked_at ranked t rank"
  by (auto simp: at_rank_def ranked_at_def List.map_filter_def split: if_splits)

lemma foldl_max_upper: "n \<le> foldl max (n::nat) xs \<and> (\<forall>x\<in>set xs. x \<le> foldl max n xs)"
proof (induction xs arbitrary: n)
  case (Cons x xs)
  then show ?case by (auto intro: order_trans [of _ "max n x"])
qed simp

definition best_rank :: "channel_results list \<Rightarrow> topic_id \<Rightarrow> nat" where
  "best_rank ranked t = (LEAST rank. ranked_at ranked t rank)"

lemma once_ranks:
  "sorted_wrt (\<lambda>a b. best_rank ranked a \<le> best_rank ranked b) (once {} (concat (map (at_rank ranked) [0..<n])))
   \<and> set (once {} (concat (map (at_rank ranked) [0..<n]))) = {t. \<exists>rank<n. ranked_at ranked t rank}"
proof (induction n)
  case (Suc n)
  let ?xs = "concat (map (at_rank ranked) [0..<n])"
  have set: "set ?xs = {t. \<exists>rank<n. ranked_at ranked t rank}" by (auto simp: set_at_rank)
  have app: "once {} (concat (map (at_rank ranked) [0..<Suc n])) = once {} ?xs @ once (set ?xs) (at_rank ranked n)"
    by (simp add: once_append)
  have new: "best_rank ranked t = n" if "t \<in> set (once (set ?xs) (at_rank ranked n))" for t
    using that unfolding best_rank_def
    by (intro Least_equality) (auto simp: set_once set set_at_rank not_less [symmetric])
  have old: "best_rank ranked t \<le> n" if "t \<in> set ?xs" for t
    using that Least_le [of "ranked_at ranked t"] unfolding set best_rank_def by force
  have "sorted_wrt (\<lambda>a b. best_rank ranked a \<le> best_rank ranked b) (once (set ?xs) (at_rank ranked n))"
    using new by (simp add: sorted_wrt_iff_nth_less)
  then have "sorted_wrt (\<lambda>a b. best_rank ranked a \<le> best_rank ranked b) (once {} (concat (map (at_rank ranked) [0..<Suc n])))"
    unfolding app sorted_wrt_append using Suc.IH new old by (auto simp: set_once)
  moreover have "set (once {} (concat (map (at_rank ranked) [0..<Suc n]))) = {t. \<exists>rank<Suc n. ranked_at ranked t rank}"
    unfolding app by (auto simp: set_once set set_at_rank less_Suc_eq)
  ultimately show ?case by blast
qed simp

lemma best_first_topics: "set (best_first ranked) = (\<Union>r\<in>set ranked. set (results_topics r))"
proof -
  let ?n = "foldl max 0 (map (\<lambda>r. length (cs_candidates r)) ranked)"
  have "length (cs_candidates r) \<le> ?n" if "r \<in> set ranked" for r using foldl_max_upper [of 0] that by auto
  then have n: "ranked_at ranked t rank \<Longrightarrow> rank < ?n" for t rank by (fastforce simp: ranked_at_def)
  have "set (best_first ranked) = {t. \<exists>rank<?n. ranked_at ranked t rank}" using once_ranks by (simp add: best_first_def Let_def)
  also have "\<dots> = {t. \<exists>rank. ranked_at ranked t rank}" using n by blast
  also have "\<dots> = (\<Union>r\<in>set ranked. sc_topic ` set (cs_candidates r))"
    by (fastforce simp: ranked_at_def in_set_conv_nth [of _ "cs_candidates _"])
  finally show ?thesis by (simp add: results_topics_def)
qed

section \<open>What the reranker is shown\<close>

lemma strength_order_preorder: "preorder_by strength_order"
  by (auto simp: strength_order_def)

interpretation strength: preorder_by strength_order
  by (rule strength_order_preorder)

lemma eligible_places: "map fst (eligible traces head) = filter (\<lambda>here. \<exists>score via. graph_only (traces ! here) = Some (score, via) \<and> GRAPH_SHOWN_FROM \<le> score) [head..<length traces]"
proof -
  have "map fst (filter (\<lambda>(_, score, _). GRAPH_SHOWN_FROM \<le> score) (List.map_filter (\<lambda>here. map_option (Pair here) (graph_only (traces ! here))) xs))
      = filter (\<lambda>here. \<exists>score via. graph_only (traces ! here) = Some (score, via) \<and> GRAPH_SHOWN_FROM \<le> score) xs" for xs
    by (induction xs) (auto simp: List.map_filter_simps split: option.splits)
  then show ?thesis by (simp add: eligible_def)
qed

text \<open>The finds below the head that only the graph made, ranked by the strength they share.\<close>

definition graph_finds :: "why list list \<Rightarrow> nat \<Rightarrow> (nat \<times> rat) list" where
  "graph_finds traces head = sort_by strength_order (map (\<lambda>x. (fst x, shared_strength (eligible traces head) x)) (eligible traces head))"

lemma graph_finds_places:
  "set (map fst (graph_finds traces head)) = {here. head \<le> here \<and> here < length traces \<and>
     (\<exists>score via. graph_only (traces ! here) = Some (score, via) \<and> GRAPH_SHOWN_FROM \<le> score)}"
  "distinct (map fst (graph_finds traces head))"
proof -
  have m: "mset (map fst (graph_finds traces head)) = mset (map fst (eligible traces head))"
    by (simp add: graph_finds_def multiset.map_comp comp_def)
  show "distinct (map fst (graph_finds traces head))" using mset_eq_imp_distinct_iff [OF m] by (simp add: eligible_places)
  show "set (map fst (graph_finds traces head)) = {here. head \<le> here \<and> here < length traces \<and>
     (\<exists>score via. graph_only (traces ! here) = Some (score, via) \<and> GRAPH_SHOWN_FROM \<le> score)}"
    using mset_eq_setD [OF m] by (auto simp: eligible_places)
qed

lemma rerankable_eq:
  "rerankable traces depth = [0..<min depth (length traces)] @
     sort (map fst (take GRAPH_SHOWN_AT_MOST (graph_finds traces (min depth (length traces)))))"
proof -
  let ?head = "min depth (length traces)"
  have "\<forall>x\<in>set (map fst (graph_finds traces ?head)). ?head \<le> x" unfolding graph_finds_places(1) by simp
  then have "\<forall>x\<in>set (take GRAPH_SHOWN_AT_MOST (map fst (graph_finds traces ?head))). ?head \<le> x" by (blast dest: set_take_in)
  then have f: "\<forall>x\<in>set (map fst (take GRAPH_SHOWN_AT_MOST (graph_finds traces ?head))). ?head \<le> x" by (simp only: take_map)
  have "rerankable traces depth = sort ([0..<?head] @ map fst (take GRAPH_SHOWN_AT_MOST (graph_finds traces ?head)))"
    by (simp add: rerankable_def graph_finds_def Let_def)
  also have "\<dots> = [0..<?head] @ sort (map fst (take GRAPH_SHOWN_AT_MOST (graph_finds traces ?head)))"
    by (rule properties_for_sort) (use f in \<open>force simp: sorted_append\<close>)+
  finally show ?thesis .
qed

lemma rerankable_sorted: "sorted (rerankable traces depth)" "distinct (rerankable traces depth)"
  "\<forall>x\<in>set (rerankable traces depth). x < length traces"
proof -
  let ?head = "min depth (length traces)"
  have d: "distinct (map fst (take GRAPH_SHOWN_AT_MOST (graph_finds traces ?head)))"
    using graph_finds_places(2) [of traces ?head] by (metis distinct_take take_map)
  have s: "set (map fst (take GRAPH_SHOWN_AT_MOST (graph_finds traces ?head))) \<subseteq> {?head..<length traces}"
    using graph_finds_places(1) [of traces ?head] by (force dest: set_take_in)
  show "sorted (rerankable traces depth)" by (simp add: rerankable_def Let_def)
  show "distinct (rerankable traces depth)" unfolding rerankable_eq using d s by force
  show "\<forall>x\<in>set (rerankable traces depth). x < length traces" unfolding rerankable_eq using s by auto
qed

section \<open>Putting back\<close>

lemma take_each_distinct:
  "distinct ats \<Longrightarrow> \<forall>a\<in>set ats. a < length slots \<Longrightarrow>
   take_each slots ats = Some (map ((!) slots) ats, map (\<lambda>i. if i \<in> set ats then None else slots ! i) [0..<length slots])"
proof (induction slots ats rule: take_each.induct)
  case (2 slots a ats)
  then have "take_each (slots[a := None]) ats = Some (map ((!) (slots[a := None])) ats,
      map (\<lambda>i. if i \<in> set ats then None else slots[a := None] ! i) [0..<length slots])" by auto
  moreover have "map ((!) (slots[a := None])) ats = map ((!) slots) ats" using 2(2) by (auto intro!: nth_list_update_neq)
  moreover have "map (\<lambda>i. if i \<in> set ats then None else slots[a := None] ! i) [0..<length slots]
      = map (\<lambda>i. if i \<in> set (a # ats) then None else slots ! i) [0..<length slots]"
    by (auto simp: nth_list_update)
  ultimately show ?case using 2(3) by simp
qed (simp add: map_nth)

lemma refill_distinct:
  "distinct (map fst moves) \<Longrightarrow> distinct (map snd moves) \<Longrightarrow>
   \<forall>(h, p)\<in>set moves. h < length slots \<and> p < length taken \<Longrightarrow>
   refill slots taken moves = Some (map (\<lambda>i. case map_of moves i of None \<Rightarrow> slots ! i | Some p \<Rightarrow> taken ! p) [0..<length slots])"
proof (induction slots taken moves rule: refill.induct)
  case (2 slots taken h p moves)
  then have "refill (slots[h := taken ! p]) (taken[p := None]) moves =
      Some (map (\<lambda>i. case map_of moves i of None \<Rightarrow> slots[h := taken ! p] ! i | Some q \<Rightarrow> taken[p := None] ! q) [0..<length slots])"
    by auto
  also have "map (\<lambda>i. case map_of moves i of None \<Rightarrow> slots[h := taken ! p] ! i | Some q \<Rightarrow> taken[p := None] ! q) [0..<length slots]
      = map (\<lambda>i. case map_of ((h, p) # moves) i of None \<Rightarrow> slots ! i | Some q \<Rightarrow> taken ! q) [0..<length slots]"
  proof (rule map_cong [OF refl])
    fix i assume i: "i \<in> set [0..<length slots]"
    have "taken[p := None] ! q = taken ! q" if "map_of moves i = Some q" for q
      using 2(3) imageI [OF map_of_SomeD [OF that], of snd] by (auto intro!: nth_list_update_neq)
    moreover have "map_of moves h = None" using 2(2) by (auto simp: map_of_eq_None_iff)
    ultimately show "(case map_of moves i of None \<Rightarrow> slots[h := taken ! p] ! i | Some q \<Rightarrow> taken[p := None] ! q)
      = (case map_of ((h, p) # moves) i of None \<Rightarrow> slots ! i | Some q \<Rightarrow> taken ! q)"
      using i by (auto split: option.splits)
  qed
  finally show ?case using 2(4) by simp
qed (simp add: map_nth)

lemma those_full: "\<forall>x\<in>set slots. x \<noteq> None \<Longrightarrow> those slots = Some (map the slots)"
  by (induction slots) auto

lemma those_map_all_Some [simp]: "those (map Some xs) = Some xs"
  by (induction xs) auto

lemma targets_of_places:
  assumes "distinct shown_at"
  shows "distinct (targets_of shown_at head)" "length (targets_of shown_at head) = length shown_at"
    "set (targets_of shown_at head) = {i. i < head \<and> i \<in> set shown_at} \<union> {head..<head + length (filter (\<lambda>i. head \<le> i) shown_at)}"
  using assms sum_length_filter_compl [of "\<lambda>i. i < head" shown_at] by (auto simp: targets_of_def not_less)

text \<open>
  What \<open>place\<close> does to a list: what was not shown stays where it is in the head, and in its order below it;
  what was shown fills the rest in the model's order, the head's slots first and then one slot after the
  head for each find from below it.
\<close>

lemma replace_shown_spec:
  fixes head :: nat
  assumes d: "distinct shown_at" and l: "\<forall>a\<in>set shown_at. a < length xs"
    and b: "mset best = mset [0..<length shown_at]"
  defines "h \<equiv> min head (length xs)" and "n \<equiv> length (filter (\<lambda>i. min head (length xs) \<le> i) shown_at)"
  shows "\<exists>r. replace_shown xs shown_at head best = Some r
    \<and> map ((!) r) (targets_of shown_at h) = map (\<lambda>p. xs ! (shown_at ! p)) best
    \<and> (\<forall>i<h. i \<notin> set shown_at \<longrightarrow> r ! i = xs ! i)
    \<and> drop (h + n) r = map ((!) xs) (filter (\<lambda>i. i \<notin> set shown_at) [h..<length xs]) \<and> h + n \<le> length r"
proof -
  let ?taken = "map (\<lambda>a. Some (xs ! a)) shown_at"
  let ?blank = "map (\<lambda>i. if i \<in> set shown_at then None else Some (xs ! i)) [0..<length xs]"
  let ?ts = "targets_of shown_at h"
  let ?rest = "map (\<lambda>i. Some (xs ! i)) (filter (\<lambda>i. i \<notin> set shown_at) [h..<length xs])"
  let ?slots = "take h ?blank @ replicate n None @ ?rest"
  let ?moves = "zip ?ts best"
  let ?full = "map (\<lambda>i. case map_of ?moves i of None \<Rightarrow> ?slots ! i | Some p \<Rightarrow> ?taken ! p) [0..<length ?slots]"
  have h: "h \<le> length xs" and n: "n = length (filter (\<lambda>i. h \<le> i) shown_at)" by (simp_all add: h_def n_def)
  have best: "length best = length shown_at" "distinct best" "set best = {0..<length shown_at}"
    using mset_eq_length [OF b] mset_eq_imp_distinct_iff [OF b] mset_eq_setD [OF b] by simp_all
  note ts = targets_of_places [OF d, of h, folded n]
  have taken: "take_each (map Some xs) shown_at = Some (?taken, ?blank)"
    using take_each_distinct [OF d, of "map Some xs"] l by (auto intro: map_cong)
  have rest: "filter (\<lambda>s. s \<noteq> None) (drop h ?blank) = ?rest"
    by (simp add: drop_map filter_map comp_def)
  have lens: "length ?slots = h + n + length ?rest" "length ?ts = length best" using h ts(2) best(1) by simp_all
  have moves: "distinct (map fst ?moves)" "distinct (map snd ?moves)"
    using ts(1) best(2) lens(2) by simp_all
  have in_range: "\<forall>(a, p)\<in>set ?moves. a < length ?slots \<and> p < length ?taken"
  proof clarify
    fix a p assume m: "(a, p) \<in> set ?moves"
    then have "a \<in> set ?ts" "p \<in> set best" by (auto dest: set_zip_leftD set_zip_rightD)
    then show "a < length ?slots \<and> p < length ?taken"
      using ts(3) best(3) lens(1) h by auto
  qed
  have full: "refill ?slots ?taken ?moves = Some ?full" by (rule refill_distinct [OF moves in_range])
  have key: "map_of ?moves i \<noteq> None \<longleftrightarrow> i \<in> set ?ts" for i
    using lens(2) by (metis map_fst_zip map_of_eq_None_iff set_map)
  have slot: "?slots ! i \<noteq> None" if "i < length ?slots" "i \<notin> set ?ts" for i
  proof (cases "i < h")
    case True
    then show ?thesis using that(2) h by (simp add: ts(3) nth_append)
  next
    case False
    then have "h + n \<le> i" using that(2) by (auto simp: ts(3))
    then show ?thesis using that(1) h by (simp add: nth_append)
  qed
  have "\<forall>x\<in>set ?full. x \<noteq> None"
  proof
    fix x assume "x \<in> set ?full"
    then obtain i where i: "i < length ?slots" "x = (case map_of ?moves i of None \<Rightarrow> ?slots ! i | Some p \<Rightarrow> ?taken ! p)"
      by auto
    show "x \<noteq> None"
    proof (cases "map_of ?moves i")
      case None
      then have "i \<notin> set ?ts" using key [of i] by simp
      then show ?thesis using i None slot [OF i(1)] by simp
    next
      case (Some p)
      then have "p < length ?taken" using in_range map_of_SomeD by fastforce
      then show ?thesis using i(2) Some by simp
    qed
  qed
  from those_full [OF this] have those: "those ?full = Some (map the ?full)" .
  let ?r = "map the ?full"
  have eq: "replace_shown xs shown_at head best = Some ?r"
    unfolding replace_shown_def Let_def taken option.case prod.case h_def [symmetric] n [symmetric] rest full those ..
  have at: "?r ! i = the (?slots ! i)" if "i < length ?slots" "i \<notin> set ?ts" for i
    using that key [of i] by simp
  have moved: "map ((!) ?r) ?ts = map (\<lambda>p. xs ! (shown_at ! p)) best"
  proof (rule nth_equalityI)
    fix j assume "j < length (map ((!) ?r) ?ts)"
    then have j: "j < length ?ts" "j < length best" using lens(2) by simp_all
    then have m: "(?ts ! j, best ! j) \<in> set ?moves" by (auto simp: set_zip)
    then have "map_of ?moves (?ts ! j) = Some (best ! j)" using moves(1) by simp
    moreover have "?ts ! j < length ?slots" "best ! j < length shown_at" using in_range m by auto
    ultimately show "map ((!) ?r) ?ts ! j = map (\<lambda>p. xs ! (shown_at ! p)) best ! j" using j by simp
  qed (simp add: lens(2))
  have kept: "?r ! i = xs ! i" if "i < h" "i \<notin> set shown_at" for i
    using that at [of i] lens(1) h by (simp add: ts(3) nth_append)
  have "drop (h + n) ?r = map ((!) xs) (filter (\<lambda>i. i \<notin> set shown_at) [h..<length xs])"
  proof (rule nth_equalityI)
    fix j assume "j < length (drop (h + n) ?r)"
    then have j: "j < length ?rest" using lens(1) by simp
    have "h + n + j \<notin> set ?ts" by (simp add: ts(3))
    then have "?r ! (h + n + j) = the (?slots ! (h + n + j))" using j lens(1) by (intro at) simp_all
    also have "?slots ! (h + n + j) = ?rest ! j" using h by (simp add: nth_append)
    finally show "drop (h + n) ?r ! j = map ((!) xs) (filter (\<lambda>i. i \<notin> set shown_at) [h..<length xs]) ! j"
      using j lens(1) by simp
  qed (use h in \<open>simp add: min_absorb2\<close>)
  then show ?thesis using eq moved kept lens(1) by (intro exI [of _ ?r]) auto
qed

lemma mset_nths: "distinct is \<Longrightarrow> set is = {..<length xs} \<Longrightarrow> mset (map ((!) xs) is) = mset xs"
proof -
  assume "distinct is" "set is = {..<length xs}"
  then have "mset is = mset [0..<length xs]" by (metis atLeast_upt distinct_upt mset_set_set)
  then have "mset (map ((!) xs) is) = mset (map ((!) xs) [0..<length xs])" by (simp only: mset_map)
  then show ?thesis by (simp add: map_nth)
qed

lemma replace_shown_permutes:
  fixes head :: nat
  assumes d: "distinct shown_at" and l: "\<forall>a\<in>set shown_at. a < length xs"
    and b: "mset best = mset [0..<length shown_at]" and r: "replace_shown xs shown_at head best = Some r"
  shows "mset r = mset xs"
proof -
  define h where "h = min head (length xs)"
  define n where "n = length (filter (\<lambda>i. h \<le> i) shown_at)"
  have r': "map ((!) r) (targets_of shown_at h) = map (\<lambda>p. xs ! (shown_at ! p)) best"
      "\<forall>i<h. i \<notin> set shown_at \<longrightarrow> r ! i = xs ! i"
      "drop (h + n) r = map ((!) xs) (filter (\<lambda>i. i \<notin> set shown_at) [h..<length xs])" "h + n \<le> length r"
    using replace_shown_spec [OF d l b, of head] r by (auto simp: n_def h_def)
  let ?head = "filter (\<lambda>i. i \<notin> set shown_at) [0..<h]" and ?rest = "filter (\<lambda>i. i \<notin> set shown_at) [h..<length xs]"
  note ts = targets_of_places [OF d, of h, folded n_def]
  have "mset r = mset (map ((!) r) (targets_of shown_at h @ ?head @ [h + n..<length r]))"
  proof (rule mset_nths [symmetric])
    show "distinct (targets_of shown_at h @ ?head @ [h + n..<length r])" using ts(1) by (auto simp: ts(3))
    show "set (targets_of shown_at h @ ?head @ [h + n..<length r]) = {..<length r}" using r'(4) by (auto simp: ts(3))
  qed
  also have "\<dots> = mset (map (\<lambda>p. xs ! (shown_at ! p)) best) + mset (map ((!) xs) ?head) + mset (map ((!) xs) ?rest)"
  proof -
    have "map ((!) r) ?head = map ((!) xs) ?head" using r'(2) by simp
    moreover have "map ((!) r) [h + n..<length r] = map ((!) xs) ?rest"
      unfolding r'(3) [symmetric] by (rule nth_equalityI) simp_all
    ultimately show ?thesis by (simp only: map_append mset_append r'(1) add.assoc)
  qed
  also have "mset (map (\<lambda>p. xs ! (shown_at ! p)) best) = mset (map ((!) xs) shown_at)"
  proof -
    have "mset (map (\<lambda>p. xs ! (shown_at ! p)) best) = mset (map (\<lambda>p. xs ! (shown_at ! p)) [0..<length shown_at])" by (simp add: b)
    also have "map (\<lambda>p. xs ! (shown_at ! p)) [0..<length shown_at] = map ((!) xs) shown_at"
      by (rule nth_equalityI) simp_all
    finally show ?thesis .
  qed
  also have "\<dots> + mset (map ((!) xs) ?head) + mset (map ((!) xs) ?rest) = mset (map ((!) xs) (shown_at @ ?head @ ?rest))" by simp
  also have "\<dots> = mset xs"
  proof (rule mset_nths)
    show "distinct (shown_at @ ?head @ ?rest)" using d by auto
    have "h \<le> length xs" by (simp add: h_def)
    then show "set (shown_at @ ?head @ ?rest) = {..<length xs}" using l by auto
  qed
  finally show ?thesis .
qed

text \<open>Showing one candidate moves nothing.\<close>

lemma replace_shown_one:
  assumes "rerankable traces depth = shown_at" "length shown_at < 2" "0 < depth" "length traces = length xs"
    and b: "mset best = mset [0..<length shown_at]" and r: "replace_shown xs shown_at depth best = Some r"
  shows "r = xs"
proof (cases xs)
  case Nil
  have "\<forall>a\<in>set shown_at. a < length xs" "distinct shown_at" using rerankable_sorted [of traces depth] assms(1,4) by auto
  from replace_shown_permutes [OF this(2,1) b r] show ?thesis using Nil by simp
next
  case (Cons x xs')
  define h where "h = min depth (length xs)"
  have h: "0 < h" using Cons assms(3) by (simp add: h_def)
  have "rerankable traces depth = [0..<h] @ sort (map fst (take GRAPH_SHOWN_AT_MOST (graph_finds traces h)))"
    using rerankable_eq [of traces depth] assms(4) by (simp add: h_def)
  then have "h + length (take GRAPH_SHOWN_AT_MOST (graph_finds traces h)) < 2" "shown_at = [0..<h] @ sort (map fst (take GRAPH_SHOWN_AT_MOST (graph_finds traces h)))"
    using assms(1,2) by simp_all
  moreover from this(1) have "h = 1" "length (take GRAPH_SHOWN_AT_MOST (graph_finds traces h)) = 0" using h by linarith+
  ultimately have one: "h = 1" "shown_at = [0]" by (simp_all only: length_0_conv) simp_all
  then have best: "best = [0]" using b by simp
  have "targets_of [0] 1 = [0]" by (simp add: targets_of_def)
  moreover have "min depth (Suc (length xs')) = 1" using one(1) Cons by (simp add: h_def)
  ultimately show ?thesis using r assms(3) unfolding one(2) best by (simp add: replace_shown_def Cons Let_def)
qed

section \<open>Blending\<close>

lemma blend_order_preorder: "preorder_by (blend_order fused model part)"
  by (auto simp: blend_order_def)

interpretation blending: preorder_by "blend_order fused model part" for fused model part
  by (rule blend_order_preorder)

lemma scaled_values_mono:
  assumes "a < length values" "b < length values" "values ! b \<le> values ! a"
  shows "scaled_values values ! b \<le> scaled_values values ! a"
proof (cases "values")
  case (Cons v vs)
  define low where "low = foldl min v vs"
  define high where "high = foldl max v vs"
  have "scaled_values values = map (\<lambda>value. if low < high then rnd64 (rnd64 (value - low) / rnd64 (high - low)) else 0) values"
    by (simp add: scaled_values_def Cons low_def high_def Let_def)
  moreover have "rnd64 (values ! b - low) / rnd64 (high - low) \<le> rnd64 (values ! a - low) / rnd64 (high - low)" if "low < high"
    using that assms(3) rnd64_mono [of 0 "high - low"] by (intro divide_right_mono rnd64_mono) simp_all
  ultimately show ?thesis using assms(1,2) by (auto intro: rnd64_mono)
qed (use assms in simp)

lemma blended_mono:
  assumes "a < length fused" "b < length fused" "length model = length fused" "0 \<le> part" "part \<le> 1"
    and "fused ! b \<le> fused ! a" "model ! b \<le> model ! a"
  shows "blended fused model part b \<le> blended fused model part a"
proof -
  have "0 \<le> rnd64 (1 - part)" using assms(5) rnd64_mono [of 0 "1 - part"] by simp
  then show ?thesis unfolding blended_def
    using scaled_values_mono [of a fused b] scaled_values_mono [of a model b] assms
    by (intro rnd64_mono add_mono mult_left_mono) simp_all
qed

lemma blended_keeps:
  assumes o: "score_blend_order fused model part = Some order" and p: "0 \<le> part" "part \<le> 1"
    and ab: "a < b" "b < length fused" "fused ! b \<le> fused ! a" "model ! b \<le> model ! a"
  shows "\<exists>xs ys zs. order = xs @ a # ys @ b # zs"
proof -
  have len: "length model = length fused" and order: "order = sort_by (blend_order fused model part) [0..<length fused]"
    using o by (simp_all add: score_blend_order_def split: if_splits)
  have "blended fused model part b \<le> blended fused model part a"
    using ab len p by (intro blended_mono) simp_all
  then have less: "\<not> blend_order fused model part b a" using ab(1) by (auto simp: blend_order_def order_by_defs)
  have "distinct order" "a \<in> set order" "b \<in> set order" using ab by (simp_all add: order)
  then obtain xs ys where s: "order = xs @ a # ys" by (meson split_list)
  have "sorted_wrt (blend_order fused model part) order" unfolding order by (rule blending.sorted_sort_by)
  then have "b \<notin> set xs" using less s by (auto simp: sorted_wrt_append)
  then have "b \<in> set ys" using \<open>b \<in> set order\<close> s ab(1) by auto
  then obtain ys' zs where "ys = ys' @ b # zs" by (meson split_list)
  then show ?thesis using s by blast
qed

lemma blend_permutes: "score_blend_order fused model part = Some order \<Longrightarrow> mset order = mset [0..<length fused]"
  by (auto simp: score_blend_order_def split: if_splits)

section \<open>What a seed is worth\<close>

lemma rank_worth_unit:
  assumes "0 \<le> k" "is_f32 k"
  shows "0 \<le> rank_worth k i \<and> rank_worth k i \<le> 1"
proof -
  have one: "1 \<le> fadd (f32_of_nat i) 1" by (rule fadd_ge_one) (simp_all add: f32_of_nat_def le_rnd32)
  have "fadd k 1 \<le> fadd k (fadd (f32_of_nat i) 1)" by (intro fadd_mono one) simp
  moreover have "0 < fadd k 1" using fadd_ge_one [OF assms(1), of 1] by simp
  ultimately show ?thesis by (auto simp: rank_worth_def intro!: fdiv_le_one fdiv_nonneg)
qed

definition unit_worths :: "(topic_id \<rightharpoonup> rat) \<Rightarrow> bool" where
  "unit_worths m \<longleftrightarrow> (\<forall>t w. m t = Some w \<longrightarrow> 0 \<le> w \<and> w \<le> 1)"

lemma note_worth_unit: "0 \<le> k \<Longrightarrow> is_f32 k \<Longrightarrow> unit_worths m \<Longrightarrow> unit_worths (note_worth k x m)"
  using rank_worth_unit [of k "fst x"]
  by (auto simp: unit_worths_def note_worth_def Let_def max_def split: prod.splits option.splits)

lemma seed_relevance_unit:
  assumes "0 \<le> k" "is_f32 k" "seed_relevance named ranked k t = Some w"
  shows "0 \<le> w \<and> w \<le> 1"
proof -
  have start: "unit_worths (\<lambda>_. None)" by (simp add: unit_worths_def)
  have "unit_worths (fold (\<lambda>r. fold (note_worth k) (List.enumerate 0 (cs_candidates r))) ranked (\<lambda>_. None))"
    by (rule fold_invariant [where Q = "\<lambda>_. True" and P = unit_worths, OF _ start])
      (auto intro!: fold_invariant [where Q = "\<lambda>_. True" and P = unit_worths] note_worth_unit assms)
  then have "unit_worths (fold (\<lambda>topic m. m(topic \<mapsto> 1)) named (fold (\<lambda>r. fold (note_worth k) (List.enumerate 0 (cs_candidates r))) ranked (\<lambda>_. None)))"
    by (rule fold_invariant [where Q = "\<lambda>_. True" and P = unit_worths, rotated]) (auto simp: unit_worths_def)
  then show ?thesis using assms(3) by (simp add: seed_relevance_def Let_def unit_worths_def)
qed

end
