(* ===== verification/Index_Spans_Sound.thy ===== *)
theory Index_Spans_Sound
  imports Index_Spans
begin

text \<open>
  What cutting a memory into spans promises: the packing loop always ends, the spans hold every character
  that is not whitespace once and in order, each within the cap and under a short header.
\<close>

section \<open>What is relied on\<close>

text \<open>
  The trait's documented contract: token ranges lie in the text, start and end on character boundaries,
  and an empty text has none. The sentence boundaries of a text that is not empty run from 0 to its end.
\<close>

definition counter_ok :: "token_offsets \<Rightarrow> bool" where
  "counter_ok offsets \<longleftrightarrow> offsets [] = [] \<and> (\<forall>s. \<forall>(a, b)\<in>set (offsets s). a \<le> b \<and> b \<le> length s)"

definition breaks_ok :: "(ustr \<Rightarrow> nat list) \<Rightarrow> bool" where
  "breaks_ok breaks \<longleftrightarrow> (\<forall>s. s \<noteq> [] \<longrightarrow> breaks s \<noteq> [] \<and> sorted (breaks s) \<and> hd (breaks s) = 0 \<and> last (breaks s) = length s)"

text \<open>No single token of a text counts as more than \<open>cap\<close> on its own.\<close>

definition single_tokens_fit :: "token_offsets \<Rightarrow> nat \<Rightarrow> bool" where
  "single_tokens_fit offsets cap \<longleftrightarrow>
     (\<forall>s. \<forall>r\<in>set (adjacent (cut_bounds offsets s (length (offsets s)))). token_count offsets (slice s (trim_range s r)) \<le> cap)"

section \<open>Cutting a range\<close>

lemma slice_shift:
  "snd r \<le> length content \<Longrightarrow> a \<le> b \<Longrightarrow> b \<le> snd r - fst r \<Longrightarrow> slice content (fst r + a, fst r + b) = slice (slice content r) (a, b)"
  by (simp add: slice_of_slice)

lemma trim_range_shift:
  assumes "snd r \<le> length content" and "a \<le> b" and "b \<le> snd r - fst r"
  shows "trim_range content (fst r + a, fst r + b)
    = (fst r + fst (trim_range (slice content r) (a, b)), fst r + snd (trim_range (slice content r) (a, b)))"
  using slice_shift [OF assms] by (simp add: trim_range_def Let_def)

lemma adjacent_in: "(x, y) \<in> set (adjacent bs) \<Longrightarrow> x \<in> set bs \<and> y \<in> set bs"
  by (induction bs rule: adjacent.induct) auto

lemma adjacent_le: "sorted bs \<Longrightarrow> (x, y) \<in> set (adjacent bs) \<Longrightarrow> x \<le> y"
  by (induction bs rule: adjacent.induct) auto

lemma adjacent_tiles:
  "sorted (a # bs) \<Longrightarrow> tiles content (k + a) (k + last (a # bs)) (map (\<lambda>(x, y). (k + x, k + y)) (adjacent (a # bs)))"
  by (induction bs arbitrary: a) (auto simp: last_ConsR)

text \<open>Cut at sorted positions from its start to its end and trimmed, a range leaves out only whitespace.\<close>

lemma cut_at_tiles:
  assumes r: "fst r \<le> snd r" "snd r \<le> length content"
    and bs: "sorted bs" "bs \<noteq> []" "hd bs = 0" "last bs = snd r - fst r"
  shows "tiles content (fst r) (snd r)
    (filter (\<lambda>l. \<not> is_empty_range l) (map (\<lambda>(a, b). trim_range content (fst r + a, fst r + b)) (adjacent bs)))"
    (is "tiles _ _ _ (filter ?P (map ?f _))")
proof -
  let ?g = "\<lambda>(x, y). (fst r + x, fst r + y)"
  obtain bs' where "bs = 0 # bs'" using bs(2,3) by (cases bs) auto
  then have "tiles content (fst r) (snd r) (map ?g (adjacent bs))"
    using adjacent_tiles [of 0 bs' content "fst r"] bs(1,4) r by simp
  then have t: "tiles content (fst r) (snd r) (map (trim_range content) (map ?g (adjacent bs)))"
    by (rule tiles_trim [OF _ r(2)])
  have "map (trim_range content) (map ?g (adjacent bs)) = map ?f (adjacent bs)"
    unfolding map_map by (rule map_cong) auto
  note t = t [unfolded this]
  have "ink (slice content l) = []" if "is_empty_range l" for l
    using that by (simp add: is_empty_range_def slice_def)
  then show ?thesis by (intro tiles_filter [OF t]) simp
qed

lemma bounds_from_sorted:
  assumes "\<forall>k\<in>set pieces. fst (offsets s ! (k * length (offsets s) div parts)) \<le> length s" and "previous \<le> length s"
  shows "sorted (previous # bounds_from offsets s parts n previous pieces @ [length s])"
  using assms
proof (induction n arbitrary: previous pieces)
  case (Suc n)
  then show ?case
  proof (cases pieces)
    case (Cons k ks)
    let ?here = "max (fst (offsets s ! (k * length (offsets s) div parts))) previous"
    have here: "?here \<le> length s" "previous \<le> ?here" using Suc.prems Cons by auto
    have "sorted (?here # bounds_from offsets s parts n ?here ks @ [length s])"
      by (rule Suc.IH [OF _ here(1)]) (use Suc.prems(1) Cons in simp)
    moreover have "bounds_from offsets s parts (Suc n) previous pieces = ?here # bounds_from offsets s parts n ?here ks"
      using Cons by (simp add: Let_def)
    ultimately show ?thesis using here(2) by (simp only: append_Cons sorted2 simp_thms)
  qed simp
qed simp

lemma cut_bounds_sorted:
  assumes ok: "counter_ok offsets" and c: "parts \<le> length (offsets s) \<or> parts = 1"
  shows "sorted (cut_bounds offsets s parts)"
  unfolding cut_bounds_def
proof (rule bounds_from_sorted)
  show "\<forall>k\<in>set [1..<parts]. fst (offsets s ! (k * length (offsets s) div parts)) \<le> length s"
  proof
    fix k assume "k \<in> set [1..<parts]"
    then have k: "k < parts" "0 < length (offsets s)" using c by auto
    then have "k * length (offsets s) div parts < length (offsets s)"
      by (simp add: div_less_iff_less_mult mult.commute)
    then have "offsets s ! (k * length (offsets s) div parts) \<in> set (offsets s)" by simp
    then show "fst (offsets s ! (k * length (offsets s) div parts)) \<le> length s"
      using ok unfolding counter_ok_def by fastforce
  qed
qed simp

definition counted :: "token_offsets \<Rightarrow> ustr \<Rightarrow> (text_range \<times> nat) list \<Rightarrow> bool" where
  "counted offsets content ps \<longleftrightarrow> (\<forall>(r, tokens)\<in>set ps. \<not> is_empty_range r \<and> tokens = token_count offsets (slice content r))"

text \<open>What every way of cutting a range gives: the range but for whitespace, each piece counted as it is on its own.\<close>

definition cuts :: "token_offsets \<Rightarrow> ustr \<Rightarrow> text_range \<Rightarrow> (text_range \<times> nat) list \<Rightarrow> bool" where
  "cuts offsets content r ps \<longleftrightarrow> tiles content (fst r) (snd r) (map fst ps) \<and> counted offsets content ps"

lemma cut_into_cuts:
  assumes ok: "counter_ok offsets" and r: "fst r \<le> snd r" "snd r \<le> length content"
    and c: "parts \<le> length (offsets (slice content r)) \<or> parts = 1"
  shows "cuts offsets content r (cut_into offsets content r parts)"
proof -
  let ?bs = "cut_bounds offsets (slice content r) parts"
  have "tiles content (fst r) (snd r)
    (filter (\<lambda>l. \<not> is_empty_range l) (map (\<lambda>(a, b). trim_range content (fst r + a, fst r + b)) (adjacent ?bs)))"
    using cut_bounds_sorted [OF ok c] length_slice [OF r(2)]
    by (intro cut_at_tiles [OF r]) (simp_all add: cut_bounds_def)
  then show ?thesis by (auto simp: cuts_def counted_def cut_into_def comp_def)
qed

lemma cut_from_cuts:
  assumes ok: "counter_ok offsets" and r: "fst r \<le> snd r" "snd r \<le> length content"
    and c: "parts \<le> length (offsets (slice content r)) \<or> parts = 1"
  shows "cuts offsets content r (cut_from offsets content r cap parts)"
  using ok r c
proof (induction offsets content r cap parts rule: cut_from.induct)
  case (1 offsets content r cap parts)
  show ?case
  proof (cases "length (offsets (slice content r)) \<le> parts \<or> list_all (\<lambda>x. snd x \<le> cap) (cut_into offsets content r parts)")
    case True
    then show ?thesis using cut_into_cuts [OF 1(2-5)] by (simp add: cut_from.simps [of offsets content r cap parts] Let_def)
  next
    case False
    then have "cuts offsets content r (cut_from offsets content r cap (parts + 1))" using 1 by (intro 1(1)) auto
    then show ?thesis using False by (simp add: cut_from.simps [of offsets content r cap parts] Let_def)
  qed
qed

lemma cut_from_fits:
  assumes fits: "single_tokens_fit offsets cap" and c: "parts \<le> length (offsets (slice content r))"
    and r: "fst r \<le> snd r" "snd r \<le> length content" and ok: "counter_ok offsets"
  shows "\<forall>x\<in>set (cut_from offsets content r cap parts). snd x \<le> cap"
  using fits c r ok
proof (induction offsets content r cap parts rule: cut_from.induct)
  case (1 offsets content r cap parts)
  let ?s = "slice content r"
  have step: "cut_from offsets content r cap parts = (let pieces = cut_into offsets content r parts in
      if length (offsets ?s) \<le> parts \<or> list_all (\<lambda>x. snd x \<le> cap) pieces then pieces else cut_from offsets content r cap (parts + 1))"
    by (rule cut_from.simps)
  consider (fit) "list_all (\<lambda>x. snd x \<le> cap) (cut_into offsets content r parts)" | (singles) "parts = length (offsets ?s)"
    | (more) "\<not> list_all (\<lambda>x. snd x \<le> cap) (cut_into offsets content r parts)" "parts < length (offsets ?s)"
    using 1(3) by fastforce
  then show ?case
  proof cases
    case fit
    then show ?thesis by (simp add: step list_all_iff)
  next
    case more
    then show ?thesis using 1 by (simp add: step)
  next
    case singles
    have here: "snd x \<le> cap" if x: "x \<in> set (cut_into offsets content r parts)" for x
    proof -
      obtain a b where ab: "(a, b) \<in> set (adjacent (cut_bounds offsets ?s parts))"
          "x = (trim_range content (fst r + a, fst r + b), token_count offsets (slice content (trim_range content (fst r + a, fst r + b))))"
        using x by (auto simp: cut_into_def)
      have sorted: "sorted (cut_bounds offsets ?s parts)" by (rule cut_bounds_sorted [OF 1(6)]) (simp add: singles)
      have "b \<in> set (cut_bounds offsets ?s parts)" using adjacent_in [OF ab(1)] by simp
      then have b: "b \<le> length ?s" using sorted by (auto simp: cut_bounds_def sorted_append)
      have le: "a \<le> b" by (rule adjacent_le [OF sorted ab(1)])
      have len: "length ?s = snd r - fst r" by (rule length_slice [OF 1(5)])
      let ?t = "trim_range ?s (a, b)"
      have shifted: "trim_range content (fst r + a, fst r + b) = (fst r + fst ?t, fst r + snd ?t)"
        using trim_range_shift [OF 1(5) le] b len by simp
      have "fst ?t \<le> snd ?t" "snd ?t \<le> b" using trim_range_bounds [of "(a, b)" ?s] le b by simp_all
      then have "slice content (trim_range content (fst r + a, fst r + b)) = slice ?s ?t"
        using slice_shift [OF 1(5), of "fst ?t" "snd ?t"] b len by (simp add: shifted)
      moreover have "token_count offsets (slice ?s ?t) \<le> cap"
        using 1(2) ab(1) unfolding singles single_tokens_fit_def by blast
      ultimately show ?thesis by (simp add: ab(2))
    qed
    have "cut_from offsets content r cap parts = cut_into offsets content r parts" unfolding step Let_def using singles by simp
    then show ?thesis using here by simp
  qed
qed

section \<open>Blocks\<close>

lemma tiles_join_all:
  "tiles content a b (r # xs @ zs) \<Longrightarrow> tiles content a b ((fst r, snd (last (r # xs))) # zs)"
proof (induction xs arbitrary: r)
  case (Cons x xs)
  have "tiles content a b ((fst r, snd x) # xs @ zs)"
    using tiles_join [of content a b "[]" "fst r" "snd r" "fst x" "snd x" "xs @ zs"] Cons.prems by simp
  from Cons.IH [OF this] show ?case by (cases xs) simp_all
qed simp

lemma tiles_skip_blank:
  "tiles content a b (ys @ zs) \<Longrightarrow> \<forall>y\<in>set ys. blank (slice content y) \<Longrightarrow> tiles content a b zs"
proof (induction ys arbitrary: a)
  case (Cons y ys)
  then have t: "tiles content (snd y) b zs" and y: "a \<le> fst y" "fst y \<le> snd y" "ink (slice content (a, fst y)) = []" "ink (slice content y) = []"
    by (auto simp: blank_iff)
  have "ink (slice content (a, snd y)) = []" using slice_split [OF y(1,2), of content] y(3,4) by simp
  then show ?case using tiles_extend_left [OF _ _ t, of a] y(1,2) by simp
qed simp

lemma find_skip: "\<forall>z\<in>set zs. \<not> P z \<Longrightarrow> P x \<Longrightarrow> find P (zs @ x # ws) = Some x"
  by (induction zs) simp_all

lemma block_over_tiles:
  assumes t: "tiles content a b (l # taken @ rest)" and l: "\<not> blank (slice content l)" and b: "b \<le> length content"
  shows "tiles content a b (block_over content l taken # rest)" and "\<not> is_empty_range (block_over content l taken)"
proof -
  obtain xs last_line ys where x: "l # taken = xs @ last_line # ys" and nb: "\<not> blank (slice content last_line)"
      and bl: "\<forall>y\<in>set ys. \<not> \<not> blank (slice content y)"
    using split_list_last_prop [of "l # taken" "\<lambda>l. \<not> blank (slice content l)"] l by (metis list.set_intros(1))
  have f: "find (\<lambda>l. \<not> blank (slice content l)) (rev (l # taken)) = Some last_line"
    unfolding x using find_skip [of "rev ys" "\<lambda>l. \<not> blank (slice content l)" last_line "rev xs"] bl nb by simp
  let ?r = "(fst l, snd last_line)"
  have over: "block_over content l taken = trim_range content ?r" unfolding block_over_def Let_def f by simp
  have t1: "tiles content a b (?r # ys @ rest)"
  proof (cases xs)
    case Nil
    then have "last_line = l" "taken = ys" using x by simp_all
    then show ?thesis using t by simp
  next
    case (Cons x' xs')
    then have "x' = l" "taken = (xs' @ [last_line]) @ ys" using x by simp_all
    then show ?thesis using tiles_join_all [of content a b l "xs' @ [last_line]" "ys @ rest"] t by simp
  qed
  have t2: "tiles content a b (?r # rest)" using t1 tiles_skip_blank [of content "snd last_line" b ys rest] bl by simp
  then have r: "fst ?r \<le> snd ?r" "snd ?r \<le> length content" using tiles_ordered [OF t2] b by auto
  show "tiles content a b (block_over content l taken # rest)"
    using tiles_concat_Some [of content a b "[]" ?r rest, OF _ trim_range_tiles [OF r]] t2 by (simp add: over del: tiles.simps)
  have "last_line \<in> set (l # taken)" unfolding x by simp
  then have "last_line \<in> set (l # taken @ rest)" by auto
  then have le: "fst last_line \<le> snd last_line" using tiles_ordered [OF t] by blast
  have "fst l \<le> fst last_line"
  proof (cases xs)
    case (Cons x' xs')
    then have m: "last_line \<in> set (taken @ rest)" using x by auto
    have "\<forall>x\<in>set (taken @ rest). snd l \<le> fst x" "fst l \<le> snd l" using tiles_ordered [OF t] by simp_all
    then show ?thesis using bspec [OF _ m] order_trans by blast
  qed (use x in simp)
  then have "slice content ?r = slice content (fst l, fst last_line) @ slice content last_line"
    using slice_split [of "fst l" "fst last_line" "snd last_line" content] le by simp
  then have "ink (slice content ?r) \<noteq> []" using nb by (simp add: blank_iff)
  then show "\<not> is_empty_range (block_over content l taken)"
    using trim_range_nonempty [OF r] by (simp add: over is_empty_range_def)
qed

lemma blocks_of_tiles:
  "tiles content a b ls \<Longrightarrow> b \<le> length content \<Longrightarrow>
     tiles content a b (map bk_range (blocks_of content ls)) \<and> (\<forall>bk\<in>set (blocks_of content ls). \<not> is_empty_range (bk_range bk))"
proof (induction content ls arbitrary: a rule: blocks_of.induct)
  case (2 content l ls)
  show ?case
  proof (cases "blank (slice content l)")
    case True
    then have "tiles content a b ls" using tiles_skip_blank [of content a b "[l]" ls] 2(3) by simp
    then show ?thesis using 2(1) [OF True] 2(4) True by simp
  next
    case False
    obtain kind taken rest where k: "block_lines content l ls = (kind, taken, rest)" by (metis prod_cases3)
    then have ls: "ls = taken @ rest" by (rule block_lines_split)
    note over = block_over_tiles [OF _ False 2(4), of a taken rest] 
    have t: "tiles content a b (block_over content l taken # rest)" and n: "\<not> is_empty_range (block_over content l taken)"
      using over 2(3) by (simp_all add: ls del: tiles.simps)
    have "tiles content (snd (block_over content l taken)) b rest" using t by simp
    from 2(2) [OF False k [symmetric] refl this 2(4)] show ?thesis using t n False k by simp
  qed
qed simp

lemma blocks_tile:
  shows "tiles content 0 (length content) (map bk_range (blocks content))" and "\<forall>bk\<in>set (blocks content). \<not> is_empty_range (bk_range bk)"
  using blocks_of_tiles [OF split_lines_tiles [of 0 0 content content]] by (simp_all add: blocks_def)

section \<open>Pieces\<close>

lemma not_empty_block:
  assumes "\<not> is_empty_range r" and "snd r \<le> length content"
  shows "slice content r \<noteq> []"
  using assms by (auto simp: is_empty_range_def slice_def)

lemma lines_in_tiles:
  assumes "fst r \<le> snd r" and "snd r \<le> length content"
  shows "tiles content (fst r) (snd r) (lines_in content r) \<and> (\<forall>l\<in>set (lines_in content r). \<not> is_empty_range l)"
proof -
  have len: "fst r + length (slice content r) = snd r" using length_slice [OF assms(2)] assms(1) by simp
  have "tiles content (fst r) (fst r + length (slice content r)) (split_lines (fst r) (fst r) (slice content r))"
    by (rule split_lines_tiles) (use assms len in simp_all)
  from tiles_trim [OF this [unfolded len] assms(2)]
  have "tiles content (fst r) (snd r) (map (trim_range content) (split_lines (fst r) (fst r) (slice content r)))" .
  then have "tiles content (fst r) (snd r) (lines_in content r)"
    unfolding lines_in_def by (rule tiles_filter) (auto simp: is_empty_range_def slice_def)
  then show ?thesis by (simp add: lines_in_def)
qed

lemma sentences_tiles:
  assumes ok: "breaks_ok breaks" and r: "\<not> is_empty_range r" "snd r \<le> length content"
  shows "tiles content (fst r) (snd r) (sentences breaks content r) \<and> (\<forall>l\<in>set (sentences breaks content r). \<not> is_empty_range l)"
proof -
  let ?s = "slice content r"
  have "?s \<noteq> []" by (rule not_empty_block [OF r])
  then have b: "breaks ?s \<noteq> []" "sorted (breaks ?s)" "hd (breaks ?s) = 0" "last (breaks ?s) = snd r - fst r"
    using ok length_slice [OF r(2)] by (simp_all add: breaks_ok_def)
  have "fst r \<le> snd r" using r(1) by (simp add: is_empty_range_def)
  then have "tiles content (fst r) (snd r) (sentences breaks content r)"
    unfolding sentences_def by (rule cut_at_tiles [OF _ r(2) b(2,1,3,4)])
  then show ?thesis by (simp add: sentences_def)
qed

lemma whole_or_cut_cuts:
  assumes ok: "counter_ok offsets" and r: "\<not> is_empty_range r" "snd r \<le> length content"
  shows "cuts offsets content r (whole_or_cut offsets content cap r)"
    and "single_tokens_fit offsets cap \<Longrightarrow> \<forall>x\<in>set (whole_or_cut offsets content cap r). snd x \<le> cap"
proof -
  let ?s = "slice content r" and ?parts = "max (div_ceil (length (offsets (slice content r))) (max cap 1)) 1"
  have le: "fst r \<le> snd r" using r(1) by (simp add: is_empty_range_def)
  have parts: "?parts \<le> length (offsets ?s)" if "\<not> token_count offsets ?s \<le> cap"
  proof -
    have l: "cap < length (offsets ?s)" using that by (simp add: token_count_def)
    have "div_ceil n m \<le> n" if m: "0 < m" for n m :: nat
    proof (cases "n mod m = 0")
      case False
      then have "n div m * m < n" using div_mult_mod_eq [of n m] by linarith
      then have "n div m < n" using m by (metis le_less_trans mult_le_mono2 nat_mult_1_right Suc_leI One_nat_def)
      then show ?thesis using False by (simp add: div_ceil_def)
    qed (simp add: div_ceil_def)
    from this [of "max cap 1" "length (offsets ?s)"] show ?thesis using l by simp
  qed
  show "cuts offsets content r (whole_or_cut offsets content cap r)"
  proof (cases "token_count offsets ?s \<le> cap")
    case True
    then show ?thesis using le r(1) by (simp add: whole_or_cut_def cuts_def counted_def)
  next
    case False
    then show ?thesis
      using cut_from_cuts [OF ok le r(2)] parts [OF False] by (simp add: whole_or_cut_def cut_def)
  qed
  show "\<forall>x\<in>set (whole_or_cut offsets content cap r). snd x \<le> cap" if "single_tokens_fit offsets cap"
  proof (cases "token_count offsets ?s \<le> cap")
    case False
    then show ?thesis
      using cut_from_fits [OF that parts [OF False] le r(2) ok] by (simp add: whole_or_cut_def cut_def)
  qed (simp add: whole_or_cut_def)
qed

text \<open>Pieces of ranges that tile a range, together.\<close>

lemma cuts_concat:
  assumes t: "tiles content (fst r) (snd r) (map g xs)" and c: "\<And>x. x \<in> set xs \<Longrightarrow> cuts offsets content (g x) (f x)"
  shows "cuts offsets content r (concat (map f xs))"
proof -
  have "tiles content a b (map fst (concat (map f xs)))" if "tiles content a b (map g xs)" for a b
    using that c
  proof (induction xs arbitrary: a)
    case (Cons x xs)
    have x: "a \<le> fst (g x)" "ink (slice content (a, fst (g x))) = []" "tiles content (snd (g x)) b (map g xs)" using Cons.prems(1) by simp_all
    have f: "tiles content (fst (g x)) (snd (g x)) (map fst (f x))" using Cons.prems(2) [of x] by (simp add: cuts_def)
    show ?case
      using tiles_append [OF tiles_extend_left [OF x(1,2) f] Cons.IH [OF x(3)]] Cons.prems(2) by simp
  qed simp
  note this [OF t]
  moreover have "counted offsets content (concat (map f xs))" using c by (auto simp: cuts_def counted_def)
  ultimately show ?thesis by (simp add: cuts_def)
qed

lemma block_pieces_cuts:
  assumes ok: "counter_ok offsets" "breaks_ok breaks" and r: "\<not> is_empty_range (bk_range b)" "snd (bk_range b) \<le> length content"
  shows "cuts offsets content (bk_range b) (block_pieces offsets breaks content cap b)"
    and "single_tokens_fit offsets cap \<Longrightarrow> \<forall>x\<in>set (block_pieces offsets breaks content cap b). snd x \<le> cap"
proof -
  let ?rs = "if bk_kind b = Fence \<or> bk_kind b = Table then lines_in content (bk_range b) else sentences breaks content (bk_range b)"
  have le: "fst (bk_range b) \<le> snd (bk_range b)" using r(1) by (simp add: is_empty_range_def)
  have t: "tiles content (fst (bk_range b)) (snd (bk_range b)) ?rs" and n: "\<forall>l\<in>set ?rs. \<not> is_empty_range l"
    using lines_in_tiles [OF le r(2)] sentences_tiles [OF ok(2) r] by simp_all
  have l: "\<not> is_empty_range l \<and> snd l \<le> length content" if "l \<in> set ?rs" for l
    using n that tiles_ordered [OF t] r(2) by fastforce
  have "cuts offsets content (bk_range b) (concat (map (whole_or_cut offsets content cap) ?rs))"
    by (rule cuts_concat [where g = "\<lambda>l. l"]) (use t l whole_or_cut_cuts(1) [OF ok(1)] in auto)
  moreover have "cuts offsets content (bk_range b) [(bk_range b, token_count offsets (slice content (bk_range b)))]"
    using le r(1) by (simp add: cuts_def counted_def)
  ultimately show "cuts offsets content (bk_range b) (block_pieces offsets breaks content cap b)"
    by (simp add: block_pieces_def Let_def)
  show "\<forall>x\<in>set (block_pieces offsets breaks content cap b). snd x \<le> cap" if "single_tokens_fit offsets cap"
  proof -
    have "snd x \<le> cap" if "l \<in> set ?rs" "x \<in> set (whole_or_cut offsets content cap l)" for l x
      using l [OF that(1)] whole_or_cut_cuts(2) [OF ok(1) _ _ \<open>single_tokens_fit offsets cap\<close>] that(2) by blast
    then have "\<forall>x\<in>set (concat (map (whole_or_cut offsets content cap) ?rs)). snd x \<le> cap" by (simp only: set_concat set_map) blast
    moreover have "block_pieces offsets breaks content cap b = (let tokens = token_count offsets (slice content (bk_range b))
        in if tokens \<le> cap then [(bk_range b, tokens)] else concat (map (whole_or_cut offsets content cap) ?rs))"
      by (rule block_pieces_def)
    ultimately show ?thesis by (cases "token_count offsets (slice content (bk_range b)) \<le> cap") (simp_all only: Let_def if_True if_False set_simps ball_simps(7) snd_conv simp_thms ball_empty)
  qed
qed

lemma units_of_block_pieces:
  "map (\<lambda>u. (pc_range u, pc_tokens u)) (units_of_block whole h index b ps us) = map (\<lambda>u. (pc_range u, pc_tokens u)) us @ ps"
  by (induction whole h index b ps us rule: units_of_block.induct) (simp_all add: Let_def)

lemma units_from_pieces:
  "map (\<lambda>u. (pc_range u, pc_tokens u)) (units_from offsets breaks content cap index h bs us)
    = map (\<lambda>u. (pc_range u, pc_tokens u)) us @ concat (map (block_pieces offsets breaks content cap) bs)"
  by (induction offsets breaks content cap index h bs us rule: units_from.induct) (simp_all add: Let_def units_of_block_pieces)

text \<open>What packing is given: units that tile the content, none empty, each counted on its own.\<close>

definition units_ok :: "token_offsets \<Rightarrow> ustr \<Rightarrow> piece list \<Rightarrow> bool" where
  "units_ok offsets content us \<longleftrightarrow>
     cuts offsets content (0, length content) (map (\<lambda>u. (pc_range u, pc_tokens u)) us)"

lemma units_tile:
  assumes ok: "counter_ok offsets" "breaks_ok breaks"
  shows "units_ok offsets content (units offsets breaks content (blocks content) cap)"
    and "single_tokens_fit offsets cap \<Longrightarrow> \<forall>u\<in>set (units offsets breaks content (blocks content) cap). pc_tokens u \<le> cap"
proof -
  let ?us = "units offsets breaks content (blocks content) cap"
  have us: "map (\<lambda>u. (pc_range u, pc_tokens u)) ?us = concat (map (block_pieces offsets breaks content cap) (blocks content))"
    by (simp add: units_def units_from_pieces)
  have b: "\<not> is_empty_range (bk_range b) \<and> snd (bk_range b) \<le> length content" if "b \<in> set (blocks content)" for b
    using blocks_tile(2) that tiles_ordered [OF blocks_tile(1), of content] by auto
  have "cuts offsets content (0, length content) (concat (map (block_pieces offsets breaks content cap) (blocks content)))"
    by (rule cuts_concat [where g = bk_range]) (use blocks_tile(1) b block_pieces_cuts(1) [OF ok] in auto)
  then show "units_ok offsets content ?us" by (simp add: units_ok_def us)
  show "\<forall>u\<in>set ?us. pc_tokens u \<le> cap" if "single_tokens_fit offsets cap"
  proof
    fix u assume "u \<in> set ?us"
    then have "(pc_range u, pc_tokens u) \<in> set (concat (map (block_pieces offsets breaks content cap) (blocks content)))"
      unfolding us [symmetric] by auto
    then show "pc_tokens u \<le> cap" using block_pieces_cuts(2) [OF ok _ _ that] b by fastforce
  qed
qed

section \<open>Headers\<close>

lemma fit_from_count: "offsets [] = [] \<Longrightarrow> token_count offsets (fit_from offsets s budget n) \<le> budget"
  by (induction n) (simp_all add: token_count_def Let_def)

lemma fit_count: "counter_ok offsets \<Longrightarrow> token_count offsets (fit offsets s budget) \<le> budget"
  using fit_from_count [of offsets s budget budget] by (auto simp: fit_def counter_ok_def token_count_def)

lemma length_trim_end: "length (trim_end s) \<le> length s"
  using length_dropWhile_le [of is_whitespace "rev s"] by (simp add: trim_end_def)

lemma length_fit_from: "length (fit_from offsets s budget n) \<le> length s"
proof (induction n)
  case (Suc n)
  have "length (trim_end (take (fst (offsets s ! Suc n)) s)) \<le> length s"
    using length_trim_end [of "take (fst (offsets s ! Suc n)) s"] by simp
  then show ?case using Suc by (simp add: Let_def)
qed simp

lemma length_fit: "length (fit offsets s budget) \<le> length s"
  using length_fit_from by (simp add: fit_def)

lemma header_of_count: "counter_ok offsets \<Longrightarrow> token_count offsets (header_of offsets name title continued) \<le> HEADER_TOKENS"
  unfolding header_of_def by (rule fit_count)

section \<open>Packing\<close>

definition current_list :: "packing \<Rightarrow> packed list" where
  "current_list st = (case pg_current st of None \<Rightarrow> [] | Some s \<Rightarrow> [s])"

definition pack_ok :: "token_offsets \<Rightarrow> ustr \<Rightarrow> packing \<Rightarrow> bool" where
  "pack_ok offsets content st \<longleftrightarrow>
     tiles content 0 (length content) (map pk_range (pg_packed st @ current_list st) @ map pc_range (pg_pending st))
     \<and> counted offsets content (map (\<lambda>u. (pc_range u, pc_tokens u)) (pg_pending st))"

definition pack_left :: "packing \<Rightarrow> nat" where
  "pack_left st = sum_list (map (\<lambda>u. snd (pc_range u) - fst (pc_range u)) (pg_pending st))"

definition pack_fits :: "nat \<Rightarrow> packing \<Rightarrow> bool" where
  "pack_fits cap st \<longleftrightarrow> (\<forall>s\<in>set (pg_packed st @ current_list st). pk_tokens s \<le> cap) \<and> (\<forall>u\<in>set (pg_pending st). pc_tokens u \<le> cap)"

lemma left_over_ranges:
  "map (\<lambda>u. (pc_range u, pc_tokens u)) (left_over offsets content cap u k)
     = (let rest = trim_range content (k, snd (pc_range u)) in if is_empty_range rest then [] else whole_or_cut offsets content cap rest)"
  by (simp add: left_over_def Let_def comp_def case_prod_beta)

lemma left_over_tiles:
  assumes ok: "counter_ok offsets" and k: "k \<le> snd (pc_range u)" "snd (pc_range u) \<le> length content"
  shows "tiles content k (snd (pc_range u)) (map pc_range (left_over offsets content cap u k))"
    and "counted offsets content (map (\<lambda>u. (pc_range u, pc_tokens u)) (left_over offsets content cap u k))"
    and "single_tokens_fit offsets cap \<Longrightarrow> \<forall>x\<in>set (left_over offsets content cap u k). pc_tokens x \<le> cap"
proof -
  let ?rest = "trim_range content (k, snd (pc_range u))" and ?l = "left_over offsets content cap u k"
  have t: "tiles content k (snd (pc_range u)) [?rest]" using trim_range_tiles [of "(k, snd (pc_range u))" content] k by simp
  have b: "k \<le> fst ?rest" "fst ?rest \<le> snd ?rest" "snd ?rest \<le> snd (pc_range u)" "ink (slice content (k, fst ?rest)) = []"
      "ink (slice content (snd ?rest, snd (pc_range u))) = []"
    using t by simp_all
  have r: "map pc_range ?l = map fst (map (\<lambda>u. (pc_range u, pc_tokens u)) ?l)" by simp
  show "tiles content k (snd (pc_range u)) (map pc_range ?l)"
  proof (cases "is_empty_range ?rest")
    case True
    then have "ink (slice content (k, snd (pc_range u))) = []"
      using trim_range_empty [of "(k, snd (pc_range u))" content] k by (simp add: is_empty_range_def)
    then show ?thesis unfolding r left_over_ranges using True k(1) by simp
  next
    case False
    have "cuts offsets content ?rest (whole_or_cut offsets content cap ?rest)"
      by (rule whole_or_cut_cuts(1) [OF ok False]) (use b(3) k(2) in simp)
    then have "tiles content (fst ?rest) (snd ?rest) (map fst (whole_or_cut offsets content cap ?rest))" by (simp add: cuts_def)
    from tiles_append [OF tiles_extend_left [OF b(1,4) this], of "snd (pc_range u)" "[]"] b(3,5)
    show ?thesis unfolding r left_over_ranges using False by simp
  qed
  show "counted offsets content (map (\<lambda>u. (pc_range u, pc_tokens u)) ?l)"
  proof (cases "is_empty_range ?rest")
    case False
    then show ?thesis using whole_or_cut_cuts(1) [OF ok False] b(3) k(2) unfolding left_over_ranges by (simp add: cuts_def)
  qed (simp add: left_over_ranges counted_def)
  show "\<forall>x\<in>set ?l. pc_tokens x \<le> cap" if f: "single_tokens_fit offsets cap"
  proof (cases "is_empty_range ?rest")
    case False
    have "\<forall>x\<in>set (map (\<lambda>u. (pc_range u, pc_tokens u)) ?l). snd x \<le> cap"
      unfolding left_over_ranges using whole_or_cut_cuts(2) [where content = content, OF ok False _ f] b(3) k(2) False by simp
    then show ?thesis by simp
  qed (simp add: left_over_def)
qed

text \<open>The ways a step can go.\<close>

lemma pack_step_cases:
  assumes p: "pg_pending st = u # us"
  obtains (start) "pg_current st = None" "pack_step offsets content cap st = st\<lparr>pg_pending := us, pg_current := Some (packed_from u)\<rparr>"
    | (join) s where "pg_current st = Some s" "pk_tokens s + pc_tokens u \<le> cap"
        "pack_step offsets content cap st = st\<lparr>pg_pending := us, pg_current := Some (packed_push u s)\<rparr>"
    | (split) s head k where "pg_current st = Some s" "head = fit offsets (slice content (pc_range u)) (cap - pk_tokens s)"
        "k = fst (pc_range u) + length head" "head \<noteq> []"
        "pack_step offsets content cap st = \<lparr>pg_packed = pg_packed st @
            [packed_push (u\<lparr>pc_range := (fst (pc_range u), k), pc_tokens := token_count offsets head\<rparr>) s],
          pg_current = None, pg_pending = left_over offsets content cap u k @ us\<rparr>"
    | (new) s where "pg_current st = Some s"
        "pack_step offsets content cap st = \<lparr>pg_packed = pg_packed st @ [s], pg_current = Some (packed_from u), pg_pending = us\<rparr>"
proof (cases "pg_current st")
  case None
  then show thesis by (intro start) (simp_all add: pack_step_def p)
next
  case (Some s)
  let ?head = "fit offsets (slice content (pc_range u)) (cap - pk_tokens s)"
  consider "pk_tokens s + pc_tokens u \<le> cap \<and> \<not> (pc_opens u \<and> \<not> pk_headings_only s)"
    | "\<not> (pk_tokens s + pc_tokens u \<le> cap \<and> \<not> (pc_opens u \<and> \<not> pk_headings_only s))" "pk_headings_only s \<and> \<not> pc_heading u \<and> ?head \<noteq> []"
    | "\<not> (pk_tokens s + pc_tokens u \<le> cap \<and> \<not> (pc_opens u \<and> \<not> pk_headings_only s))" "\<not> (pk_headings_only s \<and> \<not> pc_heading u \<and> ?head \<noteq> [])"
    by blast
  then show thesis
  proof cases
    case 1
    then show thesis using Some by (intro join) (simp_all add: pack_step_def p)
  next
    case 2
    then show thesis using Some by (intro split [OF Some refl refl]) (simp_all add: pack_step_def p Let_def)
  next
    case 3
    then show thesis using Some by (intro new [OF Some]) (auto simp: pack_step_def p Let_def)
  qed
qed

lemma pack_step_ok:
  assumes ok: "counter_ok offsets" and st: "pack_ok offsets content st" and p: "pg_pending st \<noteq> []"
  shows "pack_ok offsets content (pack_step offsets content cap st)" and "pack_left (pack_step offsets content cap st) < pack_left st"
proof -
  obtain u us where u: "pg_pending st = u # us" using p by (cases "pg_pending st") auto
  let ?done = "map pk_range (pg_packed st)"
  have t: "tiles content 0 (length content) (?done @ map pk_range (current_list st) @ pc_range u # map pc_range us)"
    and n: "\<not> is_empty_range (pc_range u)" and c: "counted offsets content (map (\<lambda>u. (pc_range u, pc_tokens u)) us)"
    using st u by (simp_all add: pack_ok_def counted_def)
  have r: "fst (pc_range u) < snd (pc_range u)" "snd (pc_range u) \<le> length content"
    using n tiles_ordered [OF t] by (auto simp: is_empty_range_def)
  have left: "pack_left st = snd (pc_range u) - fst (pc_range u) + sum_list (map (\<lambda>u. snd (pc_range u) - fst (pc_range u)) us)"
    by (simp add: pack_left_def u)
  have "pack_ok offsets content (pack_step offsets content cap st) \<and> pack_left (pack_step offsets content cap st) < pack_left st"
    using u
  proof (cases rule: pack_step_cases [where offsets = offsets and content = content and cap = cap])
    case start
    then show ?thesis using t c left r by (simp add: pack_ok_def pack_left_def current_list_def packed_from_def)
  next
    case (join s)
    have "tiles content 0 (length content) (?done @ (fst (pk_range s), snd (pc_range u)) # map pc_range us)"
      using tiles_join [of content 0 "length content" ?done "fst (pk_range s)" "snd (pk_range s)" "fst (pc_range u)" "snd (pc_range u)"] t join(1)
      by (simp add: current_list_def)
    then show ?thesis using join(3) c left r by (simp add: pack_ok_def pack_left_def current_list_def packed_push_def)
  next
    case (new s)
    then show ?thesis using t c left r by (simp add: pack_ok_def pack_left_def current_list_def packed_from_def)
  next
    case (split s head k)
    let ?l = "left_over offsets content cap u k"
    have "length head \<le> snd (pc_range u) - fst (pc_range u)"
      using length_fit length_slice_le order_trans unfolding split(2) by blast
    moreover have "0 < length head" using split(4) by simp
    ultimately have k: "fst (pc_range u) < k" "k \<le> snd (pc_range u)" using split(3) r(1) by linarith+
    note l = left_over_tiles [OF ok k(2) r(2), of cap]
    have "tiles content (fst (pc_range u)) (snd (pc_range u)) ((fst (pc_range u), k) # map pc_range ?l)"
      using l(1) k(1) by simp
    from tiles_concat_Some [OF _ this, of 0 "length content" "?done @ map pk_range (current_list st)" "map pc_range us"]
    have "tiles content 0 (length content) (?done @ pk_range s # (fst (pc_range u), k) # map pc_range ?l @ map pc_range us)"
      using t split(1) by (simp add: current_list_def)
    then have "tiles content 0 (length content) (?done @ (fst (pk_range s), k) # map pc_range ?l @ map pc_range us)"
      using tiles_join [of content 0 "length content" ?done "fst (pk_range s)" "snd (pk_range s)" "fst (pc_range u)" k] by simp
    moreover have "counted offsets content (map (\<lambda>u. (pc_range u, pc_tokens u)) (?l @ us))"
      using l(2) c by (simp add: counted_def ball_Un)
    moreover have "sum_list (map (\<lambda>u. snd (pc_range u) - fst (pc_range u)) ?l) \<le> snd (pc_range u) - k"
      using tiles_lengths [OF l(1)] by (simp add: comp_def)
    ultimately show ?thesis
      using split(5) left k r by (simp add: pack_ok_def pack_left_def current_list_def packed_push_def)
  qed
  then show "pack_ok offsets content (pack_step offsets content cap st)" "pack_left (pack_step offsets content cap st) < pack_left st"
    by simp_all
qed

lemma pack_step_fits:
  assumes ok: "counter_ok offsets" and f: "single_tokens_fit offsets cap" and st: "pack_ok offsets content st" "pack_fits cap st"
    and p: "pg_pending st \<noteq> []"
  shows "pack_fits cap (pack_step offsets content cap st)"
proof -
  obtain u us where u: "pg_pending st = u # us" using p by (cases "pg_pending st") auto
  have c: "\<forall>x\<in>set us. pc_tokens x \<le> cap" "pc_tokens u \<le> cap" "\<forall>s\<in>set (pg_packed st). pk_tokens s \<le> cap"
      "\<And>s. pg_current st = Some s \<Longrightarrow> pk_tokens s \<le> cap"
    using st(2) u by (auto simp: pack_fits_def current_list_def)
  show ?thesis using u
  proof (cases rule: pack_step_cases [where offsets = offsets and content = content and cap = cap])
    case start
    then show ?thesis using c by (simp add: pack_fits_def current_list_def packed_from_def)
  next
    case (join s)
    then show ?thesis using c by (simp add: pack_fits_def current_list_def packed_push_def)
  next
    case (new s)
    then show ?thesis using c by (auto simp: pack_fits_def current_list_def packed_from_def)
  next
    case (split s head k)
    have t: "tiles content 0 (length content) (map pk_range (pg_packed st @ current_list st) @ pc_range u # map pc_range us)"
      using st(1) u by (simp add: pack_ok_def)
    have "snd (pc_range u) \<le> length content" "fst (pc_range u) \<le> snd (pc_range u)" using tiles_ordered [OF t] by auto
    moreover have "length head \<le> snd (pc_range u) - fst (pc_range u)"
      using length_fit length_slice_le order_trans unfolding split(2) by blast
    ultimately have l: "\<forall>x\<in>set (left_over offsets content cap u k). pc_tokens x \<le> cap"
      using split(3) by (intro left_over_tiles(3) [OF ok _ _ f]) simp_all
    have "token_count offsets head \<le> cap - pk_tokens s" unfolding split(2) by (rule fit_count [OF ok])
    then have "pk_tokens s + token_count offsets head \<le> cap" using c(4) [OF split(1)] by simp
    then show ?thesis using split(5) c l by (auto simp: pack_fits_def current_list_def packed_push_def)
  qed
qed

lemma pack_units_ends:
  assumes ok: "counter_ok offsets" and us: "units_ok offsets content us"
  shows "\<exists>ps. pack_units offsets content cap us = Some ps \<and> tiles content 0 (length content) (map pk_range ps)"
    and "single_tokens_fit offsets cap \<Longrightarrow> \<forall>u\<in>set us. pc_tokens u \<le> cap \<Longrightarrow> pack_units offsets content cap us = Some ps \<Longrightarrow>
      \<forall>s\<in>set ps. pk_tokens s \<le> cap"
proof -
  let ?st = "\<lparr>pg_packed = [], pg_current = None, pg_pending = us\<rparr>" and ?b = "\<lambda>st. pg_pending st \<noteq> []"
  have 0: "pack_ok offsets content ?st" using us by (simp add: units_ok_def cuts_def pack_ok_def current_list_def comp_def)
  have "\<exists>st. while_option ?b (pack_step offsets content cap) ?st = Some st"
    by (rule measure_while_option_Some [where P = "pack_ok offsets content" and f = pack_left]) (use pack_step_ok [OF ok] 0 in auto)
  then obtain st where st: "while_option ?b (pack_step offsets content cap) ?st = Some st" by blast
  have stop: "pg_pending st = []" using while_option_stop [OF st] by simp
  have "pack_ok offsets content st"
    by (rule while_option_rule [where P = "pack_ok offsets content", OF _ st 0]) (rule pack_step_ok(1) [OF ok])
  moreover have ps: "pack_units offsets content cap us = Some (pg_packed st @ current_list st)"
    by (simp add: pack_units_def st current_list_def)
  ultimately show "\<exists>ps. pack_units offsets content cap us = Some ps \<and> tiles content 0 (length content) (map pk_range ps)"
    using stop by (simp add: pack_ok_def)
  show "\<forall>s\<in>set ps. pk_tokens s \<le> cap"
    if f: "single_tokens_fit offsets cap" and c: "\<forall>u\<in>set us. pc_tokens u \<le> cap" and p: "pack_units offsets content cap us = Some ps"
  proof -
    have "pack_ok offsets content ?st \<and> pack_fits cap ?st" using 0 c by (simp add: pack_fits_def current_list_def)
    from while_option_rule [where P = "\<lambda>st. pack_ok offsets content st \<and> pack_fits cap st", OF _ st this]
    have "pack_fits cap st" using pack_step_ok(1) [OF ok] pack_step_fits [OF ok f] by blast
    then show ?thesis using ps p by (simp add: pack_fits_def)
  qed
qed

lemma pack_units_some:
  assumes "pack_units offsets content cap us = Some ps" and "us \<noteq> []"
  shows "ps \<noteq> []"
proof -
  let ?P = "\<lambda>st. pg_packed st @ current_list st \<noteq> [] \<or> pg_pending st \<noteq> []"
  obtain st where st: "while_option (\<lambda>st. pg_pending st \<noteq> []) (pack_step offsets content cap)
      \<lparr>pg_packed = [], pg_current = None, pg_pending = us\<rparr> = Some st" "ps = pg_packed st @ current_list st"
    using assms(1) by (auto simp: pack_units_def current_list_def)
  have "?P (pack_step offsets content cap st)" if p: "pg_pending st \<noteq> []" for st
  proof -
    obtain u us where u: "pg_pending st = u # us" using p by (cases "pg_pending st") auto
    then show ?thesis
      by (cases rule: pack_step_cases [where offsets = offsets and content = content and cap = cap]) (simp_all add: current_list_def)
  qed
  then have "?P st" by (rule while_option_rule [where P = ?P, OF _ st(1)]) (simp_all add: assms(2) current_list_def)
  then show ?thesis using while_option_stop [OF st(1)] st(2) by simp
qed

section \<open>What packing promises\<close>

definition numbered_spans :: "token_offsets \<Rightarrow> ustr \<Rightarrow> ustr \<Rightarrow> packed list \<Rightarrow> span list" where
  "numbered_spans offsets name content ps = map (\<lambda>(n, s). span_of offsets name content (blocks content) n s) (List.enumerate 0 ps)"

lemma map_enumerate: "(\<And>n x. f (n, x) = g x) \<Longrightarrow> map f (List.enumerate k xs) = map g xs"
  by (induction xs arbitrary: k) simp_all

lemma numbered_spans_maps:
  "map sn_text (numbered_spans offsets name content ps) = map (\<lambda>s. slice content (pk_range s)) ps"
  "map sn_range (numbered_spans offsets name content ps) = map (\<lambda>s. (byte_at content (fst (pk_range s)), byte_at content (snd (pk_range s)))) ps"
  "map sn_tokens (numbered_spans offsets name content ps) = map pk_tokens ps"
  unfolding numbered_spans_def map_map by (rule map_enumerate, simp add: span_of_def Let_def)+

lemma pack_cases:
  assumes ok: "counter_ok offsets" "breaks_ok breaks"
  obtains (whole) "pack offsets breaks name content cap = Some [whole_span name content (token_count offsets content)]"
      "token_count offsets content \<le> cap \<or> ink content = []"
    | (cut) ps where "pack offsets breaks name content cap = Some (numbered_spans offsets name content ps)" "ps \<noteq> []"
      "tiles content 0 (length content) (map pk_range ps)" "cap < token_count offsets content"
      "single_tokens_fit offsets cap \<Longrightarrow> \<forall>s\<in>set ps. pk_tokens s \<le> cap"
proof -
  let ?us = "units offsets breaks content (blocks content) cap"
  note us = units_tile [where content = content and cap = cap, OF ok]
  have none: "ink content = []" if "?us = []" using us(1) that by (simp add: units_ok_def cuts_def)
  obtain ps where ps: "pack_units offsets content cap ?us = Some ps" "tiles content 0 (length content) (map pk_range ps)"
    using pack_units_ends(1) [OF ok(1) us(1)] by blast
  consider "token_count offsets content \<le> cap" | "\<not> token_count offsets content \<le> cap" "?us = []"
    | "\<not> token_count offsets content \<le> cap" "?us \<noteq> []" by blast
  then show thesis
  proof cases
    case 1
    then show thesis by (intro whole) (simp_all add: pack_def)
  next
    case 2
    then show thesis by (intro whole) (simp_all add: pack_def none)
  next
    case 3
    then have "ps \<noteq> []" using pack_units_some ps(1) by blast
    then show thesis using 3 ps pack_units_ends(2) [OF ok(1) us(1)] us(2)
      by (intro cut [of ps]) (simp_all add: pack_def Let_def numbered_spans_def)
  qed
qed

lemma byte_at_slice:
  assumes "fst r \<le> snd r" and "snd r \<le> length content"
  shows "cut_at (byte_at content (fst r)) content = Some (take (fst r) content, drop (fst r) content)"
    and "cut_at (byte_at content (snd r) - byte_at content (fst r)) (drop (fst r) content) = Some (slice content r, drop (snd r) content)"
proof -
  show "cut_at (byte_at content (fst r)) content = Some (take (fst r) content, drop (fst r) content)"
    unfolding byte_at_def by (rule cut_at_take)
  have "take (snd r) content = take (fst r) content @ slice content r"
    using assms take_add [of "fst r" "snd r - fst r" content] by (simp add: slice_def)
  then have "byte_at content (snd r) - byte_at content (fst r) = byte_len (take (snd r - fst r) (drop (fst r) content))"
    by (simp add: byte_at_def byte_len_def slice_def)
  then show "cut_at (byte_at content (snd r) - byte_at content (fst r)) (drop (fst r) content) = Some (slice content r, drop (snd r) content)"
    using cut_at_take [of "snd r - fst r" "drop (fst r) content"] assms by (simp add: slice_def)
qed

text \<open>Where a span says it lies: cutting the content at its two byte offsets gives its text.\<close>

definition lies_in :: "ustr \<Rightarrow> span \<Rightarrow> bool" where
  "lies_in content s \<longleftrightarrow> (\<exists>before rest after.
     cut_at (fst (sn_range s)) content = Some (before, rest) \<and>
     cut_at (snd (sn_range s) - fst (sn_range s)) rest = Some (sn_text s, after))"

lemma byte_at_mono: "a \<le> b \<Longrightarrow> byte_at content a \<le> byte_at content b"
  by (metis byte_at_def byte_len_def le_add_diff_inverse le_add1 map_append sum_list_append take_add)

lemma numbered_spans_lie:
  assumes t: "tiles content 0 (length content) (map pk_range ps)"
  shows "concat (map (\<lambda>s. ink (sn_text s)) (numbered_spans offsets name content ps)) = ink content"
    and "\<forall>s\<in>set (numbered_spans offsets name content ps). lies_in content s"
    and "sorted_wrt (\<lambda>s t. snd (sn_range s) \<le> fst (sn_range t)) (numbered_spans offsets name content ps)"
proof -
  let ?ns = "numbered_spans offsets name content ps"
  have o: "sorted_wrt (\<lambda>r s. snd r \<le> fst s) (map pk_range ps)" "\<forall>r\<in>set (map pk_range ps). fst r \<le> snd r \<and> snd r \<le> length content"
    using tiles_ordered [OF t] by auto
  have "concat (map ink (map sn_text ?ns)) = ink content"
    unfolding numbered_spans_maps using tiles_ink [OF t] by (simp add: comp_def)
  then show "concat (map (\<lambda>s. ink (sn_text s)) ?ns) = ink content" by (simp add: comp_def)
  show "\<forall>s\<in>set ?ns. lies_in content s"
  proof
    fix s assume "s \<in> set ?ns"
    then obtain n p where p: "(n, p) \<in> set (List.enumerate 0 ps)" "s = span_of offsets name content (blocks content) n p"
      by (auto simp: numbered_spans_def)
    then have "p \<in> set ps" by (metis in_set_zip nth_mem snd_conv enumerate_eq_zip set_zip_rightD)
    then have r: "fst (pk_range p) \<le> snd (pk_range p)" "snd (pk_range p) \<le> length content" using o(2) by simp_all
    show "lies_in content s" using byte_at_slice [OF r] by (auto simp: lies_in_def p(2) span_of_def Let_def)
  qed
  have "sorted_wrt (\<lambda>r s. snd r \<le> fst s) (map sn_range ?ns)"
    unfolding numbered_spans_maps sorted_wrt_map
    by (rule sorted_wrt_mono_rel [OF _ o(1) [unfolded sorted_wrt_map]]) (simp add: byte_at_mono)
  then show "sorted_wrt (\<lambda>s t. snd (sn_range s) \<le> fst (sn_range t)) ?ns" by (simp add: sorted_wrt_map)
qed

section \<open>A sample\<close>

text \<open>One token a character; one sentence a text.\<close>

definition char_tokens :: token_offsets where
  "char_tokens s = map (\<lambda>i. (i, i + 1)) [0..<length s]"

definition one_sentence :: "ustr \<Rightarrow> nat list" where
  "one_sentence s = [0, length s]"

lemma char_tokens_ok: "counter_ok char_tokens"
  by (auto simp: counter_ok_def char_tokens_def)

lemma one_sentence_ok: "breaks_ok one_sentence"
  by (simp add: breaks_ok_def one_sentence_def)

definition sample_memory :: ustr where
  "sample_memory = lit ''# Set'' @ [10, 10] @ lit ''run it, caf'' @ [233, 10]"

lemma char_bounds:
  "previous \<le> k \<Longrightarrow> k + n \<le> length s \<Longrightarrow>
     bounds_from char_tokens s (length s) n previous [k..<k + n] = [k..<k + n]"
proof (induction n arbitrary: k previous)
  case (Suc n)
  then have "[k..<k + Suc n] = k # [Suc k..<Suc k + n]" by (simp add: upt_rec)
  moreover have "k * length s div length s = k" "k < length s" using Suc.prems by auto
  ultimately show ?case using Suc.IH [of k "Suc k"] Suc.prems by (simp add: char_tokens_def Let_def max_def)
qed simp

lemma adjacent_upt: "r \<in> set (adjacent [a..<a + n]) \<Longrightarrow> snd r = Suc (fst r)"
proof (induction n arbitrary: a)
  case (Suc n)
  show ?case
  proof (cases n)
    case (Suc m)
    have "[a..<a + Suc n] = a # Suc a # [Suc (Suc a)..<a + Suc n]" "[Suc a..<Suc a + n] = Suc a # [Suc (Suc a)..<a + Suc n]"
      using Suc by (simp_all add: upt_conv_Cons)
    then have "r = (a, Suc a) \<or> r \<in> set (adjacent [Suc a..<Suc a + n])" using Suc.prems by auto
    then show ?thesis using Suc.IH [of "Suc a"] by auto
  qed (use Suc.prems in \<open>simp add: upt_conv_Cons\<close>)
qed simp

lemma char_tokens_fit: "1 \<le> cap \<Longrightarrow> single_tokens_fit char_tokens cap"
  unfolding single_tokens_fit_def
proof (intro allI ballI)
  fix s r assume cap: "1 \<le> cap" and r: "r \<in> set (adjacent (cut_bounds char_tokens s (length (char_tokens s))))"
  have b: "snd r \<le> length s \<and> fst r \<le> snd r \<and> snd r - fst r \<le> 1"
  proof (cases "s = []")
    case False
    have "cut_bounds char_tokens s (length s) = 0 # [1..<1 + (length s - 1)] @ [length s]"
      using char_bounds [of 0 1 "length s - 1" s] False by (simp add: cut_bounds_def)
    also have "... = [0..<0 + Suc (length s)]"
      using False by (simp add: upt_conv_Cons)
    finally have bounds: "cut_bounds char_tokens s (length s) = [0..<0 + Suc (length s)]" .
    then have r1: "r \<in> set (adjacent [0..<0 + Suc (length s)])" using r by (simp add: char_tokens_def)
    then have "snd r = Suc (fst r)" by (rule adjacent_upt)
    moreover have "snd r \<in> set [0..<0 + Suc (length s)]" using adjacent_in [of "fst r" "snd r" "[0..<0 + Suc (length s)]"] r1 by (simp only: prod.collapse simp_thms)
    ultimately show ?thesis by auto
  qed (use r in \<open>simp add: cut_bounds_def char_tokens_def\<close>)
  then have "snd (trim_range s r) - fst (trim_range s r) \<le> 1" using trim_range_bounds [of r s] by linarith
  then have "length (slice s (trim_range s r)) \<le> 1" using length_slice_le order_trans by blast
  then show "token_count char_tokens (slice s (trim_range s r)) \<le> cap" using cap by (simp add: token_count_def char_tokens_def)
qed

definition sample_spans :: "(text_range \<times> ustr \<times> ustr \<times> nat) list option" where
  "sample_spans = map_option (map (\<lambda>s. (sn_range s, sn_header s, sn_text s, sn_tokens s)))
     (pack char_tokens one_sentence (lit ''memo'') sample_memory 12)"

lemma sample_spans_evaluated:
  "sample_spans = Some [((0, 14), lit ''memo'', lit ''# Set'' @ [10, 10] @ lit ''run it,'', 12), ((15, 20), lit ''memo > Set'', lit ''caf'' @ [233], 4)]"
  by code_simp

section \<open>Properties\<close>

text \<open>
  C16: cutting a memory into spans always ends, whatever the cap, and loses nothing: there is a span, the
  spans lie in order without overlap, each holds the text its byte range says, and between them they hold
  every character that is not whitespace exactly once and in order.
\<close>

theorem pack_holds_everything:
  assumes "counter_ok offsets" and "breaks_ok breaks"
  shows "\<exists>spans. pack offsets breaks name content cap = Some spans \<and> spans \<noteq> []
    \<and> concat (map (\<lambda>s. ink (sn_text s)) spans) = ink content \<and> (\<forall>s\<in>set spans. lies_in content s)
    \<and> sorted_wrt (\<lambda>s t. snd (sn_range s) \<le> fst (sn_range t)) spans"
  using assms
proof (cases rule: pack_cases [where name = name and content = content and cap = cap])
  case whole
  have "lies_in content (whole_span name content (token_count offsets content))"
    by (simp add: lies_in_def whole_span_def cut_at_all cut_at_take [of 0 content, simplified byte_len_def, simplified])
  then show ?thesis using whole(1) by (simp add: whole_span_def)
next
  case (cut ps)
  then show ?thesis using numbered_spans_lie [OF cut(3)] by (auto simp: numbered_spans_def List.enumerate_eq_zip)
qed

theorem pack_holds_everything_witness:
  "\<exists>spans. pack char_tokens one_sentence (lit ''memo'') sample_memory 12 = Some spans \<and> spans \<noteq> []
    \<and> concat (map (\<lambda>s. ink (sn_text s)) spans) = ink sample_memory \<and> (\<forall>s\<in>set spans. lies_in sample_memory s)
    \<and> sorted_wrt (\<lambda>s t. snd (sn_range s) \<le> fst (sn_range t)) spans"
  by (rule pack_holds_everything [OF char_tokens_ok one_sentence_ok])

text \<open>
  C17: no span is over the cap and no header over its share of the window: while no single token counts as
  more than the cap on its own, every span of a memory that says anything holds at most the cap, whatever
  way its blocks had to be cut, and a span cut out of a memory is headed with at most HEADER_TOKENS.
\<close>

theorem pack_within_cap:
  assumes "counter_ok offsets" and "breaks_ok breaks" and "single_tokens_fit offsets cap"
    and "pack offsets breaks name content cap = Some spans" and "s \<in> set spans" and "ink content \<noteq> []"
  shows "sn_tokens s \<le> cap \<and> (cap < token_count offsets content \<longrightarrow> token_count offsets (sn_header s) \<le> HEADER_TOKENS)"
  using assms(1,2)
proof (cases rule: pack_cases [where name = name and content = content and cap = cap])
  case whole
  then have "s = whole_span name content (token_count offsets content)" using assms(4,5) by simp
  then show ?thesis using whole(2) assms(6) by (auto simp: whole_span_def)
next
  case (cut ps)
  then have s: "s \<in> set (numbered_spans offsets name content ps)" using assms(4,5) by simp
  then have "sn_tokens s \<in> set (map sn_tokens (numbered_spans offsets name content ps))" by simp
  then have "sn_tokens s \<le> cap" unfolding numbered_spans_maps using cut(5) [OF assms(3)] by auto
  moreover have "token_count offsets (sn_header s) \<le> HEADER_TOKENS"
    using s header_of_count [OF assms(1)] by (auto simp: numbered_spans_def span_of_def Let_def)
  ultimately show ?thesis by simp
qed

theorem pack_within_cap_witness:
  "\<exists>s :: span. sn_text s = lit ''caf'' @ [233] \<and> sn_header s = lit ''memo > Set'' \<and> sn_tokens s \<le> 12
     \<and> (12 < token_count char_tokens sample_memory \<longrightarrow> token_count char_tokens (sn_header s) \<le> HEADER_TOKENS)"
proof -
  obtain spans where p: "pack char_tokens one_sentence (lit ''memo'') sample_memory 12 = Some spans"
      "map (\<lambda>s. (sn_range s, sn_header s, sn_text s, sn_tokens s)) spans =
        [((0, 14), lit ''memo'', lit ''# Set'' @ [10, 10] @ lit ''run it,'', 12), ((15, 20), lit ''memo > Set'', lit ''caf'' @ [233], 4)]"
    using sample_spans_evaluated by (auto simp: sample_spans_def)
  then obtain s t where s: "spans = [s, t]" by (auto simp: map_eq_Cons_conv)
  have "ink sample_memory \<noteq> []" by (simp add: sample_memory_def ink_def is_whitespace_def)
  from pack_within_cap [OF char_tokens_ok one_sentence_ok char_tokens_fit p(1) _ this, of t] p(2) s
  show ?thesis by (intro exI [of _ t]) simp
qed

end
