(* ===== verification/Engine_Search_Sound.thy ===== *)
theory Engine_Search_Sound
  imports Engine_Search Engine_Rank_Sound Store_Walk_Sound Store_Ledger_Sound Index_Spans_Sound
begin

text \<open>
  What a search promises: it returns only what topics stand for now, each topic once; the bounded walk
  never costs it an arrival; cuts kept between searches are invisible in what it returns; reranking moves
  its results and loses none, and a pass skipped as unseen is unseen.
\<close>

section \<open>What a topic stands for\<close>

text \<open>The newest state of a topic that is not deleted, read through its span, under the topic's name.\<close>

definition stands_as :: "ledger \<Rightarrow> project_id \<Rightarrow> topic_id \<Rightarrow> ustr \<Rightarrow> topic_state \<Rightarrow> bool" where
  "stands_as db project t name st \<longleftrightarrow>
     (\<exists>row\<in>set (l_topics db). tp_project row = project \<and> tp_id row = t \<and> tp_name row = name) \<and>
     Option.bind (Option.bind (newest_state db t) (span_joins db)) row_to_topic_state = Some st"

lemma stands_as_state: "stands_as db project t name st \<Longrightarrow> stands_as db project t name' st' \<Longrightarrow> st' = st"
  by (simp add: stands_as_def)

lemma state_read:
  assumes "span_joins db r = Some x" "row_to_topic_state x = Some st"
  shows "st_of st = ts_topic r" "st_id st = ts_id r" "st_deleted_at st = ts_deleted_at r"
  using assms by (auto simp: span_joins_def row_to_topic_state_def split: option.splits)

lemma stands_as_of:
  assumes "stands_as db project t name st"
  shows "st_of st = t" "st_deleted_at st = None"
proof -
  obtain r x where r: "newest_state db t = Some r" "span_joins db r = Some x" "row_to_topic_state x = Some st"
    using assms by (auto simp: stands_as_def bind_eq_Some_conv)
  show "st_of st = t" "st_deleted_at st = None"
    using newest_stateD(1) [OF r(1)] state_read [OF r(2,3)] by (simp_all add: in_live)
qed

lemma current_row_newest:
  assumes ok: "ledger_ok db" and t: "t \<in> set (l_topics db)" and r: "current_row db t = Some r"
  shows "newest_state db (tp_id t) = Some r"
proof -
  obtain s where s: "tp_current t = Some s" "find (\<lambda>r. ts_id r = s) (l_states db) = Some r"
    using r by (auto simp: current_row_def split: option.splits)
  obtain r' where n: "newest_state db (tp_id t) = Some r'" "ts_id r' = s" "r' \<in> set (l_states db)" by (rule pointer_state [OF ok t s(1)])
  have "r \<in> set (l_states db)" "ts_id r = s" using find_SomeD [OF s(2)] by simp_all
  moreover have "distinct (map ts_id (l_states db))" using ledger_okD(4) [OF ok] by (simp add: states_ok_def)
  ultimately have "r = r'" using n(2,3) by (metis distinct_map inj_onD)
  then show ?thesis using n(1) by simp
qed

lemma those_in: "those (map g zs) = Some ys \<Longrightarrow> y \<in> set ys \<Longrightarrow> \<exists>z\<in>set zs. g z = Some y"
  by (induction zs arbitrary: ys) (auto split: option.splits)

lemma current_states_stand:
  assumes ok: "ledger_ok db" and c: "current_states_named db project topics = Some ys" and y: "(name, st) \<in> set ys"
  shows "stands_as db project (st_of st) name st \<and> st_of st \<in> set topics"
proof -
  have "topics \<noteq> []" using c y by (auto simp: current_states_named_def)
  then have "those (map (\<lambda>(name, x). map_option (Pair name) (row_to_topic_state x))
        (List.map_filter (\<lambda>t. case current_row db t of None \<Rightarrow> None | Some r \<Rightarrow> map_option (Pair (tp_name t)) (span_joins db r))
          (filter (\<lambda>t. tp_project t = project \<and> tp_id t \<in> set topics) (l_topics db)))) = Some ys"
    using c by (simp add: current_states_named_def)
  from those_in [OF this y] obtain row r x where row: "row \<in> set (l_topics db)" "tp_project row = project" "tp_id row \<in> set topics"
      "current_row db row = Some r" "span_joins db r = Some x" "row_to_topic_state x = Some st" "name = tp_name row"
    by (auto simp: List.map_filter_def split: option.splits)
  have n: "newest_state db (tp_id row) = Some r" by (rule current_row_newest [OF ok row(1,4)])
  have "st_of st = tp_id row" using newest_stateD(1) [OF n] state_read(1) [OF row(5,6)] by (simp add: in_live)
  then show ?thesis using row n by (auto simp: stands_as_def)
qed

section \<open>The working set\<close>

definition working_ok :: "ledger \<Rightarrow> project_id \<Rightarrow> working \<Rightarrow> bool" where
  "working_ok db project w \<longleftrightarrow>
     (\<forall>t st. wg_current w t = Some st \<longrightarrow> (\<exists>name. wg_names w t = Some name \<and> stands_as db project t name st))"

lemma working_okD: "working_ok db project w \<Longrightarrow> wg_current w t = Some st \<Longrightarrow> \<exists>name. wg_names w t = Some name \<and> stands_as db project t name st"
  unfolding working_ok_def by blast

lemma no_working_ok: "working_ok db project no_working"
  by (simp add: working_ok_def no_working_def)

lemma add_states_ok:
  assumes ok: "ledger_ok db" and c: "current_states_named db project topics = Some states" and w: "working_ok db project w"
  shows "working_ok db project (add_states states w)"
  unfolding add_states_def
proof (rule fold_invariant [where Q = "\<lambda>x. x \<in> set states" and P = "working_ok db project"])
  fix x w assume x: "x \<in> set states" and w: "working_ok db project w"
  obtain name st where n: "x = (name, st)" by (cases x)
  then have "stands_as db project (st_of st) name st" using current_states_stand [OF ok c] x by blast
  then show "working_ok db project ((case x of (name, state) \<Rightarrow> \<lambda>w.
     w\<lparr>wg_names := (wg_names w)(st_of state \<mapsto> name), wg_current := (wg_current w)(st_of state \<mapsto> state)\<rparr>) w)"
    using w n by (auto simp: working_ok_def)
qed (use w in auto)

lemma add_states_current:
  "wg_current (add_states states w) t \<noteq> None \<longleftrightarrow> wg_current w t \<noteq> None \<or> t \<in> st_of ` snd ` set states"
  unfolding add_states_def by (induction states arbitrary: w) auto

lemma add_names_current [simp]: "wg_current (add_names topics w) = wg_current w"
  unfolding add_names_def by (induction topics arbitrary: w) auto

lemma add_names_other: "t \<notin> fst ` set topics \<Longrightarrow> wg_names (add_names topics w) t = wg_names w t"
  unfolding add_names_def by (induction topics arbitrary: w) auto

lemma named_vias_current [simp]: "wg_current (named_vias db project paths w) = wg_current w"
  by (simp add: named_vias_def Let_def)

lemma named_vias_known: "wg_names w t \<noteq> None \<Longrightarrow> wg_names (named_vias db project paths w) t = wg_names w t"
  by (auto simp: named_vias_def Let_def topics_by_id_def intro!: add_names_other)

lemma named_vias_ok: "working_ok db project w \<Longrightarrow> working_ok db project (named_vias db project paths w)"
  unfolding working_ok_def using named_vias_known by (metis named_vias_current option.discI)

section \<open>The graph channel\<close>

lemma path_factor_nonneg: "0 \<le> rnd32 (HOP_DECAY ^ n)"
  by (rule le_rnd32) (simp_all add: HOP_DECAY_def)

lemma worth_rises:
  assumes "0 \<le> k" "is_f32 k"
  shows "rises (worth_of (seed_relevance named recalled k))"
proof -
  have r: "0 \<le> (case seed_relevance named recalled k t of None \<Rightarrow> 0 | Some r \<Rightarrow> r)" for t
    using seed_relevance_unit [OF assms, of named recalled t] by (auto split: option.splits)
  show ?thesis unfolding rises_def worth_of_def path_strength_def fmul_def
    by (intro allI impI rnd32_mono mult_right_mono r path_factor_nonneg)
qed

lemma to_depth_now [simp]: "ex_at (keeping keep (to_depth d)) = None"
  by (simp add: keeping_def to_depth_def)

lemma arrivals_full:
  assumes ok: "graph_ok g" and k: "0 \<le> k" "is_f32 k"
  shows "arrivals_of g project seeds depths (worth_of (seed_relevance named recalled k))
       = strongest (expand g project seeds (keeping (dp_channel depths) (to_depth (dp_graph depths)))) (dp_channel depths)
           (worth_of (seed_relevance named recalled k))"
proof (cases "walk_strongest (expand_reading g project seeds (keeping (dp_channel depths) (to_depth (dp_graph depths))) (dp_channel depths))
    (dp_channel depths) (worth_of (seed_relevance named recalled k))")
  case (Some ns)
  have "ns = strongest (expand g project seeds (keeping (dp_channel depths) (to_depth (dp_graph depths)))) (dp_channel depths)
           (worth_of (seed_relevance named recalled k))"
    by (rule expand_f32 [OF _ ok to_depth_now worth_rises [OF k] Some])
      (rule genuine_f32 [OF ok expand_genuine [OF ok to_depth_now]])
  then show ?thesis using Some by (simp add: arrivals_of_def Let_def)
qed (simp add: arrivals_of_def Let_def)

section \<open>What a search fuses\<close>

lemma recall_graph_ok:
  assumes ok: "ledger_ok db" and w: "working_ok db project w"
    and r: "recall_graph sr g db project widest query ranked recalled depths k w = Some gr"
  shows "working_ok db project (gr_working gr)"
proof -
  obtain w1 states and neighbors :: "neighbor list" where w1: "working_ok db project w1"
      and s: "current_states_named db project (map nb_topic neighbors) = Some states" "gr_working gr = add_states states w1"
  proof -
    let ?named = "topics_named_by db project (runs_of_tokens (sr_sequence sr query) widest)"
    let ?unresolved = "filter (\<lambda>t. wg_current w t = None) ?named"
    obtain w1 where w1: "(if ?unresolved = [] then Some w
        else map_option (\<lambda>states. add_states states w) (current_states_named db project ?unresolved)) = Some w1"
      using r by (auto simp: recall_graph_def Let_def bind_eq_Some_conv)
    have "working_ok db project w1"
      using w1 w add_states_ok [OF ok _ w] by (auto split: if_splits)
    moreover obtain states where "current_states_named db project
          (map nb_topic (arrivals_of g project (seeds_of w1 ?named ranked) depths (worth_of (seed_relevance ?named recalled k)))) = Some states"
        "gr_working gr = add_states states w1"
      using r w1 by (auto simp: recall_graph_def Let_def bind_eq_Some_conv)
    ultimately show thesis using that by blast
  qed
  then show ?thesis using add_states_ok [OF ok] by simp
qed

lemma explained_fields [simp]:
  "fr_topic (explained sr live paths r) = fr_topic r" "fr_score (explained sr live paths r) = fr_score r"
  by (simp_all add: explained_def split: option.splits)

definition fused_ok :: "ledger \<Rightarrow> project_id \<Rightarrow> fused \<Rightarrow> bool" where
  "fused_ok db project fs \<longleftrightarrow>
     working_ok db project (fs_live fs) \<and> distinct (map fr_topic (fs_results fs)) \<and>
     (\<forall>r\<in>set (fs_results fs). wg_current (fs_live fs) (fr_topic r) \<noteq> None)"

lemma widest_name_ledger: "widest_name project e = (n, e') \<Longrightarrow> eg_ledger e' = eg_ledger e"
  by (auto simp: widest_name_def remember_widest_name_def Let_def split: if_splits)

lemma search_all_ok:
  assumes ok: "ledger_ok (eg_ledger e)" and s: "search_all sr g project query depths f e = (fs, e')"
  shows "eg_ledger e' = eg_ledger e \<and> (case fs of None \<Rightarrow> True | Some fs \<Rightarrow> fused_ok (eg_ledger e) project fs)"
proof -
  let ?db = "eg_ledger e"
  let ?read = "do {
        recalled \<leftarrow> index_lists sr query depths;
        let candidates = best_first recalled;
        states \<leftarrow> current_states_named ?db project candidates;
        Some (recalled, candidates, add_states states no_working)
      }"
  show ?thesis
  proof (cases ?read)
    case None
    then show ?thesis using s by (simp add: search_all_def Let_def)
  next
    case (Some x)
    then obtain recalled candidates states where x: "x = (recalled, candidates, add_states states no_working)"
        "current_states_named ?db project candidates = Some states"
      by (auto simp: Let_def bind_eq_Some_conv)
    obtain widest e1 where n: "widest_name project e = (widest, e1)" by (cases "widest_name project e")
    let ?gr = "recall_graph sr g ?db project widest query candidates recalled depths (fu_k f) (add_states states no_working)"
    have e: "e' = e1" "fs = map_option (\<lambda>gr.
                let live = named_vias ?db project (gr_paths gr) (gr_working gr);
                    results = filter (\<lambda>r. wg_current live (fr_topic r) \<noteq> None) (fuse f (recalled @ [gr_list gr]))
                in \<lparr>fs_results = map (explained sr live (gr_paths gr)) results, fs_live = live, fs_paths = gr_paths gr\<rparr>) ?gr"
      using s Some x(1) n by (simp_all add: search_all_def Let_def)
    show ?thesis
    proof (cases ?gr)
      case None
      then show ?thesis using e widest_name_ledger [OF n] by simp
    next
      case (Some gr)
      have "working_ok ?db project (gr_working gr)"
        by (rule recall_graph_ok [OF ok add_states_ok [OF ok x(2) no_working_ok] Some])
      then have live: "working_ok ?db project (named_vias ?db project (gr_paths gr) (gr_working gr))" by (rule named_vias_ok)
      have "distinct (map fr_topic (fuse f (recalled @ [gr_list gr])))" by (simp add: fuse_topics)
      then show ?thesis using e Some live widest_name_ledger [OF n]
        by (auto simp: fused_ok_def Let_def comp_def distinct_map_filter)
    qed
  qed
qed

section \<open>Hits\<close>

lemma traverse_each:
  "run_state (State_Monad.traverse_list f xs) s = (ys, s') \<Longrightarrow> list_all2 (\<lambda>x y. \<exists>s s'. run_state (f x) s = (y, s')) xs ys"
proof (induction xs arbitrary: s ys s')
  case (Cons x xs)
  obtain y s1 where y: "run_state (f x) s = (y, s1)" by (cases "run_state (f x) s")
  obtain zs s2 where zs: "run_state (State_Monad.traverse_list f xs) s1 = (zs, s2)" by (cases "run_state (State_Monad.traverse_list f xs) s1")
  show ?case using Cons.prems Cons.IH [OF zs] y zs by auto
qed simp

lemma hit_of_fields:
  assumes "run_state (hit_of sr window fs r) s = (h, s')"
  shows "hit_result h = r \<and> hit_state h = live_state fs r \<and> hit_topic h = topic_name sr (fs_live fs) (fr_topic r) \<and> hit_parent h = None"
  using assms by (auto simp: hit_of_def Let_def split: prod.splits)

lemma hits_of_results:
  assumes "run_state (hits_of sr window limit fs) s = (hits, s')"
  shows "map hit_result hits = take limit (fs_results fs)"
    and "\<forall>h\<in>set hits. hit_state h = live_state fs (hit_result h) \<and> hit_topic h = topic_name sr (fs_live fs) (fr_topic (hit_result h))"
proof -
  from traverse_each [OF assms [unfolded hits_of_def]]
  have "list_all2 (\<lambda>r h. hit_result h = r \<and> hit_state h = live_state fs r \<and> hit_topic h = topic_name sr (fs_live fs) (fr_topic r)) (take limit (fs_results fs)) hits"
    by (rule list_all2_mono) (elim exE, drule hit_of_fields, simp)
  then show "map hit_result hits = take limit (fs_results fs)"
    "\<forall>h\<in>set hits. hit_state h = live_state fs (hit_result h) \<and> hit_topic h = topic_name sr (fs_live fs) (fr_topic (hit_result h))"
    by (induction rule: list_all2_induct) auto
qed

section \<open>Reordering\<close>

lemma map_update_same: "g r = g (xs ! i) \<Longrightarrow> map g (xs[i := r]) = map g xs"
  by (metis list_update_id map_update)

lemma mark_ranked_maps [simp]: "length (mark_ranked unlexical x results) = length results"
  "map fr_topic (mark_ranked unlexical x results) = map fr_topic results"
  "map fr_score (mark_ranked unlexical x results) = map fr_score results"
proof -
  show "length (mark_ranked unlexical x results) = length results" by (simp add: mark_ranked_def Let_def)
  show "map fr_topic (mark_ranked unlexical x results) = map fr_topic results"
    "map fr_score (mark_ranked unlexical x results) = map fr_score results"
    unfolding mark_ranked_def Let_def by (rule map_update_same, simp)+
qed

lemma fold_mark_maps [simp]: "length (fold (mark_ranked unlexical) xs results) = length results"
  "map fr_topic (fold (mark_ranked unlexical) xs results) = map fr_topic results"
  "map fr_score (fold (mark_ranked unlexical) xs results) = map fr_score results"
  by (induction xs arbitrary: results) simp_all

lemma reordered_parts:
  assumes "reordered unlexical depth ordered results = Some rs"
  obtains best where "replace_shown (fold (mark_ranked unlexical) ordered results) unlexical depth best = Some rs"
    "score_blend_order (map (\<lambda>here. fr_score (fold (mark_ranked unlexical) ordered results ! here)) unlexical) (model_scores ordered) RERANK_FUSION = Some best"
    "mset best = mset [0..<length unlexical]"
proof -
  obtain best where b: "replace_shown (fold (mark_ranked unlexical) ordered results) unlexical depth best = Some rs"
    "score_blend_order (map (\<lambda>here. fr_score (fold (mark_ranked unlexical) ordered results ! here)) unlexical) (model_scores ordered) RERANK_FUSION = Some best"
    using assms by (auto simp: reordered_def Let_def bind_eq_Some_conv simp del: fold_mark_maps split: if_splits)
  then show thesis using that blend_permutes [OF b(2)] by simp
qed

lemma reordered_topics:
  assumes "reordered (rerankable (map fr_why results) depth') depth ordered results = Some rs"
  shows "mset (map fr_topic rs) = mset (map fr_topic results)"
proof -
  let ?un = "rerankable (map fr_why results) depth'" and ?marked = "fold (mark_ranked (rerankable (map fr_why results) depth')) ordered results"
  obtain best where b: "replace_shown ?marked ?un depth best = Some rs" "mset best = mset [0..<length ?un]"
    by (rule reordered_parts [OF assms])
  have "\<forall>a\<in>set ?un. a < length ?marked" using rerankable_sorted(3) [of "map fr_why results"] by simp
  from replace_shown_permutes [OF rerankable_sorted(2) this b(2,1)] have "mset rs = mset ?marked" .
  then have "mset (map fr_topic rs) = mset (map fr_topic ?marked)" by (metis mset_map)
  then show ?thesis by simp
qed

lemma fused_ok_reordered:
  assumes "fused_ok db project fs" and m: "mset (map fr_topic rs) = mset (map fr_topic (fs_results fs))"
  shows "fused_ok db project (fs\<lparr>fs_results := rs\<rparr>)"
proof -
  have "distinct (map fr_topic rs)" using mset_eq_imp_distinct_iff [OF m] assms(1) by (simp add: fused_ok_def)
  moreover have "fr_topic ` set rs = fr_topic ` set (fs_results fs)" using mset_eq_setD [OF m] by simp
  ultimately show ?thesis using assms(1) by (simp add: fused_ok_def) (metis image_iff)
qed

lemma ranked_hits_cases:
  assumes "run_state (ranked_hits sr query limit depths fs) s = (Some hits, s')"
  obtains (unseen) "run_state (hits_of sr (window_of sr query) limit fs) s = (hits, s')"
  | (reranked) documents s1 ordered rs where
      "run_state (State_Monad.traverse_list (\<lambda>here. fused_shown sr (window_of sr query) fs (fs_results fs ! here))
         (rerankable (map fr_why (fs_results fs)) (dp_rerank depths))) s = (documents, s1)"
      "sr_rank sr query documents = Some ordered"
      "reordered (rerankable (map fr_why (fs_results fs)) (dp_rerank depths)) (dp_rerank depths) ordered (fs_results fs) = Some rs"
      "run_state (hits_of sr (window_of sr query) limit (fs\<lparr>fs_results := rs\<rparr>)) s1 = (hits, s')"
  using assms
  by (auto simp: ranked_hits_def rerank_fused_def Let_def bind_eq_Some_conv split: if_splits prod.splits option.splits)

lemma ranked_hits_live:
  assumes ok: "fused_ok db project fs" and r: "run_state (ranked_hits sr query limit depths fs) s = (Some hits, s')"
  shows "\<exists>fs'. fused_ok db project fs' \<and> fs_live fs' = fs_live fs \<and> map hit_result hits = take limit (fs_results fs')
    \<and> (\<forall>h\<in>set hits. hit_state h = live_state fs' (hit_result h) \<and> hit_topic h = topic_name sr (fs_live fs') (fr_topic (hit_result h)))"
  using r
proof (cases rule: ranked_hits_cases)
  case unseen
  then show ?thesis using ok hits_of_results [OF unseen] by blast
next
  case (reranked documents s1 ordered rs)
  have "fused_ok db project (fs\<lparr>fs_results := rs\<rparr>)" by (rule fused_ok_reordered [OF ok reordered_topics [OF reranked(3)]])
  then show ?thesis using hits_of_results [OF reranked(4)] by (intro exI [of _ "fs\<lparr>fs_results := rs\<rparr>"]) simp
qed

lemma with_parents_fields [simp]:
  "map hit_result (with_parents g db project hits) = map hit_result hits"
  "map hit_state (with_parents g db project hits) = map hit_state hits"
  "map hit_topic (with_parents g db project hits) = map hit_topic hits"
  by (simp_all add: with_parents_def Let_def comp_def)

section \<open>Kept cuts\<close>

lemma get_or_cut_cong: "f key = f' key \<Longrightarrow> get_or_cut n budget key f g = get_or_cut n budget key f' g"
  by (auto simp: get_or_cut_def Let_def split: option.split prod.split)

text \<open>What a computation gives from any cache that is good, leaving a good one.\<close>

definition yields :: "('s \<Rightarrow> bool) \<Rightarrow> ('s, 'a) state \<Rightarrow> 'a \<Rightarrow> bool" where
  "yields good m v \<longleftrightarrow> (\<forall>s. good s \<longrightarrow> fst (run_state m s) = v \<and> good (snd (run_state m s)))"

lemma yields_return [intro, simp]: "yields good (State_Monad.return v) v"
  by (simp add: yields_def)

lemma yields_bind: "yields good m v \<Longrightarrow> yields good (f v) u \<Longrightarrow> yields good (State_Monad.bind m f) u"
  by (simp add: yields_def case_prod_beta)

lemma yields_traverse: "(\<And>x. x \<in> set xs \<Longrightarrow> yields good (f x) (g x)) \<Longrightarrow> yields good (State_Monad.traverse_list f xs) (map g xs)"
  by (induction xs) (auto intro!: yields_bind)

text \<open>What a state of the ledger says, by its identifier; what any window of it is then cut into.\<close>

definition contents_of :: "ledger \<Rightarrow> topic_state_id \<Rightarrow> ustr" where
  "contents_of db state =
     (case Option.bind (Option.bind (find (\<lambda>r. ts_id r = state) (l_states db)) (span_joins db)) row_to_topic_state of
        Some st \<Rightarrow> st_content st | None \<Rightarrow> [])"

definition cutting_of :: "'v searching \<Rightarrow> ledger \<Rightarrow> cut_key \<Rightarrow> span list" where
  "cutting_of sr db key = (case key of (state, cap, name) \<Rightarrow> spans_of sr cap name (contents_of db state))"

lemma found_key: "x \<in> set xs \<Longrightarrow> distinct (map k xs) \<Longrightarrow> find (\<lambda>y. k y = k x) xs = Some x"
  by (induction xs) (auto simp: image_iff)

lemma stands_contents:
  assumes ok: "ledger_ok db" and s: "stands_as db project t name st"
  shows "contents_of db (st_id st) = st_content st"
proof -
  obtain r x where r: "newest_state db t = Some r" "span_joins db r = Some x" "row_to_topic_state x = Some st"
    using s by (auto simp: stands_as_def bind_eq_Some_conv)
  have "r \<in> set (l_states db)" "distinct (map ts_id (l_states db))"
    using newest_stateD(1) [OF r(1)] ledger_okD(4) [OF ok] by (simp_all add: in_live states_ok_def)
  then have "find (\<lambda>r'. ts_id r' = ts_id r) (l_states db) = Some r" by (rule found_key)
  then show ?thesis using r state_read(2) [OF r(2,3)] by (simp add: contents_of_def)
qed

abbreviation cuts_ok :: "'v searching \<Rightarrow> ledger \<Rightarrow> generations \<Rightarrow> bool" where
  "cuts_ok sr db \<equiv> reachable_cuts (sr_span_size sr) GENERATION_BYTES (cutting_of sr db)"

lemma window_cut_yields:
  assumes "contents_of db (st_id st) = st_content st"
  shows "yields (cuts_ok sr db) (window_cut sr w st name) (spans_of sr (wn_cap w) name (st_content st))"
proof -
  let ?key = "(st_id st, wn_cap w, name)" and ?spans = "spans_of sr (wn_cap w) name (st_content st)"
  have key: "cutting_of sr db ?key = ?spans" using assms by (simp add: cutting_of_def)
  have "run_state (window_cut sr w st name) g = get_or_cut (sr_span_size sr) GENERATION_BYTES ?key (cutting_of sr db) g" for g
    unfolding window_cut_def state.sel by (rule get_or_cut_cong) (simp add: key)
  then show ?thesis unfolding yields_def using get_or_cut_cut [of "sr_span_size sr" GENERATION_BYTES "cutting_of sr db" _ ?key] key by simp
qed

lemma window_shown_yields:
  assumes "contents_of db (st_id st) = st_content st"
  shows "yields (cuts_ok sr db) (window_shown sr w st name best seed) (window_text sr w st name best seed (spans_of sr (wn_cap w) name (st_content st)))"
  unfolding window_shown_def by (rule yields_bind [OF window_cut_yields [OF assms] yields_return])

lemma window_view_yields:
  assumes "contents_of db (st_id st) = st_content st"
  shows "yields (cuts_ok sr db) (window_view sr w st name best) (view_of best (spans_of sr (wn_cap w) name (st_content st)))"
  unfolding window_view_def by (rule yields_bind [OF window_cut_yields [OF assms] yields_return])

lemma window_naming_yields:
  assumes "contents_of db (st_id st) = st_content st"
  shows "yields (cuts_ok sr db) (window_naming sr w st reached)
    (naming_in (sr_sequence sr) (st_content st) (spans_of sr (wn_cap w) [] (st_content st)) reached)"
  unfolding window_naming_def by (rule yields_bind [OF window_cut_yields [OF assms] yields_return])

text \<open>Every state a fused search reads is one its topic stands for.\<close>

lemma live_contents:
  assumes ok: "ledger_ok db" and f: "fused_ok db project fs"
  shows "r \<in> set (fs_results fs) \<Longrightarrow> contents_of db (st_id (live_state fs r)) = st_content (live_state fs r)"
    and "seed_of (fs_live fs) paths t = Some s \<Longrightarrow> contents_of db (st_id s) = st_content s"
proof -
  have w: "working_ok db project (fs_live fs)" using f by (simp add: fused_ok_def)
  have known: "wg_current (fs_live fs) t = Some s \<Longrightarrow> contents_of db (st_id s) = st_content s" for t s
    using working_okD [OF w] stands_contents [OF ok] by blast
  show "contents_of db (st_id (live_state fs r)) = st_content (live_state fs r)" if "r \<in> set (fs_results fs)"
    using that f known by (fastforce simp: fused_ok_def live_state_def)
  show "contents_of db (st_id s) = st_content s" if "seed_of (fs_live fs) paths t = Some s"
    using that known by (auto simp: seed_of_def bind_eq_Some_conv)
qed

lemma fused_shown_yields:
  assumes ok: "ledger_ok db" "fused_ok db project fs" and r: "r \<in> set (fs_results fs)"
  shows "\<exists>v. yields (cuts_ok sr db) (fused_shown sr window fs r) v"
proof (cases window)
  case None
  then show ?thesis by (auto simp: fused_shown_def Let_def)
next
  case (Some w)
  note sh = window_shown_yields [OF live_contents(1) [OF ok r]]
  show ?thesis
  proof (cases "seed_of (fs_live fs) (fs_paths fs) (fr_topic r)")
    case None
    show ?thesis unfolding fused_shown_def Let_def None Some option.case by (rule exI, rule yields_bind, rule yields_return, rule sh)
  next
    case seed: (Some s)
    note t = window_naming_yields [OF live_contents(2) [OF ok seed]]
    show ?thesis unfolding fused_shown_def Let_def seed Some option.case
      by (rule exI, rule yields_bind, rule yields_bind, rule t, rule yields_return, rule sh)
  qed
qed

lemma hit_of_yields:
  assumes ok: "ledger_ok db" "fused_ok db project fs" and r: "r \<in> set (fs_results fs)"
  shows "\<exists>v. yields (cuts_ok sr db) (hit_of sr window fs r) v"
proof (cases window)
  case None
  show ?thesis unfolding hit_of_def Let_def None option.case by (rule exI, rule yields_bind, rule yields_return, rule yields_return)
next
  case (Some w)
  show ?thesis unfolding hit_of_def Let_def Some option.case
    by (rule exI, rule yields_bind, rule window_view_yields [OF live_contents(1) [OF ok r]], rule yields_return)
qed

lemma traverse_yields:
  assumes "\<And>x. x \<in> set xs \<Longrightarrow> \<exists>v. yields good (f x) v"
  shows "\<exists>v. yields good (State_Monad.traverse_list f xs) v"
proof -
  obtain g where "\<And>x. x \<in> set xs \<Longrightarrow> yields good (f x) (g x)" using assms by metis
  then show ?thesis using yields_traverse [of xs good f g] by blast
qed

lemma hits_of_yields:
  assumes "ledger_ok db" "fused_ok db project fs"
  shows "\<exists>v. yields (cuts_ok sr db) (hits_of sr window limit fs) v"
  unfolding hits_of_def by (rule traverse_yields) (rule hit_of_yields [OF assms], rule set_take_in)

lemma rerank_fused_yields:
  assumes ok: "ledger_ok db" "fused_ok db project fs" and u: "\<forall>here\<in>set unlexical. here < length (fs_results fs)"
  shows "\<exists>v. yields (cuts_ok sr db) (rerank_fused sr window query depths unlexical fs) v
    \<and> (\<forall>fs'. v = Some fs' \<longrightarrow> (\<exists>ordered rs. reordered unlexical (dp_rerank depths) ordered (fs_results fs) = Some rs \<and> fs' = fs\<lparr>fs_results := rs\<rparr>))"
proof -
  obtain documents where d: "yields (cuts_ok sr db) (State_Monad.traverse_list (\<lambda>here. fused_shown sr window fs (fs_results fs ! here)) unlexical) documents"
    using traverse_yields [of unlexical "cuts_ok sr db" "\<lambda>here. fused_shown sr window fs (fs_results fs ! here)"] fused_shown_yields [OF ok] u nth_mem by blast
  show ?thesis unfolding rerank_fused_def
    by (rule exI, rule conjI, rule yields_bind [OF d], rule yields_return) (auto simp: bind_eq_Some_conv)
qed

lemma ranked_hits_yields:
  assumes ok: "ledger_ok db" "fused_ok db project fs"
  shows "\<exists>v. yields (cuts_ok sr db) (ranked_hits sr query limit depths fs) v"
proof -
  let ?window = "window_of sr query" and ?un = "rerankable (map fr_why (fs_results fs)) (dp_rerank depths)"
  have un: "\<forall>here\<in>set ?un. here < length (fs_results fs)" using rerankable_sorted(3) [of "map fr_why (fs_results fs)"] by simp
  have some_hits: "\<exists>v. yields (cuts_ok sr db) (do { hits \<leftarrow> hits_of sr ?window limit fs; State_Monad.return (Some hits) }) v"
    if f: "fused_ok db project fs" for fs
  proof -
    obtain hits where "yields (cuts_ok sr db) (hits_of sr ?window limit fs) hits" using hits_of_yields [OF ok(1) f] by blast
    then show ?thesis by (intro exI) (rule yields_bind, assumption, rule yields_return)
  qed
  show ?thesis
  proof (cases "fs_results fs = [] \<or> \<not> can_be_seen ?un limit")
    case True
    then show ?thesis using some_hits [OF ok(2)] by (simp add: ranked_hits_def Let_def)
  next
    case False
    obtain v where v: "yields (cuts_ok sr db) (rerank_fused sr ?window query depths ?un fs) v"
        "\<And>fs'. v = Some fs' \<Longrightarrow> \<exists>ordered rs. reordered ?un (dp_rerank depths) ordered (fs_results fs) = Some rs \<and> fs' = fs\<lparr>fs_results := rs\<rparr>"
      using rerank_fused_yields [OF ok un] by blast
    have "\<exists>u. yields (cuts_ok sr db) (case v of None \<Rightarrow> State_Monad.return None
            | Some fs \<Rightarrow> do { hits \<leftarrow> hits_of sr ?window limit fs; State_Monad.return (Some hits) }) u"
    proof (cases v)
      case None
      then show ?thesis using yields_return by fastforce
    next
      case (Some fs')
      then obtain ordered rs where "reordered ?un (dp_rerank depths) ordered (fs_results fs) = Some rs" "fs' = fs\<lparr>fs_results := rs\<rparr>"
        using v(2) by blast
      then have "fused_ok db project fs'" using fused_ok_reordered [OF ok(2) reordered_topics] by blast
      then show ?thesis using some_hits Some by simp
    qed
    then obtain u where "yields (cuts_ok sr db) (case v of None \<Rightarrow> State_Monad.return None
            | Some fs \<Rightarrow> do { hits \<leftarrow> hits_of sr ?window limit fs; State_Monad.return (Some hits) }) u" by blast
    then have "\<exists>u. yields (cuts_ok sr db) (rerank_fused sr ?window query depths ?un fs \<bind>
        (\<lambda>reranked. case reranked of None \<Rightarrow> State_Monad.return None
            | Some fs \<Rightarrow> do { hits \<leftarrow> hits_of sr ?window limit fs; State_Monad.return (Some hits) })) u"
      by (intro exI) (rule yields_bind, rule v(1))
    then show ?thesis using False by (auto simp: ranked_hits_def Let_def)
  qed
qed

section \<open>Reranking\<close>






section \<open>Properties\<close>

text \<open>
  C18: a search returns only what stands in the ledger: at most as many hits as were asked for, each topic
  once, each with the newest state of its topic that is not deleted, under the topic's name; and it changes
  nothing in the ledger, whatever the index, the embedder and the reranker answer.
\<close>

theorem search_returns_what_stands:
  assumes "reachable_ledger (eg_ledger e)"
    and "search_reranked_with sr g project query limit depths f e kept = (Some hits, e', kept')"
  shows "length hits \<le> limit \<and> distinct (map (fr_topic \<circ> hit_result) hits)
    \<and> (\<forall>h\<in>set hits. stands_as (eg_ledger e) project (fr_topic (hit_result h)) (hit_topic h) (hit_state h))
    \<and> eg_ledger e' = eg_ledger e"
proof -
  have ok: "ledger_ok (eg_ledger e)" by (rule reachable_okI [OF assms(1)])
  obtain fs where s: "search_all sr g project query depths f e = (Some fs, e')"
    using assms(2) by (auto simp: search_reranked_with_def split: prod.splits option.splits)
  then obtain hits0 where h: "run_state (ranked_hits sr query limit depths fs) kept = (Some hits0, kept')"
      "hits = with_parents g (eg_ledger e') project hits0"
    using assms(2) by (auto simp: search_reranked_with_def split: prod.splits)
  have f: "eg_ledger e' = eg_ledger e" "fused_ok (eg_ledger e) project fs" using search_all_ok [OF ok s] by auto
  obtain fs' where fs': "fused_ok (eg_ledger e) project fs'" "map hit_result hits0 = take limit (fs_results fs')"
      "\<forall>h\<in>set hits0. hit_state h = live_state fs' (hit_result h) \<and> hit_topic h = topic_name sr (fs_live fs') (fr_topic (hit_result h))"
    using ranked_hits_live [OF f(2) h(1)] by blast
  have each: "stands_as (eg_ledger e) project (fr_topic (hit_result h)) (hit_topic h) (hit_state h)" if "h \<in> set hits0" for h
  proof -
    have "hit_result h \<in> set (fs_results fs')" using that fs'(2) by (metis image_eqI set_map set_take_in)
    then obtain st where st: "wg_current (fs_live fs') (fr_topic (hit_result h)) = Some st" using fs'(1) by (auto simp: fused_ok_def)
    then obtain name where "wg_names (fs_live fs') (fr_topic (hit_result h)) = Some name"
        "stands_as (eg_ledger e) project (fr_topic (hit_result h)) name st"
    proof -
      have "working_ok (eg_ledger e) project (fs_live fs')" using fs'(1) by (simp add: fused_ok_def)
      from working_okD [OF this st] show thesis using that by blast
    qed
    then show ?thesis using st fs'(3) that by (simp add: live_state_def topic_name_def)
  qed
  have r: "map hit_result hits = take limit (fs_results fs')" using h(2) fs'(2) by simp
  have d: "distinct (map fr_topic (take limit (fs_results fs')))" using fs'(1) by (simp add: fused_ok_def take_map [symmetric])
  have all: "stands_as (eg_ledger e) project (fr_topic (hit_result h)) (hit_topic h) (hit_state h)" if "h \<in> set hits" for h
  proof -
    have "map (\<lambda>h. (hit_result h, hit_topic h, hit_state h)) hits = map (\<lambda>h. (hit_result h, hit_topic h, hit_state h)) hits0"
      unfolding h(2) by (simp add: with_parents_def Let_def)
    then have "(hit_result h, hit_topic h, hit_state h) \<in> (\<lambda>h. (hit_result h, hit_topic h, hit_state h)) ` set hits0"
      using that by (metis (no_types, lifting) image_eqI list.set_map)
    then show ?thesis using each by auto
  qed
  have "length hits \<le> limit" using arg_cong [OF r, of length] by simp
  then show ?thesis using d all f(1) by (simp add: map_map [symmetric] r del: map_map)
qed

definition sample_searching :: "nat option \<Rightarrow> unit searching" where
  "sample_searching cap = \<lparr>sr_embed = (\<lambda>_. Some ()), sr_segmented = (\<lambda>_ _. Some [scored_new (TopicId 1) 1]),
     sr_ngram = (\<lambda>_ _. Some [scored_new (TopicId 5) 1]), sr_vector = (\<lambda>_ _ _. Some []), sr_rank = (\<lambda>_ ds. Some (zip [0..<length ds] (replicate (length ds) 0))),
     sr_sequence = split_whitespace, sr_offsets = char_tokens, sr_breaks = one_sentence, sr_cap = cap, sr_span_size = 80,
     sr_id_text = (\<lambda>_. [])\<rparr>"

definition sample_engine :: engine where
  "sample_engine = \<lparr>eg_ledger = sample_ledger, eg_widest = 0\<rparr>"

definition sample_depths :: depths where
  "sample_depths = \<lparr>dp_channel = 3, dp_graph = 1, dp_rerank = 2, dp_effort = 4\<rparr>"

definition sample_search :: "nat option \<Rightarrow> generations \<Rightarrow> search_hit list option \<times> engine \<times> generations" where
  "sample_search cap kept = search_reranked_with (sample_searching cap) \<lparr>g_topics = [], relationships = [], versions = []\<rparr> 7 (lit ''a'') 5 sample_depths \<lparr>fu_combine = Reciprocal, fu_k = 1, fu_weights = []\<rparr> sample_engine kept"

lemma sample_search_finds: "map_option (map (\<lambda>h. (fr_topic (hit_result h), hit_topic h))) (fst (sample_search None no_cuts)) = Some [(TopicId 1, lit ''a'')]"
  by code_simp

theorem search_returns_what_stands_witness:
  "stands_as sample_ledger 7 (TopicId 1) (lit ''a'') (hit_state (hd (the (fst (sample_search None no_cuts)))))"
proof -
  obtain hits e' kept' where s: "sample_search None no_cuts = (Some hits, e', kept')" "map (\<lambda>h. (fr_topic (hit_result h), hit_topic h)) hits = [(TopicId 1, lit ''a'')]"
    using sample_search_finds by (cases "sample_search None no_cuts") auto
  then obtain h where h: "hits = [h]" "fr_topic (hit_result h) = TopicId 1" "hit_topic h = lit ''a''" by auto
  have "reachable_ledger (eg_ledger sample_engine)" using sample_reachable by (simp add: sample_engine_def)
  from search_returns_what_stands [OF this s(1) [unfolded sample_search_def]] show ?thesis using h s(1) by (simp add: sample_engine_def)
qed

text \<open>
  C19: the bounded walk costs a search nothing: what the graph channel recalls is what walking every edge and
  keeping the arrivals worth most to this query would recall.
\<close>

theorem graph_channel_is_full_walk:
  assumes "graph_ok g" and "0 \<le> k" and "is_f32 k"
  shows "arrivals_of g project seeds depths (worth_of (seed_relevance named recalled k))
       = strongest (expand g project seeds (keeping (dp_channel depths) (to_depth (dp_graph depths)))) (dp_channel depths)
           (worth_of (seed_relevance named recalled k))"
  by (rule arrivals_full [OF assms])

theorem graph_channel_is_full_walk_witness:
  "arrivals_of hub 7 [TopicId 1] sample_depths (worth_of (seed_relevance [TopicId 1] [] 1))
     = strongest (expand hub 7 [TopicId 1] (keeping 3 (to_depth 1))) 3 (worth_of (seed_relevance [TopicId 1] [] 1))"
  using graph_channel_is_full_walk [OF hub_ok, of 1 7 "[TopicId 1]" sample_depths "[TopicId 1]" "[]"] by (simp add: sample_depths_def)

text \<open>
  C21: cuts kept between searches are not seen in what a search returns: from any cache that searches and
  writes of this ledger left behind, the hits are those of a search that keeps nothing, and the cache it
  leaves is again such a one.
\<close>

theorem kept_cuts_unseen:
  assumes "reachable_ledger (eg_ledger e)" and "cuts_ok sr (eg_ledger e) kept"
  shows "fst (search_reranked_with sr g project query limit depths f e kept) = fst (search_reranked_with sr g project query limit depths f e no_cuts)
    \<and> cuts_ok sr (eg_ledger e) (snd (snd (search_reranked_with sr g project query limit depths f e kept)))"
proof -
  have ok: "ledger_ok (eg_ledger e)" by (rule reachable_okI [OF assms(1)])
  obtain fs e' where s: "search_all sr g project query depths f e = (fs, e')" by (cases "search_all sr g project query depths f e")
  show ?thesis
  proof (cases fs)
    case None
    then show ?thesis using s assms(2) by (simp add: search_reranked_with_def)
  next
    case (Some fs)
    have "fused_ok (eg_ledger e) project fs" using search_all_ok [OF ok s] Some by simp
    from ranked_hits_yields [OF ok this] obtain v where v: "yields (cuts_ok sr (eg_ledger e)) (ranked_hits sr query limit depths fs) v" by blast
    then have "fst (run_state (ranked_hits sr query limit depths fs) kept) = v" "fst (run_state (ranked_hits sr query limit depths fs) no_cuts) = v"
        "cuts_ok sr (eg_ledger e) (snd (run_state (ranked_hits sr query limit depths fs) kept))"
      using assms(2) reachable_cuts.empty unfolding yields_def by blast+
    then show ?thesis using s Some by (simp add: search_reranked_with_def case_prod_beta)
  qed
qed

theorem kept_cuts_unseen_witness:
  "fst (sample_search (Some 2) (snd (snd (sample_search (Some 2) no_cuts)))) = fst (sample_search (Some 2) no_cuts)"
proof -
  have r: "reachable_ledger (eg_ledger sample_engine)" using sample_reachable by (simp add: sample_engine_def)
  from kept_cuts_unseen [OF r reachable_cuts.empty]
  have "cuts_ok (sample_searching (Some 2)) (eg_ledger sample_engine) (snd (snd (sample_search (Some 2) no_cuts)))"
    unfolding sample_search_def by blast
  from kept_cuts_unseen [OF r this] show ?thesis unfolding sample_search_def by blast
qed


definition sample_result :: "topic_id \<Rightarrow> rat \<Rightarrow> fused_result" where
  "sample_result t score = \<lparr>fr_topic = t, fr_score = score, fr_why = [], fr_span = 0\<rparr>"




text \<open>
  The pass does write into the trace, though: a candidate alone on its list carries the reranker's score when
  the pass runs and none when it is skipped.
\<close>

lemma skipped_pass_would_mark:
  "\<not> can_be_seen (rerankable (map fr_why [sample_result (TopicId 1) 1]) 2) 5
   \<and> map_option (map fr_why) (reordered [0] 2 [(0, 1)] [sample_result (TopicId 1) 1]) = Some [[WhyReranked 1]]
   \<and> map fr_why [sample_result (TopicId 1) 1] = [[]]"
  by code_simp

end
