(* ===== verification/Index_Sections.thy ===== *)
theory Index_Sections
  imports Index_Spans F64 RMap "HOL-Library.List_Lexorder"
begin

text \<open>
  Cutting a file into the memories an ingest records (\<open>crates/index/src/sections.rs\<close>): the cut at its
  headings, the merging of sections too small to stand alone, the names sections keep from one ingest to
  the next, and the section each sits under. The token counter, \<open>char::is_alphanumeric\<close> and
  \<open>str::to_lowercase\<close> are arguments.
\<close>

section \<open>Constants and text\<close>

definition LEAST_TOKENS :: nat where
  "LEAST_TOKENS = 48"

definition SECTION_SEPARATOR :: ustr where
  "SECTION_SEPARATOR = [32, 8250, 32]"

definition TITLE_CHARS :: nat where
  "TITLE_CHARS = 80"

definition SAME_SECTION :: rat where
  "SAME_SECTION = rnd64 (4 / 5)"

record named_section =
  sc_name :: ustr
  sc_content :: ustr

record unnamed_section =
  us_base :: ustr
  us_content :: ustr

text \<open>\<open>str::replace("\\r\\n", "\\n")\<close>, then \<open>replace('\\r', "\\n")\<close>\<close>

fun crlf_to_lf :: "ustr \<Rightarrow> ustr" where
  "crlf_to_lf [] = []"
| "crlf_to_lf [c] = [c]"
| "crlf_to_lf (c # d # cs) = (if c = 13 \<and> d = 10 then 10 # crlf_to_lf cs else c # crlf_to_lf (d # cs))"

definition normalized :: "ustr \<Rightarrow> ustr" where
  "normalized s = map (\<lambda>c. if c = 13 then 10 else c) (crlf_to_lf (without_first 65279 s))"

text \<open>\<open>str::split_inclusive('\\n')\<close>\<close>

fun split_inclusive :: "ustr \<Rightarrow> ustr list" where
  "split_inclusive [] = []"
| "split_inclusive (c # cs) =
     (if c = 10 then [c] # split_inclusive cs
      else case split_inclusive cs of [] \<Rightarrow> [[c]] | l # ls \<Rightarrow> (c # l) # ls)"

fun front_matter_end :: "nat \<Rightarrow> ustr list \<Rightarrow> nat option" where
  "front_matter_end here [] = None"
| "front_matter_end here (line # ls) =
     (let here = here + length line
      in if trim_end line = lit ''---'' \<or> trim_end line = lit ''...'' then Some here
         else if trim_end line = [] then None
         else front_matter_end here ls)"

definition without_front_matter :: "(uchar \<Rightarrow> bool) \<Rightarrow> ustr \<Rightarrow> text_range" where
  "without_front_matter alphanumeric s =
     (case strip_prefix (lit ''---'' @ [10]) s of
        None \<Rightarrow> (0, length s)
      | Some rest \<Rightarrow>
          (case split_once 58 (takeWhile (\<lambda>c. c \<noteq> 10) rest) of
             None \<Rightarrow> (0, length s)
           | Some (key, _) \<Rightarrow>
               if \<not> (key \<noteq> [] \<and> list_all (\<lambda>c. alphanumeric c \<or> c = 95 \<or> c = 45) key) then (0, length s)
               else (case front_matter_end 4 (split_inclusive rest) of
                       Some here \<Rightarrow> (here, length s)
                     | None \<Rightarrow> (0, length s))))"

section \<open>Headings\<close>

definition setext :: "ustr \<Rightarrow> nat option" where
  "setext line =
     (case indented line of
        None \<Rightarrow> None
      | Some rest \<Rightarrow>
          let rest = trim_end rest
          in if rest = [] then None
             else case (if hd rest = 61 then Some 1 else if hd rest = 45 then Some 2 else None) of
                    None \<Rightarrow> None
                  | Some level \<Rightarrow> if list_all (\<lambda>c. c = hd rest) rest then Some level else None)"

definition html_blocks :: "ustr list" where
  "html_blocks = map lit [''address'', ''article'', ''aside'', ''blockquote'', ''details'', ''dialog'', ''div'', ''dl'',
     ''fieldset'', ''figcaption'', ''figure'', ''footer'', ''form'', ''h1'', ''h2'', ''h3'', ''h4'', ''h5'', ''h6'', ''header'',
     ''hr'', ''li'', ''nav'', ''ol'', ''p'', ''pre'', ''section'', ''table'', ''ul'', ''script'']"

definition is_ascii_alphanumeric :: "uchar \<Rightarrow> bool" where
  "is_ascii_alphanumeric c \<longleftrightarrow> is_ascii_digit c \<or> (65 \<le> c \<and> c \<le> 90) \<or> (97 \<le> c \<and> c \<le> 122)"

definition html_block :: "ustr \<Rightarrow> bool" where
  "html_block rest \<longleftrightarrow>
     starts_with rest (lit ''<!--'') \<or>
     (case (case strip_prefix (lit ''</'') rest of Some tag \<Rightarrow> Some tag | None \<Rightarrow> strip_prefix (lit ''<'') rest) of
        None \<Rightarrow> False
      | Some tag \<Rightarrow>
          let name = takeWhile is_ascii_alphanumeric tag; after = drop (length name) tag
          in map ascii_lower name \<in> set html_blocks \<and> (after = [] \<or> hd after \<in> {32, 62, 47}))"

definition opens_container :: "ustr \<Rightarrow> bool" where
  "opens_container line =
     (case indented line of
        None \<Rightarrow> False
      | Some rest \<Rightarrow>
          let number = takeWhile (\<lambda>c. c \<noteq> 46 \<and> c \<noteq> 41) rest; after = tl (drop (length number) rest)
          in (length number < length rest \<and> number \<noteq> [] \<and> list_all is_ascii_digit number \<and> (after = [] \<or> hd after = 32))
             \<or> starts_with rest [62] \<or> starts_with rest [124]
             \<or> html_block rest
             \<or> list_ex (\<lambda>marker. rest = [marker] \<or> starts_with rest [marker, 32]) [45, 42, 43])"

definition heading_level :: "ustr \<Rightarrow> nat" where
  "heading_level line =
     (let rest = (case indented line of None \<Rightarrow> line | Some rest \<Rightarrow> rest)
      in length rest - length (dropWhile (\<lambda>c. c = 35) rest))"

record headed =
  hd_path :: "ustr list"
  hd_range :: text_range
  hd_has_body :: bool

record heading_state =
  hs_sections :: "headed list"
  hs_stack :: "(nat \<times> ustr) list"
  hs_start :: nat
  hs_has_body :: bool
  hs_fence :: "(uchar \<times> nat) option"
  hs_paragraph :: "(nat \<times> ustr list \<times> bool) option"
  hs_contained :: bool
  hs_at :: nat

text \<open>The closure \<open>open\<close>.\<close>

definition open_heading :: "nat \<Rightarrow> ustr \<Rightarrow> nat \<Rightarrow> bool \<Rightarrow> heading_state \<Rightarrow> heading_state" where
  "open_heading k title level had_body st =
     (let kept = filter (\<lambda>x. fst x < level) (hs_stack st)
      in st\<lparr>hs_sections := hs_sections st @
              (if hs_start st < k \<or> had_body
               then [\<lparr>hd_path = map snd (hs_stack st), hd_range = (hs_start st, k), hd_has_body = had_body\<rparr>] else []),
            hs_stack := (if title = [] then kept else kept @ [(level, take TITLE_CHARS title)]),
            hs_start := k, hs_has_body := False\<rparr>)"

text \<open>A line that is no heading and opens no fence: the paragraph it continues or begins.\<close>

definition next_paragraph :: "nat \<Rightarrow> ustr \<Rightarrow> bool \<Rightarrow> heading_state \<Rightarrow> (nat \<times> ustr list \<times> bool) option" where
  "next_paragraph here line inside st =
     (if blank line \<or> inside then None
      else case hs_paragraph st of
             Some (k, titles, had_body) \<Rightarrow> Some (k, titles @ [trim_str line], had_body)
           | None \<Rightarrow> if indented line \<noteq> None then Some (here, [trim_str line], hs_has_body st) else None)"

definition read_plain :: "nat \<Rightarrow> ustr \<Rightarrow> heading_state \<Rightarrow> heading_state" where
  "read_plain here line st =
     (let inside = \<not> blank line \<and> (hs_contained st \<or> opens_container line)
      in st\<lparr>hs_contained := inside, hs_paragraph := next_paragraph here line inside st,
            hs_has_body := hs_has_body st \<or> \<not> blank line\<rparr>)"

definition read_line :: "heading_state \<Rightarrow> ustr \<Rightarrow> heading_state" where
  "read_line st whole =
     (let here = hs_at st; line = without_last 10 whole; st = st\<lparr>hs_at := here + length whole\<rparr>
      in case hs_fence st of
           Some opening \<Rightarrow> st\<lparr>hs_fence := (if closes line opening then None else Some opening), hs_has_body := True\<rparr>
         | None \<Rightarrow>
       (case fence line of
          Some opening \<Rightarrow> st\<lparr>hs_fence := Some opening, hs_paragraph := None, hs_contained := False, hs_has_body := True\<rparr>
        | None \<Rightarrow>
       (case (setext line, hs_paragraph st) of
          (Some level, Some (k, titles, had_body)) \<Rightarrow>
            open_heading k (join_str [32] titles) level had_body (st\<lparr>hs_paragraph := None\<rparr>)
        | _ \<Rightarrow>
       (case heading line of
          Some title \<Rightarrow>
            open_heading here title (heading_level line) (hs_has_body st) (st\<lparr>hs_paragraph := None, hs_contained := False\<rparr>)
        | None \<Rightarrow> read_plain here line st))))"

definition headed_sections :: "ustr \<Rightarrow> text_range \<Rightarrow> headed list" where
  "headed_sections s body =
     (let st = foldl read_line \<lparr>hs_sections = [], hs_stack = [], hs_start = fst body, hs_has_body = False, hs_fence = None,
                 hs_paragraph = None, hs_contained = False, hs_at = fst body\<rparr> (split_inclusive (slice s body))
      in filter (\<lambda>h. \<not> blank (slice s (hd_range h)))
           (hs_sections st @ [\<lparr>hd_path = map snd (hs_stack st), hd_range = (hs_start st, snd body), hd_has_body = hs_has_body st\<rparr>]))"

section \<open>Small sections join a neighbour\<close>

definition is_small :: "token_offsets \<Rightarrow> ustr \<Rightarrow> headed \<Rightarrow> bool" where
  "is_small offsets s h \<longleftrightarrow> token_count offsets (slice s (hd_range h)) < LEAST_TOKENS"

definition absorb_title :: "headed option \<Rightarrow> headed \<Rightarrow> headed" where
  "absorb_title waiting h =
     (case waiting of
        None \<Rightarrow> h
      | Some t \<Rightarrow> h\<lparr>hd_range := (fst (hd_range t), snd (hd_range h)), hd_has_body := hd_has_body h \<or> hd_has_body t\<rparr>)"

definition extend_last :: "headed list \<Rightarrow> nat \<Rightarrow> headed list" where
  "extend_last out stop = butlast out @ [(last out)\<lparr>hd_range := (fst (hd_range (last out)), stop)\<rparr>]"

fun merge_from :: "token_offsets \<Rightarrow> ustr \<Rightarrow> headed list \<Rightarrow> headed option \<Rightarrow> headed list \<Rightarrow> headed list" where
  "merge_from offsets s out waiting [] =
     (case waiting of
        None \<Rightarrow> out
      | Some t \<Rightarrow> if out = [] then [t] else extend_last out (snd (hd_range t)))"
| "merge_from offsets s out waiting (h # hs) =
     (let h = absorb_title waiting h
      in if is_small offsets s h
         then if out \<noteq> [] \<and> hd_has_body h then merge_from offsets s (extend_last out (snd (hd_range h))) None hs
              else merge_from offsets s out (Some h) hs
         else merge_from offsets s (out @ [h]) None hs)"

definition merged :: "token_offsets \<Rightarrow> ustr \<Rightarrow> headed list \<Rightarrow> headed list" where
  "merged offsets s hs = merge_from offsets s [] None hs"

definition base_name :: "ustr \<Rightarrow> ustr list \<Rightarrow> ustr" where
  "base_name path headings = foldl (\<lambda>base h. base @ SECTION_SEPARATOR @ h) path headings"

definition unnamed :: "(uchar \<Rightarrow> bool) \<Rightarrow> token_offsets \<Rightarrow> ustr \<Rightarrow> ustr \<Rightarrow> unnamed_section list" where
  "unnamed alphanumeric offsets path file =
     (let s = normalized file; hs = merged offsets s (headed_sections s (without_front_matter alphanumeric s))
      in List.map_filter (\<lambda>h.
           let content = trim_str (slice s (hd_range h))
           in if content = [] then None else Some \<lparr>us_base = base_name path (hd_path h), us_content = content\<rparr>) hs)"

section \<open>Which section is one seen before\<close>

text \<open>\<open>str::split\<close> on a predicate.\<close>

fun split_where :: "(uchar \<Rightarrow> bool) \<Rightarrow> ustr \<Rightarrow> ustr list" where
  "split_where P [] = [[]]"
| "split_where P (x # xs) =
     (if P x then [] # split_where P xs
      else case split_where P xs of [] \<Rightarrow> [[x]] | y # ys \<Rightarrow> (x # y) # ys)"

definition shingles :: "(uchar \<Rightarrow> bool) \<Rightarrow> (ustr \<Rightarrow> ustr) \<Rightarrow> ustr \<Rightarrow> ustr list set" where
  "shingles alphanumeric lower s =
     (let words = map lower (filter (\<lambda>w. w \<noteq> []) (split_where (\<lambda>c. \<not> alphanumeric c) s))
      in if length words < 3 then {words} else set (map (\<lambda>i. take 3 (drop i words)) [0..<length words - 2]))"

definition similarity :: "(uchar \<Rightarrow> bool) \<Rightarrow> (ustr \<Rightarrow> ustr) \<Rightarrow> ustr \<Rightarrow> ustr \<Rightarrow> rat" where
  "similarity alphanumeric lower left right =
     (let l = shingles alphanumeric lower left; r = shingles alphanumeric lower right; union = card (l \<union> r)
      in if union = 0 then 1 else rnd64 (of_nat (card (l \<inter> r)) / of_nat union))"

type_synonym candidate = "rat \<times> nat \<times> nat"

definition pair_score :: "(uchar \<Rightarrow> bool) \<Rightarrow> (ustr \<Rightarrow> ustr) \<Rightarrow> ustr \<Rightarrow> ustr \<Rightarrow> rat" where
  "pair_score alphanumeric lower s earlier = (if earlier = s then 2 else similarity alphanumeric lower earlier s)"

definition pair_candidates :: "(uchar \<Rightarrow> bool) \<Rightarrow> (ustr \<Rightarrow> ustr) \<Rightarrow> ustr list \<Rightarrow> ustr list \<Rightarrow> candidate list" where
  "pair_candidates alphanumeric lower now earlier_texts =
     filter (\<lambda>c. SAME_SECTION \<le> fst c)
       (concat (map (\<lambda>i. map (\<lambda>k. (pair_score alphanumeric lower (now ! i) (earlier_texts ! k), i, k)) [0..<length earlier_texts]) [0..<length now]))"

definition candidate_order :: "candidate \<Rightarrow> candidate \<Rightarrow> bool" where
  "candidate_order = lex_by (desc_by fst) (lex_by (asc_by (fst \<circ> snd)) (asc_by (snd \<circ> snd)))"

fun take_pairs :: "nat set \<Rightarrow> nat set \<Rightarrow> candidate list \<Rightarrow> (nat \<times> nat) list" where
  "take_pairs taken used [] = []"
| "take_pairs taken used ((_, i, k) # cs) =
     (if i \<notin> taken \<and> k \<notin> used then (i, k) # take_pairs (insert i taken) (insert k used) cs
      else take_pairs taken used cs)"

definition pairs :: "(uchar \<Rightarrow> bool) \<Rightarrow> (ustr \<Rightarrow> ustr) \<Rightarrow> ustr list \<Rightarrow> ustr list \<Rightarrow> (nat \<times> nat) list" where
  "pairs alphanumeric lower now earlier_texts =
     take_pairs {} {} (sort_by candidate_order (pair_candidates alphanumeric lower now earlier_texts))"

section \<open>Names\<close>

text \<open>A number in decimal, and \<open>str::parse::<u32>\<close> of digits.\<close>

fun decimal :: "nat \<Rightarrow> ustr" where
  "decimal n = (if n < 10 then [48 + n] else decimal (n div 10) @ [48 + n mod 10])"

declare decimal.simps [simp del]

definition digits_value :: "ustr \<Rightarrow> nat" where
  "digits_value s = foldl (\<lambda>n c. 10 * n + (c - 48)) 0 s"

definition number_of :: "ustr \<Rightarrow> ustr \<Rightarrow> nat option" where
  "number_of name base =
     (case strip_prefix base name of
        None \<Rightarrow> None
      | Some rest \<Rightarrow>
          if rest = [] then Some 1
          else (case strip_prefix (lit '' #'') rest of
                  None \<Rightarrow> None
                | Some digits \<Rightarrow>
                    if digits = [] \<or> \<not> list_all is_ascii_digit digits then None
                    else let n = digits_value digits in if n < 2 ^ 32 \<and> 2 \<le> n then Some n else None))"

definition numbered :: "ustr \<Rightarrow> nat \<Rightarrow> ustr" where
  "numbered base n = (if n = 1 then base else base @ lit '' #'' @ decimal n)"

lemma digits_value_snoc: "digits_value (s @ [c]) = 10 * digits_value s + (c - 48)"
  by (simp add: digits_value_def)

lemma digits_value_decimal: "digits_value (decimal n) = n"
proof (induction n rule: decimal.induct)
  case (1 n)
  show ?case
  proof (cases "n < 10")
    case False
    then have "decimal n = decimal (n div 10) @ [48 + n mod 10]" by (simp add: decimal.simps [of n])
    then show ?thesis using 1 [OF False] digits_value_snoc by simp
  qed (simp add: decimal.simps [of n] digits_value_def)
qed

lemma decimal_inject: "decimal m = decimal n \<longleftrightarrow> m = n"
  using digits_value_decimal by metis

lemma numbered_inject: "numbered base m = numbered base n \<longleftrightarrow> m = n"
  by (auto simp: numbered_def decimal_inject lit_def)

function free_from :: "ustr list \<Rightarrow> ustr \<Rightarrow> nat \<Rightarrow> ustr" where
  "free_from taken base n =
     (if numbered base n \<in> set taken then free_from taken base (n + 1) else numbered base n)"
  by pat_completeness auto

termination free_from
proof (relation "measure (\<lambda>(taken, base, n). card {m. n \<le> m \<and> numbered base m \<in> set taken})")
  fix taken :: "ustr list" and base :: ustr and n :: nat
  assume n: "numbered base n \<in> set taken"
  let ?S = "\<lambda>n. {m. n \<le> m \<and> numbered base m \<in> set taken}"
  have "numbered base ` ?S n \<subseteq> set taken" by auto
  moreover have "inj_on (numbered base) (?S n)" by (simp add: inj_on_def numbered_inject)
  ultimately have fin: "finite (?S n)" using finite_imageD finite_subset by blast
  have "n \<in> ?S n" "n \<notin> ?S (n + 1)" "?S (n + 1) \<subseteq> ?S n" using n by auto
  then have "?S (n + 1) \<subset> ?S n" by blast
  with fin have "card (?S (n + 1)) < card (?S n)" by (rule psubset_card_mono)
  then show "((taken, base, n + 1), taken, base, n) \<in> measure (\<lambda>(taken, base, n). card {m. n \<le> m \<and> numbered base m \<in> set taken})"
    by simp
qed simp

declare free_from.simps [simp del]

definition by_base :: "unnamed_section list \<Rightarrow> (ustr, nat list) btree_map" where
  "by_base sections =
     fold (\<lambda>(i, s). bt_alter (us_base s) (\<lambda>members. case members of None \<Rightarrow> [i] | Some is \<Rightarrow> is @ [i])) (List.enumerate 0 sections) []"

definition claim_base ::
  "(uchar \<Rightarrow> bool) \<Rightarrow> (ustr \<Rightarrow> ustr) \<Rightarrow> unnamed_section list \<Rightarrow> named_section list \<Rightarrow> ustr \<times> nat list \<Rightarrow> ustr option list \<Rightarrow> ustr option list"
where
  "claim_base alphanumeric lower sections previous x claimed =
     (let earlier = filter (\<lambda>p. number_of (sc_name p) (fst x) \<noteq> None) previous
      in if earlier = [] then claimed
         else fold (\<lambda>(i, k) claimed. claimed[snd x ! i := Some (sc_name (earlier ! k))])
                (pairs alphanumeric lower (map (\<lambda>i. us_content (sections ! i)) (snd x)) (map sc_content earlier)) claimed)"

definition claims ::
  "(uchar \<Rightarrow> bool) \<Rightarrow> (ustr \<Rightarrow> ustr) \<Rightarrow> unnamed_section list \<Rightarrow> named_section list \<Rightarrow> ustr option list" where
  "claims alphanumeric lower sections previous =
     fold (claim_base alphanumeric lower sections previous) (by_base sections) (replicate (length sections) None)"

fun keep_first :: "ustr list \<Rightarrow> ustr option list \<Rightarrow> ustr option list \<times> ustr list" where
  "keep_first taken [] = ([], taken)"
| "keep_first taken (None # cs) = (case keep_first taken cs of (kept, taken) \<Rightarrow> (None # kept, taken))"
| "keep_first taken (Some name # cs) =
     (if name \<in> set taken then (case keep_first taken cs of (kept, taken) \<Rightarrow> (None # kept, taken))
      else (case keep_first (name # taken) cs of (kept, taken) \<Rightarrow> (Some name # kept, taken)))"

fun assign_names :: "ustr list \<Rightarrow> (unnamed_section \<times> ustr option) list \<Rightarrow> named_section list" where
  "assign_names taken [] = []"
| "assign_names taken ((s, Some name) # xs) = \<lparr>sc_name = name, sc_content = us_content s\<rparr> # assign_names taken xs"
| "assign_names taken ((s, None) # xs) =
     (let name = free_from taken (us_base s) 1
      in \<lparr>sc_name = name, sc_content = us_content s\<rparr> # assign_names (name # taken) xs)"

definition give_names ::
  "(uchar \<Rightarrow> bool) \<Rightarrow> (ustr \<Rightarrow> ustr) \<Rightarrow> unnamed_section list \<Rightarrow> named_section list \<Rightarrow> named_section list" where
  "give_names alphanumeric lower sections previous =
     (case keep_first [] (claims alphanumeric lower sections previous) of
        (kept, taken) \<Rightarrow> assign_names taken (zip sections kept))"

definition file_sections :: "(uchar \<Rightarrow> bool) \<Rightarrow> (ustr \<Rightarrow> ustr) \<Rightarrow> token_offsets \<Rightarrow> ustr \<Rightarrow> ustr \<Rightarrow> named_section list" where
  "file_sections alphanumeric lower offsets path file =
     give_names alphanumeric lower (unnamed alphanumeric offsets path file) []"

section \<open>What a section sits under\<close>

definition rsplit_once :: "ustr \<Rightarrow> ustr \<Rightarrow> (ustr \<times> ustr) option" where
  "rsplit_once sep s =
     map_option (\<lambda>i. (take i s, drop (i + length sep) s))
       (find (\<lambda>i. starts_with (drop i s) sep) (rev [0..<Suc (length s) - length sep]))"

lemma rsplit_once_shorter: "rsplit_once SECTION_SEPARATOR s = Some (rest, after) \<Longrightarrow> length rest < length s"
  by (auto simp: rsplit_once_def SECTION_SEPARATOR_def dest!: find_SomeD)

definition first_of :: "ustr list \<Rightarrow> ustr \<Rightarrow> nat option" where
  "first_of bases base = find (\<lambda>i. bases ! i = base) [0..<length bases]"

function parent_at :: "ustr list \<Rightarrow> nat \<Rightarrow> ustr \<Rightarrow> nat option" where
  "parent_at bases i up =
     (case rsplit_once SECTION_SEPARATOR up of
        None \<Rightarrow> if i \<noteq> 0 then Some 0 else None
      | Some (rest, _) \<Rightarrow>
          (case first_of bases rest of
             None \<Rightarrow> parent_at bases i rest
           | Some parent \<Rightarrow> if parent < i then Some parent else parent_at bases i rest))"
  by pat_completeness auto

termination parent_at
  by (relation "measure (\<lambda>(bases, i, up). length up)") (auto dest: rsplit_once_shorter)

declare parent_at.simps [simp del]

definition parents :: "ustr list \<Rightarrow> (nat \<times> nat) list" where
  "parents bases = List.map_filter (\<lambda>i. map_option (Pair i) (parent_at bases i (bases ! i))) [0..<length bases]"

end
