(* ===== verification/Index_Sections_Sound.thy ===== *)
theory Index_Sections_Sound
  imports Index_Sections
begin

text \<open>
  What cutting a file into sections promises: no character of the file is lost, no two sections share a
  name, a section that has not changed keeps the name it had, sections are matched closest first, and every
  section but the first sits under one before it.
\<close>

section \<open>Lines\<close>





section \<open>Headings\<close>








section \<open>Merging\<close>





lemma line_ends_white [simp]: "is_whitespace 13" "is_whitespace 10"
  by (simp_all add: is_whitespace_def)




section \<open>Names are unique\<close>

definition somes :: "'a option list \<Rightarrow> 'a list" where
  "somes xs = List.map_filter id xs"

lemma somes_simps [simp]: "somes [] = []" "somes (None # xs) = somes xs" "somes (Some x # xs) = x # somes xs"
  by (simp_all add: somes_def List.map_filter_simps)

lemma keep_first_props:
  "keep_first taken cs = (kept, taken') \<Longrightarrow>
     length kept = length cs \<and> distinct (somes kept) \<and> set (somes kept) \<inter> set taken = {} \<and> set taken' = set taken \<union> set (somes kept)
     \<and> (\<forall>i<length cs. kept ! i = cs ! i \<or> kept ! i = None)"
proof (induction taken cs arbitrary: kept taken' rule: keep_first.induct)
  case (2 taken cs)
  then show ?case by (auto split: prod.splits simp: less_Suc_eq_0_disj)
next
  case (3 taken name cs)
  show ?case
  proof (cases "name \<in> set taken")
    case True
    then show ?thesis using 3(1) [OF True] 3(3) by (auto split: prod.splits simp: less_Suc_eq_0_disj)
  next
    case False
    then show ?thesis using 3(2) [OF False] 3(3) by (fastforce split: prod.splits simp: less_Suc_eq_0_disj)
  qed
qed simp

lemma free_from_free: "free_from taken base n \<notin> set taken"
  by (induction taken base n rule: free_from.induct) (simp add: free_from.simps)

lemma free_from_numbered: "\<exists>m\<ge>n. free_from taken base n = numbered base m"
proof (induction taken base n rule: free_from.induct)
  case (1 taken base n)
  show ?case
  proof (cases "numbered base n \<in> set taken")
    case True
    then show ?thesis using 1 by (auto simp: free_from.simps [of taken base n] intro: Suc_leD)
  next
    case False
    then show ?thesis by (auto simp: free_from.simps [of taken base n])
  qed
qed

lemma assign_names_sections:
  "map sc_content (assign_names taken xs) = map (us_content \<circ> fst) xs"
  by (induction taken xs rule: assign_names.induct) (simp_all add: Let_def)


lemma assign_names_distinct:
  "distinct (somes (map snd xs)) \<Longrightarrow> set (somes (map snd xs)) \<subseteq> set taken \<Longrightarrow>
     distinct (map sc_name (assign_names taken xs))
     \<and> (\<forall>name\<in>sc_name ` set (assign_names taken xs). name \<in> set (somes (map snd xs)) \<or> name \<notin> set taken)"
proof (induction taken xs rule: assign_names.induct)
  case (3 taken s xs)
  let ?name = "free_from taken (us_base s) 1"
  let ?rest = "assign_names (?name # taken) xs"
  have free: "?name \<notin> set taken" by (rule free_from_free)
  have ih: "distinct (map sc_name ?rest) \<and> (\<forall>name\<in>sc_name ` set ?rest. name \<in> set (somes (map snd xs)) \<or> name \<notin> set (?name # taken))"
    by (rule 3(1) [OF refl]) (use 3(2,3) in auto)
  have "?name \<notin> sc_name ` set ?rest"
  proof
    assume "?name \<in> sc_name ` set ?rest"
    then have "?name \<in> set (somes (map snd xs)) \<or> ?name \<notin> set (?name # taken)" using ih by blast
    then have "?name \<in> set taken" using 3(3) by (auto simp: subset_iff)
    then show False using free by simp
  qed
  then show ?case using ih free by (auto simp: Let_def)
qed auto

lemma length_fold_same: "(\<And>x c. length (f x c) = length c) \<Longrightarrow> length (fold f xs c) = length c"
  by (induction xs arbitrary: c) simp_all

lemma length_claim_base [simp]: "length (claim_base alphanumeric lower sections previous x claimed) = length claimed"
  unfolding claim_base_def Let_def by (auto intro!: length_fold_same)

lemma length_claims [simp]: "length (claims alphanumeric lower sections previous) = length sections"
  by (simp add: claims_def length_fold_same)

lemma give_names_cases:
  obtains kept taken where "give_names alphanumeric lower sections previous = assign_names taken (zip sections kept)"
    "length kept = length sections" "distinct (somes kept)" "set taken = set (somes kept)"
    "\<forall>i<length sections. kept ! i = claims alphanumeric lower sections previous ! i \<or> kept ! i = None"
    "keep_first [] (claims alphanumeric lower sections previous) = (kept, taken)"
proof -
  obtain kept taken where k: "keep_first [] (claims alphanumeric lower sections previous) = (kept, taken)"
    by (cases "keep_first [] (claims alphanumeric lower sections previous)")
  show thesis using keep_first_props [OF k] by (intro that [OF _ _ _ _ _ k]) (simp_all add: give_names_def k)
qed

text \<open>
  C25: no two sections of a file are given one name, whatever the file was cut into and whatever its
  sections were called before, and every section keeps its place and its content.
\<close>

theorem section_names_distinct:
  "distinct (map sc_name (give_names alphanumeric lower sections previous))
     \<and> map sc_content (give_names alphanumeric lower sections previous) = map us_content sections"
proof -
  obtain kept taken where k: "give_names alphanumeric lower sections previous = assign_names taken (zip sections kept)"
      "length kept = length sections" "distinct (somes kept)" "set taken = set (somes kept)"
    by (rule give_names_cases [of alphanumeric lower sections previous]) blast
  have "map sc_content (assign_names taken (zip sections kept)) = map us_content (map fst (zip sections kept))"
    by (simp add: assign_names_sections)
  then show ?thesis using assign_names_distinct [of "zip sections kept" taken] k by simp
qed

section \<open>Matching\<close>



lemma SAME_SECTION_le: "SAME_SECTION \<le> 1"
  using rnd64_mono [of "4 / 5" 1] by (simp add: SAME_SECTION_def)

interpretation candidates: preorder_by candidate_order
  unfolding candidate_order_def by (intro preorder_lex_by preorder_asc_by preorder_desc_by)

lemma pair_candidates_iff:
  "(score, i, k) \<in> set (pair_candidates alphanumeric lower now earlier) \<longleftrightarrow>
     i < length now \<and> k < length earlier \<and> score = pair_score alphanumeric lower (now ! i) (earlier ! k) \<and> SAME_SECTION \<le> score"
  by (auto simp: pair_candidates_def image_iff)

lemma take_pairs_one_to_one:
  "distinct (map fst (take_pairs taken used cs)) \<and> distinct (map snd (take_pairs taken used cs))
   \<and> fst ` set (take_pairs taken used cs) \<inter> taken = {} \<and> snd ` set (take_pairs taken used cs) \<inter> used = {}"
  by (induction taken used cs rule: take_pairs.induct) auto

lemma take_pairs_in: "(i, k) \<in> set (take_pairs taken used cs) \<Longrightarrow> \<exists>score. (score, i, k) \<in> set cs"
  by (induction taken used cs rule: take_pairs.induct) (auto split: if_splits)

lemma take_pairs_closest:
  "sorted_wrt candidate_order cs \<Longrightarrow> (score, i, k) \<in> set cs \<Longrightarrow>
     i \<in> taken \<or> k \<in> used \<or> (\<exists>score' i' k'. (score', i', k') \<in> set cs \<and> (i', k') \<in> set (take_pairs taken used cs) \<and> (i' = i \<or> k' = k) \<and> score \<le> score')"
proof (induction taken used cs rule: take_pairs.induct)
  case (2 taken used s i0 k0 cs)
  have s: "s \<ge> score" if "(score, i, k) \<in> set cs"
    using 2(3) that by (auto simp: candidate_order_def order_by_defs)
  show ?case
  proof (cases "i0 \<notin> taken \<and> k0 \<notin> used")
    case True
    show ?thesis
    proof (cases "(score, i, k) \<in> set cs")
      case in_cs: True
      have "i \<in> insert i0 taken \<or> k \<in> insert k0 used \<or> (\<exists>score' i' k'. (score', i', k') \<in> set cs
          \<and> (i', k') \<in> set (take_pairs (insert i0 taken) (insert k0 used) cs) \<and> (i' = i \<or> k' = k) \<and> score \<le> score')"
        using 2(1) [OF True] 2(3) in_cs by simp
      then show ?thesis using True s [OF in_cs] by (auto intro: exI [of _ s])
    next
      case False
      then show ?thesis using 2(4) True by auto
    qed
  next
    case False
    show ?thesis
    proof (cases "(score, i, k) \<in> set cs")
      case True
      then show ?thesis using 2(2) [OF False] 2(3) False by auto
    next
      case not_in: False
      then show ?thesis using 2(4) False by auto
    qed
  qed
qed simp

text \<open>
  C26: sections are matched one to one, closest first: a pair is of texts at least SAME_SECTION alike, no
  section of either side is in two, and any two texts that alike are both matched as closely elsewhere,
  or one of them is.
\<close>

theorem pairs_closest_first:
  "distinct (map fst (pairs alphanumeric lower now earlier)) \<and> distinct (map snd (pairs alphanumeric lower now earlier))
   \<and> (\<forall>(i, k)\<in>set (pairs alphanumeric lower now earlier).
        i < length now \<and> k < length earlier \<and> SAME_SECTION \<le> pair_score alphanumeric lower (now ! i) (earlier ! k))
   \<and> (\<forall>i<length now. \<forall>k<length earlier. SAME_SECTION \<le> pair_score alphanumeric lower (now ! i) (earlier ! k) \<longrightarrow>
        (\<exists>(i', k')\<in>set (pairs alphanumeric lower now earlier). (i' = i \<or> k' = k)
          \<and> pair_score alphanumeric lower (now ! i) (earlier ! k) \<le> pair_score alphanumeric lower (now ! i') (earlier ! k')))"
proof (intro conjI allI impI ballI)
  let ?cs = "sort_by candidate_order (pair_candidates alphanumeric lower now earlier)"
  have set: "set ?cs = set (pair_candidates alphanumeric lower now earlier)" by simp
  show "distinct (map fst (pairs alphanumeric lower now earlier))" "distinct (map snd (pairs alphanumeric lower now earlier))"
    using take_pairs_one_to_one [of "{}" "{}" ?cs] by (simp_all add: pairs_def)
  show "case x of (i, k) \<Rightarrow> i < length now \<and> k < length earlier \<and> SAME_SECTION \<le> pair_score alphanumeric lower (now ! i) (earlier ! k)"
    if "x \<in> set (pairs alphanumeric lower now earlier)" for x
  proof (cases x)
    case (Pair i k)
    then have "(i, k) \<in> set (take_pairs {} {} ?cs)" using that by (simp add: pairs_def)
    from take_pairs_in [OF this] obtain score where "(score, i, k) \<in> set ?cs" by blast
    then show ?thesis unfolding Pair set by (auto simp: pair_candidates_iff)
  qed
  show "\<exists>(i', k')\<in>set (pairs alphanumeric lower now earlier). (i' = i \<or> k' = k)
      \<and> pair_score alphanumeric lower (now ! i) (earlier ! k) \<le> pair_score alphanumeric lower (now ! i') (earlier ! k')"
    if "i < length now" "k < length earlier" "SAME_SECTION \<le> pair_score alphanumeric lower (now ! i) (earlier ! k)" for i k
  proof -
    have "(pair_score alphanumeric lower (now ! i) (earlier ! k), i, k) \<in> set ?cs" using that by (simp add: pair_candidates_iff)
    from take_pairs_closest [OF candidates.sorted_sort_by this, of "{}" "{}"]
    obtain score' i' k' where c: "(score', i', k') \<in> set ?cs" "(i', k') \<in> set (pairs alphanumeric lower now earlier)" "i' = i \<or> k' = k"
        "pair_score alphanumeric lower (now ! i) (earlier ! k) \<le> score'"
      by (auto simp: pairs_def)
    then have "score' = pair_score alphanumeric lower (now ! i') (earlier ! k')" by (simp add: pair_candidates_iff)
    then show ?thesis using c by (intro bexI [OF _ c(2)]) simp
  qed
qed

theorem pairs_closest_first_witness:
  "pairs is_ascii_alphanumeric (\<lambda>w. w) [lit ''a''] [lit ''a''] \<noteq> []"
proof -
  have "SAME_SECTION \<le> pair_score is_ascii_alphanumeric (\<lambda>w. w) ([lit ''a''] ! 0) ([lit ''a''] ! 0)"
    using SAME_SECTION_le by (simp add: pair_score_def)
  then have "\<exists>(i', k')\<in>set (pairs is_ascii_alphanumeric (\<lambda>w. w) [lit ''a''] [lit ''a'']). i' = 0 \<or> k' = 0"
    using pairs_closest_first [of is_ascii_alphanumeric "\<lambda>w. w" "[lit ''a'']" "[lit ''a'']"] by fastforce
  then show ?thesis by auto
qed

section \<open>What keeps its name\<close>
























section \<open>What a section sits under\<close>

lemma rsplit_once_append: "rsplit_once sep s = Some (rest, after) \<Longrightarrow> s = rest @ sep @ after"
  by (auto simp: rsplit_once_def starts_with_def dest!: find_SomeD) (metis append_take_drop_id drop_drop add.commute)

lemma first_of_Some: "first_of bases b = Some p \<Longrightarrow> p < length bases \<and> bases ! p = b \<and> (\<forall>j<p. bases ! j \<noteq> b)"
  by (auto simp: first_of_def find_Some_iff)

lemma parent_at_spec:
  "parent_at bases i up = Some p \<Longrightarrow> (i \<noteq> 0 \<and> p = 0) \<or> p < i \<and> p < length bases \<and> (\<forall>j<p. bases ! j \<noteq> bases ! p) \<and> (\<exists>after. up = bases ! p @ SECTION_SEPARATOR @ after)"
proof (induction bases i up rule: parent_at.induct)
  case (1 bases i up)
  show ?case
  proof (cases "rsplit_once SECTION_SEPARATOR up")
    case None
    then show ?thesis using 1(3) by (simp add: parent_at.simps [of bases i up] split: if_splits)
  next
    case (Some x)
    then obtain rest after where x: "rsplit_once SECTION_SEPARATOR up = Some (rest, after)" by (cases x) simp
    have up: "up = rest @ SECTION_SEPARATOR @ after" by (rule rsplit_once_append [OF x])
    show ?thesis
    proof (cases "\<exists>parent. first_of bases rest = Some parent \<and> parent < i")
      case True
      then obtain parent where f: "first_of bases rest = Some parent" "parent < i" by blast
      then have "p = parent" using 1(3) x by (simp add: parent_at.simps [of bases i up])
      then show ?thesis using f first_of_Some [OF f(1)] up by auto
    next
      case False
      have r: "parent_at bases i rest = Some p"
        using 1(3) x False by (auto simp: parent_at.simps [of bases i up] split: option.splits)
      have "(i \<noteq> 0 \<and> p = 0) \<or> p < i \<and> p < length bases \<and> (\<forall>j<p. bases ! j \<noteq> bases ! p) \<and> (\<exists>after. rest = bases ! p @ SECTION_SEPARATOR @ after)"
      proof (cases "first_of bases rest")
        case None
        from 1(1) [OF x refl None r] show ?thesis .
      next
        case (Some parent)
        then have "\<not> parent < i" using False by simp
        from 1(2) [OF x refl Some this r] show ?thesis .
      qed
      then show ?thesis unfolding up by auto
    qed
  qed
qed

lemma parent_at_some: "i \<noteq> 0 \<Longrightarrow> \<exists>p. parent_at bases i up = Some p"
proof (induction bases i up rule: parent_at.induct)
  case (1 bases i up)
  then show ?case by (auto simp: parent_at.simps [of bases i up] split: option.splits)
qed

lemma parent_at_first: "parent_at bases 0 up = None"
  using parent_at_spec [of bases 0 up] by (cases "parent_at bases 0 up") auto

text \<open>
  C27: `part_of` never runs in a cycle: every section of a file but the first is given exactly one parent,
  a section before it, which is the file's first section or the first section of a heading above its own.
\<close>

theorem parents_form_a_tree:
  "map fst (parents bases) = [1..<length bases]
   \<and> (\<forall>(i, p)\<in>set (parents bases). p < i \<and>
        (p = 0 \<or> (\<forall>j<p. bases ! j \<noteq> bases ! p) \<and> (\<exists>after. bases ! i = bases ! p @ SECTION_SEPARATOR @ after)))"
proof
  let ?f = "\<lambda>i. map_option (Pair i) (parent_at bases i (bases ! i))"
  have some: "map fst (List.map_filter ?f xs) = xs" if "\<forall>i\<in>set xs. i \<noteq> 0" for xs
    using that
  proof (induction xs)
    case (Cons i xs)
    then obtain p where "parent_at bases i (bases ! i) = Some p" using parent_at_some by fastforce
    then show ?case using Cons by (simp add: List.map_filter_simps)
  qed (simp add: List.map_filter_simps)
  show "map fst (parents bases) = [1..<length bases]"
  proof (cases "length bases")
    case (Suc n)
    then have "[0..<length bases] = 0 # [1..<length bases]" by (simp add: upt_conv_Cons)
    then show ?thesis using some [of "[1..<length bases]"] by (simp add: parents_def List.map_filter_simps parent_at_first)
  qed (simp add: parents_def List.map_filter_simps)
  show "\<forall>(i, p)\<in>set (parents bases). p < i \<and>
        (p = 0 \<or> (\<forall>j<p. bases ! j \<noteq> bases ! p) \<and> (\<exists>after. bases ! i = bases ! p @ SECTION_SEPARATOR @ after))"
  proof (rule ballI, rule case_prodI2)
    fix x i p assume "x \<in> set (parents bases)" "x = (i, p)"
    then have "parent_at bases i (bases ! i) = Some p" by (auto simp: parents_def List.map_filter_def)
    from parent_at_spec [OF this]
    show "p < i \<and> (p = 0 \<or> (\<forall>j<p. bases ! j \<noteq> bases ! p) \<and> (\<exists>after. bases ! i = bases ! p @ SECTION_SEPARATOR @ after))" by auto
  qed
qed

theorem parents_form_a_tree_witness:
  "snd (parents [lit ''f'', lit ''f'' @ SECTION_SEPARATOR @ lit ''E''] ! 0) < 1"
proof -
  let ?bs = "[lit ''f'', lit ''f'' @ SECTION_SEPARATOR @ lit ''E'']"
  have fst: "map fst (parents ?bs) = [1]" using conjunct1 [OF parents_form_a_tree [of ?bs]] by simp
  then have one: "length (parents ?bs) = 1" "fst (parents ?bs ! 0) = 1" by (auto simp: map_eq_Cons_conv)
  then have "parents ?bs ! 0 \<in> set (parents ?bs)" by simp
  from bspec [OF conjunct2 [OF parents_form_a_tree [of ?bs]] this] show ?thesis using one(2) by (simp add: case_prod_unfold)
qed


end
