(* ===== verification/Spec2Isabelle.thy ===== *)
theory Spec2Isabelle
  imports Core_Graph Core_Filter Store_Walk_Sound RMap Core_Fusion Engine_Write_Sound Engine_Cascade_Sound Engine_Derive_Sound Engine_Search_Sound Index_Sections_Sound
begin

text \<open>
  A verification development for PaminMemory.
\<close>

end
